(* ===== verification/Prelude.thy ===== *)
theory Prelude
  imports Main "HOL-Library.Word"
begin

text \<open>
  The vocabulary the component theories share.

  \<^item> Machine integers: \<open>u8\<close> to \<open>u64\<close> are words, so \<open>+\<close>, \<open>-\<close>, \<open>*\<close> wrap as in a Rust release
    build; the \<open>checked_\<close> and \<open>saturating_\<close> operations of the standard library are written out.
    A \<open>usize\<close> that is a length or an index is a \<open>nat\<close>; \<open>as_usize\<close> is the cast from \<open>u64\<close> on
    the crate's default target, a 32-bit one.
  \<^item> Little-endian fields and slices of byte lists.
\<close>

unbundle bit_operations_syntax

section \<open>Machine integers\<close>

type_synonym u8 = "8 word"
type_synonym u16 = "16 word"
type_synonym u32 = "32 word"
type_synonym u64 = "64 word"

definition checked_add :: "'a::len word \<Rightarrow> 'a word \<Rightarrow> 'a word option" where
  "checked_add a b = (if unat a + unat b < 2 ^ LENGTH('a) then Some (a + b) else None)"

definition checked_sub :: "'a::len word \<Rightarrow> 'a word \<Rightarrow> 'a word option" where
  "checked_sub a b = (if b \<le> a then Some (a - b) else None)"

definition checked_mul :: "'a::len word \<Rightarrow> 'a word \<Rightarrow> 'a word option" where
  "checked_mul a b = (if unat a * unat b < 2 ^ LENGTH('a) then Some (a * b) else None)"

definition saturating_add :: "'a::len word \<Rightarrow> 'a word \<Rightarrow> 'a word" where
  "saturating_add a b = (if unat a + unat b < 2 ^ LENGTH('a) then a + b else - 1)"

definition saturating_sub :: "'a::len word \<Rightarrow> 'a word \<Rightarrow> 'a word" where
  "saturating_sub a b = (if b \<le> a then a - b else 0)"

text \<open>\<open>x.div_ceil(y)\<close> rounds up without overflowing; the quotient by zero is excluded by the callers.\<close>

definition div_ceil :: "'a::len word \<Rightarrow> 'a word \<Rightarrow> 'a word" where
  "div_ceil a b = (let q = a div b in if a mod b = 0 then q else q + 1)"

definition u32_try_from :: "u64 \<Rightarrow> u32 option" where
  "u32_try_from x = (if unat x < 2 ^ 32 then Some (ucast x) else None)"

definition as_usize :: "u64 \<Rightarrow> nat" where
  "as_usize x = unat x mod 2 ^ 32"

definition of_usize :: "nat \<Rightarrow> u64" where
  "of_usize n = word_of_nat n"

definition ror1 :: "'a::len word \<Rightarrow> 'a word" where
  "ror1 w = word_rotr 1 w"

lemma checked_add_Some:
  "checked_add a b = Some c \<Longrightarrow> unat c = unat a + unat b \<and> c = a + b"
  for a b c :: "'a::len word"
  by (auto simp: checked_add_def unat_word_ariths split: if_splits)

lemma checked_sub_Some:
  "checked_sub a b = Some c \<Longrightarrow> unat c = unat a - unat b \<and> unat b \<le> unat a \<and> c = a - b"
  for a b c :: "'a::len word"
  by (auto simp: checked_sub_def unat_sub word_le_nat_alt split: if_splits)

lemma checked_mul_Some:
  "checked_mul a b = Some c \<Longrightarrow> unat c = unat a * unat b \<and> c = a * b"
  for a b c :: "'a::len word"
  by (auto simp: checked_mul_def unat_word_ariths split: if_splits)

lemma unat_ucast_up:
  "LENGTH('a) \<le> LENGTH('b) \<Longrightarrow> unat (ucast (w :: 'a::len word) :: 'b::len word) = unat w"
  by (metis min.absorb1 take_bit_length_eq unsigned_take_bit_eq unsigned_ucast_eq take_bit_tightened_less_eq_nat unsigned_less take_bit_nat_eq_self order.strict_trans2 power_increasing one_le_numeral)

lemma unat_ucast_u32_u64 [simp]: "unat (ucast (w :: u32) :: u64) = unat w"
  by (simp add: unat_ucast_up)

lemma unat_ucast_u16_u64 [simp]: "unat (ucast (w :: u16) :: u64) = unat w"
  by (simp add: unat_ucast_up)

lemma unat_ucast_u8_u64 [simp]: "unat (ucast (w :: u8) :: u64) = unat w"
  by (simp add: unat_ucast_up)

lemma unat_ucast_u16_u32 [simp]: "unat (ucast (w :: u16) :: u32) = unat w"
  by (simp add: unat_ucast_up)

lemma unat_ucast_u8_u32 [simp]: "unat (ucast (w :: u8) :: u32) = unat w"
  by (simp add: unat_ucast_up)

lemma unat_u8_lt [simp]: "unat (w :: u8) < 256"
  using unsigned_less [of w, where 'a = nat] by simp

lemma unat_u16_lt [simp]: "unat (w :: u16) < 65536"
  using unsigned_less [of w, where 'a = nat] by simp

lemma unat_u32_lt [simp]: "unat (w :: u32) < 4294967296"
  using unsigned_less [of w, where 'a = nat] by simp

lemma unat_u64_lt [simp]: "unat (w :: u64) < 18446744073709551616"
  using unsigned_less [of w, where 'a = nat] by simp

lemma unat_ucast_down_small:
  "unat w < 2 ^ LENGTH('b) \<Longrightarrow> unat (ucast (w :: 'a::len word) :: 'b::len word) = unat w"
  by (simp add: unsigned_ucast_eq take_bit_nat_eq_self)

text \<open>The cast to a 32-bit \<open>usize\<close> does not change a remainder by a sector size.\<close>

lemma as_usize_mod: "m dvd 2 ^ 32 \<Longrightarrow> as_usize x mod m = unat x mod m"
  by (simp add: as_usize_def mod_mod_cancel)

lemma as_usize_small: "unat x < 2 ^ 32 \<Longrightarrow> as_usize x = unat x"
  by (simp add: as_usize_def)

lemma unat_of_usize: "n < 2 ^ 64 \<Longrightarrow> unat (of_usize n) = n"
  by (simp add: of_usize_def unat_of_nat)

text \<open>Unsigned addition and multiplication that do not wrap, read as \<open>nat\<close>.\<close>

lemma unat_add_small:
  "unat a + unat b < 2 ^ LENGTH('a) \<Longrightarrow> unat (a + b) = unat a + unat b"
  for a b :: "'a::len word"
  by (simp add: unat_word_ariths)

lemma unat_mult_small:
  "unat a * unat b < 2 ^ LENGTH('a) \<Longrightarrow> unat (a * b) = unat a * unat b"
  for a b :: "'a::len word"
  by (simp add: unat_word_ariths)

lemma nat_ceil_div:
  "(x + y - 1) div y = (if x mod y = 0 then x div y else Suc (x div y))" if "0 < y" for x y :: nat
proof -
  define q r where "q = x div y" and "r = x mod y"
  have x: "x = y * q + r" and r: "r < y" using that by (simp_all add: q_def r_def)
  show ?thesis
  proof (cases "r = 0")
    case True
    then have "x + y - 1 = y * q + (y - 1)" using x that by simp
    moreover have "(y * q + (y - 1)) div y = q"
      using that by (intro div_nat_eqI) (simp_all add: algebra_simps)
    ultimately show ?thesis using True by (simp only: q_def [symmetric] r_def [symmetric]) simp
  next
    case False
    then have "x + y - 1 = y * Suc q + (r - 1)" using x by simp
    moreover have "(y * Suc q + (r - 1)) div y = Suc q"
      using r by (intro div_nat_eqI) (simp_all add: algebra_simps)
    ultimately show ?thesis using False by (simp add: q_def [symmetric] r_def [symmetric])
  qed
qed

lemma unat_div_ceil:
  "unat (div_ceil a b) = (unat a + unat b - 1) div unat b" if "b \<noteq> 0" for a b :: "'a::len word"
proof -
  have b: "0 < unat b" using that by (simp add: unat_gt_0)
  have z: "a mod b = 0 \<longleftrightarrow> unat a mod unat b = 0"
    by (metis unat_eq_0 unat_mod)
  have "unat (a div b + 1) = Suc (unat a div unat b)" if "unat a mod unat b \<noteq> 0"
  proof -
    have "1 < unat b" using that b by (cases "unat b = 1") auto
    then have "unat a div unat b < unat a" using that by (metis div_less_dividend mod_0 neq0_conv)
    moreover have "unat a < 2 ^ LENGTH('a)" by simp
    ultimately have "unat (a div b) + unat (1 :: 'a word) < 2 ^ LENGTH('a)"
      unfolding unat_div unat_1 by linarith
    then show ?thesis by (simp add: unat_add_small unat_div)
  qed
  then show ?thesis using z nat_ceil_div [OF b, of "unat a"] by (simp add: div_ceil_def unat_div)
qed

text \<open>
  A fold whose step is injective in the state, and at one place in the item, tells apart two lists
  that differ there.
\<close>

lemma foldl_state_inj: "(\<And>s t x. f s x = f t x \<Longrightarrow> s = t) \<Longrightarrow> foldl f s zs = foldl f t zs \<Longrightarrow> s = t"
  by (induction zs arbitrary: s t) (simp, metis foldl_Cons)

lemma foldl_detects_at:
  assumes state: "\<And>s t x. f s x = f t x \<Longrightarrow> s = t"
    and item: "\<And>s. f s y \<noteq> f s (xs ! i)" and i: "i < length xs"
  shows "foldl f s (xs[i := y]) \<noteq> foldl f s xs"
proof -
  have inj: "foldl f s zs = foldl f t zs \<Longrightarrow> s = t" for s t zs
    by (rule foldl_state_inj [OF state])
  have "foldl f s xs = foldl f (f (foldl f s (take i xs)) (xs ! i)) (drop (Suc i) xs)"
    using i by (subst id_take_nth_drop [of i]) simp_all
  moreover have "foldl f s (xs[i := y]) = foldl f (f (foldl f s (take i xs)) y) (drop (Suc i) xs)"
    using i by (simp add: upd_conv_take_nth_drop)
  ultimately show ?thesis using inj item by metis
qed

lemma foldl_detects:
  assumes "\<And>s t b. f s b = f t b \<Longrightarrow> s = t" "\<And>s b c. f s b = f s c \<Longrightarrow> b = c"
    and "i < length xs" "y \<noteq> xs ! i"
  shows "foldl f s (xs[i := y]) \<noteq> foldl f s xs"
  using assms by (intro foldl_detects_at) blast+

lemma ror1_inj: "ror1 s = ror1 t \<Longrightarrow> s = t" for s t :: "'a::len word"
  unfolding ror1_def by (metis word_rot_rl)

lemma enumerate_update: "enumerate n (xs[i := v]) = (enumerate n xs)[i := (n + i, v)]"
  by (induction xs arbitrary: n i) (auto split: nat.splits)

lemma ucast_u8_u16_inj:
  assumes "ucast (b :: u8) = (ucast c :: u16)"
  shows "b = c"
proof -
  have "unat (ucast w :: u16) = unat w" for w :: u8 by (simp add: unat_ucast_up)
  with assms show ?thesis by (metis word_unat_eq_iff)
qed

lemma ucast_u8_u32_inj: "ucast (b :: u8) = (ucast c :: u32) \<Longrightarrow> b = c"
  by (metis unat_ucast_u8_u32 word_unat_eq_iff)

text \<open>Positions in one block keep their distance.\<close>

lemma mod_gap:
  fixes x y b k :: nat
  assumes "x div b = y div b" "x + k \<le> y"
  shows "x mod b + k \<le> y mod b"
proof -
  have "x = b * (x div b) + x mod b" "y = b * (x div b) + y mod b"
    using assms(1) mult_div_mod_eq [of b x] mult_div_mod_eq [of b y] by simp_all
  with assms(2) show ?thesis by linarith
qed

lemma div_mod_add_small:
  fixes a n i :: nat
  assumes "a mod n + i < n"
  shows "(a + i) div n = a div n" "(a + i) mod n = a mod n + i"
proof -
  have eq: "(a mod n + i) + (a div n) * n = a + i" by simp
  have gen: "(r + q * n) div n = q \<and> (r + q * n) mod n = r" if "r < n" for r q using that by simp
  from gen [OF assms, of "a div n", unfolded eq]
  show "(a + i) div n = a div n" "(a + i) mod n = a mod n + i" by blast+
qed

lemma quotient_remainder_inj:
  fixes q q' n i j :: nat
  assumes "q * n + i = q' * n + j" "i < n" "j < n"
  shows "q = q' \<and> i = j"
proof -
  have "(q * n + i) div n = q" "(q' * n + j) div n = q'" using assms(2,3) by simp_all
  with assms(1) have "q = q'" by simp
  with assms(1) show ?thesis by simp
qed

section \<open>Byte lists\<close>

text \<open>
  \<open>slice a b xs\<close> is \<open>xs[a..b]\<close> for bounds that are in range; \<open>patch off bs xs\<close> overwrites
  \<open>xs[off..off + bs.len()]\<close>. A use that can be out of range is guarded in the monad below.
\<close>

definition slice :: "nat \<Rightarrow> nat \<Rightarrow> 'a list \<Rightarrow> 'a list" where
  "slice a b xs = take (b - a) (drop a xs)"

definition patch :: "nat \<Rightarrow> 'a list \<Rightarrow> 'a list \<Rightarrow> 'a list" where
  "patch off bs xs = take off xs @ bs @ drop (off + length bs) xs"

text \<open>\<open>xs.chunks_exact(n)\<close>: the whole chunks of \<open>n\<close> elements, the remainder dropped.\<close>

fun chunks_exact :: "nat \<Rightarrow> 'a list \<Rightarrow> 'a list list" where
  "chunks_exact n xs =
     (if n = 0 \<or> length xs < n then [] else take n xs # chunks_exact n (drop n xs))"

declare chunks_exact.simps [simp del]

primrec le_val :: "u8 list \<Rightarrow> 'a::len word" where
  "le_val [] = 0"
| "le_val (b # bs) = ucast b OR push_bit 8 (le_val bs)"

primrec le_bytes :: "nat \<Rightarrow> 'a::len word \<Rightarrow> u8 list" where
  "le_bytes 0 w = []"
| "le_bytes (Suc n) w = ucast w # le_bytes n (drop_bit 8 w)"

definition le_u16 :: "u8 list \<Rightarrow> u16" where "le_u16 bs = le_val (take 2 bs)"
definition le_u32 :: "u8 list \<Rightarrow> u32" where "le_u32 bs = le_val (take 4 bs)"
definition le_u64 :: "u8 list \<Rightarrow> u64" where "le_u64 bs = le_val (take 8 bs)"

definition le16 :: "u16 \<Rightarrow> u8 list" where "le16 w = le_bytes 2 w"
definition le32 :: "u32 \<Rightarrow> u8 list" where "le32 w = le_bytes 4 w"
definition le64 :: "u64 \<Rightarrow> u8 list" where "le64 w = le_bytes 8 w"

lemma length_slice [simp]: "b \<le> length xs \<Longrightarrow> length (slice a b xs) = b - a"
  by (simp add: slice_def)

lemma length_patch [simp]: "off + length bs \<le> length xs \<Longrightarrow> length (patch off bs xs) = length xs"
  by (simp add: patch_def)

lemma length_le_bytes [simp]: "length (le_bytes n w) = n"
  by (induction n arbitrary: w) simp_all

lemma length_le [simp]: "length (le16 a) = 2" "length (le32 b) = 4" "length (le64 c) = 8"
  by (simp_all add: le16_def le32_def le64_def)

lemma le_val_bytes: "le_val (le_bytes n w) = take_bit (8 * n) w"
proof (induction n arbitrary: w)
  case 0
  then show ?case by simp
next
  case (Suc n)
  show ?case
    by (rule bit_word_eqI) (auto simp: Suc bit_simps not_le not_less)
qed

lemma le_u16_le16 [simp]: "le_u16 (le16 w @ xs) = w" "le_u16 (le16 w) = w"
  by (simp_all add: le_u16_def le16_def le_val_bytes take_bit_word_eq_self)

lemma le_u32_le32 [simp]: "le_u32 (le32 w @ xs) = w" "le_u32 (le32 w) = w"
  by (simp_all add: le_u32_def le32_def le_val_bytes take_bit_word_eq_self)

lemma le_u64_le64 [simp]: "le_u64 (le64 w @ xs) = w" "le_u64 (le64 w) = w"
  by (simp_all add: le_u64_def le64_def le_val_bytes take_bit_word_eq_self)

lemma slice_patch_same:
  "off + length bs \<le> length xs \<Longrightarrow> slice off (off + length bs) (patch off bs xs) = bs"
  by (simp add: slice_def patch_def)

lemma nth_patch:
  "off + length bs \<le> length xs \<Longrightarrow> i < length xs \<Longrightarrow>
    patch off bs xs ! i = (if off \<le> i \<and> i < off + length bs then bs ! (i - off) else xs ! i)"
  by (auto simp: patch_def nth_append min_def)

lemma nth_slice: "i < b - a \<Longrightarrow> b \<le> length xs \<Longrightarrow> slice a b xs ! i = xs ! (a + i)"
  by (simp add: slice_def)

lemma slice_patch_other:
  assumes "off + length bs \<le> length xs" "b \<le> length xs" "b \<le> off \<or> off + length bs \<le> a"
  shows "slice a b (patch off bs xs) = slice a b xs"
  by (rule nth_equalityI) (use assms in \<open>auto simp: nth_slice nth_patch\<close>)

lemma slice_append:
  "slice a b (xs @ ys) = slice a b xs @ slice (a - length xs) (b - length xs) ys"
  by (cases "a \<le> length xs") (simp_all add: slice_def)

lemma slice_Cons:
  "slice a b (x # xs) =
     (if b = 0 then [] else if a = 0 then x # slice 0 (b - 1) xs else slice (a - 1) (b - 1) xs)"
  by (cases a; cases b) (simp_all add: slice_def)

lemma slice_replicate: "slice a b (replicate n x) = replicate (min (b - a) (n - a)) x"
  by (simp add: slice_def min.commute)

lemma slice_all: "length xs \<le> b \<Longrightarrow> slice 0 b xs = xs"
  by (simp add: slice_def)

lemma slice_none [simp]: "slice a 0 xs = []" "slice a b [] = []" "b \<le> a \<Longrightarrow> slice a b xs = []"
  by (simp_all add: slice_def)

lemma slice_beyond: "length xs \<le> a \<Longrightarrow> slice a b xs = []"
  by (simp add: slice_def)

lemmas slice_parts = slice_append slice_Cons slice_replicate slice_all slice_beyond

lemma length_chunks_exact: "0 < n \<Longrightarrow> length (chunks_exact n xs) = length xs div n"
proof (induction n xs rule: chunks_exact.induct)
  case (1 n xs)
  then show ?case
    by (subst chunks_exact.simps) (auto simp: div_if [of "length xs"] not_less le_div_geq)
qed

lemma nth_chunks_exact:
  "0 < n \<Longrightarrow> i < length xs div n \<Longrightarrow> chunks_exact n xs ! i = slice (i * n) (i * n + n) xs"
proof (induction n xs arbitrary: i rule: chunks_exact.induct)
  case (1 n xs)
  then have ge: "n \<le> length xs" by (metis div_less less_nat_zero_code not_less)
  show ?case
  proof (cases i)
    case 0
    with 1 ge show ?thesis by (subst chunks_exact.simps) (simp add: slice_def)
  next
    case (Suc j)
    have "j < (length xs - n) div n" using 1 ge Suc by (simp add: le_div_geq)
    then have "chunks_exact n (drop n xs) ! j = slice (j * n) (j * n + n) (drop n xs)"
      using 1 ge by simp
    with 1 ge Suc show ?thesis
      by (subst chunks_exact.simps) (simp add: slice_def add.commute)
  qed
qed

lemma chunks_exact_length: "c \<in> set (chunks_exact n xs) \<Longrightarrow> length c = n"
proof (induction n xs rule: chunks_exact.induct)
  case (1 n xs)
  from "1.prems" have c: "\<not> (n = 0 \<or> length xs < n)" "c = take n xs \<or> c \<in> set (chunks_exact n (drop n xs))"
    by (subst (asm) chunks_exact.simps, simp split: if_splits)+
  then show ?case using "1.IH" by auto
qed

text \<open>A concatenation of blocks of one size.\<close>

lemma nth_concat_blocks:
  "\<forall>x \<in> set xs. length x = n \<Longrightarrow> i < n * length xs \<Longrightarrow> concat xs ! i = xs ! (i div n) ! (i mod n)"
proof (induction xs arbitrary: i)
  case (Cons x xs)
  have n: "0 < n" using Cons.prems(2) by (cases n) auto
  show ?case
  proof (cases "i < n")
    case True
    then show ?thesis using Cons.prems(1) by (simp add: nth_append)
  next
    case False
    then have "i div n = Suc ((i - n) div n)" "i mod n = (i - n) mod n" using n by (simp_all add: le_div_geq le_mod_geq)
    then show ?thesis using False Cons by (simp add: nth_append)
  qed
qed simp

lemma length_concat_blocks: "\<forall>x \<in> set xs. length x = n \<Longrightarrow> length (concat xs) = n * length xs"
  by (induction xs) simp_all

lemma chunks_exact_concat:
  "0 < n \<Longrightarrow> \<forall>x \<in> set xs. length x = n \<Longrightarrow> chunks_exact n (concat xs) = xs"
proof (induction xs)
  case Nil
  then show ?case by (subst chunks_exact.simps) simp
next
  case (Cons x xs)
  then show ?case by (subst chunks_exact.simps) simp
qed

end
