(* ===== verification/Result_Monad.thy ===== *)
theory Result_Monad
  imports Prelude
begin

text \<open>
  A state and error monad for the code's \<open>async fn\<close>s with \<open>&mut\<close> arguments and \<open>Result\<close>s.
  A computation maps a state to an outcome and the state it leaves, also when it fails: the code's
  \<open>?\<close> returns early and keeps every side effect made so far. The outcome is a value or an exception:
  an \<open>Error\<close> of the code's own type, a \<open>Panic\<close> (an out-of-range slice or index, a division by
  zero), or \<open>Diverge\<close> (the fuel of a loop ran out).

  Loops are \<open>loop_m\<close> (a \<open>while\<close> or \<open>loop\<close> whose body continues with \<open>Inl\<close> or leaves with
  \<open>Inr\<close>), \<open>for_m\<close> (a \<open>for\<close> with early exit), \<open>each_m\<close> and \<open>fold_m\<close>.

  Three relational views, each closed under the operations: \<open>post m s Q E\<close> (from \<open>s\<close>, a normal
  result satisfies \<open>Q\<close> and an exception \<open>E\<close>), \<open>steps R m\<close> (every run moves the state along
  \<open>R\<close>) and \<open>returns m\<close> (no run diverges).
\<close>

named_theorems steps_intro "rules that build steps R m from the parts of m"
named_theorems returns_intro "rules that build returns m from the parts of m"

named_theorems raises_intro "rules that build raises P m from the parts of m"

named_theorems gives_intro "rules that build gives P m from the parts of m"

section \<open>Outcomes\<close>

datatype 'e exn = Error 'e | Panic | Diverge

type_synonym ('s, 'e, 'a) m = "'s \<Rightarrow> ('e exn + 'a) \<times> 's"

definition returnM :: "'a \<Rightarrow> ('s, 'e, 'a) m" where
  "returnM x = (\<lambda>s. (Inr x, s))"

definition throwM :: "'e exn \<Rightarrow> ('s, 'e, 'a) m" where
  "throwM e = (\<lambda>s. (Inl e, s))"

definition fail :: "'e \<Rightarrow> ('s, 'e, 'a) m" where
  "fail e = throwM (Error e)"

definition bindM :: "('s, 'e, 'a) m \<Rightarrow> ('a \<Rightarrow> ('s, 'e, 'b) m) \<Rightarrow> ('s, 'e, 'b) m" where
  "bindM m f = (\<lambda>s. case m s of (r, s') \<Rightarrow> (case r of Inl e \<Rightarrow> (Inl e, s') | Inr x \<Rightarrow> f x s'))"

definition getsM :: "('s \<Rightarrow> 'a) \<Rightarrow> ('s, 'e, 'a) m" where
  "getsM f = (\<lambda>s. (Inr (f s), s))"

definition modifyM :: "('s \<Rightarrow> 's) \<Rightarrow> ('s, 'e, unit) m" where
  "modifyM f = (\<lambda>s. (Inr (), f s))"

text \<open>\<open>opt.ok_or(e)?\<close>, the guard of a slice or a division, and a statement under an \<open>if\<close>.\<close>

definition ok_or :: "'a option \<Rightarrow> 'e \<Rightarrow> ('s, 'e, 'a) m" where
  "ok_or x e = (case x of None \<Rightarrow> fail e | Some y \<Rightarrow> returnM y)"

definition no_panic_if :: "bool \<Rightarrow> ('s, 'e, unit) m" where
  "no_panic_if b = (if b then returnM () else throwM Panic)"

definition whenM :: "bool \<Rightarrow> ('s, 'e, unit) m \<Rightarrow> ('s, 'e, unit) m" where
  "whenM b m = (if b then m else returnM ())"

text \<open>\<open>match result\<close>: an \<open>Err\<close> becomes a value, a panic still unwinds.\<close>

definition attempt :: "('s, 'e, 'a) m \<Rightarrow> ('s, 'f, 'e + 'a) m" where
  "attempt m = (\<lambda>s. case m s of (r, s') \<Rightarrow> (case r of
       Inl (Error e) \<Rightarrow> (Inr (Inl e), s')
     | Inl Panic \<Rightarrow> (Inl Panic, s')
     | Inl Diverge \<Rightarrow> (Inl Diverge, s')
     | Inr x \<Rightarrow> (Inr (Inr x), s')))"

definition from_result :: "'e + 'a \<Rightarrow> ('s, 'e, 'a) m" where
  "from_result r = (case r of Inl e \<Rightarrow> fail e | Inr x \<Rightarrow> returnM x)"

definition map_err :: "('e \<Rightarrow> 'f) \<Rightarrow> ('s, 'e, 'a) m \<Rightarrow> ('s, 'f, 'a) m" where
  "map_err g m = bindM (attempt m) (\<lambda>r. case r of Inl e \<Rightarrow> fail (g e) | Inr x \<Rightarrow> returnM x)"

lemma bindM_simps [simp]:
  "bindM (returnM x) f = f x" "bindM (ok_or (Some x) e) f = f x" "bindM (no_panic_if True) g = g ()"
  by (simp_all add: fun_eq_iff bindM_def returnM_def ok_or_def no_panic_if_def)

section \<open>Loops\<close>

primrec loop_m :: "nat \<Rightarrow> 'e exn \<Rightarrow> ('x \<Rightarrow> ('s, 'e, 'x + 'r) m) \<Rightarrow> 'x \<Rightarrow> ('s, 'e, 'r) m" where
  "loop_m 0 out body x = throwM out"
| "loop_m (Suc n) out body x =
     bindM (body x) (\<lambda>r. case r of Inl x' \<Rightarrow> loop_m n out body x' | Inr y \<Rightarrow> returnM y)"

primrec for_m :: "'i list \<Rightarrow> ('i \<Rightarrow> 'x \<Rightarrow> ('s, 'e, 'x + 'r) m) \<Rightarrow> 'x \<Rightarrow> ('s, 'e, 'x + 'r) m" where
  "for_m [] body x = returnM (Inl x)"
| "for_m (i # is) body x =
     bindM (body i x) (\<lambda>r. case r of Inl x' \<Rightarrow> for_m is body x' | Inr y \<Rightarrow> returnM (Inr y))"

primrec fold_m :: "'i list \<Rightarrow> ('i \<Rightarrow> 'x \<Rightarrow> ('s, 'e, 'x) m) \<Rightarrow> 'x \<Rightarrow> ('s, 'e, 'x) m" where
  "fold_m [] body x = returnM x"
| "fold_m (i # is) body x = bindM (body i x) (fold_m is body)"

primrec each_m :: "'i list \<Rightarrow> ('i \<Rightarrow> ('s, 'e, unit) m) \<Rightarrow> ('s, 'e, unit) m" where
  "each_m [] body = returnM ()"
| "each_m (i # is) body = bindM (body i) (\<lambda>_. each_m is body)"

lemma loop_m_numeral [simp]:
  "loop_m (numeral k) out body x =
     bindM (body x) (\<lambda>r. case r of Inl x' \<Rightarrow> loop_m (pred_numeral k) out body x' | Inr y \<Rightarrow> returnM y)"
  by (simp add: numeral_eq_Suc)

section \<open>Pre- and postconditions\<close>

definition post :: "('s, 'e, 'a) m \<Rightarrow> 's \<Rightarrow> ('a \<Rightarrow> 's \<Rightarrow> bool) \<Rightarrow> ('e exn \<Rightarrow> 's \<Rightarrow> bool) \<Rightarrow> bool" where
  "post m s Q E = (case m s of (r, s') \<Rightarrow> (case r of Inl e \<Rightarrow> E e s' | Inr x \<Rightarrow> Q x s'))"

lemma post_returnM [simp]: "post (returnM x) s Q E = Q x s"
  by (simp add: post_def returnM_def)

lemma post_throwM [simp]: "post (throwM e) s Q E = E e s"
  by (simp add: post_def throwM_def)

lemma post_fail [simp]: "post (fail e) s Q E = E (Error e) s"
  by (simp add: fail_def)

lemma post_bindM [simp]: "post (bindM m f) s Q E = post m s (\<lambda>x s'. post (f x) s' Q E) E"
  by (auto simp: post_def bindM_def split: prod.splits sum.splits)

lemma post_getsM [simp]: "post (getsM f) s Q E = Q (f s) s"
  by (simp add: post_def getsM_def)

lemma post_modifyM [simp]: "post (modifyM f) s Q E = Q () (f s)"
  by (simp add: post_def modifyM_def)

lemma post_ok_or [simp]:
  "post (ok_or x e) s Q E = (case x of None \<Rightarrow> E (Error e) s | Some y \<Rightarrow> Q y s)"
  by (simp add: ok_or_def split: option.splits)

lemma post_no_panic_if [simp]: "post (no_panic_if b) s Q E = (if b then Q () s else E Panic s)"
  by (simp add: no_panic_if_def)

lemma post_whenM [simp]: "post (whenM b m) s Q E = (if b then post m s Q E else Q () s)"
  by (simp add: whenM_def)

lemma post_if [simp]: "post (if b then m else n) s Q E = (if b then post m s Q E else post n s Q E)"
  by simp

lemma post_attempt [simp]:
  "post (attempt m) s Q E =
     post m s (\<lambda>x. Q (Inr x)) (\<lambda>e s'. case e of Error e' \<Rightarrow> Q (Inl e') s' | Panic \<Rightarrow> E Panic s'
       | Diverge \<Rightarrow> E Diverge s')"
  by (auto simp: post_def attempt_def split: prod.splits sum.splits exn.splits)

lemma post_from_result [simp]:
  "post (from_result r) s Q E = (case r of Inl e \<Rightarrow> E (Error e) s | Inr x \<Rightarrow> Q x s)"
  by (simp add: from_result_def split: sum.splits)

lemma post_mono:
  assumes "post m s Q E" "\<And>x s'. Q x s' \<Longrightarrow> Q' x s'" "\<And>e s'. E e s' \<Longrightarrow> E' e s'"
  shows "post m s Q' E'"
  using assms by (auto simp: post_def split: prod.splits sum.splits)

lemma post_conj:
  "post m s Q E \<Longrightarrow> post m s Q' E' \<Longrightarrow> post m s (\<lambda>x s. Q x s \<and> Q' x s) (\<lambda>e s. E e s \<and> E' e s)"
  by (auto simp: post_def split: prod.splits sum.splits)

lemma postI:
  "(\<And>x s'. m s = (Inr x, s') \<Longrightarrow> Q x s') \<Longrightarrow> (\<And>e s'. m s = (Inl e, s') \<Longrightarrow> E e s') \<Longrightarrow> post m s Q E"
  by (auto simp: post_def split: prod.splits sum.splits)

lemma post_InrD: "post m s Q E \<Longrightarrow> m s = (Inr x, s') \<Longrightarrow> Q x s'"
  by (simp add: post_def)

lemma post_InlD: "post m s Q E \<Longrightarrow> m s = (Inl e, s') \<Longrightarrow> E e s'"
  by (simp add: post_def)

lemma post_True [simp]: "post m s (\<lambda>_ _. True) (\<lambda>_ _. True)"
  by (simp add: post_def split: prod.splits sum.splits)

text \<open>\<open>gives P m\<close>: every normal result of \<open>m\<close> satisfies \<open>P\<close>.\<close>

definition gives :: "('a \<Rightarrow> bool) \<Rightarrow> ('s, 'e, 'a) m \<Rightarrow> bool" where
  "gives P m = (\<forall>s x. fst (m s) = Inr x \<longrightarrow> P x)"

lemma gives_post: "gives P m \<Longrightarrow> post m s (\<lambda>x _. P x) (\<lambda>_ _. True)"
  by (auto simp: gives_def post_def split: prod.splits sum.splits) (metis fst_conv)

lemma givesI: "(\<And>s. post m s (\<lambda>x _. P x) (\<lambda>_ _. True)) \<Longrightarrow> gives P m"
proof -
  assume *: "\<And>s. post m s (\<lambda>x _. P x) (\<lambda>_ _. True)"
  have "fst (m s) = Inr x \<longrightarrow> P x" for s x
    using * [of s] by (cases "m s"; cases "fst (m s)") (auto simp: post_def)
  then show ?thesis by (simp add: gives_def)
qed

lemma gives_run: "gives P m \<Longrightarrow> m s = (Inr x, s') \<Longrightarrow> P x"
  by (metis gives_def fst_conv)

lemma gives_mono: "gives P m \<Longrightarrow> (\<And>x. P x \<Longrightarrow> Q x) \<Longrightarrow> gives Q m"
  by (simp add: gives_def)

lemma gives_bindM [gives_intro]: "(\<And>x. gives P (f x)) \<Longrightarrow> gives P (bindM m f)"
  by (auto simp: gives_def bindM_def split: prod.splits sum.splits)

lemma gives_bind_gives: "gives Q m \<Longrightarrow> (\<And>x. Q x \<Longrightarrow> gives P (f x)) \<Longrightarrow> gives P (bindM m f)"
  by (auto simp: gives_def bindM_def split: prod.splits sum.splits) (metis fst_conv)

lemma gives_guard: "(b \<Longrightarrow> gives P (f ())) \<Longrightarrow> gives P (bindM (no_panic_if b) f)"
  by (cases b) (auto simp: gives_def bindM_def no_panic_if_def throwM_def returnM_def)

lemma gives_skip [gives_intro]:
  "P x \<Longrightarrow> gives P (returnM x)" "gives P (throwM e)" "gives P (fail d)"
  "(\<And>y. opt = Some y \<Longrightarrow> P y) \<Longrightarrow> gives P (ok_or opt d)"
  by (auto simp: gives_def returnM_def throwM_def fail_def ok_or_def split: option.splits)

lemma gives_branch [gives_intro]:
  "(b \<Longrightarrow> gives P m) \<Longrightarrow> (\<not> b \<Longrightarrow> gives P n) \<Longrightarrow> gives P (if b then m else n)"
  "(\<And>y. y = x \<Longrightarrow> gives P (g y)) \<Longrightarrow> gives P (let y = x in g y)"
  "(opt = None \<Longrightarrow> gives P a) \<Longrightarrow> (\<And>y. opt = Some y \<Longrightarrow> gives P (h y)) \<Longrightarrow> gives P (case opt of None \<Rightarrow> a | Some y \<Rightarrow> h y)"
  "(\<And>z. r = Inl z \<Longrightarrow> gives P (c z)) \<Longrightarrow> (\<And>y. r = Inr y \<Longrightarrow> gives P (d y)) \<Longrightarrow> gives P (case r of Inl z \<Rightarrow> c z | Inr y \<Rightarrow> d y)"
  "(\<And>u w. p = (u, w) \<Longrightarrow> gives P (k u w)) \<Longrightarrow> gives P (case p of (u, w) \<Rightarrow> k u w)"
  by (auto split: option.splits sum.splits prod.splits)

text \<open>A loop with an invariant and a measure that the body decreases leaves before its fuel runs out.\<close>

lemma post_loop_m:
  assumes body: "\<And>x s. I x s \<Longrightarrow>
      post (body x) s (\<lambda>r s'. case r of Inl x' \<Rightarrow> I x' s' \<and> \<mu> x' s' < \<mu> x s | Inr y \<Rightarrow> Q y s') E"
    and init: "I x s" and fuel: "\<mu> x s < n"
  shows "post (loop_m n out body x) s Q E"
  using init fuel
proof (induction n arbitrary: x s)
  case 0
  then show ?case by simp
next
  case (Suc n)
  have "post (body x) s (\<lambda>r s'. post (case r of Inl x' \<Rightarrow> loop_m n out body x' | Inr y \<Rightarrow> returnM y) s' Q E) E"
    by (rule post_mono [OF body [OF Suc.prems(1)]]) (use Suc in \<open>auto split: sum.splits\<close>)
  then show ?case by simp
qed

text \<open>A loop the code itself bounds: running out of rounds is one of its own exits.\<close>

lemma post_loop_m_bounded:
  assumes body: "\<And>x s. I x s \<Longrightarrow>
      post (body x) s (\<lambda>r s'. case r of Inl x' \<Rightarrow> I x' s' | Inr y \<Rightarrow> Q y s') E"
    and out: "\<And>x s. I x s \<Longrightarrow> E out s" and init: "I x s"
  shows "post (loop_m n out body x) s Q E"
  using init
proof (induction n arbitrary: x s)
  case 0
  then show ?case by (simp add: out)
next
  case (Suc n)
  have "post (body x) s (\<lambda>r s'. post (case r of Inl x' \<Rightarrow> loop_m n out body x' | Inr y \<Rightarrow> returnM y) s' Q E) E"
    by (rule post_mono [OF body [OF Suc.prems]]) (use Suc in \<open>auto split: sum.splits\<close>)
  then show ?case by simp
qed

lemma post_each_m:
  assumes step: "\<And>k s. k < length is \<Longrightarrow> I k s \<Longrightarrow> post (body (is ! k)) s (\<lambda>_. I (Suc k)) E"
    and init: "I 0 s" and fin: "\<And>s. I (length is) s \<Longrightarrow> Q () s"
  shows "post (each_m is body) s Q E"
  using assms
proof (induction "is" arbitrary: I s)
  case Nil
  then show ?case by simp
next
  case (Cons i "is")
  have "post (body i) s (\<lambda>_. I 1) E"
    using Cons.prems(1) [of 0 s] Cons.prems(2) by simp
  moreover have "post (each_m is body) s' Q E" if "I 1 s'" for s'
    by (rule Cons.IH [where I = "\<lambda>k. I (Suc k)"]) (use Cons.prems that in \<open>force+\<close>)
  ultimately show ?case by (auto intro: post_mono)
qed

lemma post_fold_m:
  assumes step: "\<And>k x s. k < length is \<Longrightarrow> I k x s \<Longrightarrow> post (body (is ! k) x) s (I (Suc k)) E"
    and init: "I 0 x s" and fin: "\<And>x s. I (length is) x s \<Longrightarrow> Q x s"
  shows "post (fold_m is body x) s Q E"
  using assms
proof (induction "is" arbitrary: I x s)
  case Nil
  then show ?case by simp
next
  case (Cons i "is")
  have "post (body i x) s (I 1) E"
    using Cons.prems(1) [of 0 x s] Cons.prems(2) by simp
  moreover have "post (fold_m is body x') s' Q E" if "I 1 x' s'" for x' s'
    by (rule Cons.IH [where I = "\<lambda>k. I (Suc k)"]) (use Cons.prems that in \<open>force+\<close>)
  ultimately show ?case by (auto intro: post_mono)
qed

lemma post_for_m:
  assumes step: "\<And>k x s. k < length is \<Longrightarrow> I k x s \<Longrightarrow>
      post (body (is ! k) x) s (\<lambda>r s'. case r of Inl x' \<Rightarrow> I (Suc k) x' s' | Inr y \<Rightarrow> Q (Inr y) s') E"
    and init: "I 0 x s" and fin: "\<And>x s. I (length is) x s \<Longrightarrow> Q (Inl x) s"
  shows "post (for_m is body x) s Q E"
  using assms
proof (induction "is" arbitrary: I x s)
  case Nil
  then show ?case by simp
next
  case (Cons i "is")
  have "post (body i x) s (\<lambda>r s'. case r of Inl x' \<Rightarrow> I (Suc 0) x' s' | Inr y \<Rightarrow> Q (Inr y) s') E"
    using Cons.prems(1) [of 0 x s] Cons.prems(2) by simp
  moreover have "post (for_m is body x') s' Q E" if "I (Suc 0) x' s'" for x' s'
    by (rule Cons.IH [where I = "\<lambda>k. I (Suc k)"]) (use Cons.prems that in \<open>force+\<close>)
  ultimately show ?case by (auto elim!: post_mono split: sum.splits)
qed

section \<open>Frames and divergence\<close>

definition steps :: "('s \<Rightarrow> 's \<Rightarrow> bool) \<Rightarrow> ('s, 'e, 'a) m \<Rightarrow> bool" where
  "steps R m = (\<forall>s. R s (snd (m s)))"

definition preorder_on_states :: "('s \<Rightarrow> 's \<Rightarrow> bool) \<Rightarrow> bool" where
  "preorder_on_states R = (reflp R \<and> transp R)"

definition returns :: "('s, 'e, 'a) m \<Rightarrow> bool" where
  "returns m = (\<forall>s. fst (m s) \<noteq> Inl Diverge)"

lemma steps_post: "steps R m \<Longrightarrow> post m s (\<lambda>_. R s) (\<lambda>_. R s)"
  by (auto simp: steps_def post_def split: prod.splits sum.splits) (metis snd_conv)+

lemma steps_weaken: "steps R m \<Longrightarrow> (\<And>s s'. R s s' \<Longrightarrow> R' s s') \<Longrightarrow> steps R' m"
  by (auto simp: steps_def)

lemma preorder_eq [steps_intro]: "preorder_on_states (=)"
  by (simp add: preorder_on_states_def reflp_def transp_def)

lemma steps_run: "steps R m \<Longrightarrow> m s = (r, s') \<Longrightarrow> R s s'"
  by (metis steps_def snd_conv)

lemma returns_run: "returns m \<Longrightarrow> m s \<noteq> (Inl Diverge, s')"
  by (metis returns_def fst_conv)

lemma steps_skip [steps_intro]:
  assumes "preorder_on_states R"
  shows "steps R (returnM x)" "steps R (throwM e)" "steps R (fail f)" "steps R (getsM g)"
    "steps R (ok_or opt f)" "steps R (no_panic_if b)" "steps R (from_result res)"
  using assms
  by (auto simp: steps_def preorder_on_states_def returnM_def throwM_def fail_def getsM_def ok_or_def
      no_panic_if_def from_result_def reflp_def split: option.splits sum.splits)

lemma steps_modifyM [steps_intro]: "(\<And>s. R s (f s)) \<Longrightarrow> steps R (modifyM f)"
  by (simp add: steps_def modifyM_def)

lemma steps_bindM [steps_intro]:
  assumes "preorder_on_states R" "steps R m" "\<And>x. steps R (f x)"
  shows "steps R (bindM m f)"
proof -
  have "R s (snd (bindM m f s))" for s
  proof (cases "m s")
    case (Pair r s1)
    with assms(2) have "R s s1" by (metis steps_run)
    moreover have "R s1 (snd (f x s1))" for x using assms(3) by (simp add: steps_def)
    ultimately show ?thesis
      using assms(1) Pair by (auto simp: bindM_def preorder_on_states_def split: sum.splits dest: transpD)
  qed
  then show ?thesis by (simp add: steps_def)
qed

text \<open>The same when the continuation only runs on the value a lookup or a parser gave.\<close>

lemma steps_bind_value [steps_intro]:
  "preorder_on_states R \<Longrightarrow> (\<And>x. opt = Some x \<Longrightarrow> steps R (f x)) \<Longrightarrow> steps R (bindM (ok_or opt e) f)"
  "preorder_on_states R \<Longrightarrow> (\<And>x. res = Inr x \<Longrightarrow> steps R (g x)) \<Longrightarrow> steps R (bindM (from_result res) g)"
  "preorder_on_states R \<Longrightarrow> (b \<Longrightarrow> steps R (h ())) \<Longrightarrow> steps R (bindM (no_panic_if b) h)"
  by (auto simp: steps_def bindM_def ok_or_def from_result_def no_panic_if_def returnM_def fail_def throwM_def
      preorder_on_states_def reflp_def split: option.splits sum.splits)

lemma steps_bind_gives:
  assumes R: "preorder_on_states R" and m: "gives P m" "steps R m" and f: "\<And>x. P x \<Longrightarrow> steps R (f x)"
  shows "steps R (bindM m f)"
proof -
  have "R s (snd (bindM m f s))" for s
  proof (cases "m s")
    case (Pair r s1)
    with m(2) have 1: "R s s1" by (metis steps_run)
    show ?thesis
    proof (cases r)
      case (Inl e)
      then show ?thesis using 1 Pair by (simp add: bindM_def)
    next
      case (Inr x)
      then have "P x" using m(1) Pair by (auto simp: gives_def dest: spec [of _ s])
      then have "R s1 (snd (f x s1))" using f by (simp add: steps_def)
      then show ?thesis using 1 Pair Inr R by (auto simp: bindM_def preorder_on_states_def dest: transpD)
    qed
  qed
  then show ?thesis by (simp add: steps_def)
qed

lemma steps_whenM [steps_intro]: "preorder_on_states R \<Longrightarrow> (b \<Longrightarrow> steps R m) \<Longrightarrow> steps R (whenM b m)"
  by (simp add: whenM_def steps_skip)

lemma steps_if [steps_intro]:
  "(b \<Longrightarrow> steps R m) \<Longrightarrow> (\<not> b \<Longrightarrow> steps R n) \<Longrightarrow> steps R (if b then m else n)"
  by simp

lemma steps_let [steps_intro]: "(\<And>y. y = x \<Longrightarrow> steps R (f y)) \<Longrightarrow> steps R (let y = x in f y)"
  by simp

lemma steps_case [steps_intro]:
  "(opt = None \<Longrightarrow> steps R a) \<Longrightarrow> (\<And>x. opt = Some x \<Longrightarrow> steps R (b x)) \<Longrightarrow> steps R (case opt of None \<Rightarrow> a | Some x \<Rightarrow> b x)"
  "(\<And>x. r = Inl x \<Longrightarrow> steps R (c x)) \<Longrightarrow> (\<And>y. r = Inr y \<Longrightarrow> steps R (d y)) \<Longrightarrow> steps R (case r of Inl x \<Rightarrow> c x | Inr y \<Rightarrow> d y)"
  "(\<And>x y. p = (x, y) \<Longrightarrow> steps R (e x y)) \<Longrightarrow> steps R (case p of (x, y) \<Rightarrow> e x y)"
  by (auto split: option.splits sum.splits prod.splits)

lemma steps_attempt [steps_intro]: "steps R m \<Longrightarrow> steps R (attempt m)"
  by (auto simp: steps_def attempt_def split: prod.splits sum.splits exn.splits) (metis snd_conv)+

lemma steps_map_err [steps_intro]: "preorder_on_states R \<Longrightarrow> steps R m \<Longrightarrow> steps R (map_err g m)"
  unfolding map_err_def by (intro steps_intro)

lemma steps_loop_m [steps_intro]:
  "preorder_on_states R \<Longrightarrow> (\<And>x. steps R (body x)) \<Longrightarrow> steps R (loop_m n out body x)"
  by (induction n arbitrary: x) (auto intro!: steps_intro split: sum.splits)

lemma steps_for_m [steps_intro]:
  "preorder_on_states R \<Longrightarrow> (\<And>i x. steps R (body i x)) \<Longrightarrow> steps R (for_m is body x)"
  by (induction "is" arbitrary: x) (auto intro!: steps_intro split: sum.splits)

lemma steps_fold_m [steps_intro]:
  "preorder_on_states R \<Longrightarrow> (\<And>i x. steps R (body i x)) \<Longrightarrow> steps R (fold_m is body x)"
  by (induction "is" arbitrary: x) (auto intro!: steps_intro)

lemma steps_each_m [steps_intro]:
  "preorder_on_states R \<Longrightarrow> (\<And>i. steps R (body i)) \<Longrightarrow> steps R (each_m is body)"
  by (induction "is") (auto intro!: steps_intro)

lemma returns_skip [returns_intro]:
  "returns (returnM x)" "returns (fail f)" "returns (getsM g)" "returns (modifyM h)"
  "returns (ok_or opt f)" "returns (no_panic_if b)" "returns (throwM Panic)" "returns (throwM (Error f))"
  "returns (from_result res)"
  by (auto simp: returns_def returnM_def throwM_def fail_def getsM_def modifyM_def ok_or_def
      no_panic_if_def from_result_def split: option.splits sum.splits)

lemma returns_bindM [returns_intro]:
  "returns m \<Longrightarrow> (\<And>x. returns (f x)) \<Longrightarrow> returns (bindM m f)"
  by (auto simp: returns_def bindM_def split: prod.splits sum.splits) (metis fst_conv)+

lemma returns_whenM [returns_intro]: "(b \<Longrightarrow> returns m) \<Longrightarrow> returns (whenM b m)"
  by (simp add: whenM_def returns_skip)

lemma returns_if [returns_intro]:
  "(b \<Longrightarrow> returns m) \<Longrightarrow> (\<not> b \<Longrightarrow> returns n) \<Longrightarrow> returns (if b then m else n)"
  by simp

lemma returns_let [returns_intro]: "(\<And>y. y = x \<Longrightarrow> returns (f y)) \<Longrightarrow> returns (let y = x in f y)"
  by simp

lemma returns_case [returns_intro]:
  "(opt = None \<Longrightarrow> returns a) \<Longrightarrow> (\<And>x. opt = Some x \<Longrightarrow> returns (b x)) \<Longrightarrow> returns (case opt of None \<Rightarrow> a | Some x \<Rightarrow> b x)"
  "(\<And>x. r = Inl x \<Longrightarrow> returns (c x)) \<Longrightarrow> (\<And>y. r = Inr y \<Longrightarrow> returns (d y)) \<Longrightarrow> returns (case r of Inl x \<Rightarrow> c x | Inr y \<Rightarrow> d y)"
  "(\<And>x y. p = (x, y) \<Longrightarrow> returns (e x y)) \<Longrightarrow> returns (case p of (x, y) \<Rightarrow> e x y)"
  by (auto split: option.splits sum.splits prod.splits)

lemma returns_attempt [returns_intro]: "returns m \<Longrightarrow> returns (attempt m)"
  by (auto simp: returns_def attempt_def split: prod.splits sum.splits exn.splits) (metis fst_conv)+

lemma returns_map_err [returns_intro]: "returns m \<Longrightarrow> returns (map_err g m)"
  unfolding map_err_def by (intro returns_intro)

lemma returns_for_m [returns_intro]: "(\<And>i x. returns (body i x)) \<Longrightarrow> returns (for_m is body x)"
  by (induction "is" arbitrary: x) (auto intro!: returns_intro split: sum.splits)

lemma returns_fold_m [returns_intro]: "(\<And>i x. returns (body i x)) \<Longrightarrow> returns (fold_m is body x)"
  by (induction "is" arbitrary: x) (auto intro!: returns_intro)

lemma returns_each_m [returns_intro]: "(\<And>i. returns (body i)) \<Longrightarrow> returns (each_m is body)"
  by (induction "is") (auto intro!: returns_intro)

text \<open>A loop whose exhaustion is an error of the code returns whenever its body does.\<close>

lemma returns_loop_m_bounded [returns_intro]:
  "(\<And>x. returns (body x)) \<Longrightarrow> returns (loop_m n (Error e) body x)"
  by (induction n arbitrary: x) (auto intro!: returns_intro split: sum.splits)

text \<open>A loop whose fuel exceeds a measure that every continuing round decreases returns.\<close>

lemma returns_loop_m:
  assumes body: "\<And>x. returns (body x)"
    and dec: "\<And>x s x' s'. body x s = (Inr (Inl x'), s') \<Longrightarrow> \<mu> x' < \<mu> x" and fuel: "\<mu> x < n"
  shows "returns (loop_m n out body x)"
proof -
  have "post (loop_m n out body x) s (\<lambda>_ _. True) (\<lambda>e _. e \<noteq> Diverge)" for s
  proof (rule post_loop_m [where I = "\<lambda>_ _. True" and \<mu> = "\<lambda>x _. \<mu> x"])
    show "post (body x) s (\<lambda>r s'. case r of Inl x' \<Rightarrow> True \<and> \<mu> x' < \<mu> x | Inr y \<Rightarrow> True)
        (\<lambda>e _. e \<noteq> Diverge)" for x s
      by (rule postI) (use body dec in \<open>auto split: sum.splits dest: returns_run\<close>)
  qed (use fuel in simp_all)
  then have "loop_m n out body x s \<noteq> (Inl Diverge, s')" for s s'
    using post_InlD by fastforce
  then have "fst (loop_m n out body x s) \<noteq> Inl Diverge" for s
    by (metis prod.collapse)
  then show ?thesis by (simp add: returns_def)
qed

section \<open>Which errors are raised\<close>

text \<open>\<open>raises P m\<close>: every exception of \<open>m\<close> satisfies \<open>P\<close>.\<close>

definition raises :: "('e exn \<Rightarrow> bool) \<Rightarrow> ('s, 'e, 'a) m \<Rightarrow> bool" where
  "raises P m = (\<forall>s e. fst (m s) = Inl e \<longrightarrow> P e)"

lemma raises_run: "raises P m \<Longrightarrow> m s = (Inl e, s') \<Longrightarrow> P e"
  by (metis raises_def fst_conv)

lemma raises_post: "raises P m \<longleftrightarrow> (\<forall>s. post m s (\<lambda>_ _. True) (\<lambda>e _. P e))"
proof -
  have "(\<forall>e. fst (m s) = Inl e \<longrightarrow> P e) \<longleftrightarrow> post m s (\<lambda>_ _. True) (\<lambda>e _. P e)" for s
    by (cases "m s"; cases "fst (m s)") (auto simp: post_def)
  then show ?thesis by (simp add: raises_def)
qed

lemma raises_mono: "raises P m \<Longrightarrow> (\<And>e. P e \<Longrightarrow> Q e) \<Longrightarrow> raises Q m"
  by (auto simp: raises_def)

lemma raises_skip [raises_intro]:
  "raises P (returnM x)" "raises P (getsM g)" "raises P (modifyM h)"
  "P (Error f) \<Longrightarrow> raises P (fail f)" "P (Error f) \<Longrightarrow> raises P (ok_or opt f)"
  "P Panic \<Longrightarrow> raises P (no_panic_if b)" "(\<And>e. res = Inl e \<Longrightarrow> P (Error e)) \<Longrightarrow> raises P (from_result res)"
  by (auto simp: raises_def returnM_def throwM_def fail_def getsM_def modifyM_def ok_or_def
      no_panic_if_def from_result_def split: option.splits sum.splits)

lemma raises_bindM [raises_intro]:
  "raises P m \<Longrightarrow> (\<And>x. raises P (f x)) \<Longrightarrow> raises P (bindM m f)"
  by (auto simp: raises_def bindM_def split: prod.splits sum.splits) (metis fst_conv)+

lemma raises_branch [raises_intro]:
  "(b \<Longrightarrow> raises P u) \<Longrightarrow> raises P (whenM b u)"
  "(b \<Longrightarrow> raises P m) \<Longrightarrow> (\<not> b \<Longrightarrow> raises P n) \<Longrightarrow> raises P (if b then m else n)"
  "(\<And>y. y = x \<Longrightarrow> raises P (g y)) \<Longrightarrow> raises P (let y = x in g y)"
  "(opt = None \<Longrightarrow> raises P a) \<Longrightarrow> (\<And>y. opt = Some y \<Longrightarrow> raises P (h y)) \<Longrightarrow> raises P (case opt of None \<Rightarrow> a | Some y \<Rightarrow> h y)"
  "(\<And>x. r = Inl x \<Longrightarrow> raises P (c x)) \<Longrightarrow> (\<And>y. r = Inr y \<Longrightarrow> raises P (d y)) \<Longrightarrow> raises P (case r of Inl x \<Rightarrow> c x | Inr y \<Rightarrow> d y)"
  "(\<And>x y. p = (x, y) \<Longrightarrow> raises P (k x y)) \<Longrightarrow> raises P (case p of (x, y) \<Rightarrow> k x y)"
  by (auto simp: whenM_def raises_skip split: option.splits sum.splits prod.splits)

lemma raises_attempt [raises_intro]:
  assumes "P Panic" "returns m"
  shows "raises P (attempt m)"
  using assms by (auto simp: raises_def returns_def attempt_def split: prod.splits sum.splits exn.splits) (metis fst_conv)+

lemma raises_map_err:
  assumes "raises Q m" "returns m" "\<And>f. Q (Error f) \<Longrightarrow> P (Error (g f))" "P Panic"
  shows "raises P (map_err g m)"
  using assms
  by (auto simp: raises_def returns_def map_err_def attempt_def bindM_def fail_def throwM_def returnM_def
      split: prod.splits sum.splits exn.splits) (metis fst_conv)+

lemma raises_loops [raises_intro]:
  "P out \<Longrightarrow> (\<And>x. raises P (body x)) \<Longrightarrow> raises P (loop_m n out body x)"
  "(\<And>i x. raises P (body2 i x)) \<Longrightarrow> raises P (for_m is body2 y)"
  "(\<And>i x. raises P (body3 i x)) \<Longrightarrow> raises P (fold_m is body3 z)"
  "(\<And>i. raises P (body4 i)) \<Longrightarrow> raises P (each_m is body4)"
proof -
  show "raises P (loop_m n out body x)" if "P out" "\<And>x. raises P (body x)"
  proof (induction n arbitrary: x)
    case 0
    show ?case using that(1) by (simp add: raises_def throwM_def)
  next
    case (Suc n)
    show ?case unfolding loop_m.simps by (intro raises_intro that Suc)
  qed
  show "raises P (for_m is body2 y)" if "\<And>i x. raises P (body2 i x)"
    using that by (induction "is" arbitrary: y) (auto intro!: raises_intro split: sum.splits)
  show "raises P (fold_m is body3 z)" if "\<And>i x. raises P (body3 i x)"
    using that by (induction "is" arbitrary: z) (auto intro!: raises_intro)
  show "raises P (each_m is body4)" if "\<And>i. raises P (body4 i)"
    using that by (induction "is") (auto intro!: raises_intro)
qed

end
