(* ===== verification/Block_Device.thy ===== *)
theory Block_Device
  imports Result_Monad
begin

text \<open>
  \<open>core/error.rs\<close> and \<open>core/device.rs\<close>: the crate's error type, the block device it is given and
  the caller's scratch buffer.

  The trait \<open>AsyncBlockDevice\<close> is implemented outside the crate, so a device is a parameter: a
  record \<open>D\<close> of the trait's methods over an unknown device state. Each method returns the state it
  leaves and whether it was \<open>Done\<close>, \<open>Failed\<close> with the device's own error, or \<open>Panicked\<close>. An
  \<open>await\<close> is a plain call: the crate runs one operation at a time and holds no lock.

  What a caller may rely on is the locale \<open>lawful_device\<close>: a completed read returns the sector's
  bytes and changes nothing, a completed write changes that sector only, a failed write leaves every
  other sector alone. \<open>reliable_device\<close> adds that an access in range completes. The in-memory devices
  of the crate's own tests interpret them in \<open>Mem_Device\<close>.
\<close>

section \<open>Errors\<close>

datatype 'e error =
    Device 'e
  | InvalidSectorSize
  | InvalidPartitionTable
  | PartitionNotFound
  | InvalidGpt
  | InvalidBootSector
  | UnsupportedSectorSize
  | UnsupportedClusterSize
  | Corrupt
  | FileChainInvalid (fci_first_cluster: u32) (fci_cluster_index: u64) (fci_cluster: u32)
      (fci_next_cluster: u32) (fci_fat_lba: u64)
  | BootGeometryCorrupt
  | RootDirectoryCorrupt
  | UpcaseTableCorrupt
  | UpcaseChecksumMismatch (ucm_expected: u32) (ucm_actual: u32)
  | UpcaseDescriptorInvalid (udi_first_cluster: u32) (udi_byte_length: u64)
  | UpcaseChainInvalid (uci_cluster: u32) (uci_next_cluster: u32) (uci_fat_lba: u64) (uci_raw: "u8 list")
  | PathNotFound
  | NotDirectory
  | AlreadyExists
  | NoSpace
  | ReadOnly
  | InvalidPath
  | NameTooLong
  | IsDirectory
  | DirectoryNotEmpty
  | EndOfFile

section \<open>The device trait\<close>

datatype 'e devres = Done | Failed 'e | Panicked

record ('d, 'e) device_ops =
  sector_size_of :: "'d \<Rightarrow> nat"
  sector_count_of :: "'d \<Rightarrow> u64"
  read_sector_of :: "'d \<Rightarrow> u64 \<Rightarrow> u8 list \<Rightarrow> 'e devres \<times> u8 list \<times> 'd"
  write_sector_of :: "'d \<Rightarrow> u64 \<Rightarrow> u8 list \<Rightarrow> 'e devres \<times> 'd"
  write_sectors_of :: "'d \<Rightarrow> u64 \<Rightarrow> u8 list \<Rightarrow> 'e devres \<times> 'd"
  flush_of :: "'d \<Rightarrow> 'e devres \<times> 'd"

text \<open>The trait's default \<open>write_sectors\<close>: one \<open>write_sector\<close> per chunk, stopping at the first failure.\<close>

fun write_chunks ::
    "('d \<Rightarrow> u64 \<Rightarrow> u8 list \<Rightarrow> 'e devres \<times> 'd) \<Rightarrow> 'd \<Rightarrow> u64 \<Rightarrow> u8 list list \<Rightarrow> 'e devres \<times> 'd" where
  "write_chunks write d lba [] = (Done, d)"
| "write_chunks write d lba (c # cs) =
     (case write d lba c of
        (Done, d') \<Rightarrow> write_chunks write d' (lba + 1) cs
      | (r, d') \<Rightarrow> (r, d'))"

definition default_write_sectors ::
    "nat \<Rightarrow> ('d \<Rightarrow> u64 \<Rightarrow> u8 list \<Rightarrow> 'e devres \<times> 'd) \<Rightarrow> 'd \<Rightarrow> u64 \<Rightarrow> u8 list \<Rightarrow> 'e devres \<times> 'd" where
  "default_write_sectors sz write d lba data =
     (if sz = 0 then (Panicked, d) else write_chunks write d lba (chunks_exact sz data))"

section \<open>Scratch and sector access\<close>

record 'd io =
  device :: 'd
  scratch :: "u8 list"

type_synonym ('d, 'x, 'e, 'a) iom = "(('d, 'x) io_scheme, 'e error, 'a) m"

text \<open>\<open>Scratch::require\<close>, always followed by \<open>map_err(|_| Error::InvalidSectorSize)\<close>.\<close>

definition require :: "nat \<Rightarrow> ('d, 'x, 'e, unit) iom" where
  "require sz = bindM (getsM (\<lambda>s. length (scratch s)))
     (\<lambda>len. if len < sz then fail InvalidSectorSize else returnM ())"

text \<open>\<open>Scratch::sector\<close>: \<open>&mut bytes[..sz]\<close>, which panics when the buffer is shorter.\<close>

definition sector :: "nat \<Rightarrow> ('d, 'x, 'e, u8 list) iom" where
  "sector sz = bindM (getsM scratch)
     (\<lambda>bytes. bindM (no_panic_if (sz \<le> length bytes)) (\<lambda>_. returnM (take sz bytes)))"

definition set_sector :: "u8 list \<Rightarrow> ('d, 'x, 'e, unit) iom" where
  "set_sector bs = modifyM (\<lambda>s. s\<lparr>scratch := bs @ drop (length bs) (scratch s)\<rparr>)"

text \<open>\<open>Scratch::sectors\<close>: all complete sectors of the buffer.\<close>

definition sectors :: "nat \<Rightarrow> ('d, 'x, 'e, u8 list) iom" where
  "sectors sz = bindM (getsM scratch)
     (\<lambda>bytes. bindM (no_panic_if (sz \<noteq> 0)) (\<lambda>_. returnM (take (length bytes div sz * sz) bytes)))"

text \<open>
  \<open>scratch.sector(sz)[a..b]\<close> read, \<open>scratch.sector(sz)[off..].copy_from_slice(bs)\<close> and the
  same with an index, with the bounds checks of the slice.
\<close>

definition sector_slice :: "nat \<Rightarrow> nat \<Rightarrow> nat \<Rightarrow> ('d, 'x, 'e, u8 list) iom" where
  "sector_slice sz a b = bindM (sector sz)
     (\<lambda>bs. bindM (no_panic_if (a \<le> b \<and> b \<le> sz)) (\<lambda>_. returnM (slice a b bs)))"

definition sector_byte :: "nat \<Rightarrow> nat \<Rightarrow> ('d, 'x, 'e, u8) iom" where
  "sector_byte sz i = bindM (sector sz)
     (\<lambda>bs. bindM (no_panic_if (i < sz)) (\<lambda>_. returnM (bs ! i)))"

definition sector_copy :: "nat \<Rightarrow> nat \<Rightarrow> u8 list \<Rightarrow> ('d, 'x, 'e, unit) iom" where
  "sector_copy sz off bs = bindM (sector sz)
     (\<lambda>old. bindM (no_panic_if (off + length bs \<le> sz)) (\<lambda>_. set_sector (patch off bs old)))"

definition dev_outcome :: "'e devres \<Rightarrow> 'e error exn + unit" where
  "dev_outcome r = (case r of Done \<Rightarrow> Inr () | Failed e \<Rightarrow> Inl (Error (Device e)) | Panicked \<Rightarrow> Inl Panic)"

text \<open>\<open>device.read_sector(lba, scratch.sector(sz)).await.map_err(Error::Device)?\<close> and its write.\<close>

definition run_read :: "('d, 'e) device_ops \<Rightarrow> u64 \<Rightarrow> nat \<Rightarrow> ('d, 'x, 'e, unit) iom" where
  "run_read D lba sz = (\<lambda>s.
     case read_sector_of D (device s) lba (take sz (scratch s)) of (r, buf, d) \<Rightarrow>
       (dev_outcome r, s\<lparr>device := d, scratch := buf @ drop sz (scratch s)\<rparr>))"

definition read_sector :: "('d, 'e) device_ops \<Rightarrow> u64 \<Rightarrow> nat \<Rightarrow> ('d, 'x, 'e, unit) iom" where
  "read_sector D lba sz = bindM (sector sz) (\<lambda>_. run_read D lba sz)"

definition run_write :: "('d \<Rightarrow> u64 \<Rightarrow> u8 list \<Rightarrow> 'e devres \<times> 'd) \<Rightarrow> u64 \<Rightarrow> u8 list \<Rightarrow> ('d, 'x, 'e, unit) iom" where
  "run_write write lba data = (\<lambda>s.
     case write (device s) lba data of (r, d) \<Rightarrow> (dev_outcome r, s\<lparr>device := d\<rparr>))"

definition write_sector :: "('d, 'e) device_ops \<Rightarrow> u64 \<Rightarrow> nat \<Rightarrow> ('d, 'x, 'e, unit) iom" where
  "write_sector D lba sz = bindM (sector sz) (\<lambda>bs. run_write (write_sector_of D) lba bs)"

definition write_sectors :: "('d, 'e) device_ops \<Rightarrow> u64 \<Rightarrow> u8 list \<Rightarrow> ('d, 'x, 'e, unit) iom" where
  "write_sectors D lba data = run_write (write_sectors_of D) lba data"

definition dev_flush :: "('d, 'e) device_ops \<Rightarrow> ('d, 'x, 'e, unit) iom" where
  "dev_flush D = (\<lambda>s. case flush_of D (device s) of (r, d) \<Rightarrow> (dev_outcome r, s\<lparr>device := d\<rparr>))"

lemma returns_device [returns_intro]:
  "returns (run_read D lba sz)" "returns (run_write write lba data)" "returns (dev_flush D)"
  by (auto simp: returns_def run_read_def run_write_def dev_flush_def dev_outcome_def
      split: prod.splits devres.splits)

lemma returns_io [returns_intro]:
  "returns (require sz)" "returns (sector sz)" "returns (set_sector bs)" "returns (sectors sz)"
  "returns (sector_slice sz a b)" "returns (sector_byte sz i)" "returns (sector_copy sz off bs)"
  "returns (read_sector D lba sz)" "returns (write_sector D lba sz)" "returns (write_sectors D lba data)"
  unfolding require_def sector_def set_sector_def sectors_def sector_slice_def sector_byte_def
    sector_copy_def read_sector_def write_sector_def write_sectors_def
  by (intro returns_intro)+

section \<open>The device contract\<close>

locale lawful_device =
  fixes D :: "('d, 'e) device_ops"
    and media :: "'d \<Rightarrow> u64 \<Rightarrow> u8 list"
    and invar :: "'d \<Rightarrow> bool"
  assumes media_length: "invar d \<Longrightarrow> length (media d lba) = sector_size_of D d"
    and read_frame: "invar d \<Longrightarrow> read_sector_of D d lba buf = (r, buf', d') \<Longrightarrow>
      invar d' \<and> media d' = media d \<and> length buf' = length buf \<and>
      sector_size_of D d' = sector_size_of D d \<and> sector_count_of D d' = sector_count_of D d"
    and read_done: "invar d \<Longrightarrow> length buf = sector_size_of D d \<Longrightarrow>
      read_sector_of D d lba buf = (Done, buf', d') \<Longrightarrow> buf' = media d lba"
    and write_frame: "invar d \<Longrightarrow> length data = sector_size_of D d \<Longrightarrow>
      write_sector_of D d lba data = (r, d') \<Longrightarrow>
      invar d' \<and> (\<forall>l. l \<noteq> lba \<longrightarrow> media d' l = media d l) \<and>
      sector_size_of D d' = sector_size_of D d \<and> sector_count_of D d' = sector_count_of D d"
    and write_done: "invar d \<Longrightarrow> length data = sector_size_of D d \<Longrightarrow>
      write_sector_of D d lba data = (Done, d') \<Longrightarrow> media d' lba = data"
    and flush_frame: "invar d \<Longrightarrow> flush_of D d = (r, d') \<Longrightarrow>
      invar d' \<and> media d' = media d \<and>
      sector_size_of D d' = sector_size_of D d \<and> sector_count_of D d' = sector_count_of D d"

locale reliable_device = lawful_device +
  assumes read_total: "invar d \<Longrightarrow> lba < sector_count_of D d \<Longrightarrow> length buf = sector_size_of D d \<Longrightarrow>
      fst (read_sector_of D d lba buf) = Done"
    and write_total: "invar d \<Longrightarrow> lba < sector_count_of D d \<Longrightarrow> length data = sector_size_of D d \<Longrightarrow>
      fst (write_sector_of D d lba data) = Done"

text \<open>A state in which the device works at sector size \<open>sz\<close> and the scratch buffer holds a sector.\<close>

definition io_ok :: "('d, 'e) device_ops \<Rightarrow> ('d \<Rightarrow> bool) \<Rightarrow> nat \<Rightarrow> ('d, 'x) io_scheme \<Rightarrow> bool" where
  "io_ok D invar sz s \<longleftrightarrow>
     invar (device s) \<and> sector_size_of D (device s) = sz \<and> sz \<le> length (scratch s)"

text \<open>Two states that differ in the device and the scratch contents only.\<close>

definition same_rest :: "('d, 'x) io_scheme \<Rightarrow> ('d, 'x) io_scheme \<Rightarrow> bool" where
  "same_rest s s' \<longleftrightarrow> io.more s' = io.more s \<and> length (scratch s') = length (scratch s)"

definition is_device_error :: "'e error exn \<Rightarrow> bool" where
  "is_device_error e \<longleftrightarrow> (\<exists>d. e = Error (Device d)) \<or> e = Panic"

lemma post_sector [simp]:
  "post (sector sz) s Q E = (if sz \<le> length (scratch s) then Q (take sz (scratch s)) s else E Panic s)"
  by (simp add: sector_def)

lemma post_set_sector [simp]:
  "post (set_sector bs) s Q E = Q () (s\<lparr>scratch := bs @ drop (length bs) (scratch s)\<rparr>)"
  by (simp add: set_sector_def)

lemma post_require [simp]:
  "post (require sz) s Q E =
     (if length (scratch s) < sz then E (Error InvalidSectorSize) s else Q () s)"
  by (simp add: require_def)

lemma post_sector_slice [simp]:
  "post (sector_slice sz a b) s Q E =
     (if sz \<le> length (scratch s) \<and> a \<le> b \<and> b \<le> sz then Q (slice a b (take sz (scratch s))) s
      else E Panic s)"
  by (simp add: sector_slice_def)

lemma post_sector_byte [simp]:
  "post (sector_byte sz i) s Q E =
     (if sz \<le> length (scratch s) \<and> i < sz then Q (take sz (scratch s) ! i) s else E Panic s)"
  by (simp add: sector_byte_def)

lemma post_sector_copy [simp]:
  "post (sector_copy sz off bs) s Q E =
     (if sz \<le> length (scratch s) \<and> off + length bs \<le> sz
      then Q () (s\<lparr>scratch := patch off bs (take sz (scratch s)) @ drop sz (scratch s)\<rparr>)
      else E Panic s)"
  by (simp add: sector_copy_def)

lemma same_rest_refl [simp]: "same_rest s s"
  by (simp add: same_rest_def)

lemma same_rest_trans [trans]: "same_rest s t \<Longrightarrow> same_rest t u \<Longrightarrow> same_rest s u"
  by (simp add: same_rest_def)

lemma io_ok_scratch [simp]:
  "length bs = length (scratch s) \<Longrightarrow> io_ok D invar sz (s\<lparr>scratch := bs\<rparr>) = io_ok D invar sz s"
  by (simp add: io_ok_def)

lemma io_ok_length: "io_ok D invar sz s \<Longrightarrow> sz \<le> length (scratch s)"
  by (simp add: io_ok_def)

section \<open>Sector access under the contract\<close>

context lawful_device
begin

text \<open>What a sector access leaves: the device in its invariant, the rest of the state as it was.\<close>

lemma post_read_sector:
  assumes ok: "io_ok D invar sz s"
  shows "post (read_sector D lba sz) s
    (\<lambda>_ s'. io_ok D invar sz s' \<and> same_rest s s' \<and> media (device s') = media (device s) \<and>
       sector_count_of D (device s') = sector_count_of D (device s) \<and>
       take sz (scratch s') = media (device s) lba)
    (\<lambda>e s'. io_ok D invar sz s' \<and> same_rest s s' \<and> media (device s') = media (device s) \<and>
       sector_count_of D (device s') = sector_count_of D (device s) \<and> is_device_error e)"
proof -
  obtain r buf d where run: "read_sector_of D (device s) lba (take sz (scratch s)) = (r, buf, d)"
    by (metis prod_cases3)
  have len: "length (take sz (scratch s)) = sector_size_of D (device s)" and inv: "invar (device s)"
    using ok by (auto simp: io_ok_def)
  note frame = read_frame [OF inv run]
  have done_buf: "r = Done \<Longrightarrow> buf = media (device s) lba"
    using read_done [OF inv len] run by simp
  show ?thesis
    using ok frame done_buf run len
    by (auto simp: read_sector_def post_def bindM_def sector_def getsM_def no_panic_if_def returnM_def
        throwM_def run_read_def io_ok_def same_rest_def dev_outcome_def is_device_error_def
        split: devres.splits)
qed

lemma post_write_sector:
  assumes ok: "io_ok D invar sz s"
  shows "post (write_sector D lba sz) s
    (\<lambda>_ s'. io_ok D invar sz s' \<and> same_rest s s' \<and> scratch s' = scratch s \<and>
       sector_count_of D (device s') = sector_count_of D (device s) \<and>
       media (device s') = (media (device s))(lba := take sz (scratch s)))
    (\<lambda>e s'. io_ok D invar sz s' \<and> same_rest s s' \<and> scratch s' = scratch s \<and>
       sector_count_of D (device s') = sector_count_of D (device s) \<and>
       (\<forall>l. l \<noteq> lba \<longrightarrow> media (device s') l = media (device s) l) \<and> is_device_error e)"
proof -
  obtain r d where run: "write_sector_of D (device s) lba (take sz (scratch s)) = (r, d)"
    by (metis prod.collapse)
  have len: "length (take sz (scratch s)) = sector_size_of D (device s)" and inv: "invar (device s)"
    using ok by (auto simp: io_ok_def)
  note frame = write_frame [OF inv len run]
  have done_media: "r = Done \<Longrightarrow> media d lba = take sz (scratch s)"
    using write_done [OF inv len] run by simp
  show ?thesis
    using ok frame done_media run len
    by (auto simp: write_sector_def post_def bindM_def sector_def getsM_def no_panic_if_def returnM_def
        throwM_def run_write_def io_ok_def same_rest_def dev_outcome_def is_device_error_def fun_eq_iff
        split: devres.splits)
qed

lemma post_dev_flush:
  assumes ok: "io_ok D invar sz s"
  shows "post (dev_flush D) s
    (\<lambda>_ s'. io_ok D invar sz s' \<and> same_rest s s' \<and> media (device s') = media (device s))
    (\<lambda>e s'. io_ok D invar sz s' \<and> same_rest s s' \<and> media (device s') = media (device s) \<and> is_device_error e)"
proof -
  obtain r d where run: "flush_of D (device s) = (r, d)" by (metis prod.collapse)
  show ?thesis
    using ok run flush_frame [OF _ run]
    by (auto simp: post_def dev_flush_def io_ok_def same_rest_def dev_outcome_def is_device_error_def
        split: devres.splits)
qed

end

text \<open>
  \<open>frame D media invar sz W X\<close> relates a state to one in which the device works as before, only
  sectors in \<open>W\<close> may hold other bytes, and the state moved along \<open>X\<close>, a relation that device and
  scratch do not affect. An operation with \<open>W = {}\<close> and \<open>X = io_same\<close> only reads.
\<close>

definition coarse :: "(('d, 'x) io_scheme \<Rightarrow> ('d, 'x) io_scheme \<Rightarrow> bool) \<Rightarrow> bool" where
  "coarse X \<longleftrightarrow> preorder_on_states X \<and> (\<forall>s s'. io.more s' = io.more s \<longrightarrow> X s s')"

definition io_same :: "('d, 'x) io_scheme \<Rightarrow> ('d, 'x) io_scheme \<Rightarrow> bool" where
  "io_same s s' \<longleftrightarrow> io.more s' = io.more s"

lemma coarse_io_same [steps_intro]: "coarse io_same"
  by (auto simp: coarse_def io_same_def preorder_on_states_def reflp_def transp_def)

lemma coarse_True [steps_intro]: "coarse (\<lambda>_ _. True)"
  by (auto simp: coarse_def preorder_on_states_def reflp_def transp_def)

lemma coarseD: "coarse X \<Longrightarrow> preorder_on_states X" "coarse X \<Longrightarrow> io.more s' = io.more s \<Longrightarrow> X s s'"
  by (auto simp: coarse_def)

definition frame ::
    "('d, 'e) device_ops \<Rightarrow> ('d \<Rightarrow> u64 \<Rightarrow> u8 list) \<Rightarrow> ('d \<Rightarrow> bool) \<Rightarrow> nat \<Rightarrow> u64 set \<Rightarrow>
      (('d, 'x) io_scheme \<Rightarrow> ('d, 'x) io_scheme \<Rightarrow> bool) \<Rightarrow> ('d, 'x) io_scheme \<Rightarrow> ('d, 'x) io_scheme \<Rightarrow> bool" where
  "frame D media invar sz W X s s' \<longleftrightarrow>
     (io_ok D invar sz s \<longrightarrow>
        io_ok D invar sz s' \<and> length (scratch s') = length (scratch s) \<and>
        sector_count_of D (device s') = sector_count_of D (device s) \<and>
        (\<forall>l. l \<notin> W \<longrightarrow> media (device s') l = media (device s) l)) \<and>
     X s s'"

lemma preorder_frame [steps_intro]: "coarse X \<Longrightarrow> preorder_on_states (frame D media invar sz W X)"
  unfolding preorder_on_states_def
proof
  assume "coarse X"
  then have X: "reflp X \<and> transp X" by (simp add: coarse_def preorder_on_states_def)
  then show "reflp (frame D media invar sz W X)" by (simp add: reflp_def frame_def)
  show "transp (frame D media invar sz W X)"
  proof (rule transpI)
    fix s t u
    assume "frame D media invar sz W X s t" "frame D media invar sz W X t u"
    then show "frame D media invar sz W X s u" using X unfolding frame_def by (auto dest: transpD)
  qed
qed

lemma frame_mono:
  "frame D media invar sz W X s s' \<Longrightarrow> W \<subseteq> W' \<Longrightarrow> (\<And>s s'. X s s' \<Longrightarrow> X' s s') \<Longrightarrow> frame D media invar sz W' X' s s'"
  by (auto simp: frame_def)

lemma frame_read_only:
  "frame D media invar sz {} X s s' \<Longrightarrow> io_ok D invar sz s \<Longrightarrow>
    io_ok D invar sz s' \<and> media (device s') = media (device s) \<and>
    sector_count_of D (device s') = sector_count_of D (device s)"
  by (auto simp: frame_def)

lemma steps_scratch [steps_intro]:
  assumes "coarse X"
  shows "steps (frame D media invar sz W X) (require n)"
    and "steps (frame D media invar sz W X) (sector n)"
    and "steps (frame D media invar sz W X) (sectors n)"
    and "steps (frame D media invar sz W X) (sector_slice n a b)"
    and "steps (frame D media invar sz W X) (sector_byte n i)"
    and "steps (frame D media invar sz W X) (sector_copy n off bs)"
    and "length bs = sz \<Longrightarrow> steps (frame D media invar sz W X) (set_sector bs)"
proof -
  note pre = assms coarseD(1) [OF assms] preorder_frame [OF assms, of D media invar sz W]
  show s: "steps (frame D media invar sz W X) (sector n)" for n
    unfolding sector_def by (intro steps_intro pre)
  show "steps (frame D media invar sz W X) (require n)" "steps (frame D media invar sz W X) (sectors n)"
    unfolding require_def sectors_def by (intro steps_intro pre)+
  show "steps (frame D media invar sz W X) (sector_slice n a b)" "steps (frame D media invar sz W X) (sector_byte n i)"
    unfolding sector_slice_def sector_byte_def by (intro steps_intro pre s)+
  show "length bs = sz \<Longrightarrow> steps (frame D media invar sz W X) (set_sector bs)"
    using assms by (auto simp: steps_def set_sector_def modifyM_def frame_def io_ok_def coarse_def)
  show "steps (frame D media invar sz W X) (sector_copy n off bs)"
    unfolding steps_def using assms
    by (auto simp: sector_copy_def sector_def set_sector_def bindM_def getsM_def no_panic_if_def returnM_def
        throwM_def modifyM_def frame_def io_ok_def coarse_def)
qed

context lawful_device
begin

lemma steps_read_sector [steps_intro]:
  assumes "coarse X"
  shows "steps (frame D media invar sz W X) (read_sector D lba sz)"
proof -
  have "frame D media invar sz W X s (snd (read_sector D lba sz s))" for s
  proof -
    have more: "io.more (snd (read_sector D lba sz s)) = io.more s"
      by (auto simp: read_sector_def run_read_def bindM_def sector_def getsM_def no_panic_if_def returnM_def
          throwM_def split: prod.splits)
    show ?thesis
    proof (cases "io_ok D invar sz s")
      case True
      from post_read_sector [OF this, of lba] assms more show ?thesis
        by (auto simp: post_def frame_def same_rest_def coarse_def split: prod.splits sum.splits)
    next
      case False
      then show ?thesis using assms more by (simp add: frame_def coarse_def)
    qed
  qed
  then show ?thesis by (simp add: steps_def)
qed

text \<open>
  \<open>reading s0 s\<close>: since \<open>s0\<close>, a state in order, only reads have happened. A sector read from there
  holds the bytes the medium had in \<open>s0\<close>.
\<close>

definition reading :: "nat \<Rightarrow> ('d, 'x) io_scheme \<Rightarrow> ('d, 'x) io_scheme \<Rightarrow> bool" where
  "reading sz s0 s \<longleftrightarrow> io_ok D invar sz s0 \<and> frame D media invar sz {} io_same s0 s"

lemma reading_refl: "io_ok D invar sz s \<Longrightarrow> reading sz s s"
  by (simp add: reading_def frame_def io_same_def)

lemma readingD:
  assumes "reading sz s0 s"
  shows "io_ok D invar sz s" "media (device s) = media (device s0)" "io.more s = io.more s0"
    "length (scratch s) = length (scratch s0)" "sector_count_of D (device s) = sector_count_of D (device s0)"
    "sz \<le> length (scratch s)"
  using assms by (auto simp: reading_def frame_def io_same_def fun_eq_iff io_ok_def)

lemma reading_steps:
  "reading sz s0 s \<Longrightarrow> steps (frame D media invar sz {} io_same) m \<Longrightarrow> post m s (\<lambda>_. reading sz s0) (\<lambda>_. reading sz s0)"
proof -
  assume r: "reading sz s0 s" and m: "steps (frame D media invar sz {} io_same) m"
  have "reading sz s0 s'" if "frame D media invar sz {} io_same s s'" for s'
    using r that by (auto simp: reading_def frame_def io_same_def)
  then show "post m s (\<lambda>_. reading sz s0) (\<lambda>_. reading sz s0)"
    using steps_post [OF m, of s] by (auto intro: post_mono)
qed

lemma reading_scratch: "reading sz s0 s \<Longrightarrow> length bs = length (scratch s) \<Longrightarrow> reading sz s0 (s\<lparr>scratch := bs\<rparr>)"
  by (auto simp: reading_def frame_def io_same_def io_ok_def)

lemma post_read_reading:
  assumes "reading sz s0 s"
  shows "post (read_sector D lba sz) s
    (\<lambda>_ s'. reading sz s0 s' \<and> take sz (scratch s') = media (device s0) lba)
    (\<lambda>e s'. reading sz s0 s' \<and> is_device_error e)"
proof -
  have ok: "io_ok D invar sz s" and eq: "media (device s) = media (device s0)" using readingD [OF assms] by auto
  have "steps (frame D media invar sz {} io_same) (read_sector D lba sz)" by (intro steps_intro)
  from post_conj [OF reading_steps [OF assms this] post_read_sector [OF ok, of lba]]
  show ?thesis by (rule post_mono) (simp_all add: eq)
qed

lemma post_load:
  assumes "reading sz s0 s"
    and "\<And>s'. reading sz s0 s' \<Longrightarrow> post (f (media (device s0) lba)) s' Q E"
    and "\<And>e s'. reading sz s0 s' \<Longrightarrow> is_device_error e \<Longrightarrow> E e s'"
  shows "post (bindM (read_sector D lba sz) (\<lambda>_. bindM (sector sz) f)) s Q E"
  unfolding post_bindM
  by (rule post_mono [OF post_read_reading [OF assms(1)]]) (use assms(2,3) in \<open>auto dest: readingD(6)\<close>)

lemma post_load_slice:
  assumes "reading sz s0 s" and "a \<le> b" "b \<le> sz"
    and "\<And>s'. reading sz s0 s' \<Longrightarrow> post (f (slice a b (media (device s0) lba))) s' Q E"
    and "\<And>e s'. reading sz s0 s' \<Longrightarrow> is_device_error e \<Longrightarrow> E e s'"
  shows "post (bindM (read_sector D lba sz) (\<lambda>_. bindM (sector_slice sz a b) f)) s Q E"
  unfolding post_bindM
  by (rule post_mono [OF post_read_reading [OF assms(1)]]) (use assms(2-5) in \<open>auto dest: readingD(6)\<close>)

lemma steps_write_sector:
  assumes "coarse X" "lba \<in> W"
  shows "steps (frame D media invar sz W X) (write_sector D lba sz)"
proof -
  have "frame D media invar sz W X s (snd (write_sector D lba sz s))" for s
  proof -
    have more: "io.more (snd (write_sector D lba sz s)) = io.more s"
      by (auto simp: write_sector_def run_write_def bindM_def sector_def getsM_def no_panic_if_def returnM_def
          throwM_def split: prod.splits)
    show ?thesis
    proof (cases "io_ok D invar sz s")
      case True
      from post_write_sector [OF this, of lba] assms more show ?thesis
        by (auto simp: post_def frame_def same_rest_def coarse_def fun_upd_def
            split: prod.splits sum.splits)
    next
      case False
      then show ?thesis using assms more by (simp add: frame_def coarse_def)
    qed
  qed
  then show ?thesis by (simp add: steps_def)
qed

lemma steps_dev_flush [steps_intro]:
  assumes "coarse X"
  shows "steps (frame D media invar sz W X) (dev_flush D)"
proof -
  have "frame D media invar sz W X s (snd (dev_flush D s))" for s
    using assms flush_frame [of "device s"]
    by (auto simp: dev_flush_def frame_def io_ok_def coarse_def split: prod.splits)
  then show ?thesis by (simp add: steps_def)
qed

text \<open>Patching bytes of a loaded sector and writing it back; and the same with the load.\<close>

lemma post_write_back:
  assumes ok: "io_ok D invar sz s" and cur: "take sz (scratch s) = media (device s) lba"
    and fit: "off + length bs \<le> sz"
  shows "post (bindM (sector_copy sz off bs) (\<lambda>_. write_sector D lba sz)) s
    (\<lambda>_ s'. frame D media invar sz {lba} io_same s s' \<and> io_ok D invar sz s' \<and>
       media (device s') = (media (device s))(lba := patch off bs (media (device s) lba)))
    (\<lambda>e s'. frame D media invar sz {lba} io_same s s' \<and> is_device_error e)"
proof -
  let ?b = "patch off bs (take sz (scratch s)) @ drop sz (scratch s)"
  have len: "sz \<le> length (scratch s)" using ok by (simp add: io_ok_def)
  then have pl: "length (patch off bs (take sz (scratch s))) = sz" using fit by simp
  then have ok': "io_ok D invar sz (s\<lparr>scratch := ?b\<rparr>)" using ok len by (simp add: io_ok_def)
  have tk: "take sz (scratch (s\<lparr>scratch := ?b\<rparr>)) = patch off bs (take sz (scratch s))" using pl by simp
  show ?thesis
    unfolding post_bindM post_sector_copy if_P [OF conjI [OF len fit]]
    by (rule post_mono [OF post_write_sector [OF ok', of lba]])
      (use tk cur ok len fit pl in \<open>auto simp: frame_def io_same_def same_rest_def\<close>)
qed

lemma post_update_sector:
  assumes ok: "io_ok D invar sz s" and fit: "off + length bs \<le> sz"
  shows "post (bindM (read_sector D lba sz) (\<lambda>_. bindM (sector_copy sz off bs) (\<lambda>_. write_sector D lba sz))) s
    (\<lambda>_ s'. frame D media invar sz {lba} io_same s s' \<and> io_ok D invar sz s' \<and>
       media (device s') = (media (device s))(lba := patch off bs (media (device s) lba)))
    (\<lambda>e s'. frame D media invar sz {lba} io_same s s' \<and> is_device_error e)"
proof -
  have rest: "post (bindM (sector_copy sz off bs) (\<lambda>_. write_sector D lba sz)) s1
      (\<lambda>_ s'. frame D media invar sz {lba} io_same s s' \<and> io_ok D invar sz s' \<and>
         media (device s') = (media (device s))(lba := patch off bs (media (device s) lba)))
      (\<lambda>e s'. frame D media invar sz {lba} io_same s s' \<and> is_device_error e)"
    if r: "reading sz s s1" and cur: "take sz (scratch s1) = media (device s) lba" for s1
  proof -
    note facts = readingD [OF r]
    have tr: "frame D media invar sz {lba} io_same s s'" if "frame D media invar sz {lba} io_same s1 s'" for s'
      using that facts ok by (auto simp: frame_def io_same_def)
    show ?thesis
      by (rule post_mono [OF post_write_back [OF facts(1) _ fit]]) (use facts cur tr in auto)
  qed
  have err: "frame D media invar sz {lba} io_same s s1" if "reading sz s s1" for s1
    using that by (simp add: reading_def frame_def)
  show ?thesis
    unfolding post_bindM [of "read_sector D lba sz"]
    by (rule post_mono [OF post_read_reading [OF reading_refl [OF ok], of lba]]) (use rest err in blast)+
qed

text \<open>The same from a state reached by reads only.\<close>

lemma post_update_reading:
  assumes r: "reading sz s0 s" and fit: "off + length bs \<le> sz"
  shows "post (bindM (read_sector D lba sz) (\<lambda>_. bindM (sector_copy sz off bs) (\<lambda>_. write_sector D lba sz))) s
    (\<lambda>_ s'. frame D media invar sz {lba} io_same s0 s' \<and> io_ok D invar sz s' \<and>
       media (device s') = (media (device s0))(lba := patch off bs (media (device s0) lba)))
    (\<lambda>e s'. frame D media invar sz {lba} io_same s0 s' \<and> is_device_error e)"
proof -
  have tr: "frame D media invar sz {lba} io_same s0 s'" if "frame D media invar sz {lba} io_same s s'" for s'
    using that r by (auto simp: reading_def frame_def io_same_def)
  show ?thesis
    by (rule post_mono [OF post_update_sector [OF readingD(1) [OF r] fit]])
      (use tr readingD(2) [OF r] in auto)
qed

end

context reliable_device
begin

text \<open>On a device that does not fail in range, an access in range completes.\<close>

lemma post_read_sector_total:
  assumes ok: "io_ok D invar sz s" and lba: "lba < sector_count_of D (device s)"
  shows "post (read_sector D lba sz) s
    (\<lambda>_ s'. io_ok D invar sz s' \<and> same_rest s s' \<and> media (device s') = media (device s) \<and>
       sector_count_of D (device s') = sector_count_of D (device s) \<and>
       take sz (scratch s') = media (device s) lba) (\<lambda>_ _. False)"
proof -
  have "post (read_sector D lba sz) s (\<lambda>_ _. True) (\<lambda>_ _. False)"
    using ok lba read_total [of "device s" lba "take sz (scratch s)"]
    by (auto simp: read_sector_def post_def bindM_def sector_def getsM_def no_panic_if_def returnM_def
        throwM_def run_read_def io_ok_def dev_outcome_def split: devres.splits prod.splits)
  from post_conj [OF post_read_sector [OF ok] this] show ?thesis
    by (rule post_mono) auto
qed

lemma post_write_sector_total:
  assumes ok: "io_ok D invar sz s" and lba: "lba < sector_count_of D (device s)"
  shows "post (write_sector D lba sz) s
    (\<lambda>_ s'. io_ok D invar sz s' \<and> same_rest s s' \<and> scratch s' = scratch s \<and>
       sector_count_of D (device s') = sector_count_of D (device s) \<and>
       media (device s') = (media (device s))(lba := take sz (scratch s))) (\<lambda>_ _. False)"
proof -
  have "post (write_sector D lba sz) s (\<lambda>_ _. True) (\<lambda>_ _. False)"
    using ok lba write_total [of "device s" lba "take sz (scratch s)"]
    by (auto simp: write_sector_def post_def bindM_def sector_def getsM_def no_panic_if_def returnM_def
        throwM_def run_write_def io_ok_def dev_outcome_def split: devres.splits prod.splits)
  from post_conj [OF post_write_sector [OF ok] this] show ?thesis
    by (rule post_mono) auto
qed

end

end
