(* ===== verification/Mem_Device.thy ===== *)
theory Mem_Device
  imports Block_Device
begin

text \<open>
  The in-memory devices of the crate's tests (\<open>tests.rs\<close>): \<open>mem_ops\<close> is the plain array of 512-byte
  sectors of \<open>mounts_minimal_gpt_exfat\<close>, \<open>flaky_ops\<close> the one of \<open>mounts_minimal_mbr_exfat\<close>, whose
  writes fail once a budget is used up. They satisfy the device contract, the first one also its
  reliable extension, so every fact proved under the contract holds for a device that exists. An
  access outside the array panics, as the index does. The default \<open>write_sectors\<close> is inherited.
\<close>

section \<open>The plain array\<close>

definition mem_read :: "u8 list list \<Rightarrow> u64 \<Rightarrow> u8 list \<Rightarrow> unit devres \<times> u8 list \<times> u8 list list" where
  "mem_read m lba out =
     (if unat lba < length m \<and> length (m ! unat lba) = length out then (Done, m ! unat lba, m)
      else (Panicked, out, m))"

definition mem_write :: "u8 list list \<Rightarrow> u64 \<Rightarrow> u8 list \<Rightarrow> unit devres \<times> u8 list list" where
  "mem_write m lba data =
     (if unat lba < length m \<and> length (m ! unat lba) = length data then (Done, m[unat lba := data])
      else (Panicked, m))"

definition mem_ops :: "(u8 list list, unit) device_ops" where
  "mem_ops = \<lparr>sector_size_of = (\<lambda>_. 512), sector_count_of = (\<lambda>m. word_of_nat (length m)),
     read_sector_of = mem_read, write_sector_of = mem_write,
     write_sectors_of = default_write_sectors 512 mem_write, flush_of = (\<lambda>m. (Done, m))\<rparr>"

definition mem_ok :: "u8 list list \<Rightarrow> bool" where
  "mem_ok m \<longleftrightarrow> length m < 2 ^ 64 \<and> (\<forall>b \<in> set m. length b = 512)"

definition mem_media :: "u8 list list \<Rightarrow> u64 \<Rightarrow> u8 list" where
  "mem_media m lba = (if unat lba < length m then m ! unat lba else replicate 512 0)"

lemma mem_ops_simps [simp]:
  "sector_size_of mem_ops m = 512" "sector_count_of mem_ops m = word_of_nat (length m)"
  "read_sector_of mem_ops = mem_read" "write_sector_of mem_ops = mem_write"
  "flush_of mem_ops m = (Done, m)"
  by (simp_all add: mem_ops_def)

lemma mem_ok_update: "mem_ok m \<Longrightarrow> length b = 512 \<Longrightarrow> mem_ok (m[i := b])"
  by (auto simp: mem_ok_def dest!: set_update_subset_insert [THEN subsetD])

lemma mem_media_length: "mem_ok m \<Longrightarrow> length (mem_media m lba) = 512"
  by (simp add: mem_ok_def mem_media_def)

lemma mem_media_update:
  "l \<noteq> lba \<Longrightarrow> mem_media (m[unat lba := b]) l = mem_media m l"
  "unat lba < length m \<Longrightarrow> mem_media (m[unat lba := b]) lba = b"
  by (auto simp: mem_media_def nth_list_update word_unat_eq_iff)

interpretation mem: reliable_device mem_ops mem_media mem_ok
proof unfold_locales
  fix d :: "u8 list list" and lba data r d'
  assume d: "mem_ok d" and len: "length data = sector_size_of mem_ops d"
    and run: "write_sector_of mem_ops d lba data = (r, d')"
  show "mem_ok d' \<and> (\<forall>l. l \<noteq> lba \<longrightarrow> mem_media d' l = mem_media d l) \<and>
      sector_size_of mem_ops d' = sector_size_of mem_ops d \<and>
      sector_count_of mem_ops d' = sector_count_of mem_ops d"
    using d len run by (auto simp: mem_write_def mem_media_update mem_ok_update split: if_splits)
qed (auto simp: mem_media_length mem_read_def mem_write_def mem_media_def mem_media_update mem_ok_def
    unat_of_nat word_less_nat_alt split: if_splits)

section \<open>The array with a write budget\<close>

record flaky =
  flaky_sectors :: "u8 list list"
  writes_before_error :: "nat option"

definition flaky_read :: "flaky \<Rightarrow> u64 \<Rightarrow> u8 list \<Rightarrow> unit devres \<times> u8 list \<times> flaky" where
  "flaky_read m lba out = (case mem_read (flaky_sectors m) lba out of (r, buf, _) \<Rightarrow> (r, buf, m))"

definition flaky_write :: "flaky \<Rightarrow> u64 \<Rightarrow> u8 list \<Rightarrow> unit devres \<times> flaky" where
  "flaky_write m lba data =
     (case writes_before_error m of
        Some 0 \<Rightarrow> (Failed (), m)
      | left \<Rightarrow> (case mem_write (flaky_sectors m) lba data of (r, secs) \<Rightarrow>
          (r, m\<lparr>flaky_sectors := secs, writes_before_error := map_option (\<lambda>n. n - 1) left\<rparr>)))"

definition flaky_ops :: "(flaky, unit) device_ops" where
  "flaky_ops = \<lparr>sector_size_of = (\<lambda>_. 512), sector_count_of = (\<lambda>_. 4097),
     read_sector_of = flaky_read, write_sector_of = flaky_write,
     write_sectors_of = default_write_sectors 512 flaky_write, flush_of = (\<lambda>m. (Done, m))\<rparr>"

lemma flaky_ops_simps [simp]:
  "sector_size_of flaky_ops m = 512" "sector_count_of flaky_ops m = 4097"
  "read_sector_of flaky_ops = flaky_read" "write_sector_of flaky_ops = flaky_write"
  "flush_of flaky_ops m = (Done, m)"
  by (simp_all add: flaky_ops_def)

interpretation flaky: lawful_device flaky_ops "\<lambda>m. mem_media (flaky_sectors m)" "\<lambda>m. mem_ok (flaky_sectors m)"
proof unfold_locales
  fix d :: flaky and lba buf r buf' d'
  assume "mem_ok (flaky_sectors d)" "read_sector_of flaky_ops d lba buf = (r, buf', d')"
  then show "mem_ok (flaky_sectors d') \<and> mem_media (flaky_sectors d') = mem_media (flaky_sectors d) \<and>
      length buf' = length buf \<and> sector_size_of flaky_ops d' = sector_size_of flaky_ops d \<and>
      sector_count_of flaky_ops d' = sector_count_of flaky_ops d"
    by (auto simp: flaky_read_def mem_read_def split: if_splits)
next
  fix d :: flaky and lba buf buf' d'
  assume "mem_ok (flaky_sectors d)" "read_sector_of flaky_ops d lba buf = (Done, buf', d')"
  then show "buf' = mem_media (flaky_sectors d) lba"
    by (auto simp: flaky_read_def mem_read_def mem_media_def split: if_splits)
next
  fix d :: flaky and lba data r d'
  assume "mem_ok (flaky_sectors d)" "length data = sector_size_of flaky_ops d"
    "write_sector_of flaky_ops d lba data = (r, d')"
  then show "mem_ok (flaky_sectors d') \<and>
      (\<forall>l. l \<noteq> lba \<longrightarrow> mem_media (flaky_sectors d') l = mem_media (flaky_sectors d) l) \<and>
      sector_size_of flaky_ops d' = sector_size_of flaky_ops d \<and>
      sector_count_of flaky_ops d' = sector_count_of flaky_ops d"
    by (auto simp: flaky_write_def mem_write_def mem_media_update mem_ok_update
        split: if_splits option.splits nat.splits)
next
  fix d :: flaky and lba data d'
  assume "write_sector_of flaky_ops d lba data = (Done, d')"
  then show "mem_media (flaky_sectors d') lba = data"
    by (auto simp: flaky_write_def mem_write_def mem_media_update split: if_splits option.splits nat.splits)
qed (auto simp: mem_media_length)

end
