(* ===== verification/Geometry.thy ===== *)
theory Geometry
  imports Prelude
begin

text \<open>
  \<open>core/geometry.rs\<close>: the partition, the allocation bitmap and UpCase descriptors, and the volume
  geometry with its two address translations, from a cluster number to a sector and from a byte of
  the FAT to a sector. The arithmetic is the code's, on words; \<open>wf_geometry\<close> is what the boot sector
  parser guarantees (proved in \<open>Boot\<close>), and under it no sum wraps, clusters occupy disjoint
  sector ranges inside the partition and the FAT lies before all of them.
\<close>

section \<open>Descriptors\<close>

record Partition =
  first_lba :: u64
  sector_count :: u64

record AllocationBitmap =
  ab_first_cluster :: u32
  ab_byte_length :: u64

record UpCaseTable =
  ut_checksum :: u32
  ut_first_cluster :: u32
  ut_byte_length :: u64

record Geometry =
  partition_of :: Partition
  bytes_per_sector :: u16
  sectors_per_cluster :: u32
  fat_offset :: u32
  fat_length :: u32
  number_of_fats :: u8
  active_fat :: u8
  cluster_heap_offset :: u32
  cluster_count :: u32
  root_cluster :: u32

definition position_for :: "AllocationBitmap \<Rightarrow> u32 \<Rightarrow> (u64 \<times> u8) option" where
  "position_for bm cluster =
     (case checked_sub cluster 2 of
        None \<Rightarrow> None
      | Some bt \<Rightarrow>
          let byte = ucast (bt div 8) :: u64
          in if byte < ab_byte_length bm then Some (byte, ucast (bt mod 8)) else None)"

definition bytes_per_cluster :: "Geometry \<Rightarrow> u32" where
  "bytes_per_cluster g = ucast (bytes_per_sector g) * sectors_per_cluster g"

text \<open>\<open>(2..cluster_count.saturating_add(2)).contains(&cluster)\<close>\<close>

definition in_heap :: "Geometry \<Rightarrow> u32 \<Rightarrow> bool" where
  "in_heap g cluster \<longleftrightarrow> 2 \<le> cluster \<and> cluster < saturating_add (cluster_count g) 2"

definition cluster_lba :: "Geometry \<Rightarrow> u32 \<Rightarrow> u64 option" where
  "cluster_lba g cluster =
     (if \<not> in_heap g cluster then None
      else Some (first_lba (partition_of g) + ucast (cluster_heap_offset g)
        + ucast (cluster - 2) * ucast (sectors_per_cluster g)))"

definition fat_lba_for_byte :: "Geometry \<Rightarrow> u64 \<Rightarrow> u64 option" where
  "fat_lba_for_byte g byte =
     Option.bind (checked_add (first_lba (partition_of g)) (ucast (fat_offset g))) (\<lambda>base.
     Option.bind (checked_mul (ucast (active_fat g)) (ucast (fat_length g))) (\<lambda>skip.
     Option.bind (checked_add base skip) (\<lambda>fat_start.
     checked_add fat_start (byte div ucast (bytes_per_sector g)))))"

section \<open>Well-formed geometries\<close>

definition wf_geometry :: "Geometry \<Rightarrow> bool" where
  "wf_geometry g \<longleftrightarrow>
     unat (bytes_per_sector g) \<in> {512, 1024, 2048, 4096} \<and>
     (\<exists>k. unat (sectors_per_cluster g) = 2 ^ k) \<and>
     unat (bytes_per_sector g) * unat (sectors_per_cluster g) \<le> 2 ^ 25 \<and>
     24 \<le> unat (fat_offset g) \<and>
     unat (active_fat g) < unat (number_of_fats g) \<and> unat (number_of_fats g) \<le> 2 \<and>
     (unat (cluster_count g) + 2) * 4 \<le> unat (fat_length g) * unat (bytes_per_sector g) \<and>
     unat (fat_offset g) + unat (number_of_fats g) * unat (fat_length g) \<le> unat (cluster_heap_offset g) \<and>
     unat (cluster_heap_offset g) + unat (cluster_count g) * unat (sectors_per_cluster g)
       \<le> unat (sector_count (partition_of g)) \<and>
     0 < unat (cluster_count g) \<and> in_heap g (root_cluster g) \<and>
     unat (first_lba (partition_of g)) + unat (sector_count (partition_of g)) < 2 ^ 64"

lemma wf_geometryD:
  assumes "wf_geometry g"
  shows "unat (bytes_per_sector g) \<in> {512, 1024, 2048, 4096}"
    and "0 < unat (sectors_per_cluster g)"
    and "unat (bytes_per_sector g) * unat (sectors_per_cluster g) \<le> 2 ^ 25"
    and "unat (active_fat g) < unat (number_of_fats g)"
    and "(unat (cluster_count g) + 2) * 4 \<le> unat (fat_length g) * unat (bytes_per_sector g)"
    and "unat (fat_offset g) + unat (number_of_fats g) * unat (fat_length g) \<le> unat (cluster_heap_offset g)"
    and "unat (cluster_heap_offset g) + unat (cluster_count g) * unat (sectors_per_cluster g)
           \<le> unat (sector_count (partition_of g))"
    and "unat (first_lba (partition_of g)) + unat (sector_count (partition_of g)) < 2 ^ 64"
    and "24 \<le> unat (fat_offset g)"
  using assms by (auto simp: wf_geometry_def)

lemma in_heapD: "in_heap g c \<Longrightarrow> 2 \<le> unat c \<and> unat c < unat (cluster_count g) + 2"
  using unat_u32_lt [of c]
  by (auto simp: in_heap_def saturating_add_def word_le_nat_alt word_less_nat_alt unat_add_small
      simp del: unat_u32_lt split: if_splits)

lemma unat_minus_2: "2 \<le> c \<Longrightarrow> unat (c - 2) = unat c - 2" for c :: u32
  by (simp add: unat_sub word_le_nat_alt)

lemma unat_bytes_per_cluster:
  "wf_geometry g \<Longrightarrow> unat (bytes_per_cluster g) = unat (bytes_per_sector g) * unat (sectors_per_cluster g)"
  using wf_geometryD(3) [of g] by (simp add: bytes_per_cluster_def unat_mult_small)

text \<open>The sector of a valid cluster, as a number: no term of the sum wraps.\<close>

lemma cluster_index_fits:
  assumes "wf_geometry g" "in_heap g c" "i < unat (sectors_per_cluster g)"
  shows "(unat c - 2) * unat (sectors_per_cluster g) + i < unat (cluster_count g) * unat (sectors_per_cluster g)"
proof -
  have "unat c - 2 < unat (cluster_count g)" using in_heapD [OF assms(2)] by linarith
  then have "Suc (unat c - 2) * unat (sectors_per_cluster g) \<le> unat (cluster_count g) * unat (sectors_per_cluster g)"
    by (intro mult_le_mono1) simp
  with assms(3) show ?thesis by simp
qed

lemma cluster_lba_Some:
  assumes wf: "wf_geometry g" and c: "in_heap g c"
  obtains l where "cluster_lba g c = Some l"
    and "unat l = unat (first_lba (partition_of g)) + unat (cluster_heap_offset g)
           + (unat c - 2) * unat (sectors_per_cluster g)"
proof -
  define spc h f where "spc = unat (sectors_per_cluster g)" and "h = unat (cluster_heap_offset g)"
    and "f = unat (first_lba (partition_of g))"
  have fit: "(unat c - 2) * spc < unat (cluster_count g) * spc"
    using cluster_index_fits [OF wf c, of 0] wf_geometryD(2) [OF wf] by (simp add: spc_def)
  have "h + unat (cluster_count g) * spc \<le> unat (sector_count (partition_of g))"
    "f + unat (sector_count (partition_of g)) < 18446744073709551616"
    using wf_geometryD(7,8) [OF wf] by (simp_all add: spc_def h_def f_def)
  with fit have total: "f + h + (unat c - 2) * spc < 18446744073709551616" by linarith
  then have p: "(unat c - 2) * spc < 18446744073709551616" and fh: "f + h < 18446744073709551616"
    by linarith+
  have c2: "unat (ucast (c - 2) :: u64) = unat c - 2"
    using c by (simp add: in_heap_def unat_minus_2)
  have prod: "unat (ucast (c - 2) * ucast (sectors_per_cluster g) :: u64) = (unat c - 2) * spc"
    using p c2 by (subst unat_mult_small) (simp_all add: spc_def)
  have sum1: "unat (first_lba (partition_of g) + ucast (cluster_heap_offset g)) = f + h"
    using fh by (subst unat_add_small) (simp_all add: f_def h_def)
  have "unat (first_lba (partition_of g) + ucast (cluster_heap_offset g)
      + ucast (c - 2) * ucast (sectors_per_cluster g)) = f + h + (unat c - 2) * spc"
    using total sum1 prod by (subst unat_add_small) simp_all
  then show ?thesis using c that by (simp add: cluster_lba_def f_def h_def spc_def)
qed

lemma cluster_sector:
  assumes wf: "wf_geometry g" and l: "cluster_lba g c = Some l" and i: "i < unat (sectors_per_cluster g)"
  shows "unat (l + of_usize i) = unat (first_lba (partition_of g)) + unat (cluster_heap_offset g)
           + (unat c - 2) * unat (sectors_per_cluster g) + i"
proof -
  have c: "in_heap g c" using l by (simp add: cluster_lba_def split: if_splits)
  from cluster_lba_Some [OF wf c] l have l': "unat l = unat (first_lba (partition_of g))
      + unat (cluster_heap_offset g) + (unat c - 2) * unat (sectors_per_cluster g)"
    by (metis option.inject)
  have "i < 4294967296" using i unat_u32_lt [of "sectors_per_cluster g"] by linarith
  then have i': "unat (of_usize i) = i" by (simp add: unat_of_usize)
  show ?thesis
    using cluster_index_fits [OF wf c i] wf_geometryD(7,8) [OF wf] l' i'
    by (subst unat_add_small) simp_all
qed

text \<open>The sectors of a cluster lie in the cluster heap, so inside the partition.\<close>

lemma cluster_sector_bounds:
  assumes wf: "wf_geometry g" and l: "cluster_lba g c = Some l" and i: "i < unat (sectors_per_cluster g)"
  shows "unat (first_lba (partition_of g)) + unat (cluster_heap_offset g) \<le> unat (l + of_usize i)"
    and "unat (l + of_usize i) < unat (first_lba (partition_of g)) + unat (sector_count (partition_of g))"
proof -
  have c: "in_heap g c" using l by (simp add: cluster_lba_def split: if_splits)
  note s = cluster_sector [OF wf l i] and f = cluster_index_fits [OF wf c i]
  show "unat (first_lba (partition_of g)) + unat (cluster_heap_offset g) \<le> unat (l + of_usize i)"
    using s by simp
  show "unat (l + of_usize i) < unat (first_lba (partition_of g)) + unat (sector_count (partition_of g))"
    using s f wf_geometryD(7) [OF wf] by linarith
qed

text \<open>Sectors of different clusters, and different sectors of one cluster, have different addresses.\<close>

lemma cluster_sector_inj:
  assumes wf: "wf_geometry g" and l: "cluster_lba g c = Some l" "cluster_lba g c' = Some l'"
    and i: "i < unat (sectors_per_cluster g)" "j < unat (sectors_per_cluster g)"
    and eq: "l + of_usize i = l' + of_usize j"
  shows "c = c' \<and> i = j"
proof -
  define spc where "spc = unat (sectors_per_cluster g)"
  have "(unat c - 2) * spc + i = (unat c' - 2) * spc + j"
    using cluster_sector [OF wf l(1) i(1)] cluster_sector [OF wf l(2) i(2)] eq by (simp add: spc_def)
  moreover have "i < spc" "j < spc" using i by (simp_all add: spc_def)
  ultimately have eqs: "unat c - 2 = unat c' - 2 \<and> i = j"
    by (rule quotient_remainder_inj)
  moreover have "2 \<le> unat c" "2 \<le> unat c'"
    using l in_heapD by (auto simp: cluster_lba_def split: if_splits)
  ultimately have "unat c = unat c'" by linarith
  with eqs show ?thesis by (simp add: word_unat_eq_iff)
qed

lemma position_for_bit: "position_for bm c = Some (byte, bt) \<Longrightarrow> unat bt < 8"
proof -
  assume "position_for bm c = Some (byte, bt)"
  then have "bt = ucast ((c - 2) mod 8)"
    by (auto simp: position_for_def checked_sub_def Let_def split: if_splits)
  moreover have "unat ((c - 2) mod 8) < 8" by (simp add: unat_mod)
  ultimately show ?thesis by (simp add: unat_ucast_down_small)
qed

text \<open>The FAT entry of a cluster: its sector and its offset in the sector.\<close>

definition fat_byte :: "u32 \<Rightarrow> u64" where
  "fat_byte cluster = ucast cluster * 4"

lemma unat_fat_byte: "unat (fat_byte c) = unat c * 4"
  using unat_u32_lt [of c] unfolding fat_byte_def
  by (subst unat_mult_small) (simp_all del: unat_u32_lt)

lemma fat_entry_fits:
  fixes c :: u32
  assumes wf: "wf_geometry g" and c: "unat c < unat (cluster_count g) + 2"
  shows "unat c * 4 div unat (bytes_per_sector g) < unat (fat_length g)"
proof -
  have "unat c * 4 < (unat (cluster_count g) + 2) * 4"
    using c by (rule mult_strict_right_mono) simp
  also have "\<dots> \<le> unat (fat_length g) * unat (bytes_per_sector g)"
    by (rule wf_geometryD(5) [OF wf])
  finally have "unat c * 4 < unat (fat_length g) * unat (bytes_per_sector g)" .
  then show ?thesis by (rule less_mult_imp_div_less)
qed

lemma fat_lba_Some:
  assumes wf: "wf_geometry g" and c: "unat c < unat (cluster_count g) + 2"
  obtains l where "fat_lba_for_byte g (fat_byte c) = Some l"
    and "unat l = unat (first_lba (partition_of g)) + unat (fat_offset g)
           + unat (active_fat g) * unat (fat_length g) + unat c * 4 div unat (bytes_per_sector g)"
    and "unat l < unat (first_lba (partition_of g)) + unat (cluster_heap_offset g)"
proof -
  define f fo a fl b where defs: "f = unat (first_lba (partition_of g))" "fo = unat (fat_offset g)"
    "a = unat (active_fat g)" "fl = unat (fat_length g)" "b = unat c * 4 div unat (bytes_per_sector g)"
  have "b < fl" using fat_entry_fits [OF wf c] by (simp add: defs)
  moreover have "Suc a * fl \<le> unat (number_of_fats g) * fl"
    using wf_geometryD(4) [OF wf] by (intro mult_le_mono1) (simp add: defs)
  ultimately have fat: "fo + a * fl + b < unat (cluster_heap_offset g)"
    using wf_geometryD(6) [OF wf] by (simp add: defs)
  have all: "f + unat (cluster_heap_offset g) < 2 ^ 64"
    using wf_geometryD(7,8) [OF wf] by (simp add: defs)
  have q: "unat (fat_byte c div ucast (bytes_per_sector g)) = b"
    by (simp add: unat_div unat_fat_byte defs)
  have ma: "a * fl < 18446744073709551616" and fa: "f + fo < 18446744073709551616"
    and fam: "f + fo + a * fl < 18446744073709551616" and all': "f + fo + a * fl + b < 18446744073709551616"
    using fat all by simp_all
  have 1: "unat (first_lba (partition_of g) + ucast (fat_offset g)) = f + fo"
    using fa by (subst unat_add_small) (simp_all add: defs)
  have 2: "unat (ucast (active_fat g) * ucast (fat_length g) :: u64) = a * fl"
    using ma by (subst unat_mult_small) (simp_all add: defs)
  have 3: "unat (first_lba (partition_of g) + ucast (fat_offset g)
      + ucast (active_fat g) * ucast (fat_length g)) = f + fo + a * fl"
    using fam 1 2 by (subst unat_add_small) simp_all
  have 4: "unat (first_lba (partition_of g) + ucast (fat_offset g)
      + ucast (active_fat g) * ucast (fat_length g) + fat_byte c div ucast (bytes_per_sector g))
      = f + fo + a * fl + b"
    using all' 3 q by (subst unat_add_small) simp_all
  have "fat_lba_for_byte g (fat_byte c) = Some (first_lba (partition_of g) + ucast (fat_offset g)
      + ucast (active_fat g) * ucast (fat_length g) + fat_byte c div ucast (bytes_per_sector g))"
    using fa ma fam all' 1 2 3 q by (simp add: fat_lba_for_byte_def checked_add_def checked_mul_def defs)
  from that [OF this] show ?thesis using 4 fat unfolding defs by linarith
qed

lemma fat_offset_fits:
  fixes c :: u32
  assumes "wf_geometry g"
  shows "unat c * 4 mod unat (bytes_per_sector g) + 4 \<le> unat (bytes_per_sector g)"
proof -
  have b: "unat (bytes_per_sector g) \<in> {512, 1024, 2048, 4096}" by (rule wf_geometryD(1) [OF assms])
  then have d: "4 dvd unat (bytes_per_sector g)" and pos: "0 < unat (bytes_per_sector g)" by auto
  from d obtain k where k: "unat (bytes_per_sector g) = 4 * k" by (rule dvdE)
  then have "unat c * 4 mod unat (bytes_per_sector g) = 4 * (unat c mod k)"
    by (simp only: k mult.commute [of "unat c" 4] mult_mod_right)
  moreover have "unat c mod k < k" using k pos by simp
  ultimately show ?thesis using k by simp
qed

text \<open>Two entries of one FAT sector do not overlap.\<close>

lemma fat_entry_disjoint:
  fixes c c' :: u32
  assumes wf: "wf_geometry g" and ne: "c \<noteq> c'"
    and same: "unat c * 4 div unat (bytes_per_sector g) = unat c' * 4 div unat (bytes_per_sector g)"
  shows "unat c * 4 mod unat (bytes_per_sector g) + 4 \<le> unat c' * 4 mod unat (bytes_per_sector g) \<or>
    unat c' * 4 mod unat (bytes_per_sector g) + 4 \<le> unat c * 4 mod unat (bytes_per_sector g)"
proof -
  have "unat c \<noteq> unat c'" using ne by (simp add: word_unat_eq_iff)
  then consider "unat c * 4 + 4 \<le> unat c' * 4" | "unat c' * 4 + 4 \<le> unat c * 4" by linarith
  then show ?thesis
    by cases (blast intro: mod_gap same same [symmetric])+
qed

section \<open>Properties\<close>

text \<open>The geometry of the crate's test \<open>active_fat_offsets_all_cluster_chain_accesses\<close>.\<close>

definition test_geometry :: Geometry where
  "test_geometry = \<lparr>partition_of = \<lparr>first_lba = 1, sector_count = 8192\<rparr>, bytes_per_sector = 512,
     sectors_per_cluster = 1, fat_offset = 24, fat_length = 8, number_of_fats = 2, active_fat = 1,
     cluster_heap_offset = 40, cluster_count = 1000, root_cluster = 2\<rparr>"

lemma wf_test_geometry: "wf_geometry test_geometry"
  by (auto simp: wf_geometry_def test_geometry_def in_heap_def saturating_add_def intro: exI [of _ 0])

text \<open>
  C32: In a well-formed geometry every sector of a valid cluster lies in the cluster heap of the
  partition, and no two clusters share a sector: the pair of cluster and sector index is determined
  by the address.
\<close>
theorem cluster_sectors_disjoint:
  assumes "wf_geometry g" "cluster_lba g c = Some l" "i < unat (sectors_per_cluster g)"
  shows "unat (first_lba (partition_of g)) + unat (cluster_heap_offset g) \<le> unat (l + of_usize i) \<and>
    unat (l + of_usize i) < unat (first_lba (partition_of g)) + unat (sector_count (partition_of g)) \<and>
    (\<forall>c' l' j. cluster_lba g c' = Some l' \<longrightarrow> j < unat (sectors_per_cluster g) \<longrightarrow>
       l' + of_usize j = l + of_usize i \<longrightarrow> c' = c \<and> j = i)"
  using cluster_sector_bounds [OF assms] cluster_sector_inj [OF assms(1) _ assms(2) _ assms(3)] by blast

theorem cluster_sectors_disjoint_witness:
  "cluster_lba test_geometry 7 = Some 46 \<and> unat ((46 :: u64) + of_usize 0) < 1 + 8192"
proof -
  have l: "cluster_lba test_geometry 7 = Some 46"
    by (simp add: cluster_lba_def in_heap_def test_geometry_def saturating_add_def)
  have i: "0 < unat (sectors_per_cluster test_geometry)" by (simp add: test_geometry_def)
  show ?thesis
    using cluster_sectors_disjoint [OF wf_test_geometry l i, THEN conjunct2, THEN conjunct1] l
    by (simp add: test_geometry_def)
qed

text \<open>
  C33: The FAT entry of every cluster number the geometry admits is found, in the FAT that
  \<open>ActiveFat\<close> selects, whole within one sector, and before the cluster heap, so a FAT access never
  touches file data.
\<close>
theorem fat_entry_in_active_fat:
  fixes c :: u32
  assumes "wf_geometry g" "unat c < unat (cluster_count g) + 2"
  shows "\<exists>l. fat_lba_for_byte g (fat_byte c) = Some l \<and>
    unat (first_lba (partition_of g)) + unat (fat_offset g) + unat (active_fat g) * unat (fat_length g) \<le> unat l \<and>
    unat l < unat (first_lba (partition_of g)) + unat (fat_offset g)
      + (unat (active_fat g) + 1) * unat (fat_length g) \<and>
    unat l < unat (first_lba (partition_of g)) + unat (cluster_heap_offset g) \<and>
    unat (fat_byte c) mod unat (bytes_per_sector g) + 4 \<le> unat (bytes_per_sector g)"
proof -
  obtain l where l: "fat_lba_for_byte g (fat_byte c) = Some l"
    "unat l = unat (first_lba (partition_of g)) + unat (fat_offset g)
       + unat (active_fat g) * unat (fat_length g) + unat c * 4 div unat (bytes_per_sector g)"
    "unat l < unat (first_lba (partition_of g)) + unat (cluster_heap_offset g)"
    by (rule fat_lba_Some [OF assms])
  have "unat c * 4 div unat (bytes_per_sector g) < unat (fat_length g)"
    by (rule fat_entry_fits [OF assms])
  with l(2) have "unat (first_lba (partition_of g)) + unat (fat_offset g)
      + unat (active_fat g) * unat (fat_length g) \<le> unat l"
    "unat l < unat (first_lba (partition_of g)) + unat (fat_offset g)
      + (unat (active_fat g) + 1) * unat (fat_length g)"
    by (simp_all add: distrib_right)
  with l(1,3) show ?thesis
    using fat_offset_fits [OF assms(1), of c] unfolding unat_fat_byte by blast
qed

theorem fat_entry_in_active_fat_witness:
  "\<exists>l. fat_lba_for_byte test_geometry (fat_byte 130) = Some l \<and> 33 \<le> unat l \<and> unat l < 41"
  using fat_entry_in_active_fat [OF wf_test_geometry, of 130] by (auto simp: test_geometry_def)

text \<open>
  C34: \<open>position_for\<close> numbers the allocation bitmap exactly as exFAT does: it answers byte and bit
  when the cluster is the \<open>(8 * byte + bit)\<close>-th after the two reserved numbers and the byte is in
  the bitmap, and \<open>None\<close> in every other case.
\<close>
theorem position_for_iff:
  "position_for bm c = Some (byte, bt) \<longleftrightarrow>
     unat c = 8 * unat byte + unat bt + 2 \<and> unat bt < 8 \<and> byte < ab_byte_length bm"
proof (cases "2 \<le> unat c")
  case True
  then have le: "2 \<le> c" by (simp add: word_le_nat_alt)
  have d: "unat (ucast ((c - 2) div 8) :: u64) = (unat c - 2) div 8"
    by (simp add: unat_div unat_minus_2 [OF le])
  have "unat ((c - 2) mod 8) = (unat c - 2) mod 8"
    by (simp add: unat_mod unat_minus_2 [OF le])
  then have m: "unat (ucast ((c - 2) mod 8) :: u8) = (unat c - 2) mod 8"
    by (subst unat_ucast_down_small) simp_all
  have "position_for bm c = Some (byte, bt) \<longleftrightarrow> byte = ucast ((c - 2) div 8) \<and>
      bt = ucast ((c - 2) mod 8) \<and> byte < ab_byte_length bm"
    using le by (auto simp: position_for_def checked_sub_def Let_def)
  also have "\<dots> \<longleftrightarrow> unat byte = (unat c - 2) div 8 \<and> unat bt = (unat c - 2) mod 8 \<and> byte < ab_byte_length bm"
    by (simp only: word_unat_eq_iff d m)
  also have "\<dots> \<longleftrightarrow> unat c = 8 * unat byte + unat bt + 2 \<and> unat bt < 8 \<and> byte < ab_byte_length bm"
    using True by (auto simp: algebra_simps)
  finally show ?thesis .
next
  case False
  then show ?thesis by (auto simp: position_for_def checked_sub_def word_le_nat_alt)
qed

end
