(* ===== verification/Codec.thy ===== *)
theory Codec
  imports Block_Device
begin

text \<open>
  \<open>directory/codec.rs\<close>: conversion of a UTF-8 name to UTF-16 units and the entry-set checksum.

  A Rust \<open>&str\<close> is the list of its Unicode scalar values; \<open>utf8_char\<close> is their UTF-8 encoding (what
  \<open>as_bytes\<close> shows) and \<open>encode_utf16\<close> the standard library's. The lemmas show that the byte test for
  separators is the test on characters, that a conversion that succeeds writes exactly the UTF-16
  encoding, and that this encoding is injective on scalar values.
\<close>

type_synonym str = "u32 list"

section \<open>UTF-8 and UTF-16\<close>

definition utf8_char :: "u32 \<Rightarrow> u8 list" where
  "utf8_char c =
     (if c < 0x80 then [ucast c]
      else if c < 0x800 then [0xC0 OR ucast (drop_bit 6 c), 0x80 OR ucast (c AND 0x3F)]
      else if c < 0x10000 then
        [0xE0 OR ucast (drop_bit 12 c), 0x80 OR ucast (drop_bit 6 c AND 0x3F), 0x80 OR ucast (c AND 0x3F)]
      else
        [0xF0 OR ucast (drop_bit 18 c), 0x80 OR ucast (drop_bit 12 c AND 0x3F),
         0x80 OR ucast (drop_bit 6 c AND 0x3F), 0x80 OR ucast (c AND 0x3F)])"

definition as_bytes :: "str \<Rightarrow> u8 list" where
  "as_bytes name = concat (map utf8_char name)"

definition encode_utf16 :: "u32 \<Rightarrow> u16 list" where
  "encode_utf16 c =
     (if c < 0x10000 then [ucast c]
      else [0xD800 + ucast (drop_bit 10 (c - 0x10000)), 0xDC00 + ucast ((c - 0x10000) AND 0x3FF)])"

definition is_scalar :: "u32 \<Rightarrow> bool" where
  "is_scalar c \<longleftrightarrow> c < 0xD800 \<or> 0xE000 \<le> c \<and> c < 0x110000"

section \<open>The conversion\<close>

primrec encode_chars :: "str \<Rightarrow> nat \<Rightarrow> u16 list \<Rightarrow> ('e error + nat) \<times> u16 list" where
  "encode_chars [] written out = (Inr written, out)"
| "encode_chars (ch # chs) written out =
     (let encoded = encode_utf16 ch in
      if length out < written + length encoded then (Inl NameTooLong, out)
      else encode_chars chs (written + length encoded) (patch written encoded out))"

definition utf8_to_utf16 :: "str \<Rightarrow> u16 list \<Rightarrow> ('e error + nat) \<times> u16 list" where
  "utf8_to_utf16 name out =
     (if name = [] \<or> name = [0x2E] \<or> name = [0x2E, 0x2E] \<or>
         list_ex (\<lambda>b. b = 0 \<or> b = 0x2F \<or> b = 0x5C) (as_bytes name)
      then (Inl InvalidPath, out)
      else encode_chars name 0 out)"

definition valid_name :: "str \<Rightarrow> bool" where
  "valid_name name \<longleftrightarrow> name \<notin> {[], [0x2E], [0x2E, 0x2E]} \<and> set name \<inter> {0, 0x2F, 0x5C} = {}"

definition utf16_units :: "str \<Rightarrow> u16 list" where
  "utf16_units name = concat (map encode_utf16 name)"

section \<open>The entry-set checksum\<close>

definition entry_set_checksum_step :: "u16 \<Rightarrow> u8 list \<Rightarrow> bool \<Rightarrow> u16" where
  "entry_set_checksum_step acc entry primary =
     foldl (\<lambda>acc (i, b). if \<not> primary \<or> i \<notin> {2, 3} then ror1 acc + ucast b else acc)
       acc (enumerate 0 entry)"

section \<open>Lemmas\<close>

lemma bit7_not_ascii: "bit (b :: u8) 7 \<Longrightarrow> b \<noteq> 0 \<and> b \<noteq> 0x2F \<and> b \<noteq> 0x5C"
  by (auto simp: bit_numeral_rec)

lemma utf8_char_high: "\<not> c < 0x80 \<Longrightarrow> b \<in> set (utf8_char c) \<Longrightarrow> bit b 7"
  by (auto simp: utf8_char_def bit_or_iff bit_numeral_rec split: if_splits)

lemma utf8_char_separator:
  "(\<exists>b \<in> set (utf8_char c). b = 0 \<or> b = 0x2F \<or> b = 0x5C) \<longleftrightarrow> c = 0 \<or> c = 0x2F \<or> c = 0x5C"
proof (cases "c < 0x80")
  case True
  then have u: "unat (ucast c :: u8) = unat c"
    by (simp add: unat_ucast_down_small word_less_nat_alt)
  have "set (utf8_char c) = {ucast c}" using True by (simp add: utf8_char_def)
  moreover have "ucast c = (0 :: u8) \<or> ucast c = (0x2F :: u8) \<or> ucast c = (0x5C :: u8) \<longleftrightarrow>
      c = 0 \<or> c = 0x2F \<or> c = 0x5C"
    by (simp add: word_unat_eq_iff u)
  ultimately show ?thesis by simp
next
  case False
  then have "\<forall>b \<in> set (utf8_char c). b \<noteq> 0 \<and> b \<noteq> 0x2F \<and> b \<noteq> 0x5C"
    by (intro ballI bit7_not_ascii utf8_char_high)
  moreover have "c \<noteq> 0 \<and> c \<noteq> 0x2F \<and> c \<noteq> 0x5C" using False by (intro conjI notI) simp_all
  ultimately show ?thesis by blast
qed

lemma as_bytes_separator:
  "list_ex (\<lambda>b. b = 0 \<or> b = 0x2F \<or> b = 0x5C) (as_bytes name) \<longleftrightarrow> set name \<inter> {0, 0x2F, 0x5C} \<noteq> {}"
proof -
  have "list_ex (\<lambda>b. b = 0 \<or> b = 0x2F \<or> b = 0x5C) (as_bytes name) \<longleftrightarrow>
      (\<exists>c \<in> set name. \<exists>b \<in> set (utf8_char c). b = 0 \<or> b = 0x2F \<or> b = 0x5C)"
    by (auto simp: list_ex_iff as_bytes_def)
  then show ?thesis by (auto simp: utf8_char_separator)
qed

lemma utf16_units_Cons: "utf16_units (c # cs) = encode_utf16 c @ utf16_units cs"
  by (simp add: utf16_units_def)

lemma encode_chars_fits:
  "length (utf16_units name) \<le> length rest \<Longrightarrow>
    encode_chars name (length pre) (pre @ rest) =
      (Inr (length pre + length (utf16_units name)),
       pre @ utf16_units name @ drop (length (utf16_units name)) rest)"
proof (induction name arbitrary: pre rest)
  case Nil
  then show ?case by (simp add: utf16_units_def)
next
  case (Cons ch chs)
  define e where "e = encode_utf16 ch"
  have len: "length (utf16_units chs) \<le> length (drop (length e) rest)" "length e \<le> length rest"
    using Cons.prems by (simp_all add: utf16_units_Cons e_def)
  have "patch (length pre) e (pre @ rest) = (pre @ e) @ drop (length e) rest"
    by (simp add: patch_def)
  moreover have "length (pre @ e) = length pre + length e" by simp
  ultimately show ?case
    using Cons.IH [OF len(1), of "pre @ e"] len(2)
    by (simp add: e_def [symmetric] Let_def utf16_units_Cons drop_drop add.commute add.left_commute)
qed

lemma encode_chars_too_long:
  "length out < written + length (utf16_units name) \<Longrightarrow> written \<le> length out \<Longrightarrow>
    fst (encode_chars name written out) = Inl NameTooLong"
proof (induction name arbitrary: written out)
  case Nil
  then show ?case by (simp add: utf16_units_def)
next
  case (Cons ch chs)
  then show ?case by (simp add: utf16_units_Cons Let_def)
qed

lemma ascii_units: "c < 0x10000 \<Longrightarrow> encode_utf16 c = [ucast c]"
  by (simp add: encode_utf16_def)

lemma length_encode_utf16: "length (encode_utf16 c) \<in> {1, 2}"
  by (simp add: encode_utf16_def)

text \<open>The inverse of the encoding, on well-formed input.\<close>

fun decode_utf16 :: "u16 list \<Rightarrow> str" where
  "decode_utf16 [] = []"
| "decode_utf16 [u] = [ucast u]"
| "decode_utf16 (u # v # us) =
     (if 0xD800 \<le> u \<and> u < 0xDC00
      then (0x10000 + (ucast (u - 0xD800) * 0x400 + ucast (v - 0xDC00))) # decode_utf16 us
      else ucast u # decode_utf16 (v # us))"

lemma decode_utf16_bmp:
  assumes "is_scalar c" "c < 0x10000"
  shows "decode_utf16 (ucast c # us) = c # decode_utf16 us"
proof -
  have u: "unat (ucast c :: u16) = unat c"
    using assms(2) by (simp add: unat_ucast_down_small word_less_nat_alt)
  have cast: "ucast (ucast c :: u16) = c" by (simp add: word_unat_eq_iff u)
  have "\<not> (0xD800 \<le> (ucast c :: u16) \<and> (ucast c :: u16) < 0xDC00)"
    using assms(1) by (auto simp: is_scalar_def word_le_nat_alt word_less_nat_alt u)
  then show ?thesis using cast by (cases us) auto
qed

lemma decode_utf16_pair:
  assumes "is_scalar c" "\<not> c < 0x10000"
  shows "decode_utf16 (encode_utf16 c @ us) = c # decode_utf16 us"
proof -
  define d where "d = c - 0x10000"
  have c: "unat c < 0x110000" "0x10000 \<le> unat c" and le: "0x10000 \<le> c"
    using assms by (auto simp: is_scalar_def word_le_nat_alt word_less_nat_alt)
  have d: "unat d = unat c - 0x10000" by (simp add: d_def unat_sub [OF le])
  then have d_lt: "unat d < 0x100000" using c by simp
  have hi: "unat (ucast (drop_bit 10 d) :: u16) = unat d div 0x400"
    using d_lt by (subst unat_ucast_down_small) (simp_all add: drop_bit_eq_div unat_div)
  have lo: "unat (ucast (d AND 0x3FF) :: u16) = unat d mod 0x400"
  proof -
    have "d AND 0x3FF = take_bit 10 d" by (simp add: take_bit_eq_mask mask_eq_exp_minus_1)
    then have "unat (d AND 0x3FF) = unat d mod 0x400"
      by (simp add: take_bit_eq_mod unat_mod)
    then show ?thesis by (subst unat_ucast_down_small) simp_all
  qed
  have hi_lt: "unat d div 0x400 < 0x400" using d_lt by simp
  have hi': "unat (0xD800 + ucast (drop_bit 10 d) :: u16) = 0xD800 + unat d div 0x400"
    using hi hi_lt by (subst unat_add_small) simp_all
  have rhi: "(0xD800 + ucast (drop_bit 10 d) :: u16) - 0xD800 = ucast (drop_bit 10 d)"
    and rlo: "(0xDC00 + ucast (d AND 0x3FF) :: u16) - 0xDC00 = ucast (d AND 0x3FF)" by simp_all
  have "unat (ucast (ucast (drop_bit 10 d) :: u16) * 0x400 :: u32) = unat d div 0x400 * 0x400"
    using hi hi_lt by (subst unat_mult_small) simp_all
  then have "unat (ucast (ucast (drop_bit 10 d) :: u16) * 0x400 + ucast (ucast (d AND 0x3FF) :: u16) :: u32) = unat d"
    using lo d_lt by (subst unat_add_small) simp_all
  then have sum: "ucast (ucast (drop_bit 10 d) :: u16) * 0x400 + ucast (ucast (d AND 0x3FF) :: u16) = d"
    by (simp only: word_unat_eq_iff)
  have range: "0xD800 \<le> (0xD800 + ucast (drop_bit 10 d) :: u16) \<and> (0xD800 + ucast (drop_bit 10 d) :: u16) < 0xDC00"
    using hi' hi_lt by (simp add: word_le_nat_alt word_less_nat_alt)
  have enc: "encode_utf16 c = [0xD800 + ucast (drop_bit 10 d), 0xDC00 + ucast (d AND 0x3FF)]"
    using assms(2) by (simp add: encode_utf16_def d_def)
  have "decode_utf16 (encode_utf16 c @ us) = (0x10000 + d) # decode_utf16 us"
    unfolding enc using range by (simp only: append_Cons append_Nil decode_utf16.simps simp_thms if_True rhi rlo sum)
  then show ?thesis by (simp add: d_def)
qed

lemma decode_utf16_units: "\<forall>c \<in> set name. is_scalar c \<Longrightarrow> decode_utf16 (utf16_units name) = name"
proof (induction name)
  case Nil
  then show ?case by (simp add: utf16_units_def)
next
  case (Cons c cs)
  then have "decode_utf16 (encode_utf16 c @ utf16_units cs) = c # cs"
    by (cases "c < 0x10000") (simp_all add: ascii_units decode_utf16_bmp decode_utf16_pair)
  then show ?case by (simp add: utf16_units_def)
qed

text \<open>The checksum of a non-primary entry can be taken piecewise; the primary's skips its own field.\<close>

lemma enumerate_Cons: "enumerate n (x # xs) = (n, x) # enumerate (Suc n) xs"
  by simp

lemma entry_set_checksum_step_False:
  "entry_set_checksum_step acc entry False = foldl (\<lambda>acc b. ror1 acc + ucast b) acc entry"
proof -
  have "foldl (\<lambda>acc (i, b). ror1 acc + ucast b) acc (enumerate n entry)
      = foldl (\<lambda>acc b. ror1 acc + ucast b) acc entry" for n
    by (induction entry arbitrary: acc n) simp_all
  then show ?thesis by (simp add: entry_set_checksum_step_def)
qed

lemma entry_set_checksum_step_append:
  "entry_set_checksum_step acc (xs @ ys) False =
     entry_set_checksum_step (entry_set_checksum_step acc xs False) ys False"
  by (simp add: entry_set_checksum_step_False)

lemma entry_set_checksum_step_primary:
  "entry_set_checksum_step acc (a # b # c # d # xs) True =
     entry_set_checksum_step acc (a # b # xs) False"
proof -
  have "foldl (\<lambda>acc (i, b). if \<not> True \<or> i \<notin> {2, 3} then ror1 acc + ucast b else acc) acc (enumerate n xs)
      = foldl (\<lambda>acc b. ror1 acc + ucast b) acc xs" if "4 \<le> n" for n and acc :: u16
    using that by (induction xs arbitrary: acc n) simp_all
  then show ?thesis
    unfolding entry_set_checksum_step_False by (simp add: entry_set_checksum_step_def)
qed

lemma checksum_ignores_field:
  assumes "4 \<le> length entry" "length cs = 2"
  shows "entry_set_checksum_step acc (patch 2 cs entry) True = entry_set_checksum_step acc entry True"
proof -
  obtain a b c d xs where e: "entry = a # b # c # d # xs"
    using assms(1) by (auto simp: neq_Nil_conv Suc_le_length_iff numeral_eq_Suc)
  obtain x y where cs: "cs = [x, y]" using assms(2) by (auto simp: length_Suc_conv numeral_eq_Suc)
  have "patch 2 cs entry = a # b # x # y # xs" by (simp add: e cs patch_def)
  then show ?thesis by (simp add: e entry_set_checksum_step_primary)
qed

lemma utf8_to_utf16_result:
  "(utf8_to_utf16 name out :: ('e error + nat) \<times> u16 list) =
     (if \<not> valid_name name then (Inl InvalidPath, out)
      else if length (utf16_units name) \<le> length out
      then (Inr (length (utf16_units name)), utf16_units name @ drop (length (utf16_units name)) out)
      else (Inl NameTooLong, snd (encode_chars name 0 out :: ('e error + nat) \<times> u16 list)))"
  for out :: "u16 list"
proof -
  have "name = [] \<or> name = [0x2E] \<or> name = [0x2E, 0x2E] \<or>
      list_ex (\<lambda>b. b = 0 \<or> b = 0x2F \<or> b = 0x5C) (as_bytes name) \<longleftrightarrow> \<not> valid_name name"
    unfolding as_bytes_separator by (auto simp: valid_name_def)
  then show ?thesis
    by (simp add: utf8_to_utf16_def prod_eq_iff encode_chars_fits [where pre = "[]", simplified]
        encode_chars_too_long)
qed

section \<open>Properties\<close>

text \<open>
  C36: \<open>utf8_to_utf16\<close> is correct on every input: it refuses exactly the empty name, \<open>.\<close>, \<open>..\<close>
  and the names that contain a NUL, a slash or a backslash; otherwise it fails only when the
  encoding does not fit the buffer, and else it writes exactly the UTF-16 units and reports their
  number, leaving the rest of the buffer.
\<close>
theorem utf8_to_utf16_correct:
  "(utf8_to_utf16 name out :: ('e error + nat) \<times> u16 list) =
     (if \<not> valid_name name then (Inl InvalidPath, out)
      else if length (utf16_units name) \<le> length out
      then (Inr (length (utf16_units name)), utf16_units name @ drop (length (utf16_units name)) out)
      else (Inl NameTooLong, snd (encode_chars name 0 out :: ('e error + nat) \<times> u16 list)))"
  for out :: "u16 list"
  by (rule utf8_to_utf16_result)

text \<open>
  C35: Encoding a name loses nothing. Whenever \<open>utf8_to_utf16\<close> accepts a name of Unicode scalar values,
  the units it reports and leaves at the front of the buffer decode to exactly that name; so two
  accepted names with the same units are the same name, whatever buffers they were encoded into.
\<close>
theorem utf16_roundtrip:
  fixes out :: "u16 list"
  assumes "\<forall>c \<in> set name. is_scalar c"
    and "(utf8_to_utf16 name out :: ('e error + nat) \<times> u16 list) = (Inr n, out')"
  shows "n \<le> length out' \<and> decode_utf16 (take n out') = name \<and>
    (\<forall>other buf n' buf'. (\<forall>c \<in> set other. is_scalar c) \<longrightarrow>
       (utf8_to_utf16 other buf :: ('e error + nat) \<times> u16 list) = (Inr n', buf') \<longrightarrow>
       take n' buf' = take n out' \<longrightarrow> other = name)"
proof -
  have units: "n \<le> length out' \<and> take n out' = utf16_units name"
    if "(utf8_to_utf16 name out :: ('e error + nat) \<times> u16 list) = (Inr n, out')" for name and out out' :: "u16 list" and n
    using that by (auto simp: utf8_to_utf16_result split: if_splits)
  show ?thesis using units [OF assms(2)] units assms(1) decode_utf16_units by metis
qed

theorem utf16_roundtrip_witness:
  "case (utf8_to_utf16 [0x41, 0x20AC, 0x1F600] (replicate 255 0) :: (unit error + nat) \<times> u16 list) of
     (Inr n, out') \<Rightarrow> n = 4 \<and> decode_utf16 (take n out') = [0x41, 0x20AC, 0x1F600] | _ \<Rightarrow> False"
proof -
  have run: "(utf8_to_utf16 [0x41, 0x20AC, 0x1F600] (replicate 255 0) :: (unit error + nat) \<times> u16 list) =
    (Inr 4, [0x41, 0x20AC, 0xD83D, 0xDE00] @ replicate 251 0)" by code_simp
  show ?thesis
    unfolding run using utf16_roundtrip [OF _ run] by (simp add: is_scalar_def)
qed

end
