(* ===== verification/Entry_Set.thy ===== *)
theory Entry_Set
  imports Codec Geometry
begin

text \<open>
  \<open>directory/entry.rs\<close>: directory extents, parsed entries, timestamps, the caller-owned workspace and
  the streaming decoder \<open>EntrySet::push\<close>, which is fed one 32-byte directory entry at a time and
  yields a \<open>DirectoryEntry\<close> when a complete, checksummed set has been seen. A fixed-size array of
  the code is a list of that length; \<open>raw\<close> is a 32-byte entry.

  \<open>push\<close> is a state machine over \<open>EntrySet\<close>. The lemmas give its invariant, what a yielded entry
  satisfies, and that the entry's checksum is the one of the entries it was built from.
\<close>

section \<open>Data\<close>

record EntryLocator =
  el_lba :: u64
  el_offset :: u16

definition no_locator :: EntryLocator where
  "no_locator = \<lparr>el_lba = 0, el_offset = 0\<rparr>"

definition no_locators :: "EntryLocator list" where
  "no_locators = replicate 19 no_locator"

record Directory =
  dir_first_cluster :: u32
  dir_data_length :: u64
  dir_no_fat_chain :: bool
  dir_primary :: "EntryLocator option"
  dir_stream :: "EntryLocator option"
  dir_entry_locs :: "EntryLocator list"
  dir_entry_count :: u8

definition root_directory :: "Geometry \<Rightarrow> Directory" where
  "root_directory g = \<lparr>dir_first_cluster = root_cluster g, dir_data_length = 0, dir_no_fat_chain = False,
     dir_primary = None, dir_stream = None, dir_entry_locs = no_locators, dir_entry_count = 0\<rparr>"

record ExfatTimestamp =
  date_time :: u32
  ten_millis :: u8
  utc_offset :: u8

definition default_timestamp :: ExfatTimestamp where
  "default_timestamp = \<lparr>date_time = 0, ten_millis = 0, utc_offset = 0\<rparr>"

record DirectoryEntry =
  is_directory :: bool
  de_first_cluster :: u32
  de_data_length :: u64
  de_valid_length :: u64
  de_no_fat_chain :: bool
  created :: ExfatTimestamp
  modified :: ExfatTimestamp
  accessed :: ExfatTimestamp
  de_name :: "u16 list"
  name_len :: u8
  de_primary :: EntryLocator
  de_stream :: EntryLocator
  de_entry_locs :: "EntryLocator list"
  de_entry_count :: u8

definition name_utf16 :: "DirectoryEntry \<Rightarrow> u16 list" where
  "name_utf16 e = take (unat (name_len e)) (de_name e)"

definition entry_directory :: "DirectoryEntry \<Rightarrow> Directory option" where
  "entry_directory e =
     (if is_directory e
      then Some \<lparr>dir_first_cluster = de_first_cluster e, dir_data_length = de_data_length e,
        dir_no_fat_chain = de_no_fat_chain e, dir_primary = Some (de_primary e),
        dir_stream = Some (de_stream e), dir_entry_locs = de_entry_locs e,
        dir_entry_count = de_entry_count e\<rparr>
      else None)"

record EntrySet =
  secondary_left :: u8
  stream_seen :: bool
  name_written :: u8
  expected_checksum :: u16
  es_checksum :: u16
  ignored :: bool
  entry :: DirectoryEntry

definition empty_entry :: DirectoryEntry where
  "empty_entry = \<lparr>is_directory = False, de_first_cluster = 0, de_data_length = 0, de_valid_length = 0,
     de_no_fat_chain = False,
     created = \<lparr>date_time = 0, ten_millis = 0, utc_offset = 0x80\<rparr>,
     modified = \<lparr>date_time = 0, ten_millis = 0, utc_offset = 0x80\<rparr>,
     accessed = \<lparr>date_time = 0, ten_millis = 0, utc_offset = 0x80\<rparr>,
     de_name = replicate 255 0, name_len = 0, de_primary = no_locator, de_stream = no_locator,
     de_entry_locs = no_locators, de_entry_count = 0\<rparr>"

definition new_entry_set :: EntrySet where
  "new_entry_set = \<lparr>secondary_left = 0, stream_seen = False, name_written = 0, expected_checksum = 0,
     es_checksum = 0, ignored = False, entry = empty_entry\<rparr>"

record Workspace =
  utf16 :: "u16 list"
  entry_set :: EntrySet
  locators :: "EntryLocator list"

definition new_workspace :: Workspace where
  "new_workspace = \<lparr>utf16 = replicate 255 0, entry_set = new_entry_set, locators = no_locators\<rparr>"

section \<open>The decoder\<close>

text \<open>The decoder's own copy of the checksum step; equal to the codec's (\<open>checksum_step_eq\<close>).\<close>

definition checksum_step :: "u16 \<Rightarrow> u8 list \<Rightarrow> bool \<Rightarrow> u16" where
  "checksum_step acc raw primary =
     foldl (\<lambda>acc (i, b). if \<not> primary \<or> \<not> (i = 2 \<or> i = 3) then ror1 acc + ucast b else acc)
       acc (enumerate 0 raw)"

definition complete :: "EntrySet \<Rightarrow> 'e error + DirectoryEntry option" where
  "complete es =
     (if \<not> stream_seen es \<or> name_written es < name_len (entry es) \<or> es_checksum es \<noteq> expected_checksum es
      then Inl Corrupt else Inr (Some (entry es)))"

text \<open>After an accepted secondary entry: count it, and finish the set when it was the last.\<close>

definition count_secondary :: "EntrySet \<Rightarrow> ('e error + DirectoryEntry option) \<times> EntrySet" where
  "count_secondary es =
     (let es' = es\<lparr>secondary_left := secondary_left es - 1\<rparr> in
      (if secondary_left es' = 0 then complete es' else Inr None, es'))"

definition push_primary :: "EntrySet \<Rightarrow> u8 list \<Rightarrow> EntryLocator \<Rightarrow> ('e error + DirectoryEntry option) \<times> EntrySet" where
  "push_primary es raw locator =
     (if secondary_left es \<noteq> 0 \<or> raw ! 1 < 2 then (Inl Corrupt, es)
      else (Inr None, es\<lparr>
        secondary_left := raw ! 1, stream_seen := False, name_written := 0,
        expected_checksum := le_u16 (slice 2 4 raw), es_checksum := checksum_step 0 raw True,
        ignored := 18 < raw ! 1,
        entry := \<lparr>is_directory = le_u16 (slice 4 6 raw) AND 0x10 \<noteq> 0,
          de_first_cluster = 0, de_data_length = 0, de_valid_length = 0, de_no_fat_chain = False,
          created = \<lparr>date_time = le_u32 (slice 8 12 raw), ten_millis = raw ! 20, utc_offset = raw ! 22\<rparr>,
          modified = \<lparr>date_time = le_u32 (slice 12 16 raw), ten_millis = raw ! 21, utc_offset = raw ! 23\<rparr>,
          accessed = \<lparr>date_time = le_u32 (slice 16 20 raw), ten_millis = 0, utc_offset = raw ! 24\<rparr>,
          de_name = replicate 255 0, name_len = 0, de_primary = locator, de_stream = locator,
          de_entry_locs = no_locators[0 := locator], de_entry_count = 1\<rparr>\<rparr>))"

text \<open>
  Both accepted secondary kinds record their locator and extend the checksum first. The callers have
  checked that fewer than 19 entries are counted, so the index is inside the array of 19 locators
  (\<open>push_arrays_ok\<close>) and the update is the assignment of the source.
\<close>

definition add_secondary :: "EntrySet \<Rightarrow> u8 list \<Rightarrow> EntryLocator \<Rightarrow> EntrySet" where
  "add_secondary es raw locator =
     (let e = entry es in
      es\<lparr>entry := e\<lparr>de_entry_locs := (de_entry_locs e)[unat (de_entry_count e) := locator],
                      de_entry_count := de_entry_count e + 1\<rparr>,
         es_checksum := checksum_step (es_checksum es) raw False\<rparr>)"

definition push_stream :: "EntrySet \<Rightarrow> u8 list \<Rightarrow> EntryLocator \<Rightarrow> ('e error + DirectoryEntry option) \<times> EntrySet" where
  "push_stream es raw locator =
     (if 19 \<le> de_entry_count (entry es) then (Inl Corrupt, es)
      else
        let es1 = add_secondary es raw locator;
            e = (entry es1)\<lparr>de_stream := locator, de_no_fat_chain := raw ! 1 AND 0x02 \<noteq> 0,
                  name_len := raw ! 3, de_valid_length := le_u64 (slice 8 16 raw),
                  de_data_length := le_u64 (slice 24 32 raw), de_first_cluster := le_u32 (slice 20 24 raw)\<rparr>;
            es2 = es1\<lparr>stream_seen := True, entry := e\<rparr>
        in if raw ! 1 AND NOT 0x03 \<noteq> 0 \<or> raw ! 1 AND 1 = 0 \<or> name_len e = 0 \<or>
              de_valid_length e > de_data_length e \<or> (de_data_length e \<noteq> 0 \<and> de_first_cluster e < 2)
           then (Inl Corrupt, es2)
           else count_secondary es2)"

text \<open>
  The name loop: units go to \<open>name[start + i]\<close> until \<open>name_len\<close> is reached. The limit is a byte, so every
  index written is at most 254 and inside the array of 255 units (\<open>write_units_index\<close>).
\<close>

primrec write_units :: "nat \<Rightarrow> nat \<Rightarrow> u16 list \<Rightarrow> u16 list \<Rightarrow> u16 list" where
  "write_units start limit [] name = name"
| "write_units start limit (u # us) name =
     (if limit \<le> start then name else write_units (Suc start) limit us (name[start := u]))"

lemma write_units_index:
  "write_units start (unat (n :: u8)) (u # us) name = name \<or>
    start < 255 \<and> write_units start (unat n) (u # us) name = write_units (Suc start) (unat n) us (name[start := u])"
  using unat_u8_lt [of n] by (auto simp del: unat_u8_lt)

definition push_name :: "EntrySet \<Rightarrow> u8 list \<Rightarrow> EntryLocator \<Rightarrow> ('e error + DirectoryEntry option) \<times> EntrySet" where
  "push_name es raw locator =
     (if 19 \<le> de_entry_count (entry es) then (Inl Corrupt, es)
      else
        let es1 = add_secondary es raw locator;
            e = entry es1;
            units = map le_u16 (chunks_exact 2 (slice 2 32 raw))
        in count_secondary
             (es1\<lparr>entry := e\<lparr>de_name := write_units (unat (name_written es)) (unat (name_len e)) units (de_name e)\<rparr>,
                  name_written := saturating_add (name_written es) 15\<rparr>))"

definition push :: "EntrySet \<Rightarrow> u8 list \<Rightarrow> EntryLocator \<Rightarrow> ('e error + DirectoryEntry option) \<times> EntrySet" where
  "push es raw locator =
     (if raw ! 0 = 0x85 then push_primary es raw locator
      else if secondary_left es = 0 then (Inr None, es)
      else if ignored es then
        (let left = secondary_left es - 1 in
         (Inr None, es\<lparr>secondary_left := left, ignored := left \<noteq> 0\<rparr>))
      else if raw ! 0 = 0xC0 \<and> \<not> stream_seen es \<and> de_entry_count (entry es) = 1 then push_stream es raw locator
      else if raw ! 0 = 0xC1 \<and> stream_seen es \<and> name_written es < name_len (entry es) then push_name es raw locator
      else (Inr None, es\<lparr>ignored := True, secondary_left := secondary_left es - 1\<rparr>))"

text \<open>Feeding entries until a set is yielded or an error stops the scan.\<close>

fun push_rows :: "EntrySet \<Rightarrow> (u8 list \<times> EntryLocator) list \<Rightarrow> ('e error + DirectoryEntry option) \<times> EntrySet" where
  "push_rows es [] = (Inr None, es)"
| "push_rows es ((raw, locator) # rows) =
     (case push es raw locator of
        (Inr None, es') \<Rightarrow> push_rows es' rows
      | (res, es') \<Rightarrow> (res, es'))"

lemma checksum_step_eq: "checksum_step = entry_set_checksum_step"
  by (simp add: fun_eq_iff checksum_step_def entry_set_checksum_step_def)

section \<open>The decoder's invariant\<close>

text \<open>The checksum of a whole set: the primary without its own field, then every secondary.\<close>

definition set_checksum :: "u8 list list \<Rightarrow> u16" where
  "set_checksum raws =
     (case raws of [] \<Rightarrow> 0
      | p # ss \<Rightarrow> foldl (\<lambda>acc raw. checksum_step acc raw False) (checksum_step 0 p True) ss)"

lemma set_checksum_append:
  "raws \<noteq> [] \<Longrightarrow> set_checksum (raws @ [raw]) = checksum_step (set_checksum raws) raw False"
  by (cases raws) (simp_all add: set_checksum_def)

text \<open>What the decoder guarantees of a decoded entry.\<close>

definition entry_ok :: "DirectoryEntry \<Rightarrow> bool" where
  "entry_ok e \<longleftrightarrow>
     length (de_entry_locs e) = 19 \<and> length (de_name e) = 255 \<and>
     name_len e \<noteq> 0 \<and> unat (de_entry_count e) = 2 + (unat (name_len e) + 14) div 15 \<and>
     unat (de_entry_count e) \<le> 19 \<and>
     de_valid_length e \<le> de_data_length e \<and>
     (de_data_length e \<noteq> 0 \<longrightarrow> 2 \<le> de_first_cluster e) \<and>
     de_primary e = de_entry_locs e ! 0 \<and> de_stream e = de_entry_locs e ! 1"

definition arrays_ok :: "EntrySet \<Rightarrow> bool" where
  "arrays_ok es \<longleftrightarrow> length (de_entry_locs (entry es)) = 19 \<and> length (de_name (entry es)) = 255 \<and>
     unat (de_entry_count (entry es)) \<le> 19"

text \<open>\<open>rs\<close> holds the entries of the set in progress, in the order they came.\<close>

definition set_started :: "(u8 list \<times> EntryLocator) list \<Rightarrow> bool" where
  "set_started rs \<longleftrightarrow> rs \<noteq> [] \<and> fst (hd rs) ! 0 = 0x85"

text \<open>What the fields of an entry are read from, and the name units of a set's rows in order.\<close>

definition primary_fields :: "u8 list \<Rightarrow> DirectoryEntry \<Rightarrow> bool" where
  "primary_fields raw e \<longleftrightarrow>
     is_directory e = (le_u16 (slice 4 6 raw) AND 0x10 \<noteq> 0) \<and>
     created e = \<lparr>date_time = le_u32 (slice 8 12 raw), ten_millis = raw ! 20, utc_offset = raw ! 22\<rparr> \<and>
     modified e = \<lparr>date_time = le_u32 (slice 12 16 raw), ten_millis = raw ! 21, utc_offset = raw ! 23\<rparr> \<and>
     accessed e = \<lparr>date_time = le_u32 (slice 16 20 raw), ten_millis = 0, utc_offset = raw ! 24\<rparr>"

definition stream_fields :: "u8 list \<Rightarrow> DirectoryEntry \<Rightarrow> bool" where
  "stream_fields raw e \<longleftrightarrow>
     de_no_fat_chain e = (raw ! 1 AND 0x02 \<noteq> 0) \<and> name_len e = raw ! 3 \<and>
     de_valid_length e = le_u64 (slice 8 16 raw) \<and> de_data_length e = le_u64 (slice 24 32 raw) \<and>
     de_first_cluster e = le_u32 (slice 20 24 raw)"

definition name_units :: "u8 list \<Rightarrow> u16 list" where
  "name_units raw = map le_u16 (chunks_exact 2 (slice 2 32 raw))"

definition row_names :: "(u8 list \<times> EntryLocator) list \<Rightarrow> u16 list" where
  "row_names rs = concat (map (\<lambda>row. name_units (fst row)) (drop 2 rs))"

definition in_set :: "(u8 list \<times> EntryLocator) list \<Rightarrow> EntrySet \<Rightarrow> bool" where
  "in_set rs es \<longleftrightarrow>
     set_started rs \<and> es_checksum es = set_checksum (map fst rs) \<and>
     expected_checksum es = le_u16 (slice 2 4 (fst (hd rs))) \<and>
     length rs + unat (secondary_left es) = 1 + unat (fst (hd rs) ! 1) \<and>
     unat (fst (hd rs) ! 1) \<le> 18 \<and>
     unat (de_entry_count (entry es)) = length rs \<and>
     take (length rs) (de_entry_locs (entry es)) = map snd rs \<and>
     de_primary (entry es) = snd (rs ! 0) \<and>
     (\<forall>row \<in> set rs. length (fst row) = 32) \<and> primary_fields (fst (rs ! 0)) (entry es) \<and>
     (\<not> stream_seen es \<longrightarrow> length rs = 1 \<and> name_written es = 0) \<and>
     (stream_seen es \<longrightarrow>
        2 \<le> length rs \<and> stream_fields (fst (rs ! 1)) (entry es) \<and>
        (\<forall>i < 15 * (length rs - 2). i < unat (name_len (entry es)) \<longrightarrow>
           de_name (entry es) ! i = row_names rs ! i) \<and> de_stream (entry es) = snd (rs ! 1) \<and>
        unat (name_written es) = 15 * (length rs - 2) \<and>
        (3 \<le> length rs \<longrightarrow> 15 * (length rs - 3) < unat (name_len (entry es))) \<and>
        name_len (entry es) \<noteq> 0 \<and> de_valid_length (entry es) \<le> de_data_length (entry es) \<and>
        (de_data_length (entry es) \<noteq> 0 \<longrightarrow> 2 \<le> de_first_cluster (entry es)))"

definition parsing :: "(u8 list \<times> EntryLocator) list \<Rightarrow> EntrySet \<Rightarrow> bool" where
  "parsing rs es \<longleftrightarrow> arrays_ok es \<and> (secondary_left es \<noteq> 0 \<and> \<not> ignored es \<longrightarrow> in_set rs es)"

definition yields :: "(u8 list \<times> EntryLocator) list \<Rightarrow> DirectoryEntry \<Rightarrow> bool" where
  "yields rs e \<longleftrightarrow>
     entry_ok e \<and> set_started rs \<and> length rs = unat (de_entry_count e) \<and>
     length rs = 1 + unat (fst (hd rs) ! 1) \<and>
     set_checksum (map fst rs) = le_u16 (slice 2 4 (fst (hd rs))) \<and>
     take (length rs) (de_entry_locs e) = map snd rs \<and>
     primary_fields (fst (rs ! 0)) e \<and> stream_fields (fst (rs ! 1)) e \<and>
     name_utf16 e = take (unat (name_len e)) (row_names rs)"

lemma length_name_units: "length raw = 32 \<Longrightarrow> length (name_units raw) = 15"
  by (simp add: name_units_def length_chunks_exact)

lemma length_row_names:
  "\<forall>row \<in> set rs. length (fst row) = 32 \<Longrightarrow> length (row_names rs) = 15 * (length rs - 2)"
proof -
  have "\<forall>row \<in> set rows. length (fst row) = 32 \<Longrightarrow>
      length (concat (map (\<lambda>row. name_units (fst row)) rows)) = 15 * length rows"
    for rows :: "(u8 list \<times> EntryLocator) list"
    by (induction rows) (simp_all add: length_name_units)
  moreover assume "\<forall>row \<in> set rs. length (fst row) = 32"
  then have "\<forall>row \<in> set (drop 2 rs). length (fst row) = 32"
    using set_drop_subset [of 2 rs] by blast
  ultimately have "length (row_names rs) = 15 * length (drop 2 rs)" unfolding row_names_def .
  then show ?thesis by simp
qed

lemma row_names_append: "2 \<le> length rs \<Longrightarrow> row_names (rs @ [row]) = row_names rs @ name_units (fst row)"
  by (simp add: row_names_def)

lemma nth_write_units:
  "i < length name \<Longrightarrow> write_units start limit us name ! i =
     (if start \<le> i \<and> i < limit \<and> i < start + length us then us ! (i - start) else name ! i)"
proof (induction us arbitrary: start name)
  case (Cons u us)
  have "i - start = Suc (i - Suc start)" if "Suc start \<le> i" using that by simp
  then show ?case using Cons by (auto simp: nth_list_update)
qed auto

lemma length_write_units [simp]: "length (write_units start limit us name) = length name"
  by (induction us arbitrary: start name) simp_all

lemma unat_minus_1: "w \<noteq> 0 \<Longrightarrow> unat (w - 1) = unat w - 1" for w :: u8
proof -
  assume "w \<noteq> 0"
  then have "1 \<le> w" by (simp add: word_le_nat_alt Suc_leI unat_gt_0)
  then show ?thesis by (simp add: unat_sub)
qed

lemma unat_plus_1: "unat w \<le> 19 \<Longrightarrow> unat (w + 1) = unat w + 1" for w :: u8
  by (simp add: unat_add_small)

lemma arrays_ok_add_secondary:
  "arrays_ok es \<Longrightarrow> \<not> 19 \<le> de_entry_count (entry es) \<Longrightarrow> arrays_ok (add_secondary es raw locator)"
  by (simp add: arrays_ok_def add_secondary_def Let_def word_le_nat_alt unat_plus_1)

text \<open>No input, well-formed or not, makes the decoder index outside its arrays.\<close>

lemma count_secondary_arrays_ok: "arrays_ok es \<Longrightarrow> arrays_ok (snd (count_secondary es))"
  by (simp add: count_secondary_def arrays_ok_def Let_def)

lemma push_secondary_arrays_ok:
  assumes "arrays_ok es"
  shows "arrays_ok (snd (push_stream es raw locator))" "arrays_ok (snd (push_name es raw locator))"
proof -
  have a: "arrays_ok (add_secondary es raw locator)" if "\<not> 19 \<le> de_entry_count (entry es)"
    using assms that by (rule arrays_ok_add_secondary)
  show "arrays_ok (snd (push_stream es raw locator))"
    using assms a by (auto simp: push_stream_def Let_def intro!: count_secondary_arrays_ok)
      (simp_all add: arrays_ok_def)
  show "arrays_ok (snd (push_name es raw locator))"
    using assms a by (auto simp: push_name_def Let_def intro!: count_secondary_arrays_ok)
      (simp_all add: arrays_ok_def)
qed

lemma push_primary_arrays_ok: "arrays_ok es \<Longrightarrow> arrays_ok (snd (push_primary es raw locator))"
  by (simp add: push_primary_def arrays_ok_def no_locators_def)

lemma push_arrays_ok: "arrays_ok es \<Longrightarrow> arrays_ok (snd (push es raw locator))"
  by (simp add: push_def Let_def push_primary_arrays_ok push_secondary_arrays_ok)
    (simp add: arrays_ok_def)

text \<open>The set in progress after a secondary entry has been recorded.\<close>

lemma in_set_room:
  assumes "in_set rs es" "secondary_left es \<noteq> 0"
  shows "length rs < 19 \<and> \<not> 19 \<le> de_entry_count (entry es)"
proof
  show "length rs < 19"
    using assms by (auto simp: in_set_def unat_gt_0 [symmetric] simp del: unat_gt_0)
  then show "\<not> 19 \<le> de_entry_count (entry es)"
    using assms(1) by (simp add: in_set_def word_le_nat_alt)
qed

lemma in_set_add:
  assumes "in_set rs es" "arrays_ok es" "secondary_left es \<noteq> 0"
  shows "unat (de_entry_count (entry (add_secondary es raw locator))) = Suc (length rs)"
    and "take (Suc (length rs)) (de_entry_locs (entry (add_secondary es raw locator))) = map snd (rs @ [(raw, locator)])"
    and "es_checksum (add_secondary es raw locator) = set_checksum (map fst (rs @ [(raw, locator)]))"
proof -
  have len: "length rs < 19" using in_set_room [OF assms(1,3)] by simp
  show "unat (de_entry_count (entry (add_secondary es raw locator))) = Suc (length rs)"
    using assms(1) len by (simp add: in_set_def add_secondary_def Let_def unat_plus_1)
  have "take (Suc (length rs)) ((de_entry_locs (entry es))[length rs := locator])
      = take (length rs) (de_entry_locs (entry es)) @ [locator]"
    using assms(2) len by (simp add: arrays_ok_def take_Suc_conv_app_nth)
  then show "take (Suc (length rs)) (de_entry_locs (entry (add_secondary es raw locator))) = map snd (rs @ [(raw, locator)])"
    using assms(1) by (simp add: in_set_def add_secondary_def Let_def)
  show "es_checksum (add_secondary es raw locator) = set_checksum (map fst (rs @ [(raw, locator)]))"
    using assms(1) by (simp add: in_set_def set_started_def add_secondary_def Let_def set_checksum_append)
qed

text \<open>A set that has just been counted: either more entries are due, or it is yielded whole.\<close>

lemma count_secondary_parsing:
  assumes run: "count_secondary es = (Inr r, es')"
    and ok: "arrays_ok es" "\<not> ignored es" "secondary_left es \<noteq> 0"
    and inset: "in_set rs (es\<lparr>secondary_left := secondary_left es - 1\<rparr>)"
  shows "parsing rs es' \<and> (\<forall>e. r = Some e \<longrightarrow> yields rs e \<and> secondary_left es' = 0)"
proof -
  have es': "es' = es\<lparr>secondary_left := secondary_left es - 1\<rparr>"
    using run by (simp add: count_secondary_def Let_def)
  have "parsing rs es'" using ok inset by (simp add: es' parsing_def arrays_ok_def)
  moreover have "yields rs e \<and> secondary_left es' = 0" if e: "r = Some e" for e
  proof -
    have z: "secondary_left es' = 0" and ent: "e = entry es'" and seen: "stream_seen es'"
      and wr: "name_len (entry es') \<le> name_written es'" and cs: "es_checksum es' = expected_checksum es'"
      using run e by (auto simp: count_secondary_def complete_def Let_def es' split: if_splits)
    have s: "in_set rs es'" using inset es' by simp
    have wrn: "unat (name_len e) \<le> 15 * (length rs - 2)"
      using wr s seen ent by (simp add: in_set_def word_le_nat_alt)
    have nz: "0 < unat (name_len e)" using s seen ent by (simp add: in_set_def unat_gt_0)
    have len3: "3 \<le> length rs" using wrn nz by (cases "length rs \<le> 2") auto
    then have low: "15 * (length rs - 3) < unat (name_len e)" using s seen ent by (simp add: in_set_def)
    have cnt: "unat (de_entry_count e) = length rs" using s ent by (simp add: in_set_def)
    have form: "length rs = 2 + (unat (name_len e) + 14) div 15"
    proof -
      have "(unat (name_len e) + 14) div 15 = length rs - 2"
        using wrn low len3 by (intro div_nat_eqI) auto
      then show ?thesis using len3 by simp
    qed
    have le19: "length rs \<le> 19" using s by (simp add: in_set_def)
    have locs: "take (length rs) (de_entry_locs e) = map snd rs" using s ent by (simp add: in_set_def)
    then have at: "de_entry_locs e ! 0 = snd (rs ! 0)" "de_entry_locs e ! 1 = snd (rs ! 1)"
      using len3 nth_map [of 0 rs snd] nth_map [of 1 rs snd] by (metis nth_take Suc_le_lessD less_le_trans
          numeral_3_eq_3 one_less_numeral_iff semiring_norm(77) zero_less_numeral)+
    have "de_primary e = snd (rs ! 0)" "de_stream e = snd (rs ! 1)" "name_len e \<noteq> 0"
      "de_valid_length e \<le> de_data_length e" "de_data_length e \<noteq> 0 \<longrightarrow> 2 \<le> de_first_cluster e"
      using s seen ent by (simp_all add: in_set_def)
    moreover have "length (de_entry_locs e) = 19" and dn: "length (de_name e) = 255"
      using ok es' ent by (simp_all add: arrays_ok_def)
    ultimately have "entry_ok e" using at form cnt le19 by (simp add: entry_ok_def)
    moreover have "length rs = 1 + unat (fst (hd rs) ! 1)" "set_started rs"
      "set_checksum (map fst rs) = le_u16 (slice 2 4 (fst (hd rs)))"
      using s cs z by (auto simp: in_set_def)
    moreover have "primary_fields (fst (rs ! 0)) e" "stream_fields (fst (rs ! 1)) e"
      using s seen ent by (simp_all add: in_set_def)
    moreover have "name_utf16 e = take (unat (name_len e)) (row_names rs)"
    proof (rule nth_equalityI)
      have "unat (name_len e) \<le> 255" using unat_u8_lt [of "name_len e"] by linarith
      then show "length (name_utf16 e) = length (take (unat (name_len e)) (row_names rs))"
        using dn wrn s
        by (simp add: name_utf16_def length_row_names in_set_def)
    next
      fix i assume "i < length (name_utf16 e)"
      then have "i < unat (name_len e)" by (simp add: name_utf16_def)
      then show "name_utf16 e ! i = take (unat (name_len e)) (row_names rs) ! i"
        using wrn s seen ent by (simp add: name_utf16_def in_set_def)
    qed
    ultimately show ?thesis using locs cnt z unfolding yields_def by simp
  qed
  ultimately show ?thesis by blast
qed

text \<open>One entry moves the decoder to the next position of the set, or to the start of a new set.\<close>

lemma take_no_locators: "take (Suc 0) (no_locators[0 := l]) = [l]" "length no_locators = 19"
  by (simp_all add: no_locators_def numeral_eq_Suc)

lemma push_primary_parsing:
  assumes run: "(push_primary es raw locator :: ('e error + DirectoryEntry option) \<times> EntrySet) = (Inr r, es')"
    and raw: "raw ! 0 = 0x85" "length raw = 32"
  shows "r = None \<and> parsing [(raw, locator)] es'"
  using run raw
  by (auto simp: push_primary_def parsing_def arrays_ok_def take_no_locators in_set_def set_started_def
      set_checksum_def primary_fields_def not_less word_le_nat_alt split: if_splits)

lemma push_stream_parsing:
  assumes run: "(push_stream es raw locator :: ('e error + DirectoryEntry option) \<times> EntrySet) = (Inr r, es')" and raw: "length raw = 32"
    and rs: "in_set rs es" "arrays_ok es" "\<not> ignored es" "secondary_left es \<noteq> 0" "\<not> stream_seen es"
  shows "parsing (rs @ [(raw, locator)]) es' \<and>
    (\<forall>e. r = Some e \<longrightarrow> yields (rs @ [(raw, locator)]) e \<and> secondary_left es' = 0)"
proof -
  note room = in_set_room [OF rs(1,4), THEN conjunct2]
  note add = in_set_add [OF rs(1,2,4), of raw locator]
  have one: "length rs = 1" and ne: "rs \<noteq> []" using rs(1,5) by (auto simp: in_set_def set_started_def)
  have hd: "(rs @ [(raw, locator)]) ! 0 = rs ! 0" "(rs @ [(raw, locator)]) ! 1 = (raw, locator)"
    using one by (simp_all add: nth_append)
  define es1 where "es1 = add_secondary es raw locator"
  define e where "e = (entry es1)\<lparr>de_stream := locator, de_no_fat_chain := raw ! 1 AND 0x02 \<noteq> 0,
      name_len := raw ! 3, de_valid_length := le_u64 (slice 8 16 raw),
      de_data_length := le_u64 (slice 24 32 raw), de_first_cluster := le_u32 (slice 20 24 raw)\<rparr>"
  define es2 where "es2 = es1\<lparr>stream_seen := True, entry := e\<rparr>"
  have good: "name_len e \<noteq> 0" "de_valid_length e \<le> de_data_length e"
      "de_data_length e \<noteq> 0 \<longrightarrow> 2 \<le> de_first_cluster e"
    and cs: "(count_secondary es2 :: ('e error + DirectoryEntry option) \<times> EntrySet) = (Inr r, es')"
    using run room
    by (auto simp: push_stream_def Let_def es1_def e_def es2_def not_less split: if_splits)
  have keep: "secondary_left es1 = secondary_left es" "ignored es1 = ignored es" "name_written es1 = name_written es"
    "expected_checksum es1 = expected_checksum es" "de_primary (entry es1) = de_primary (entry es)"
    "primary_fields p (entry es1) = primary_fields p (entry es)" for p
    by (simp_all add: es1_def add_secondary_def Let_def primary_fields_def)
  have flds: "primary_fields p e = primary_fields p (entry es1)" "stream_fields raw e"
    "de_stream e = locator" "de_entry_count e = de_entry_count (entry es1)"
    "de_entry_locs e = de_entry_locs (entry es1)" "de_primary e = de_primary (entry es1)" for p
    by (simp_all add: e_def primary_fields_def stream_fields_def)
  show ?thesis
  proof (rule count_secondary_parsing [OF cs])
    show "arrays_ok es2"
      using arrays_ok_add_secondary [OF rs(2) room, of raw locator]
      by (simp add: es2_def e_def es1_def arrays_ok_def)
    show "\<not> ignored es2" "secondary_left es2 \<noteq> 0" using rs(3,4) keep by (simp_all add: es2_def)
    have left: "unat (secondary_left es - 1) = unat (secondary_left es) - 1" "0 < unat (secondary_left es)"
      using rs(4) unat_minus_1 by (auto simp: unat_gt_0)
    have "length (rs @ [(raw, locator)]) + unat (secondary_left es - 1) = 1 + unat (fst (hd rs) ! 1)"
      "unat (fst (hd rs) ! 1) \<le> 18" "set_started rs" "name_written es = 0"
      "expected_checksum es = le_u16 (slice 2 4 (fst (hd rs)))"
      "\<forall>row \<in> set rs. length (fst row) = 32" "primary_fields (fst (rs ! 0)) (entry es)"
      "de_primary (entry es) = snd (rs ! 0)"
      using rs(1,5) left by (auto simp: in_set_def)
    then show "in_set (rs @ [(raw, locator)]) (es2\<lparr>secondary_left := secondary_left es2 - 1\<rparr>)"
      unfolding in_set_def es2_def using add keep flds good one ne hd raw
      by (simp add: es1_def [symmetric] set_started_def)
  qed
qed

lemma push_name_parsing:
  assumes run: "(push_name es raw locator :: ('e error + DirectoryEntry option) \<times> EntrySet) = (Inr r, es')"
    and raw: "length raw = 32"
    and rs: "in_set rs es" "arrays_ok es" "\<not> ignored es" "secondary_left es \<noteq> 0" "stream_seen es"
    and more: "name_written es < name_len (entry es)"
  shows "parsing (rs @ [(raw, locator)]) es' \<and>
    (\<forall>e. r = Some e \<longrightarrow> yields (rs @ [(raw, locator)]) e \<and> secondary_left es' = 0)"
proof -
  let ?rs = "rs @ [(raw, locator)]"
  note room = in_set_room [OF rs(1,4)]
  note add = in_set_add [OF rs(1,2,4), of raw locator]
  have two: "2 \<le> length rs" and rows: "\<forall>row \<in> set rs. length (fst row) = 32"
    and wr: "unat (name_written es) = 15 * (length rs - 2)"
    and old: "\<forall>i < 15 * (length rs - 2). i < unat (name_len (entry es)) \<longrightarrow>
      de_name (entry es) ! i = row_names rs ! i"
    using rs(1,5) by (auto simp: in_set_def)
  have hd: "?rs ! 0 = rs ! 0" "?rs ! 1 = rs ! 1" "hd ?rs = hd rs"
    using two by (auto simp: nth_append hd_append)
  define es1 where "es1 = add_secondary es raw locator"
  define nm where "nm = write_units (unat (name_written es)) (unat (name_len (entry es1))) (name_units raw) (de_name (entry es1))"
  define es2 where "es2 = es1\<lparr>entry := (entry es1)\<lparr>de_name := nm\<rparr>, name_written := saturating_add (name_written es) 15\<rparr>"
  have cs: "(count_secondary es2 :: ('e error + DirectoryEntry option) \<times> EntrySet) = (Inr r, es')"
    using run room by (simp add: push_name_def Let_def es1_def es2_def nm_def name_units_def)
  have keep: "secondary_left es1 = secondary_left es" "ignored es1 = ignored es" "stream_seen es1 = stream_seen es"
    "expected_checksum es1 = expected_checksum es" "de_primary (entry es1) = de_primary (entry es)"
    "de_stream (entry es1) = de_stream (entry es)" "name_len (entry es1) = name_len (entry es)"
    "de_name (entry es1) = de_name (entry es)"
    "de_valid_length (entry es1) = de_valid_length (entry es)" "de_data_length (entry es1) = de_data_length (entry es)"
    "de_first_cluster (entry es1) = de_first_cluster (entry es)"
    "primary_fields p ((entry es1)\<lparr>de_name := nm\<rparr>) = primary_fields p (entry es)"
    "stream_fields p ((entry es1)\<lparr>de_name := nm\<rparr>) = stream_fields p (entry es)" for p
    by (simp_all add: es1_def add_secondary_def Let_def primary_fields_def stream_fields_def)
  have sat: "unat (saturating_add (name_written es) 15) = 15 * (length ?rs - 2)"
  proof -
    have "15 * (length rs - 2) + 15 < 256" "15 * (length rs - 2) + 15 = 15 * (length ?rs - 2)"
      using two room by auto
    then show ?thesis using wr by (simp add: saturating_add_def unat_add_small)
  qed
  have len_nm: "length (de_name (entry es)) = 255" using rs(2) by (simp add: arrays_ok_def)
  have names: "nm ! i = row_names ?rs ! i"
    if i: "i < 15 * (length ?rs - 2)" "i < unat (name_len (entry es))" for i
  proof -
    have "i < 255" using i(2) unat_u8_lt [of "name_len (entry es)"] by linarith
    moreover have "row_names ?rs = row_names rs @ name_units raw" "length (row_names rs) = 15 * (length rs - 2)"
      using two rows by (simp_all add: row_names_append length_row_names)
    ultimately show ?thesis
      using i old two wr raw len_nm
      by (auto simp: nm_def keep nth_write_units length_name_units nth_append)
  qed
  have part: "length ?rs + unat (secondary_left es - 1) = 1 + unat (fst (hd rs) ! 1)"
    using rs(1,4) unat_minus_1 by (auto simp: in_set_def unat_gt_0 [symmetric] simp del: unat_gt_0)
  have low: "15 * (length ?rs - 3) < unat (name_len (entry es))"
    using more wr two by (simp add: word_less_nat_alt)
  show ?thesis
  proof (rule count_secondary_parsing [OF cs])
    show "arrays_ok es2"
      using arrays_ok_add_secondary [OF rs(2) room [THEN conjunct2], of raw locator]
      by (simp add: es2_def nm_def es1_def arrays_ok_def)
    show "\<not> ignored es2" "secondary_left es2 \<noteq> 0" using rs(3,4) keep by (simp_all add: es2_def)
    show "in_set ?rs (es2\<lparr>secondary_left := secondary_left es2 - 1\<rparr>)"
      using rs(1,5) part add keep names sat low two raw
      unfolding in_set_def hd by (simp add: es2_def es1_def [symmetric] set_started_def hd)
  qed
qed

lemma push_parsing:
  assumes run: "(push es raw locator :: ('e error + DirectoryEntry option) \<times> EntrySet) = (Inr r, es')"
    and raw: "length raw = 32" and rs: "parsing rs es"
  shows "(parsing [(raw, locator)] es' \<or> parsing (rs @ [(raw, locator)]) es') \<and>
    (\<forall>e. r = Some e \<longrightarrow> yields (rs @ [(raw, locator)]) e \<and> secondary_left es' = 0)"
proof (cases "raw ! 0 = 0x85")
  case True
  then show ?thesis using run raw push_primary_parsing [of es raw locator r es', where 'e = 'e] by (simp add: push_def)
next
  case False
  show ?thesis
  proof (cases "secondary_left es = 0 \<or> ignored es")
    case True
    then have "r = None \<and> (es' = es \<and> secondary_left es = 0 \<or>
        es' = es\<lparr>secondary_left := secondary_left es - 1, ignored := secondary_left es - 1 \<noteq> 0\<rparr>)"
      using run False by (cases "secondary_left es = 0") (simp_all add: push_def Let_def)
    then show ?thesis using rs by (auto simp: parsing_def arrays_ok_def)
  next
    case act: False
    then have i: "in_set rs es" "arrays_ok es" "\<not> ignored es" "secondary_left es \<noteq> 0"
      using rs by (simp_all add: parsing_def)
    show ?thesis
    proof (cases "raw ! 0 = 0xC0 \<and> \<not> stream_seen es \<and> de_entry_count (entry es) = 1")
      case True
      then have "(push_stream es raw locator :: ('e error + DirectoryEntry option) \<times> EntrySet) = (Inr r, es')"
        and "\<not> stream_seen es"
        using run False act by (simp_all add: push_def)
      from push_stream_parsing [OF this(1) raw i this(2)] show ?thesis by blast
    next
      case not_stream: False
      show ?thesis
      proof (cases "raw ! 0 = 0xC1 \<and> stream_seen es \<and> name_written es < name_len (entry es)")
        case True
        then have "(push_name es raw locator :: ('e error + DirectoryEntry option) \<times> EntrySet) = (Inr r, es')"
          and "stream_seen es" "name_written es < name_len (entry es)"
          using run False act not_stream by (simp_all add: push_def)
        from push_name_parsing [OF this(1) raw i this(2,3)] show ?thesis by blast
      next
        case not_name: False
        have "r = None \<and> es' = es\<lparr>ignored := True, secondary_left := secondary_left es - 1\<rparr>"
          using run act unfolding push_def if_not_P [OF False] if_not_P [OF not_stream] if_not_P [OF not_name]
          by simp
        then show ?thesis using i(2) by (simp add: parsing_def arrays_ok_def)
      qed
    qed
  qed
qed

lemma push_rows_parsing:
  "(push_rows es rows :: ('e error + DirectoryEntry option) \<times> EntrySet) = (Inr (Some e), es') \<Longrightarrow>
    parsing rs es \<Longrightarrow> \<forall>row \<in> set rows. length (fst row) = 32 \<Longrightarrow>
    \<exists>pre set post. rs @ rows = pre @ set @ post \<and> yields set e"
proof (induction rows arbitrary: es rs)
  case Nil
  then show ?case by simp
next
  case (Cons row rows)
  obtain raw locator where row: "row = (raw, locator)" by (cases row)
  obtain r es1 where step: "(push es raw locator :: ('e error + DirectoryEntry option) \<times> EntrySet) = (Inr r, es1)"
    using Cons.prems(1) by (auto simp: row split: prod.splits sum.splits)
  have raw: "length raw = 32" using Cons.prems(3) by (simp add: row)
  note next_pos = push_parsing [OF step raw Cons.prems(2)]
  show ?case
  proof (cases r)
    case (Some e1)
    with step Cons.prems(1) have "e1 = e" by (simp add: row)
    with next_pos Some have "yields (rs @ [(raw, locator)]) e" by simp
    moreover have "rs @ row # rows = [] @ (rs @ [(raw, locator)]) @ rows" by (simp add: row)
    ultimately show ?thesis by blast
  next
    case None
    with step Cons.prems(1) have rest: "(push_rows es1 rows :: ('e error + DirectoryEntry option) \<times> EntrySet) = (Inr (Some e), es')"
      by (simp add: row)
    have len: "\<forall>row \<in> set rows. length (fst row) = 32" using Cons.prems(3) by simp
    from next_pos have "parsing [(raw, locator)] es1 \<or> parsing (rs @ [(raw, locator)]) es1" by simp
    then show ?thesis
    proof
      assume "parsing [(raw, locator)] es1"
      from Cons.IH [OF rest this len] obtain pre s post
        where "[(raw, locator)] @ rows = pre @ s @ post" "yields s e" by blast
      then have "rs @ row # rows = (rs @ pre) @ s @ post" by (simp add: row)
      with \<open>yields s e\<close> show ?thesis by blast
    next
      assume "parsing (rs @ [(raw, locator)]) es1"
      from Cons.IH [OF rest this len] show ?thesis by (simp add: row)
    qed
  qed
qed

lemma parsing_new: "parsing [] new_entry_set"
  by (simp add: parsing_def new_entry_set_def arrays_ok_def empty_entry_def no_locators_def)

text \<open>The smallest entry set: an empty file named \<open>A\<close>, after an unrelated entry.\<close>

definition test_rows :: "(u8 list \<times> EntryLocator) list" where
  "test_rows =
     [(0x05 # replicate 31 0, \<lparr>el_lba = 90, el_offset = 0\<rparr>),
      ([0x85, 2, 0x66, 0x0D, 0x20] @ replicate 27 0, \<lparr>el_lba = 90, el_offset = 32\<rparr>),
      ([0xC0, 1, 0, 1] @ replicate 28 0, \<lparr>el_lba = 90, el_offset = 64\<rparr>),
      ([0xC1, 0, 0x41, 0] @ replicate 28 0, \<lparr>el_lba = 90, el_offset = 96\<rparr>)]"

section \<open>Properties\<close>

text \<open>
  C22: Soundness of the entry decoder, for any input whatever. If feeding 32-byte entries to a fresh
  decoder yields a directory entry, then it is the content of one contiguous run of those entries: a
  0x85 entry whose secondary count is the rest of the run, a stream extension second, name entries
  after it. The run's set checksum is the one stored in the 0x85 entry, the entry's locators are the
  run's in order, and its attributes, timestamps, extent and name are read from the run; the number
  of entries is exactly what the name needs, the valid length is within the data length, and data
  that is not empty starts at a cluster from 2 on.
\<close>
theorem entry_decoder_sound:
  assumes "\<forall>row \<in> set rows. length (fst row) = 32"
    and "(push_rows new_entry_set rows :: ('e error + DirectoryEntry option) \<times> EntrySet) = (Inr (Some e), es')"
  shows "\<exists>pre set post. rows = pre @ set @ post \<and> yields set e"
  using push_rows_parsing [OF assms(2) parsing_new assms(1)] by simp

theorem entry_decoder_sound_witness:
  "\<exists>e es'. (push_rows new_entry_set test_rows :: (unit error + DirectoryEntry option) \<times> EntrySet) = (Inr (Some e), es') \<and>
     name_utf16 e = [0x41] \<and> (\<exists>pre set post. test_rows = pre @ set @ post \<and> yields set e)"
proof -
  let ?run = "push_rows new_entry_set test_rows :: (unit error + DirectoryEntry option) \<times> EntrySet"
  have name: "case fst ?run of Inr (Some e) \<Rightarrow> name_utf16 e = [0x41] | _ \<Rightarrow> False"
    by code_simp
  then obtain e es' where run: "?run = (Inr (Some e), es')"
    by (cases ?run) (auto split: sum.splits option.splits)
  moreover have "\<forall>row \<in> set test_rows. length (fst row) = 32" by (simp add: test_rows_def)
  ultimately show ?thesis using entry_decoder_sound [OF _ run] name by fastforce
qed

text \<open>
  C37: The set checksum detects every change of a single byte of any entry of the set, except at bytes
  2 and 3 of the first entry, where the checksum itself is stored and which never matter.
\<close>
theorem set_checksum_covers:
  assumes "k < length raws" "i < length (raws ! k)" "v \<noteq> raws ! k ! i"
  shows "set_checksum (raws[k := (raws ! k)[i := v]]) = set_checksum raws \<longleftrightarrow> k = 0 \<and> i \<in> {2, 3}"
proof -
  define f where "f = (\<lambda>primary acc. \<lambda>(j, b :: u8). if \<not> primary \<or> \<not> (j = 2 \<or> j = (3 :: nat)) then ror1 acc + ucast b else (acc :: u16))"
  have step: "checksum_step acc raw primary = foldl (f primary) acc (enumerate 0 raw)" for acc raw primary
    by (simp add: checksum_step_def f_def)
  have state: "f p s x = f p t x \<Longrightarrow> s = t" for p s t x
    by (cases x) (auto simp: f_def split: if_splits dest: ror1_inj)
  have step_inj: "checksum_step s raw p = checksum_step t raw p \<Longrightarrow> s = t" for s t raw p
  proof -
    have "foldl (f p) s xs = foldl (f p) t xs \<Longrightarrow> s = t" for xs
      by (induction xs arbitrary: s t) (auto dest: state)
    then show "checksum_step s raw p = checksum_step t raw p \<Longrightarrow> s = t" by (simp add: step)
  qed
  have byte: "checksum_step s (raw[i := v]) p = checksum_step s raw p \<longleftrightarrow> p \<and> i \<in> {2, 3}"
    if "i < length raw" "v \<noteq> raw ! i" for s raw p
  proof (cases "p \<and> i \<in> {2, 3}")
    case True
    have "f p t (i, v) = f p t (enumerate 0 raw ! i)" for t
      using True that by (auto simp: f_def nth_enumerate_eq)
    then have "foldl (f p) s ((enumerate 0 raw)[i := (i, v)]) = foldl (f p) s (enumerate 0 raw)"
      using that(1) by (subst (2) id_take_nth_drop [of i]) (simp_all add: upd_conv_take_nth_drop)
    with True show ?thesis by (simp add: step enumerate_update)
  next
    case False
    have "f p t (i, v) \<noteq> f p t (enumerate 0 raw ! i)" for t
      using False that by (auto simp: f_def nth_enumerate_eq dest: ucast_u8_u16_inj)
    then have "foldl (f p) s ((enumerate 0 raw)[i := (i, v)]) \<noteq> foldl (f p) s (enumerate 0 raw)"
      using that(1) state by (intro foldl_detects_at) simp_all
    with False show ?thesis by (simp add: step enumerate_update)
  qed
  obtain p ss where raws: "raws = p # ss" using assms(1) by (cases raws) auto
  show ?thesis
  proof (cases k)
    case 0
    define g where "g = (\<lambda>acc raw. checksum_step acc raw False)"
    have "foldl g s ss = foldl g t ss \<longleftrightarrow> s = t" for s t
      by (induction ss arbitrary: s t) (auto simp: g_def dest: step_inj)
    then show ?thesis
      using 0 assms byte [of p] by (simp add: raws set_checksum_def g_def [symmetric])
  next
    case (Suc j)
    then have j: "j < length ss" "i < length (ss ! j)" "v \<noteq> ss ! j ! i" using assms by (simp_all add: raws)
    have "foldl (\<lambda>acc raw. checksum_step acc raw False) s (ss[j := (ss ! j)[i := v]])
        \<noteq> foldl (\<lambda>acc raw. checksum_step acc raw False) s ss" for s
      using j byte [OF j(2,3)] by (intro foldl_detects_at) (auto dest: step_inj)
    then show ?thesis using Suc by (simp add: raws set_checksum_def)
  qed
qed

theorem set_checksum_covers_witness:
  "set_checksum [[0x85, 2, 9, 9], [0xC0, 7]] \<noteq> set_checksum [[0x85, 2, 9, 9], [0xC0, 1]] \<and>
   set_checksum [[0x85, 2, 4, 9], [0xC0, 1]] = set_checksum [[0x85, 2, 9, 9], [0xC0, 1]]"
  using set_checksum_covers [of 1 "[[0x85, 2, 9, 9], [0xC0, 1]]" 1 7]
    set_checksum_covers [of 0 "[[0x85, 2, 9, 9], [0xC0, 1]]" 2 4] by simp

end
