(* ===== verification/Boot.thy ===== *)
theory Boot
  imports Block_Device Geometry
begin

text \<open>
  The parsing half of \<open>mount/mod.rs\<close>: the sector-size check, the MBR scan, the CRC of GPT, the boot
  checksum of one sector and the boot sector parser. All are pure functions of bytes. The lemmas show
  that an accepted boot sector gives a well-formed geometry, and that both checksums can be taken
  sector by sector and detect every change confined to one byte.
\<close>

section \<open>Partition tables\<close>

definition checked_sector_size :: "nat \<Rightarrow> 'e error + nat" where
  "checked_sector_size sz = (if sz \<in> {512, 1024, 2048, 4096} then Inr sz else Inl UnsupportedSectorSize)"

definition has_protective_mbr :: "u8 list \<Rightarrow> bool" where
  "has_protective_mbr bs \<longleftrightarrow>
     512 \<le> length bs \<and> list_ex (\<lambda>entry. entry ! 4 = 0xEE) (chunks_exact 16 (slice 446 510 bs))"

primrec mbr_entries :: "u8 list list \<Rightarrow> 'e error + Partition" where
  "mbr_entries [] = Inl PartitionNotFound"
| "mbr_entries (entry # entries) =
     (let first = ucast (le_u32 (slice 8 12 entry)) :: u64;
          count = ucast (le_u32 (slice 12 16 entry)) :: u64
      in if entry ! 4 = 0x07 \<and> first \<noteq> 0 \<and> count \<noteq> 0
         then Inr \<lparr>first_lba = first, sector_count = count\<rparr>
         else mbr_entries entries)"

definition mbr_partition :: "u8 list \<Rightarrow> 'e error + Partition" where
  "mbr_partition bs =
     (if length bs < 512 \<or> bs ! 510 \<noteq> 0x55 \<or> bs ! 511 \<noteq> 0xAA then Inl InvalidPartitionTable
      else mbr_entries (chunks_exact 16 (slice 446 510 bs)))"

section \<open>Checksums\<close>

definition crc32_bit :: "u32 \<Rightarrow> u32" where
  "crc32_bit state = (if state AND 1 \<noteq> 0 then drop_bit 1 state XOR 0xEDB88320 else drop_bit 1 state)"

definition crc32_step :: "u32 \<Rightarrow> u8 list \<Rightarrow> u32" where
  "crc32_step state bytes = foldl (\<lambda>state byte. (crc32_bit ^^ 8) (state XOR ucast byte)) state bytes"

definition crc32 :: "u8 list \<Rightarrow> u32" where
  "crc32 bytes = crc32_step 0xFFFFFFFF bytes XOR 0xFFFFFFFF"

text \<open>One sector of the boot checksum; the first one skips \<open>VolumeFlags\<close> and \<open>PercentInUse\<close>.\<close>

definition rotate_add :: "u32 \<Rightarrow> u8 \<Rightarrow> u32" where
  "rotate_add checksum byte = ror1 checksum + ucast byte"

definition boot_checksum_sector :: "bool \<Rightarrow> u32 \<Rightarrow> u8 list \<Rightarrow> u32" where
  "boot_checksum_sector is_first checksum bytes =
     foldl (\<lambda>checksum (offset, byte).
         if is_first \<and> offset \<in> {106, 107, 112} then checksum else rotate_add checksum byte)
       checksum (enumerate 0 bytes)"

section \<open>The boot sector\<close>

definition oem_name :: "u8 list" where
  "oem_name = [0x45, 0x58, 0x46, 0x41, 0x54, 0x20, 0x20, 0x20]"

definition parse_boot :: "Partition \<Rightarrow> u8 list \<Rightarrow> nat \<Rightarrow> 'e error + Geometry" where
  "parse_boot part boot device_sector_size =
     (if length boot < 512 \<or> slice 3 11 boot \<noteq> oem_name \<or> boot ! 510 \<noteq> 0x55 \<or> boot ! 511 \<noteq> 0xAA
      then Inl InvalidBootSector
      else if slice 0 3 boot \<noteq> [0xEB, 0x76, 0x90] \<or> list_ex (\<lambda>b. b \<noteq> 0) (slice 11 64 boot) \<or>
        list_ex (\<lambda>b. b \<noteq> 0) (slice 113 120 boot) \<or> boot ! 105 \<noteq> 1 \<or> 99 < boot ! 104 \<or>
        \<not> (boot ! 112 \<le> 100 \<or> boot ! 112 = 0xFF)
      then Inl Corrupt
      else
        let sector_shift = unat (boot ! 108); cluster_shift = unat (boot ! 109) in
        if \<not> (9 \<le> sector_shift \<and> sector_shift \<le> 12) then Inl UnsupportedSectorSize
        else if 2 ^ sector_shift \<noteq> device_sector_size then Inl InvalidBootSector
        else if 25 < cluster_shift \<or> 25 < sector_shift + cluster_shift then Inl UnsupportedClusterSize
        else
          let bytes_per_sector = 2 ^ sector_shift :: nat;
              sectors_per_cluster = push_bit cluster_shift 1 :: u32;
              fat_offset = le_u32 (slice 80 84 boot);
              fat_length = le_u32 (slice 84 88 boot);
              cluster_heap_offset = le_u32 (slice 88 92 boot);
              cluster_count = le_u32 (slice 92 96 boot);
              root_cluster = le_u32 (slice 96 100 boot);
              volume_length = le_u64 (slice 72 80 boot);
              number_of_fats = boot ! 110
          in if number_of_fats \<noteq> 1 \<and> number_of_fats \<noteq> 2 then Inl Corrupt
          else
            let active_fat = (if number_of_fats = 2 then ucast (le_u16 (slice 106 108 boot) AND 1) else 0)
            in if fat_offset = 0 \<or> fat_length = 0 \<or> cluster_count = 0 \<or> root_cluster < 2 \<or>
                saturating_add cluster_count 2 \<le> root_cluster
            then Inl Corrupt
            else
              (case Option.bind (checked_mul (ucast fat_length) (ucast number_of_fats)) (checked_add (ucast fat_offset :: u64)) of
                None \<Rightarrow> Inl Corrupt
              | Some fat_end \<Rightarrow>
                  (case Option.bind (checked_add (ucast cluster_count :: u64) 2) (\<lambda>entries. checked_mul entries 4) of
                    None \<Rightarrow> Inl Corrupt
                  | Some fat_bytes_required \<Rightarrow>
                      if fat_offset < 24 \<or> ucast fat_length < div_ceil fat_bytes_required (of_usize bytes_per_sector) \<or>
                        ucast cluster_heap_offset < fat_end
                      then Inl Corrupt
                      else
                        (case checked_add (ucast cluster_heap_offset :: u64) (ucast cluster_count * ucast sectors_per_cluster) of
                          None \<Rightarrow> Inl Corrupt
                        | Some heap_end \<Rightarrow>
                            if volume_length = 0 \<or> volume_length < heap_end \<or> sector_count part < volume_length
                            then Inl Corrupt
                            else Inr \<lparr>partition_of = part, bytes_per_sector = word_of_nat bytes_per_sector,
                              sectors_per_cluster = sectors_per_cluster, fat_offset = fat_offset,
                              fat_length = fat_length, number_of_fats = number_of_fats, active_fat = active_fat,
                              cluster_heap_offset = cluster_heap_offset, cluster_count = cluster_count,
                              root_cluster = root_cluster\<rparr>))))"

section \<open>An accepted boot sector\<close>

lemma word_of_nat_sector_size:
  "9 \<le> k \<Longrightarrow> k \<le> 12 \<Longrightarrow> unat (word_of_nat (2 ^ k) :: u16) = 2 ^ k \<and> unat (of_usize (2 ^ k)) = 2 ^ k \<and>
     (2 :: nat) ^ k \<in> {512, 1024, 2048, 4096}"
proof -
  assume "9 \<le> k" "k \<le> 12"
  then have "k \<in> {9, 10, 11, 12}" by auto
  then show ?thesis by (auto simp: of_usize_def)
qed

lemma unat_push_bit_1: "k \<le> 25 \<Longrightarrow> unat (push_bit k 1 :: u32) = 2 ^ k"
proof -
  assume k: "k \<le> 25"
  then have "(2 :: nat) ^ k < 2 ^ 32" by (intro power_strict_increasing) simp_all
  with k show ?thesis by (simp only: unsigned_push_bit_eq unsigned_1) (simp add: push_bit_eq_mult take_bit_nat_eq_self)
qed

lemma ceil_le:
  fixes a b n :: nat
  assumes "0 < b" "(a + b - 1) div b \<le> n"
  shows "a \<le> n * b"
proof -
  have "a + b - 1 < ((a + b - 1) div b + 1) * b"
    using assms(1) by (metis Suc_eq_plus1 dividend_less_div_times mult.commute mult_Suc_right add.commute)
  also have "\<dots> \<le> (n + 1) * b" using assms(2) by (intro mult_le_mono1) simp
  finally show ?thesis using assms(1) by (simp add: algebra_simps)
qed

lemma parse_boot_fields:
  fixes boot :: "u8 list"
  defines "k \<equiv> unat (boot ! 108)" and "c \<equiv> unat (boot ! 109)"
  assumes "(parse_boot part boot sz :: 'e error + Geometry) = Inr g"
  shows "9 \<le> k \<and> k \<le> 12 \<and> sz = 2 ^ k \<and> bytes_per_sector g = word_of_nat (2 ^ k) \<and> k + c \<le> 25 \<and>
    sectors_per_cluster g = push_bit c 1 \<and> partition_of g = part \<and>
    (number_of_fats g = 1 \<and> active_fat g = 0 \<or>
     number_of_fats g = 2 \<and> active_fat g = ucast (le_u16 (slice 106 108 boot) AND 1)) \<and>
    cluster_count g \<noteq> 0 \<and> 2 \<le> root_cluster g \<and> root_cluster g < saturating_add (cluster_count g) 2 \<and>
    24 \<le> fat_offset g \<and> le_u64 (slice 72 80 boot) \<le> sector_count part \<and>
    (\<exists>fat_end fat_bytes heap_end.
      Option.bind (checked_mul (ucast (fat_length g)) (ucast (number_of_fats g)))
        (checked_add (ucast (fat_offset g) :: u64)) = Some fat_end \<and>
      Option.bind (checked_add (ucast (cluster_count g) :: u64) 2) (\<lambda>n. checked_mul n 4) = Some fat_bytes \<and>
      div_ceil fat_bytes (of_usize (2 ^ k)) \<le> ucast (fat_length g) \<and>
      fat_end \<le> ucast (cluster_heap_offset g) \<and>
      checked_add (ucast (cluster_heap_offset g)) (ucast (cluster_count g) * ucast (sectors_per_cluster g)) = Some heap_end \<and>
      heap_end \<le> le_u64 (slice 72 80 boot))"
  using assms(3) unfolding k_def c_def parse_boot_def Let_def
  by (simp only: not_less not_le split: if_splits option.splits) (clarsimp simp: not_less not_le)+

lemma parse_boot_wf_geometry:
  assumes run: "(parse_boot part boot sz :: 'e error + Geometry) = Inr g"
    and part: "unat (first_lba part) + unat (sector_count part) < 2 ^ 64"
  shows "wf_geometry g \<and> partition_of g = part \<and> unat (bytes_per_sector g) = sz"
proof -
  define k c where "k = unat (boot ! 108)" and "c = unat (boot ! 109)"
  note f = parse_boot_fields [OF run, folded k_def c_def]
  obtain fe fb he where
    fe: "Option.bind (checked_mul (ucast (fat_length g)) (ucast (number_of_fats g)))
        (checked_add (ucast (fat_offset g) :: u64)) = Some fe"
    and fb: "Option.bind (checked_add (ucast (cluster_count g) :: u64) 2) (\<lambda>n. checked_mul n 4) = Some fb"
    and ceil: "div_ceil fb (of_usize (2 ^ k)) \<le> ucast (fat_length g)"
    and fe_le: "fe \<le> ucast (cluster_heap_offset g)"
    and he: "checked_add (ucast (cluster_heap_offset g)) (ucast (cluster_count g) * ucast (sectors_per_cluster g)) = Some he"
    and he_le: "he \<le> le_u64 (slice 72 80 boot)"
    using f by blast
  have k: "9 \<le> k" "k \<le> 12" and c: "c \<le> 25" "k + c \<le> 25" using f by auto
  note size = word_of_nat_sector_size [OF k]
  have bps: "unat (bytes_per_sector g) = 2 ^ k" using f size by simp
  have spc: "unat (sectors_per_cluster g) = 2 ^ c" using f unat_push_bit_1 [OF c(1)] by simp
  have fe': "unat fe = unat (fat_offset g) + unat (fat_length g) * unat (number_of_fats g)"
    using fe by (auto simp: bind_eq_Some_conv dest!: checked_mul_Some checked_add_Some)
  have fb': "unat fb = (unat (cluster_count g) + 2) * 4"
    using fb by (auto simp: bind_eq_Some_conv dest!: checked_mul_Some checked_add_Some)
  have "unat (cluster_count g) * 2 ^ c < 2 ^ 64"
  proof -
    have "(2 :: nat) ^ c \<le> 2 ^ 25" using c by (intro power_increasing) simp_all
    then have "unat (cluster_count g) * 2 ^ c \<le> 4294967296 * 2 ^ 25"
      by (intro mult_le_mono order.strict_implies_order [OF unat_u32_lt])
    then show ?thesis by simp
  qed
  then have "unat (ucast (cluster_count g) * ucast (sectors_per_cluster g) :: u64) = unat (cluster_count g) * 2 ^ c"
    by (subst unat_mult_small) (simp_all add: spc)
  then have he': "unat he = unat (cluster_heap_offset g) + unat (cluster_count g) * 2 ^ c"
    using he by (auto dest!: checked_add_Some)
  have nz: "of_usize (2 ^ k) \<noteq> 0" using size by (metis unat_0 power_not_zero zero_neq_numeral)
  have "(unat fb + 2 ^ k - 1) div 2 ^ k \<le> unat (fat_length g)"
    using ceil size unat_div_ceil [OF nz, of fb] by (simp add: word_le_nat_alt)
  then have fat: "(unat (cluster_count g) + 2) * 4 \<le> unat (fat_length g) * unat (bytes_per_sector g)"
    using ceil_le [of "2 ^ k" "unat fb"] fb' bps by simp
  have "(2 :: nat) ^ k * 2 ^ c \<le> 2 ^ 25" using c by (subst power_add [symmetric], intro power_increasing) simp_all
  moreover have "unat (fat_offset g) + unat (number_of_fats g) * unat (fat_length g) \<le> unat (cluster_heap_offset g)"
    using fe_le fe' by (simp add: word_le_nat_alt mult.commute)
  moreover have "unat (cluster_heap_offset g) + unat (cluster_count g) * 2 ^ c \<le> unat (sector_count part)"
    using he_le he' f by (simp add: word_le_nat_alt)
  moreover have "unat (active_fat g) < unat (number_of_fats g)" "unat (number_of_fats g) \<le> 2"
  proof -
    have "unat (x AND 1) < 2" for x :: u16 unfolding and_one_eq unat_mod by simp
    then have "unat (ucast (x AND 1) :: u8) < 2" for x :: u16
      by (subst unat_ucast_down_small) (simp_all add: less_le_trans [of _ 2 256])
    then show "unat (active_fat g) < unat (number_of_fats g)" "unat (number_of_fats g) \<le> 2" using f by auto
  qed
  moreover have "in_heap g (root_cluster g)" using f by (simp add: in_heap_def)
  moreover have "24 \<le> unat (fat_offset g)" "0 < unat (cluster_count g)" "partition_of g = part" "sz = 2 ^ k"
    using f by (simp_all add: word_le_nat_alt unat_gt_0)
  ultimately show ?thesis using fat size part bps spc by (auto simp: wf_geometry_def)
qed

section \<open>Checksums detect single-byte changes\<close>

lemma xor_right_inj: "a XOR c = b XOR c \<Longrightarrow> a = b" for a b c :: "'a::len word"
proof -
  have "(w XOR c) XOR c = w" for w :: "'a word" by (simp add: xor.assoc)
  then show "a XOR c = b XOR c \<Longrightarrow> a = b" by metis
qed

lemma rotate_add_inj: "rotate_add s b = rotate_add t b \<Longrightarrow> s = t" "rotate_add s b = rotate_add s c \<Longrightarrow> b = c"
  by (auto simp: rotate_add_def dest: ror1_inj ucast_u8_u32_inj)

text \<open>One bit of the CRC is a bijection: the polynomial's top bit shows which branch was taken.\<close>

lemma crc32_bit_top: "bit (crc32_bit s) 31 = bit s 0"
proof -
  have odd: "(s AND 1 \<noteq> 0) = bit s 0" by (simp add: and_one_eq bit_0 odd_iff_mod_2_eq_one mod2_eq_if)
  have "bit (0xEDB88320 :: u32) 31" by (simp add: bit_numeral_rec)
  then show ?thesis unfolding crc32_bit_def odd by (auto simp: bit_simps dest: bit_imp_le_length)
qed

lemma crc32_bit_inj: "crc32_bit s = crc32_bit t \<Longrightarrow> s = t"
proof -
  assume eq: "crc32_bit s = crc32_bit t"
  then have low: "bit s 0 = bit t 0" using crc32_bit_top by metis
  have odd: "(w AND 1 \<noteq> 0) = bit w 0" for w :: u32
    by (simp add: and_one_eq bit_0 odd_iff_mod_2_eq_one mod2_eq_if)
  have "drop_bit 1 s = drop_bit 1 t"
    using eq low unfolding crc32_bit_def odd by (cases "bit t 0") (simp_all, erule xor_right_inj)
  then have "bit s (Suc n) = bit t (Suc n)" for n
    by (metis bit_drop_bit_eq comp_apply plus_1_eq_Suc)
  with low show ?thesis by (intro bit_word_eqI) (metis not0_implies_Suc)
qed

lemma crc32_bits_inj: "(crc32_bit ^^ n) s = (crc32_bit ^^ n) t \<Longrightarrow> s = t"
  by (induction n) (auto dest: crc32_bit_inj)

lemma crc32_byte_inj:
  "(crc32_bit ^^ 8) (s XOR ucast b) = (crc32_bit ^^ 8) (t XOR ucast b) \<Longrightarrow> s = t"
  "(crc32_bit ^^ 8) (s XOR ucast (b :: u8)) = (crc32_bit ^^ 8) (s XOR ucast c) \<Longrightarrow> b = c"
  by (erule crc32_bits_inj [THEN xor_right_inj])
    (drule crc32_bits_inj, unfold xor.commute [of s], erule xor_right_inj [THEN ucast_u8_u32_inj])

lemma crc32_step_append: "crc32_step s (xs @ ys) = crc32_step (crc32_step s xs) ys"
  by (simp add: crc32_step_def)

section \<open>Properties\<close>

text \<open>A minimal boot sector: 512-byte sectors, one sector per cluster, one FAT, 100 clusters.\<close>

definition test_boot :: "u8 list" where
  "test_boot = [0xEB, 0x76, 0x90] @ oem_name @ replicate 53 0 @ le64 1 @ le64 4096 @ le32 24 @ le32 1 @
     le32 32 @ le32 100 @ le32 4 @ le32 0 @ [0, 1] @ le16 0 @ [9, 0, 1, 0x80, 0] @ replicate 397 0 @ [0x55, 0xAA]"

text \<open>
  C31: A boot sector that \<open>parse_boot\<close> accepts describes a well-formed volume of the partition: sector
  and cluster sizes are the format's, the FATs hold an entry for every cluster and end before the
  cluster heap, the heap ends inside the partition, the root cluster is a cluster, and the sector
  size is the device's. All of it is checked without a sum that wraps.
\<close>
theorem parse_boot_wf:
  assumes "unat (first_lba part) + unat (sector_count part) < 2 ^ 64"
    and "(parse_boot part boot sz :: 'e error + Geometry) = Inr g"
  shows "wf_geometry g \<and> partition_of g = part \<and> unat (bytes_per_sector g) = sz"
  using parse_boot_wf_geometry [OF assms(2,1)] .

theorem parse_boot_wf_witness:
  "\<exists>g. (parse_boot \<lparr>first_lba = 64, sector_count = 5000\<rparr> test_boot 512 :: unit error + Geometry) = Inr g \<and> wf_geometry g"
proof -
  let ?run = "parse_boot \<lparr>first_lba = 64, sector_count = 5000\<rparr> test_boot 512 :: unit error + Geometry"
  have "case ?run of Inr g \<Rightarrow> True | _ \<Rightarrow> False"
    by (simp add: parse_boot_def test_boot_def oem_name_def slice_parts list_ex_iff nth_append nth_Cons_numeral
        checked_mul_def checked_add_def div_ceil_def of_usize_def saturating_add_def)
  then obtain g where g: "?run = Inr g" by (auto split: sum.splits)
  with parse_boot_wf [OF _ g] show ?thesis by simp
qed

text \<open>
  C39: The CRC of the GPT tables detects every change of a single byte, and the CRC of a table is the
  one accumulated sector by sector over its parts.
\<close>
theorem crc32_detects_byte:
  "i < length bs \<Longrightarrow> v \<noteq> bs ! i \<Longrightarrow> crc32 (bs[i := v]) \<noteq> crc32 bs \<and>
     crc32 (concat parts) = foldl crc32_step 0xFFFFFFFF parts XOR 0xFFFFFFFF"
proof
  assume i: "i < length bs" "v \<noteq> bs ! i"
  have "crc32_step 0xFFFFFFFF (bs[i := v]) \<noteq> crc32_step 0xFFFFFFFF bs"
    unfolding crc32_step_def using i by (rule foldl_detects [rotated 2]) (erule crc32_byte_inj)+
  then show "crc32 (bs[i := v]) \<noteq> crc32 bs" unfolding crc32_def using xor_right_inj by blast
  have "crc32_step s (concat parts) = foldl crc32_step s parts" for s
    by (induction parts arbitrary: s) (simp add: crc32_step_def, simp add: crc32_step_append)
  then show "crc32 (concat parts) = foldl crc32_step 0xFFFFFFFF parts XOR 0xFFFFFFFF"
    by (simp add: crc32_def)
qed

theorem crc32_detects_byte_witness:
  "crc32 ([1, 2, 3][1 := 7]) \<noteq> crc32 [1, 2, 3] \<and>
     crc32 (concat [[1], [2, 3]]) = foldl crc32_step 0xFFFFFFFF [[1], [2, 3]] XOR 0xFFFFFFFF"
  by (rule crc32_detects_byte) simp_all

text \<open>
  The boot checksum of a sector changes with every single byte of it, except in the first sector at
  \<open>VolumeFlags\<close> (106, 107) and \<open>PercentInUse\<close> (112), and carries the checksum of the sectors before it.
\<close>

definition boot_byte :: "bool \<Rightarrow> u32 \<Rightarrow> nat \<times> u8 \<Rightarrow> u32" where
  "boot_byte is_first checksum = (\<lambda>(offset, byte).
     if is_first \<and> offset \<in> {106, 107, 112} then checksum else rotate_add checksum byte)"

lemma boot_checksum_sector_byte: "boot_checksum_sector is_first checksum bs = foldl (boot_byte is_first) checksum (enumerate 0 bs)"
  unfolding boot_checksum_sector_def boot_byte_def ..

lemma boot_byte_inj: "boot_byte is_first s x = boot_byte is_first t x \<Longrightarrow> s = t"
  by (cases x) (auto simp: boot_byte_def split: if_splits dest: rotate_add_inj)

lemma boot_checksum_sector_inj: "boot_checksum_sector is_first s bs = boot_checksum_sector is_first t bs \<Longrightarrow> s = t"
  unfolding boot_checksum_sector_byte by (rule foldl_state_inj [OF boot_byte_inj])

lemma boot_checksum_sector_covers:
  assumes "i < length bs" "v \<noteq> bs ! i"
  shows "boot_checksum_sector is_first checksum (bs[i := v]) = boot_checksum_sector is_first checksum bs
    \<longleftrightarrow> is_first \<and> i \<in> {106, 107, 112}"
proof (cases "is_first \<and> i \<in> {106, 107, 112}")
  case True
  have "foldl (boot_byte is_first) s ((enumerate 0 bs)[i := (i, v)]) = foldl (boot_byte is_first) s (enumerate 0 bs)" for s
  proof -
    have "boot_byte is_first t (i, v) = boot_byte is_first t (enumerate 0 bs ! i)" for t
      using True assms(1) by (auto simp: boot_byte_def nth_enumerate_eq)
    then show ?thesis using assms(1) by (subst (2) id_take_nth_drop [of i]) (simp_all add: upd_conv_take_nth_drop)
  qed
  with True show ?thesis by (simp add: boot_checksum_sector_byte enumerate_update)
next
  case False
  have "boot_byte is_first s (i, b) = boot_byte is_first s (i, c) \<Longrightarrow> b = c" for s b c
    using False by (auto simp: boot_byte_def dest: rotate_add_inj)
  then have "foldl (boot_byte is_first) s ((enumerate 0 bs)[i := (i, v)]) \<noteq> foldl (boot_byte is_first) s (enumerate 0 bs)" for s
    using assms boot_byte_inj by (intro foldl_detects_at) (auto simp: nth_enumerate_eq)
  with False show ?thesis by (simp add: boot_checksum_sector_byte enumerate_update)
qed

end
