(* ===== verification/Mount.thy ===== *)
theory Mount
  imports Boot Mem_Device
begin

text \<open>
  The device half of \<open>mount/mod.rs\<close>: \<open>Volume::mount\<close> and the scans it is made of (GPT, boot checksum,
  root directory, UpCase table). A scan bounded by the code's \<open>visited\<close> counter is a \<open>loop_m\<close> with
  \<open>cluster_count\<close> rounds whose exhaustion is the code's own \<open>Corrupt\<close>.

  The lemmas say that mounting never changes the medium and always returns, that a mounted volume has
  a well-formed geometry read from a boot region with a valid checksum, and which errors a damaged
  boot region, root directory or UpCase table gives.
\<close>

section \<open>Volume data\<close>

record VolumeLabel =
  vl_units :: "u16 list"
  vl_len :: u8

definition empty_label :: VolumeLabel where
  "empty_label = \<lparr>vl_units = replicate 11 0, vl_len = 0\<rparr>"

definition label_utf16 :: "VolumeLabel \<Rightarrow> u16 list" where
  "label_utf16 l = take (unat (vl_len l)) (vl_units l)"

record Volume =
  vol_geometry :: Geometry
  vol_bitmap :: AllocationBitmap
  vol_upcase :: UpCaseTable
  vol_upcase_valid :: bool
  vol_label :: VolumeLabel

section \<open>GUID partition table\<close>

definition basic_data_guid :: "u8 list" where
  "basic_data_guid = [0xA2, 0xA0, 0xD0, 0xEB, 0xE5, 0xB9, 0x33, 0x44, 0x87, 0xC0, 0x68, 0xB6, 0xB7, 0x26, 0x99, 0xC7]"

definition efi_part :: "u8 list" where
  "efi_part = [0x45, 0x46, 0x49, 0x20, 0x50, 0x41, 0x52, 0x54]"

text \<open>The entries of one sector of the table, with their offsets; \<open>base\<close> is the sector's first byte.\<close>

fun gpt_entries :: "u64 \<Rightarrow> u64 \<Rightarrow> u64 \<Rightarrow> (nat \<times> u8 list) list \<Rightarrow> Partition option \<Rightarrow> 'e error + Partition option" where
  "gpt_entries device_count base table_bytes [] candidate = Inr candidate"
| "gpt_entries device_count base table_bytes ((offset, entry) # entries) candidate =
     (if table_bytes \<le> base + of_usize offset then Inr candidate
      else if slice 0 16 entry = basic_data_guid \<and> candidate = None
      then
        let first = le_u64 (slice 32 40 entry); last_lba = le_u64 (slice 40 48 entry)
        in if first = 0 \<or> last_lba < first \<or> device_count \<le> last_lba then Inl InvalidGpt
           else gpt_entries device_count base table_bytes entries
             (Some \<lparr>first_lba = first, sector_count = last_lba - first + 1\<rparr>)
      else gpt_entries device_count base table_bytes entries candidate)"

definition gpt_offsets :: "nat \<Rightarrow> u8 list \<Rightarrow> (nat \<times> u8 list) list" where
  "gpt_offsets entry_size bytes =
     map (\<lambda>(k, entry). (k * entry_size, entry)) (enumerate 0 (chunks_exact entry_size bytes))"

definition gpt_sector ::
    "('d, 'e) device_ops \<Rightarrow> nat \<Rightarrow> u64 \<Rightarrow> u64 \<Rightarrow> nat \<Rightarrow> nat \<Rightarrow> u32 \<times> Partition option \<Rightarrow>
      ('d, 'x, 'e, u32 \<times> Partition option) iom" where
  "gpt_sector D sz entries_lba table_bytes entry_size sector_index acc =
     bindM (read_sector D (entries_lba + of_usize sector_index) sz) (\<lambda>_.
     bindM (sector sz) (\<lambda>bytes.
     bindM (getsM (\<lambda>s. sector_count_of D (device s))) (\<lambda>device_count.
     let base = of_usize sector_index * of_usize sz;
         usable = as_usize (min (of_usize sz) (table_bytes - base))
     in bindM (from_result (gpt_entries device_count base table_bytes (gpt_offsets entry_size bytes) (snd acc))) (\<lambda>candidate.
        returnM (crc32_step (fst acc) (take usable bytes), candidate)))))"

definition gpt_partition :: "('d, 'e) device_ops \<Rightarrow> nat \<Rightarrow> ('d, 'x, 'e, Partition) iom" where
  "gpt_partition D sz =
     bindM (getsM (\<lambda>s. sector_count_of D (device s))) (\<lambda>device_count.
     if device_count < 2 then fail InvalidGpt else
     bindM (read_sector D 1 sz) (\<lambda>_.
     bindM (sector_slice sz 0 8) (\<lambda>magic.
     if magic \<noteq> efi_part then fail InvalidGpt else
     bindM (sector_slice sz 12 16) (\<lambda>size_bytes.
     let header_size = unat (le_u32 size_bytes) in
     if \<not> (92 \<le> header_size \<and> header_size \<le> sz) then fail InvalidGpt else
     bindM (sector_slice sz 16 20) (\<lambda>crc_bytes.
     bindM (sector_copy sz 16 [0, 0, 0, 0]) (\<lambda>_.
     bindM (sector_slice sz 0 header_size) (\<lambda>header.
     if crc32 header \<noteq> le_u32 crc_bytes then fail InvalidGpt else
     bindM (sector_slice sz 72 92) (\<lambda>fields.
     let entries_lba = le_u64 (slice 0 8 fields);
         entry_count = le_u32 (slice 8 12 fields);
         entry_size = unat (le_u32 (slice 12 16 fields));
         expected_entries_crc = le_u32 (slice 16 20 fields)
     in
     if entry_count = 0 \<or> 16384 < entry_count \<or> entry_size < 128 \<or> sz < entry_size \<or> entry_size mod 8 \<noteq> 0
     then fail InvalidGpt else
     bindM (ok_or (checked_mul (ucast entry_count) (of_usize entry_size)) InvalidGpt) (\<lambda>table_bytes.
     bindM (ok_or (checked_add table_bytes (of_usize sz - 1)) InvalidGpt) (\<lambda>rounded.
     let table_sectors = rounded div of_usize sz in
     if entries_lba = 0 \<or>
       (case checked_add entries_lba table_sectors of None \<Rightarrow> True | Some end_lba \<Rightarrow> device_count < end_lba)
     then fail InvalidGpt else
     bindM (fold_m [0..<unat table_sectors] (gpt_sector D sz entries_lba table_bytes entry_size) (0xFFFFFFFF, None)) (\<lambda>acc.
     if fst acc XOR 0xFFFFFFFF \<noteq> expected_entries_crc then fail InvalidGpt
     else ok_or (snd acc) PartitionNotFound)))))))))))"

section \<open>Boot region\<close>

definition validate_boot_checksum ::
    "('d, 'e) device_ops \<Rightarrow> Partition \<Rightarrow> u64 \<Rightarrow> nat \<Rightarrow> ('d, 'x, 'e, unit) iom" where
  "validate_boot_checksum D part boot_offset sz =
     (if sector_count part < boot_offset + 12 then fail InvalidBootSector else
      bindM (fold_m [0..<11] (\<lambda>sector_index checksum.
          bindM (read_sector D (first_lba part + boot_offset + of_usize sector_index) sz) (\<lambda>_.
          bindM (sector sz) (\<lambda>bytes.
          returnM (boot_checksum_sector (sector_index = 0) checksum bytes)))) 0) (\<lambda>checksum.
      bindM (read_sector D (first_lba part + boot_offset + 11) sz) (\<lambda>_.
      bindM (sector sz) (\<lambda>bytes.
      if list_ex (\<lambda>word. le_u32 word \<noteq> checksum) (chunks_exact 4 bytes)
      then fail InvalidBootSector else returnM ()))))"

section \<open>FAT and root directory\<close>

definition next_cluster_on ::
    "('d, 'e) device_ops \<Rightarrow> Geometry \<Rightarrow> u32 \<Rightarrow> ('d, 'x, 'e, u32 \<times> u64 \<times> u8 list) iom" where
  "next_cluster_on D g cluster =
     (let sz = unat (bytes_per_sector g); byte = fat_byte cluster in
      bindM (ok_or (fat_lba_for_byte g byte) Corrupt) (\<lambda>lba.
      bindM (no_panic_if (sz \<noteq> 0)) (\<lambda>_.
      let offset = as_usize byte mod sz in
      bindM (read_sector D lba sz) (\<lambda>_.
      bindM (sector_slice sz offset (offset + 4)) (\<lambda>raw.
      returnM (le_u32 raw, lba, raw))))))"

type_synonym root_acc = "AllocationBitmap option \<times> UpCaseTable option \<times> VolumeLabel"

text \<open>One entry of the root directory: \<open>Inr\<close> is the end marker.\<close>

definition root_entry :: "Geometry \<Rightarrow> u8 list \<Rightarrow> root_acc \<Rightarrow> 'e error + (root_acc + root_acc)" where
  "root_entry g raw acc = (case acc of (bitmap, upcase, label) \<Rightarrow>
     if raw ! 0 = 0x00 then Inr (Inr acc)
     else if raw ! 0 = 0x81 then
       (if raw ! 1 AND NOT 1 \<noteq> 0 then Inl Corrupt
        else
          let identifier = unat (raw ! 1 AND 1) in
          if unat (number_of_fats g) \<le> identifier then Inl Corrupt
          else if identifier = unat (active_fat g) then
            (if bitmap \<noteq> None then Inl Corrupt
             else Inr (Inl (Some \<lparr>ab_first_cluster = le_u32 (slice 20 24 raw),
               ab_byte_length = le_u64 (slice 24 32 raw)\<rparr>, upcase, label)))
          else Inr (Inl acc))
     else if raw ! 0 = 0x82 \<and> upcase = None then
       Inr (Inl (bitmap, Some \<lparr>ut_checksum = le_u32 (slice 4 8 raw), ut_first_cluster = le_u32 (slice 20 24 raw),
         ut_byte_length = le_u64 (slice 24 32 raw)\<rparr>, label))
     else if raw ! 0 = 0x83 then
       (let len = min (unat (raw ! 1)) 11 in
        Inr (Inl (bitmap, upcase,
          \<lparr>vl_units = take len (map le_u16 (chunks_exact 2 (slice 2 24 raw))) @ replicate (11 - len) 0,
           vl_len = word_of_nat len\<rparr>)))
     else Inr (Inl acc))"

primrec root_entries :: "Geometry \<Rightarrow> u8 list list \<Rightarrow> root_acc \<Rightarrow> 'e error + (root_acc + root_acc)" where
  "root_entries g [] acc = Inr (Inl acc)"
| "root_entries g (raw # raws) acc =
     (case root_entry g raw acc of
        Inl e \<Rightarrow> Inl e
      | Inr (Inr fin) \<Rightarrow> Inr (Inr fin)
      | Inr (Inl acc') \<Rightarrow> root_entries g raws acc')"

definition root_cluster_scan ::
    "('d, 'e) device_ops \<Rightarrow> Geometry \<Rightarrow> u32 \<times> root_acc \<Rightarrow> ('d, 'x, 'e, (u32 \<times> root_acc) + root_acc) iom" where
  "root_cluster_scan D g st = (case st of (cluster, acc) \<Rightarrow>
     let sz = unat (bytes_per_sector g) in
     bindM (ok_or (cluster_lba g cluster) Corrupt) (\<lambda>lba.
     bindM (for_m [0..<unat (sectors_per_cluster g)] (\<lambda>i acc.
         bindM (read_sector D (lba + of_usize i) sz) (\<lambda>_.
         bindM (sector sz) (\<lambda>bytes.
         from_result (root_entries g (chunks_exact 32 bytes) acc)))) acc) (\<lambda>r.
     case r of
       Inr fin \<Rightarrow> returnM (Inr fin)
     | Inl acc' \<Rightarrow>
         bindM (next_cluster_on D g cluster) (\<lambda>(next_cluster, _, _).
         if 0xFFFFFFF8 \<le> next_cluster then fail Corrupt
         else returnM (Inl (next_cluster, acc'))))))"

definition discover_root_system_entries ::
    "('d, 'e) device_ops \<Rightarrow> Geometry \<Rightarrow> ('d, 'x, 'e, AllocationBitmap \<times> UpCaseTable \<times> VolumeLabel) iom" where
  "discover_root_system_entries D g =
     bindM (loop_m (unat (cluster_count g)) (Error Corrupt) (root_cluster_scan D g)
         (root_cluster g, None, None, empty_label)) (\<lambda>(bitmap, upcase, label).
     case (bitmap, upcase) of
       (Some b, Some u) \<Rightarrow> returnM (b, u, label)
     | _ \<Rightarrow> fail Corrupt)"

section \<open>UpCase table\<close>

definition upcase_sector ::
    "('d, 'e) device_ops \<Rightarrow> nat \<Rightarrow> u64 \<Rightarrow> nat \<Rightarrow> u64 \<times> u32 \<Rightarrow> ('d, 'x, 'e, u64 \<times> u32) iom" where
  "upcase_sector D sz lba i acc = (case acc of (remaining, checksum) \<Rightarrow>
     if remaining = 0 then returnM acc else
     bindM (read_sector D (lba + of_usize i) sz) (\<lambda>_.
     bindM (sector sz) (\<lambda>bytes.
     let count = min (unat remaining) sz
     in returnM (remaining - of_usize count, foldl rotate_add checksum (take count bytes)))))"

definition upcase_cluster ::
    "('d, 'e) device_ops \<Rightarrow> Geometry \<Rightarrow> u32 \<times> u64 \<times> u32 \<Rightarrow> ('d, 'x, 'e, (u32 \<times> u64 \<times> u32) + u32) iom" where
  "upcase_cluster D g st = (case st of (cluster, acc) \<Rightarrow>
     let sz = unat (bytes_per_sector g) in
     bindM (ok_or (cluster_lba g cluster) Corrupt) (\<lambda>lba.
     bindM (fold_m [0..<unat (sectors_per_cluster g)] (upcase_sector D sz lba) acc) (\<lambda>(remaining, checksum).
     if remaining = 0 then returnM (Inr checksum) else
     bindM (next_cluster_on D g cluster) (\<lambda>(next_cluster, fat_lba, raw).
     if \<not> in_heap g next_cluster then fail (UpcaseChainInvalid cluster next_cluster fat_lba raw)
     else returnM (Inl (next_cluster, remaining, checksum))))))"

definition validate_upcase_table ::
    "('d, 'e) device_ops \<Rightarrow> Geometry \<Rightarrow> UpCaseTable \<Rightarrow> ('d, 'x, 'e, unit) iom" where
  "validate_upcase_table D g table =
     (if ut_first_cluster table < 2 \<or> ut_byte_length table = 0
      then fail (UpcaseDescriptorInvalid (ut_first_cluster table) (ut_byte_length table))
      else
        bindM (loop_m (unat (cluster_count g)) (Error Corrupt) (upcase_cluster D g)
          (ut_first_cluster table, ut_byte_length table, 0)) (\<lambda>checksum.
        if checksum \<noteq> ut_checksum table then fail (UpcaseChecksumMismatch (ut_checksum table) checksum)
        else returnM ()))"

section \<open>Mounting\<close>

definition mount_partition :: "('d, 'e) device_ops \<Rightarrow> nat \<Rightarrow> ('d, 'x, 'e, Partition) iom" where
  "mount_partition D sz =
     bindM (read_sector D 0 sz) (\<lambda>_.
     bindM (sector sz) (\<lambda>bytes.
     bindM (if has_protective_mbr bytes then gpt_partition D sz else from_result (mbr_partition bytes)) (\<lambda>part.
     bindM (getsM (\<lambda>s. sector_count_of D (device s))) (\<lambda>device_count.
     if device_count \<le> first_lba part \<or> device_count - first_lba part < sector_count part
     then fail InvalidPartitionTable else returnM part))))"

definition mount_boot_offset :: "('d, 'e) device_ops \<Rightarrow> Partition \<Rightarrow> nat \<Rightarrow> ('d, 'x, 'e, u64) iom" where
  "mount_boot_offset D part sz =
     bindM (attempt (validate_boot_checksum D part 0 sz)) (\<lambda>r.
     case r of
       Inr _ \<Rightarrow> returnM 0
     | Inl InvalidBootSector \<Rightarrow> bindM (validate_boot_checksum D part 12 sz) (\<lambda>_. returnM 12)
     | Inl e \<Rightarrow> fail e)"

definition corrupt_as :: "'e error \<Rightarrow> 'e error \<Rightarrow> 'e error" where
  "corrupt_as e' e = (case e of Corrupt \<Rightarrow> e' | _ \<Rightarrow> e)"

text \<open>From the parsed geometry on: the root directory's system entries, then the UpCase table.\<close>

definition mount_metadata :: "('d, 'e) device_ops \<Rightarrow> Geometry \<Rightarrow> ('d, 'x, 'e, Volume) iom" where
  "mount_metadata D g =
     bindM (map_err (corrupt_as RootDirectoryCorrupt) (discover_root_system_entries D g)) (\<lambda>(bitmap, upcase, label).
     bindM (attempt (validate_upcase_table D g upcase)) (\<lambda>r.
     case r of
       Inl (Device e) \<Rightarrow> fail (Device e)
     | _ \<Rightarrow> returnM \<lparr>vol_geometry = g, vol_bitmap = bitmap, vol_upcase = upcase,
               vol_upcase_valid = (r = Inr ()), vol_label = label\<rparr>))"

definition volume_mount :: "('d, 'e) device_ops \<Rightarrow> ('d, 'x, 'e, Volume) iom" where
  "volume_mount D =
     bindM (getsM (\<lambda>s. sector_size_of D (device s))) (\<lambda>device_size.
     bindM (from_result (checked_sector_size device_size)) (\<lambda>sz.
     bindM (require sz) (\<lambda>_.
     bindM (mount_partition D sz) (\<lambda>part.
     bindM (mount_boot_offset D part sz) (\<lambda>boot_offset.
     bindM (read_sector D (first_lba part + boot_offset) sz) (\<lambda>_.
     bindM (sector sz) (\<lambda>boot.
     bindM (map_err (corrupt_as BootGeometryCorrupt) (from_result (parse_boot part boot sz))) (\<lambda>g.
     mount_metadata D g))))))))"

section \<open>Mounting only reads, and always returns\<close>

context lawful_device
begin

lemma steps_gpt [steps_intro]:
  assumes [steps_intro]: "coarse X"
  shows "steps (frame D media invar sz W X) (gpt_partition D sz)"
proof -
  have "steps (frame D media invar sz W X) (gpt_sector D sz lba tb es i acc)" for lba tb es i acc
    unfolding gpt_sector_def by (intro steps_intro)
  then show ?thesis unfolding gpt_partition_def by (intro steps_intro)
qed

lemma steps_validate_boot [steps_intro]:
  "coarse X \<Longrightarrow> steps (frame D media invar sz W X) (validate_boot_checksum D part off sz)"
  unfolding validate_boot_checksum_def by (intro steps_intro)

lemma steps_next_cluster_on [steps_intro]:
  "coarse X \<Longrightarrow> unat (bytes_per_sector g) = sz \<Longrightarrow>
    steps (frame D media invar sz W X) (next_cluster_on D g c)"
  unfolding next_cluster_on_def Let_def by (hypsubst, intro steps_intro)

lemma steps_discover [steps_intro]:
  assumes [steps_intro]: "coarse X" and [steps_intro]: "unat (bytes_per_sector g) = sz"
  shows "steps (frame D media invar sz W X) (discover_root_system_entries D g)"
proof -
  have "steps (frame D media invar sz W X) (root_cluster_scan D g st)" for st
    unfolding root_cluster_scan_def Let_def assms(2) by (intro steps_intro)
  then show ?thesis unfolding discover_root_system_entries_def by (intro steps_intro)
qed

lemma steps_upcase [steps_intro]:
  assumes [steps_intro]: "coarse X" and [steps_intro]: "unat (bytes_per_sector g) = sz"
  shows "steps (frame D media invar sz W X) (validate_upcase_table D g table)"
proof -
  have "steps (frame D media invar sz W X) (upcase_sector D sz lba i acc)" for lba i acc
    unfolding upcase_sector_def Let_def by (intro steps_intro)
  then have "steps (frame D media invar sz W X) (upcase_cluster D g st)" for st
    unfolding upcase_cluster_def Let_def assms(2) by (intro steps_intro)
  then show ?thesis unfolding validate_upcase_table_def by (intro steps_intro)
qed

lemma steps_mount_partition [steps_intro]:
  "coarse X \<Longrightarrow> steps (frame D media invar sz W X) (mount_partition D sz)"
  unfolding mount_partition_def by (intro steps_intro)

end

lemma returns_mount_parts [returns_intro]:
  "returns (gpt_partition D sz)" "returns (validate_boot_checksum D part off sz)"
  "returns (next_cluster_on D g c)" "returns (discover_root_system_entries D g)"
  "returns (validate_upcase_table D g table)"
proof -
  have g: "returns (gpt_sector D sz lba tb es i acc)" for lba tb es i acc
    unfolding gpt_sector_def by (intro returns_intro)
  show "returns (gpt_partition D sz)" unfolding gpt_partition_def by (intro returns_intro g)
  show "returns (validate_boot_checksum D part off sz)"
    unfolding validate_boot_checksum_def by (intro returns_intro)
  show nc: "returns (next_cluster_on D g c)" for c
    unfolding next_cluster_on_def Let_def by (intro returns_intro)
  have r: "returns (root_cluster_scan D g st)" for st
    unfolding root_cluster_scan_def Let_def by (intro returns_intro nc)
  show "returns (discover_root_system_entries D g)"
    unfolding discover_root_system_entries_def by (intro returns_intro r)
  have u: "returns (upcase_sector D sz lba i acc)" for sz lba i acc
    unfolding upcase_sector_def Let_def by (intro returns_intro)
  have c: "returns (upcase_cluster D g st)" for st
    unfolding upcase_cluster_def Let_def by (intro returns_intro nc u)
  show "returns (validate_upcase_table D g table)"
    unfolding validate_upcase_table_def by (intro returns_intro c)
qed

lemma returns_volume_mount [returns_intro]: "returns (volume_mount D)"
proof -
  have p: "returns (mount_partition D sz)" for sz
    unfolding mount_partition_def by (intro returns_intro)
  have b: "returns (mount_boot_offset D part sz)" for part sz
    unfolding mount_boot_offset_def
    by (intro returns_intro) (auto intro!: returns_intro split: sum.splits error.splits)
  have m: "returns (mount_metadata D g)" for g
    unfolding mount_metadata_def
    by (intro returns_intro) (auto intro!: returns_intro split: sum.splits error.splits)
  show ?thesis unfolding volume_mount_def by (intro returns_intro p b m)
qed

section \<open>What a mounted volume was read from\<close>

text \<open>The checksum of a boot region on the medium, and the region being valid.\<close>

definition boot_region_checksum :: "(u64 \<Rightarrow> u8 list) \<Rightarrow> Partition \<Rightarrow> u64 \<Rightarrow> u32" where
  "boot_region_checksum m part off =
     foldl (\<lambda>c i. boot_checksum_sector (i = 0) c (m (first_lba part + off + of_usize i))) 0 [0..<11]"

definition boot_region_ok :: "(u64 \<Rightarrow> u8 list) \<Rightarrow> Partition \<Rightarrow> u64 \<Rightarrow> bool" where
  "boot_region_ok m part off \<longleftrightarrow> off + 12 \<le> sector_count part \<and>
     list_all (\<lambda>word. le_u32 word = boot_region_checksum m part off) (chunks_exact 4 (m (first_lba part + off + 11)))"

text \<open>The region \<open>volume_mount\<close> takes: the primary one when valid, else the backup when valid.\<close>

definition mount_region :: "(u64 \<Rightarrow> u8 list) \<Rightarrow> Partition \<Rightarrow> u64 option" where
  "mount_region m part =
     (if boot_region_ok m part 0 then Some 0 else if boot_region_ok m part 12 then Some 12 else None)"

definition partition_fits :: "u64 \<Rightarrow> Partition \<Rightarrow> bool" where
  "partition_fits count part \<longleftrightarrow> unat (first_lba part) + unat (sector_count part) \<le> unat count"

context lawful_device
begin

lemma post_validate_boot:
  assumes "reading sz s0 s"
  shows "post (validate_boot_checksum D part off sz) s
    (\<lambda>_ s'. reading sz s0 s' \<and> boot_region_ok (media (device s0)) part off)
    (\<lambda>e s'. reading sz s0 s' \<and>
       (e = Error InvalidBootSector \<and> \<not> boot_region_ok (media (device s0)) part off \<or> is_device_error e))"
    (is "post _ s ?Q ?E")
proof -
  let ?m = "media (device s0)"
  let ?I = "\<lambda>k c s'. reading sz s0 s' \<and>
    c = foldl (\<lambda>c i. boot_checksum_sector (i = 0) c (?m (first_lba part + off + of_usize i))) 0 [0..<k]"
  have sum: "post (fold_m [0..<11] (\<lambda>i c. bindM (read_sector D (first_lba part + off + of_usize i) sz) (\<lambda>_.
      bindM (sector sz) (\<lambda>bytes. returnM (boot_checksum_sector (i = 0) c bytes)))) 0) s
      (\<lambda>c s'. reading sz s0 s' \<and> c = boot_region_checksum ?m part off) ?E"
  proof (rule post_fold_m [where I = ?I])
    fix k c s' assume k: "k < length [0..<11]" and I: "?I k c s'"
    then show "post (bindM (read_sector D (first_lba part + off + of_usize ([0..<11] ! k)) sz) (\<lambda>_.
        bindM (sector sz) (\<lambda>bytes. returnM (boot_checksum_sector ([0..<11] ! k = 0) c bytes)))) s' (?I (Suc k)) ?E"
      by (intro post_load [of sz s0]) (simp_all del: upt_Suc add: upt_Suc_append)
  qed (use assms in \<open>simp_all add: boot_region_checksum_def del: upt_Suc\<close>)
  have words: "post (bindM (read_sector D (first_lba part + off + 11) sz) (\<lambda>_. bindM (sector sz) (\<lambda>bytes.
      if list_ex (\<lambda>word. le_u32 word \<noteq> boot_region_checksum ?m part off) (chunks_exact 4 bytes)
      then fail InvalidBootSector else returnM ()))) s' ?Q ?E"
    if "reading sz s0 s'" "off + 12 \<le> sector_count part" for s'
    using that by (intro post_load [of sz s0]) (auto simp: boot_region_ok_def list_ex_iff list_all_iff)
  show ?thesis
  proof (cases "sector_count part < off + 12")
    case True
    then show ?thesis using assms by (auto simp: validate_boot_checksum_def boot_region_ok_def)
  next
    case False
    then show ?thesis
      unfolding validate_boot_checksum_def if_not_P [OF False]
      by (subst post_bindM, intro post_mono [OF sum])
        (elim conjE, hypsubst, erule words, simp_all)
  qed
qed

lemma post_mount_boot_offset:
  assumes "reading sz s0 s"
  shows "post (mount_boot_offset D part sz) s
    (\<lambda>off s'. reading sz s0 s' \<and> mount_region (media (device s0)) part = Some off)
    (\<lambda>e s'. reading sz s0 s' \<and>
       (e = Error InvalidBootSector \<and> mount_region (media (device s0)) part = None \<or> is_device_error e))"
    (is "post _ s ?Q ?E")
proof -
  let ?ok = "boot_region_ok (media (device s0)) part"
  have second: "post (bindM (validate_boot_checksum D part 12 sz) (\<lambda>_. returnM 12)) s' ?Q ?E"
    if "reading sz s0 s'" "\<not> ?ok 0" for s'
    unfolding post_bindM
    by (rule post_mono [OF post_validate_boot [OF that(1)]]) (use that in \<open>auto simp: mount_region_def\<close>)
  show ?thesis
    unfolding mount_boot_offset_def post_bindM post_attempt
    by (rule post_mono [OF post_validate_boot [OF assms, of part 0]])
      (use second in \<open>auto simp: mount_region_def is_device_error_def split: exn.splits error.splits\<close>)
qed

lemma post_mount_partition:
  assumes "reading sz s0 s"
  shows "post (mount_partition D sz) s
    (\<lambda>part s'. reading sz s0 s' \<and> partition_fits (sector_count_of D (device s0)) part)
    (\<lambda>_. reading sz s0)"
proof -
  have fits: "partition_fits count part"
    if "\<not> (count \<le> first_lba part \<or> count - first_lba part < sector_count part)" for count part
  proof -
    have le: "first_lba part \<le> count" using that by (auto simp: not_le)
    show ?thesis
      using that unat_sub [OF le] by (auto simp: partition_fits_def not_less not_le word_le_nat_alt word_less_nat_alt)
  qed
  have steps: "steps (frame D media invar sz {} io_same) (mount_partition D sz)" by (intro steps_intro)
  have "post (mount_partition D sz) s (\<lambda>part s'. partition_fits (sector_count_of D (device s')) part) (\<lambda>_ _. True)"
    unfolding mount_partition_def post_bindM
    by (rule post_mono [OF post_True], rule post_mono [OF post_True], rule post_mono [OF post_True])
      (simp_all add: fits)
  from post_conj [OF reading_steps [OF assms steps] this] show ?thesis
    by (rule post_mono) (auto simp: readingD(5))
qed

lemma post_mount_metadata:
  assumes r: "reading sz s s'" and sz: "unat (bytes_per_sector g) = sz"
  shows "post (mount_metadata D g) s' (\<lambda>v s'. reading sz s s' \<and> vol_geometry v = g) (\<lambda>_. reading sz s)"
    (is "post _ _ ?Q ?E")
proof -
  have root: "post (map_err (corrupt_as RootDirectoryCorrupt) (discover_root_system_entries D g)) s'
      (\<lambda>_. reading sz s) ?E"
    using r by (intro reading_steps steps_intro sz)
  have up: "post (attempt (validate_upcase_table D g upcase)) s1 (\<lambda>_. reading sz s) ?E"
    if "reading sz s s1" for s1 upcase
    using that by (intro reading_steps steps_intro sz)
  have cont: "post (bindM (attempt (validate_upcase_table D g upcase)) (\<lambda>r. case r of Inl (Device e) \<Rightarrow> fail (Device e)
      | _ \<Rightarrow> returnM \<lparr>vol_geometry = g, vol_bitmap = bitmap, vol_upcase = upcase,
            vol_upcase_valid = (r = Inr ()), vol_label = label\<rparr>)) s1 ?Q ?E"
    if "reading sz s s1" for s1 bitmap upcase label
    unfolding post_bindM
    by (rule post_mono [OF up [OF that]]) (auto split: sum.splits error.splits)
  show ?thesis
    unfolding mount_metadata_def
    by (subst post_bindM, rule post_mono [OF root]) (use cont in \<open>simp_all only: split: prod.splits\<close>, blast)
qed

lemma post_volume_mount:
  assumes ok: "io_ok D invar sz s"
  shows "post (volume_mount D) s
    (\<lambda>v s'. reading sz s s' \<and> wf_geometry (vol_geometry v) \<and> unat (bytes_per_sector (vol_geometry v)) = sz \<and>
       (\<exists>off. mount_region (media (device s)) (partition_of (vol_geometry v)) = Some off \<and>
          (parse_boot (partition_of (vol_geometry v))
             (media (device s) (first_lba (partition_of (vol_geometry v)) + off)) sz :: 'e error + Geometry)
            = Inr (vol_geometry v)))
    (\<lambda>_. reading sz s)" (is "post _ s ?Q ?E")
proof -
  have r0: "reading sz s s" using ok by (rule reading_refl)
  have boot: "post (bindM (read_sector D (first_lba part + off) sz) (\<lambda>_. bindM (sector sz) (\<lambda>boot.
      bindM (map_err (corrupt_as BootGeometryCorrupt) (from_result (parse_boot part boot sz))) (mount_metadata D)))) s' ?Q ?E"
    if r: "reading sz s s'" and part: "partition_fits (sector_count_of D (device s)) part"
      and off: "mount_region (media (device s)) part = Some off" for part off s'
  proof (rule post_load [OF r])
    fix s1 assume r1: "reading sz s s1"
    let ?parse = "parse_boot part (media (device s) (first_lba part + off)) sz :: 'e error + Geometry"
    show "post (bindM (map_err (corrupt_as BootGeometryCorrupt) (from_result ?parse)) (mount_metadata D)) s1 ?Q ?E"
    proof (cases ?parse)
      case (Inl e)
      then show ?thesis using r1 by (simp add: map_err_def)
    next
      case (Inr g)
      have "unat (first_lba part) + unat (sector_count part) < 2 ^ 64"
        using part unat_u64_lt [of "sector_count_of D (device s)"] by (simp add: partition_fits_def del: unat_u64_lt)
      from parse_boot_wf_geometry [OF Inr this]
      have wf: "wf_geometry g" "partition_of g = part" "unat (bytes_per_sector g) = sz" by auto
      have "post (mount_metadata D g) s1 ?Q ?E"
        by (rule post_mono [OF post_mount_metadata [OF r1 wf(3)]]) (use wf off Inr in auto)
      then show ?thesis using Inr by (simp add: map_err_def)
    qed
  qed simp
  have offset: "post (bindM (mount_boot_offset D part sz) (\<lambda>off. bindM (read_sector D (first_lba part + off) sz) (\<lambda>_.
      bindM (sector sz) (\<lambda>boot. bindM (map_err (corrupt_as BootGeometryCorrupt) (from_result (parse_boot part boot sz)))
      (mount_metadata D))))) s' ?Q ?E"
    if r: "reading sz s s'" and part: "partition_fits (sector_count_of D (device s)) part" for part s'
    by (subst post_bindM, rule post_mono [OF post_mount_boot_offset [OF r]]) (use boot part in blast)+
  have size: "sector_size_of D (device s) = sz" "\<not> length (scratch s) < sz" using ok by (simp_all add: io_ok_def)
  show ?thesis
  proof (cases "sz \<in> {512, 1024, 2048, 4096}")
    case False
    then show ?thesis using r0 by (simp add: volume_mount_def size checked_sector_size_def)
  next
    case True
    then have chk: "checked_sector_size sz = Inr sz" unfolding checked_sector_size_def by (rule if_P)
    show ?thesis
      unfolding volume_mount_def
      by (simp only: post_bindM [of "getsM _"] post_getsM size post_bindM [of "from_result _"]
          post_from_result chk sum.case post_bindM [of "require _"] post_require if_False)
        (subst post_bindM, rule post_mono [OF post_mount_partition [OF r0]], (erule conjE)?, erule offset,
          simp_all)
  qed
qed

end

text \<open>A plain \<open>Corrupt\<close> never leaves \<open>volume_mount\<close>: the scans' \<open>Corrupt\<close> is renamed after the part that failed.\<close>

definition mount_error :: "'e error exn \<Rightarrow> bool" where
  "mount_error e \<longleftrightarrow> e \<noteq> Error Corrupt \<and> e \<noteq> Diverge"

lemma mount_error_simps [simp]:
  "mount_error Panic" "mount_error (Error e) \<longleftrightarrow> e \<noteq> Corrupt"
  by (simp_all add: mount_error_def)

lemma raises_device_access [raises_intro]:
  "raises mount_error (read_sector D lba sz)" "raises mount_error (sector sz)"
  "raises mount_error (sector_slice sz a b)" "raises mount_error (sector_copy sz off bs)"
  "raises mount_error (require sz)"
proof -
  show s: "raises mount_error (sector sz)" unfolding sector_def by (intro raises_intro) simp_all
  have set: "raises mount_error (set_sector bs)" for bs unfolding set_sector_def by (intro raises_intro)
  have r: "raises mount_error (run_read D lba sz)"
    by (auto simp: raises_def run_read_def dev_outcome_def split: prod.splits devres.splits)
  show "raises mount_error (read_sector D lba sz)" unfolding read_sector_def by (intro raises_intro s r)
  show "raises mount_error (sector_slice sz a b)" "raises mount_error (sector_copy sz off bs)"
    unfolding sector_slice_def sector_copy_def by (intro raises_intro s set; simp)+
  show "raises mount_error (require sz)" unfolding require_def by (intro raises_intro) simp_all
qed

lemma gpt_entries_error: "gpt_entries n base tb rows cand = Inl e \<Longrightarrow> e = InvalidGpt"
  by (induction n base tb rows cand rule: gpt_entries.induct) (auto simp: Let_def split: if_splits)

lemma mbr_partition_error: "mbr_partition bs = Inl e \<Longrightarrow> e \<noteq> Corrupt"
proof -
  have "mbr_entries es = Inl e \<Longrightarrow> e \<noteq> Corrupt" for es :: "u8 list list" and e :: "'e error"
    by (induction es) (auto simp: Let_def split: if_splits)
  then show "mbr_partition bs = Inl e \<Longrightarrow> e \<noteq> Corrupt"
    by (auto simp: mbr_partition_def split: if_splits)
qed

lemma raises_volume_mount: "raises mount_error (volume_mount D)"
proof -
  have gs: "raises mount_error (gpt_sector D sz lba tb es i acc)" for sz lba tb es i acc
    unfolding gpt_sector_def by (intro raises_intro) (auto dest: gpt_entries_error)
  have gpt: "raises mount_error (gpt_partition D sz)" for sz
    unfolding gpt_partition_def by (intro raises_intro gs) simp_all
  have val: "raises mount_error (validate_boot_checksum D part off sz)" for part off sz
    unfolding validate_boot_checksum_def by (intro raises_intro) simp_all
  have part: "raises mount_error (mount_partition D sz)" for sz
    unfolding mount_partition_def by (intro raises_intro gpt) (simp_all add: mbr_partition_error)
  have off: "raises mount_error (mount_boot_offset D part sz)" for part sz
    unfolding raises_post mount_boot_offset_def post_bindM post_attempt
    by (intro allI, rule post_mono [of _ _ "\<lambda>_ _. True" "\<lambda>e _. mount_error e"])
      (auto intro!: post_mono [OF postI [of "validate_boot_checksum D part 12 sz" _ "\<lambda>_ _. True" "\<lambda>e _. mount_error e"]]
        postI raises_run [OF val] split: exn.splits error.splits)
  have meta: "raises mount_error (mount_metadata D g)" for g
  proof -
    have root: "raises mount_error (map_err (corrupt_as RootDirectoryCorrupt) (discover_root_system_entries D g))"
      by (rule raises_map_err [where Q = "\<lambda>_. True"])
        (auto simp: raises_def corrupt_as_def intro!: returns_intro split: error.splits)
    show ?thesis
      unfolding mount_metadata_def
      by (intro raises_intro root returns_intro) (auto intro!: raises_intro split: sum.splits error.splits)
  qed
  have boot: "raises mount_error (map_err (corrupt_as BootGeometryCorrupt) (from_result r))" for r
    by (rule raises_map_err [where Q = "\<lambda>_. True"])
      (auto simp: raises_def corrupt_as_def intro!: returns_intro split: error.splits)
  show ?thesis
    unfolding volume_mount_def
    by (intro raises_intro part off boot meta) (simp_all add: checked_sector_size_def split: if_splits)
qed

section \<open>What the boot checksum covers\<close>

lemma last_boot_sector: "k < 11 \<Longrightarrow> of_usize k \<noteq> (11 :: u64)"
  by (auto simp: of_usize_def word_unat_eq_iff unat_of_nat)

lemma boot_region_checksum_list:
  "boot_region_checksum m part off =
     foldl (\<lambda>c (is_first, bs). boot_checksum_sector is_first c bs) 0
       (map (\<lambda>i. (i = 0, m (first_lba part + off + of_usize i))) [0..<11])"
  by (simp add: boot_region_checksum_def foldl_map)

lemma boot_region_checksum_changed:
  assumes k: "k < 11" and i: "i < length (m (first_lba part + off + of_usize k))"
    and b: "b \<noteq> m (first_lba part + off + of_usize k) ! i"
  defines "m' \<equiv> m(first_lba part + off + of_usize k := (m (first_lba part + off + of_usize k))[i := b])"
  shows "boot_region_checksum m' part off = boot_region_checksum m part off \<longleftrightarrow> k = 0 \<and> i \<in> {106, 107, 112}"
proof -
  let ?f = "\<lambda>c (is_first, bs). boot_checksum_sector is_first c bs"
  define S where "S m = map (\<lambda>j. (j = 0, m (first_lba part + off + of_usize j))) [0..<11]" for m :: "u64 \<Rightarrow> u8 list"
  let ?new = "(k = 0, (m (first_lba part + off + of_usize k))[i := b])"
  have S': "S m' = (S m)[k := ?new]"
  proof (rule nth_equalityI)
    fix j assume "j < length (S m')"
    then have j: "j < 11" by (simp add: S_def)
    then have "(of_usize j :: u64) = of_usize k \<longleftrightarrow> j = k" using k by (simp add: of_usize_def word_unat_eq_iff unat_of_nat)
    then show "S m' ! j = (S m)[k := ?new] ! j" using j by (simp add: S_def m'_def nth_list_update del: upt_Suc)
  qed (simp add: S_def)
  have old: "S m ! k = (k = 0, m (first_lba part + off + of_usize k))" "k < length (S m)" using k by (simp_all add: S_def del: upt_Suc)
  have step: "?f c ?new = ?f c (S m ! k) \<longleftrightarrow> k = 0 \<and> i \<in> {106, 107, 112}" for c
    using boot_checksum_sector_covers [OF i b] old(1) by simp
  have state: "?f c x = ?f d x \<Longrightarrow> c = d" for c d x by (cases x) (auto dest: boot_checksum_sector_inj)
  show ?thesis
  proof (cases "k = 0 \<and> i \<in> {106, 107, 112}")
    case True
    have "foldl ?f c ((S m)[k := ?new]) = foldl ?f c (S m)" for c
      using True step old(2) by (subst (2) id_take_nth_drop [OF old(2)]) (simp add: upd_conv_take_nth_drop)
    then show ?thesis using True by (simp add: boot_region_checksum_list S_def [symmetric] S')
  next
    case False
    have "foldl ?f 0 ((S m)[k := ?new]) \<noteq> foldl ?f 0 (S m)"
      using False step state old(2) by (intro foldl_detects_at) blast+
    then show ?thesis using False by (simp add: boot_region_checksum_list S_def [symmetric] S')
  qed
qed

lemma boot_region_changed:
  assumes ok: "boot_region_ok m part off" and k: "k < 11" and i: "i < length (m (first_lba part + off + of_usize k))"
    and b: "b \<noteq> m (first_lba part + off + of_usize k) ! i" and four: "4 \<le> length (m (first_lba part + off + 11))"
  defines "m' \<equiv> m(first_lba part + off + of_usize k := (m (first_lba part + off + of_usize k))[i := b])"
  shows "boot_region_ok m' part off \<longleftrightarrow> k = 0 \<and> i \<in> {106, 107, 112}"
proof -
  have same: "m' (first_lba part + off + 11) = m (first_lba part + off + 11)" using last_boot_sector [OF k] by (simp add: m'_def)
  note sum = boot_region_checksum_changed [where m = m, OF k i b, folded m'_def]
  have "chunks_exact 4 (m (first_lba part + off + 11)) \<noteq> []" using four by (subst chunks_exact.simps) simp
  then show ?thesis
    using ok sum by (cases "chunks_exact 4 (m (first_lba part + off + 11))") (auto simp: boot_region_ok_def same)
qed

section \<open>Properties\<close>

text \<open>
  C14: Mounting is safe on any medium and any device that keeps the device contract. It never changes a
  byte of the medium and always returns. If it yields a volume, the geometry is well-formed, has the
  device's sector size, and was parsed from the boot sector of the primary boot region when that
  region's checksum is right, and otherwise of the backup region, whose checksum is right then. If it
  fails, the error is never the unspecific \<open>Corrupt\<close>.
\<close>
theorem volume_mount_sound:
  fixes D :: "('d, 'e) device_ops"
  assumes "lawful_device D media invar" "io_ok D invar sz s"
  shows "case volume_mount D s of
      (Inl e, s') \<Rightarrow> media (device s') = media (device s) \<and> e \<noteq> Diverge \<and> e \<noteq> Error Corrupt
    | (Inr v, s') \<Rightarrow> media (device s') = media (device s) \<and>
        wf_geometry (vol_geometry v) \<and> unat (bytes_per_sector (vol_geometry v)) = sz \<and>
        (\<exists>off. mount_region (media (device s)) (partition_of (vol_geometry v)) = Some off \<and>
          (parse_boot (partition_of (vol_geometry v))
             (media (device s) (first_lba (partition_of (vol_geometry v)) + off)) sz :: 'e error + Geometry)
            = Inr (vol_geometry v))"
  using lawful_device.post_volume_mount [OF assms] raises_run [OF raises_volume_mount, of D s]
  by (auto simp: post_def mount_error_def dest: lawful_device.readingD(2) [OF assms(1)] split: prod.splits sum.splits)

text \<open>A blank card: the contract holds of it, so mounting it fails without touching it.\<close>

definition blank_card :: "(u8 list list, unit) io_scheme" where
  "blank_card = \<lparr>device = replicate 8 (replicate 512 0), scratch = replicate 512 0\<rparr>"

lemma blank_card_ok: "io_ok mem_ops mem_ok 512 blank_card"
  by (simp add: io_ok_def blank_card_def mem_ok_def)

theorem volume_mount_sound_witness:
  "case volume_mount mem_ops blank_card of
      (Inl e, s') \<Rightarrow> mem_media (device s') = mem_media (device blank_card) \<and> e \<noteq> Error Corrupt
    | (Inr v, s') \<Rightarrow> wf_geometry (vol_geometry v)"
  using volume_mount_sound [OF mem.lawful_device_axioms blank_card_ok]
  by (auto split: prod.splits sum.splits)

text \<open>A card of zeros, whose boot region is accepted, with one byte of the boot sector changed.\<close>

definition boot_card :: "(u8 list list, unit) io_scheme" where
  "boot_card = \<lparr>device = (replicate 512 0)[5 := 1] # replicate 23 (replicate 512 0), scratch = replicate 512 0\<rparr>"

lemma boot_card_ok: "io_ok mem_ops mem_ok 512 boot_card"
  by (simp add: io_ok_def boot_card_def mem_ok_def)

lemma zero_region_ok: "boot_region_ok (\<lambda>_. replicate 512 0) \<lparr>first_lba = 0, sector_count = 24\<rparr> 0"
proof -
  have "foldl (boot_byte b) 0 (enumerate k (replicate n 0)) = 0" for b k n
    by (cases b; induction n arbitrary: k) (simp_all add: boot_byte_def rotate_add_def ror1_def)
  then have "foldl (\<lambda>c i. boot_checksum_sector (i = 0) c (replicate 512 0)) 0 is = 0" for "is" :: "nat list"
    by (induction "is") (simp_all add: boot_checksum_sector_byte)
  then have "boot_region_checksum (\<lambda>_. replicate 512 0) \<lparr>first_lba = 0, sector_count = 24\<rparr> 0 = 0"
    by (simp add: boot_region_checksum_def)
  moreover have "le_u32 word = 0" if w: "word \<in> set (chunks_exact 4 (replicate 512 0))" for word
  proof -
    obtain j where j: "j < 128" "word = slice (j * 4) (j * 4 + 4) (replicate 512 0)"
      using w by (auto simp: in_set_conv_nth length_chunks_exact nth_chunks_exact)
    then have "word = replicate 4 0" by (simp add: slice_def)
    then show ?thesis by (simp add: le_u32_def numeral_eq_Suc)
  qed
  ultimately show ?thesis by (simp add: boot_region_ok_def list_all_iff)
qed

text \<open>
  C38: The boot checksum protects the whole boot region. Take a medium whose boot region is accepted,
  change one byte in any of its first eleven sectors, and validate it: the code accepts it exactly when
  the byte is one of \<open>VolumeFlags\<close> (106, 107) or \<open>PercentInUse\<close> (112) of the first sector, which a mounted
  volume may rewrite, and refuses it with \<open>InvalidBootSector\<close> otherwise (unless the device fails).
\<close>
theorem boot_checksum_covers:
  fixes D :: "('d, 'e) device_ops" and s :: "('d, 'x) io_scheme"
  assumes "lawful_device D media invar" "io_ok D invar sz s" "4 \<le> sz"
    and "boot_region_ok m part off" "k < 11" "i < sz" "length (m (first_lba part + off + of_usize k)) = sz"
    and "b \<noteq> m (first_lba part + off + of_usize k) ! i"
    and "media (device s) = m(first_lba part + off + of_usize k := (m (first_lba part + off + of_usize k))[i := b])"
  shows "case fst (validate_boot_checksum D part off sz s) of
      Inr _ \<Rightarrow> k = 0 \<and> i \<in> {106, 107, 112}
    | Inl e \<Rightarrow> is_device_error e \<or> e = Error InvalidBootSector \<and> \<not> (k = 0 \<and> i \<in> {106, 107, 112})"
proof -
  have "length (media (device s) (first_lba part + off + 11)) = sz"
    using lawful_device.media_length [OF assms(1)] assms(2) by (simp add: io_ok_def)
  then have "length (m (first_lba part + off + 11)) = sz" using last_boot_sector [OF assms(5)] by (simp add: assms(9))
  then have "boot_region_ok (media (device s)) part off \<longleftrightarrow> k = 0 \<and> i \<in> {106, 107, 112}"
    unfolding assms(9) using assms(3-8) by (intro boot_region_changed) simp_all
  then show ?thesis
    using lawful_device.post_validate_boot [OF assms(1) lawful_device.reading_refl [OF assms(1,2)], of part off]
    by (auto simp: post_def split: prod.splits sum.splits)
qed

theorem boot_checksum_covers_witness:
  "case fst (validate_boot_checksum mem_ops \<lparr>first_lba = 0, sector_count = 24\<rparr> 0 512 boot_card) of
      Inr _ \<Rightarrow> False | Inl e \<Rightarrow> is_device_error e \<or> e = Error InvalidBootSector"
proof -
  have m: "mem_media (device boot_card) = (\<lambda>_. replicate 512 0)(0 := (replicate 512 0)[5 := 1])"
    by (rule ext) (auto simp: mem_media_def boot_card_def nth_Cons' word_unat_eq_iff)
  then show ?thesis
    using boot_checksum_covers [OF mem.lawful_device_axioms boot_card_ok, where m = "\<lambda>_. replicate 512 0" and k = 0 and i = 5
        and b = 1 and off = 0 and part = "\<lparr>first_lba = 0, sector_count = 24\<rparr>"] zero_region_ok
    by (auto simp: of_usize_def split: sum.splits)
qed

end
