(* ===== verification/File_System.thy ===== *)
theory File_System
  imports Mount Entry_Set
begin

text \<open>
  \<open>fs/mod.rs\<close> and \<open>fs/operations/mount.rs\<close>: the mounted filesystem. The code's struct owns the
  device, the volume read at mount and the cached count of free clusters. No operation assigns the
  volume, so it is the argument \<open>v\<close> of every operation here; the device (with the caller's scratch
  buffer) and the count are the state \<open>fs\<close>. What an operation additionally borrows mutably (a file
  handle, a workspace, a visitor's captured variables) is the rest of that state, its environment:
  operations that do not use one are polymorphic in it, and \<open>with_env\<close> runs an operation on an
  environment of its own, as a call on a local variable does.
\<close>

record 'd fs = "'d io" +
  free_clusters :: "u32 option"

type_synonym ('d, 'x, 'e, 'a) fsm = "(('d, 'x) fs_scheme, 'e error, 'a) m"

definition with_env :: "'y \<Rightarrow> ('d, 'y, 'e, 'a) fsm \<Rightarrow> ('d, 'x, 'e, 'a \<times> 'y) fsm" where
  "with_env env m = (\<lambda>s.
     case m (fs.extend (fs.truncate s) env) of (r, t) \<Rightarrow>
       (case r of Inl e \<Rightarrow> Inl e | Inr x \<Rightarrow> Inr (x, fs.more t), fs.extend (fs.truncate t) (fs.more s)))"

definition set_free_clusters :: "u32 option \<Rightarrow> ('d, 'x, 'e, unit) fsm" where
  "set_free_clusters n = modifyM (free_clusters_update (\<lambda>_. n))"

text \<open>
  \<open>FileSystem::mount\<close> and \<open>mount_recoverable\<close>: the caller's device becomes part of the filesystem;
  on failure the second one gives the device back, the first one drops it.
\<close>

definition mount_recoverable ::
    "('d, 'e) device_ops \<Rightarrow> 'd \<Rightarrow> u8 list \<Rightarrow> ('d \<times> 'e error exn) + (Volume \<times> 'd fs)" where
  "mount_recoverable D d buf =
     (case volume_mount D \<lparr>device = d, scratch = buf\<rparr> of
        (Inr v, s) \<Rightarrow> Inr (v, \<lparr>device = device s, scratch = scratch s, free_clusters = None\<rparr>)
      | (Inl e, s) \<Rightarrow> Inl (device s, e))"

definition fs_mount :: "('d, 'e) device_ops \<Rightarrow> 'd \<Rightarrow> u8 list \<Rightarrow> 'e error exn + (Volume \<times> 'd fs)" where
  "fs_mount D d buf =
     (case volume_mount D \<lparr>device = d, scratch = buf\<rparr> of
        (Inr v, s) \<Rightarrow> Inr (v, \<lparr>device = device s, scratch = scratch s, free_clusters = None\<rparr>)
      | (Inl e, s) \<Rightarrow> Inl e)"

text \<open>\<open>capacity_bytes\<close>\<close>

definition capacity_bytes :: "Volume \<Rightarrow> u64" where
  "capacity_bytes v = ucast (cluster_count (vol_geometry v)) * ucast (bytes_per_cluster (vol_geometry v))"

section \<open>States that share device, scratch and environment\<close>

definition fs_same :: "('d, 'x) fs_scheme \<Rightarrow> ('d, 'x) fs_scheme \<Rightarrow> bool" where
  "fs_same s s' \<longleftrightarrow> fs.more s' = fs.more s"

lemma fs_more_io: "io.more s' = io.more s \<Longrightarrow> fs.more s' = fs.more s \<and> free_clusters s' = free_clusters s"
  for s s' :: "('d, 'x) fs_scheme"
  by (cases s; cases s') simp

lemma coarse_fs_same [steps_intro]: "coarse fs_same"
  by (auto simp: coarse_def fs_same_def preorder_on_states_def reflp_def transp_def dest: fs_more_io)

lemma set_free_clusters_io [simp]:
  "device (free_clusters_update f s) = device s" "scratch (free_clusters_update f s) = scratch s"
  "io_ok D invar sz (free_clusters_update f s) = io_ok D invar sz s"
  by (simp_all add: io_ok_def)

lemma post_set_free_clusters [simp]:
  "post (set_free_clusters n) s Q E = Q () (free_clusters_update (\<lambda>_. n) s)"
  by (simp add: set_free_clusters_def)

lemma steps_set_free_clusters [steps_intro]: "steps (frame D media invar sz W fs_same) (set_free_clusters n)"
  by (auto simp: steps_def set_free_clusters_def modifyM_def frame_def fs_same_def)

lemma returns_set_free_clusters [returns_intro]: "returns (set_free_clusters n)"
  by (simp add: set_free_clusters_def returns_intro)

section \<open>Operations that leave the environment alone\<close>

lemma io_quiet:
  "steps io_same (sector n)" "steps io_same (require n)" "steps io_same (set_sector bs)" "steps io_same (sectors n)"
  "steps io_same (sector_slice n a b)" "steps io_same (sector_byte n i)" "steps io_same (sector_copy n off bs)"
  "steps io_same (read_sector D lba n)" "steps io_same (write_sector D lba n)" "steps io_same (dev_flush D)"
  "steps io_same (write_sectors D lba data)"
  by (auto simp: steps_def io_same_def sector_def require_def set_sector_def sectors_def sector_slice_def sector_byte_def
      sector_copy_def read_sector_def write_sector_def run_read_def run_write_def dev_flush_def write_sectors_def bindM_def getsM_def modifyM_def
      no_panic_if_def returnM_def throwM_def fail_def split: prod.splits)

lemma fs_quiet:
  fixes m :: "('d, 'x, 'e, 'a) fsm"
  shows "steps io_same m \<Longrightarrow> steps fs_same m"
  by (auto simp: steps_def io_same_def fs_same_def dest: fs_more_io)

lemma quiet_preorder [steps_intro]: "preorder_on_states io_same" "preorder_on_states fs_same"
  using coarse_io_same coarse_fs_same by (auto dest: coarseD(1))

lemma quiet_set_free [steps_intro]: "steps fs_same (set_free_clusters n)"
  by (simp add: steps_def set_free_clusters_def modifyM_def fs_same_def)

lemma quiet_post:
  fixes m :: "('d, 'x, 'e, 'a) fsm"
  assumes "steps fs_same m"
  shows "post m s (\<lambda>_ s'. fs.more s' = fs.more s) (\<lambda>_ s'. fs.more s' = fs.more s)"
  by (rule post_mono [OF steps_post [OF assms]]) (simp_all add: fs_same_def)

lemmas quiet_intro = steps_intro io_quiet io_quiet [THEN fs_quiet]

end
