(* ===== verification/Allocation.thy ===== *)
theory Allocation
  imports File_System
begin

text \<open>
  \<open>fs/allocation.rs\<close> and \<open>next_cluster\<close>: reading and writing FAT entries, walking a cluster chain,
  the allocation bitmap, the free-space count and cluster allocation.

  The abstract view of the medium is \<open>fat_link\<close> (the FAT as a partial function on clusters),
  \<open>walk\<close> (the n-th cluster of a chain) and \<open>bitmap_bit\<close>. The lemmas relate every operation to it:
  what a read returns, what a write changes, and that nothing else changes.
\<close>

abbreviation sector_bytes :: "Volume \<Rightarrow> nat" where
  "sector_bytes v \<equiv> unat (bytes_per_sector (vol_geometry v))"

section \<open>FAT\<close>

definition next_cluster :: "('d, 'e) device_ops \<Rightarrow> Volume \<Rightarrow> u32 \<Rightarrow> ('d, 'x, 'e, u32) iom" where
  "next_cluster D v cluster =
     (let g = vol_geometry v; sz = unat (bytes_per_sector g); byte = fat_byte cluster in
      bindM (ok_or (fat_lba_for_byte g byte) Corrupt) (\<lambda>lba.
      bindM (no_panic_if (sz \<noteq> 0)) (\<lambda>_.
      let offset = as_usize byte mod sz in
      bindM (read_sector D lba sz) (\<lambda>_.
      bindM (sector_slice sz offset (offset + 4)) (\<lambda>raw.
      returnM (le_u32 raw))))))"

definition set_fat :: "('d, 'e) device_ops \<Rightarrow> Volume \<Rightarrow> u32 \<Rightarrow> u32 \<Rightarrow> ('d, 'x, 'e, unit) iom" where
  "set_fat D v cluster val =
     (let g = vol_geometry v; sz = unat (bytes_per_sector g); byte = fat_byte cluster in
      bindM (ok_or (fat_lba_for_byte g byte) Corrupt) (\<lambda>lba.
      bindM (no_panic_if (sz \<noteq> 0)) (\<lambda>_.
      let offset = as_usize byte mod sz in
      bindM (read_sector D lba sz) (\<lambda>_.
      bindM (sector_copy sz offset (le32 val)) (\<lambda>_.
      write_sector D lba sz)))))"

definition cluster_at :: "('d, 'e) device_ops \<Rightarrow> Volume \<Rightarrow> u32 \<Rightarrow> u64 \<Rightarrow> ('d, 'x, 'e, u32) iom" where
  "cluster_at D v first index =
     (if ucast (cluster_count (vol_geometry v)) \<le> index then fail Corrupt
      else fold_m [0..<unat index] (\<lambda>_ cluster.
        bindM (next_cluster D v cluster) (\<lambda>cluster'.
        if \<not> in_heap (vol_geometry v) cluster' then fail Corrupt else returnM cluster')) first)"

section \<open>Allocation bitmap\<close>

definition bitmap_location :: "('d, 'e) device_ops \<Rightarrow> Volume \<Rightarrow> u64 \<Rightarrow> ('d, 'x, 'e, u64 \<times> nat) iom" where
  "bitmap_location D v byte =
     (let g = vol_geometry v; sz = unat (bytes_per_sector g);
          cluster_bytes = ucast (bytes_per_cluster g) :: u64; bitmap = vol_bitmap v
      in if ab_byte_length bitmap \<le> byte then fail Corrupt else
      bindM (no_panic_if (cluster_bytes \<noteq> 0)) (\<lambda>_.
      bindM (cluster_at D v (ab_first_cluster bitmap) (byte div cluster_bytes)) (\<lambda>cluster.
      let within = byte mod cluster_bytes in
      bindM (ok_or (cluster_lba g cluster) Corrupt) (\<lambda>lba.
      bindM (no_panic_if (sz \<noteq> 0)) (\<lambda>_.
      returnM (lba + within div of_usize sz, as_usize within mod sz))))))"

definition bitmap_used :: "('d, 'e) device_ops \<Rightarrow> Volume \<Rightarrow> u32 \<Rightarrow> ('d, 'x, 'e, bool) iom" where
  "bitmap_used D v cluster =
     (let sz = sector_bytes v in
      bindM (ok_or (position_for (vol_bitmap v) cluster) Corrupt) (\<lambda>(byte, bt).
      bindM (bitmap_location D v byte) (\<lambda>(lba, offset).
      bindM (read_sector D lba sz) (\<lambda>_.
      bindM (sector_byte sz offset) (\<lambda>b.
      returnM (b AND push_bit (unat bt) 1 \<noteq> 0))))))"

definition new_free_count :: "Volume \<Rightarrow> bool \<Rightarrow> u32 option \<Rightarrow> u32 option option" where
  "new_free_count v used count =
     (case count of
        None \<Rightarrow> Some None
      | Some n \<Rightarrow>
          if used then map_option Some (checked_sub n 1)
          else (case checked_add n 1 of
              None \<Rightarrow> None
            | Some n' \<Rightarrow> if n' \<le> cluster_count (vol_geometry v) then Some (Some n') else None))"

text \<open>\<open>set_bitmap\<close> from the located byte on.\<close>

definition update_bitmap_bit :: "('d, 'e) device_ops \<Rightarrow> Volume \<Rightarrow> bool \<Rightarrow> u8 \<Rightarrow> u64 \<times> nat \<Rightarrow> ('d, 'x, 'e, unit) fsm" where
  "update_bitmap_bit D v used bt p = (case p of (lba, offset) \<Rightarrow>
     let sz = sector_bytes v in
      bindM (read_sector D lba sz) (\<lambda>_.
      bindM (sector_byte sz offset) (\<lambda>b.
      let mask = push_bit (unat bt) 1 :: u8; was_used = (b AND mask \<noteq> 0) in
      if was_used = used then returnM () else
      bindM (getsM free_clusters) (\<lambda>count.
      bindM (ok_or (new_free_count v used count) Corrupt) (\<lambda>count'.
      bindM (sector_copy sz offset [if used then b OR mask else b AND NOT mask]) (\<lambda>_.
      bindM (write_sector D lba sz) (\<lambda>_.
      set_free_clusters count')))))))"

definition set_bitmap :: "('d, 'e) device_ops \<Rightarrow> Volume \<Rightarrow> u32 \<Rightarrow> bool \<Rightarrow> ('d, 'x, 'e, unit) fsm" where
  "set_bitmap D v cluster used =
     bindM (ok_or (position_for (vol_bitmap v) cluster) Corrupt) (\<lambda>(byte, bt).
     bindM (bitmap_location D v byte) (update_bitmap_bit D v used bt))"

section \<open>Free space\<close>

definition count_ones :: "u8 \<Rightarrow> nat" where
  "count_ones b = length (filter (bit b) [0..<8])"

text \<open>The loop over the bytes of one bitmap sector, with its \<open>break\<close> when no cluster is left.\<close>

primrec count_used :: "u8 list \<Rightarrow> u32 \<times> u32 \<Rightarrow> 'e error + u32 \<times> u32" where
  "count_used [] acc = Inr acc"
| "count_used (val # vals) acc = (case acc of (remaining_bits, used_clusters) \<Rightarrow>
     if remaining_bits = 0 then Inr acc
     else
       let valid_bits = min remaining_bits 8;
           mask = (if valid_bits = 8 then 0xFF else push_bit (unat valid_bits) 1 - 1)
       in (case checked_add used_clusters (word_of_nat (count_ones (val AND mask))) of
             None \<Rightarrow> Inl Corrupt
           | Some used' \<Rightarrow> count_used vals (remaining_bits - valid_bits, used')))"

text \<open>One round of the scan: the located sector is counted and the position advances past it.\<close>

definition refresh_sector ::
    "('d, 'e) device_ops \<Rightarrow> Volume \<Rightarrow> u64 \<times> u32 \<times> u32 \<Rightarrow> u64 \<times> nat \<Rightarrow> ('d, 'x, 'e, (u64 \<times> u32 \<times> u32) + u32) iom" where
  "refresh_sector D v st p = (case (st, p) of ((byte, remaining_bits, used_clusters), (lba, offset)) \<Rightarrow>
     let sz = sector_bytes v; cluster_bytes = ucast (bytes_per_cluster (vol_geometry v)) :: u64 in
     bindM (read_sector D lba sz) (\<lambda>_.
     bindM (no_panic_if (cluster_bytes \<noteq> 0)) (\<lambda>_.
     bindM (ok_or (checked_sub (ab_byte_length (vol_bitmap v)) byte) Corrupt) (\<lambda>left.
     let bytes = unat (min (min (of_usize (sz - offset)) (cluster_bytes - byte mod cluster_bytes)) left) in
     if bytes = 0 then fail Corrupt else
     bindM (sector_slice sz offset (offset + bytes)) (\<lambda>vals.
     bindM (from_result (count_used vals (remaining_bits, used_clusters))) (\<lambda>(remaining', used').
     bindM (ok_or (checked_add byte (of_usize bytes)) Corrupt) (\<lambda>byte'.
     returnM (Inl (byte', remaining', used')))))))))"

definition refresh_round ::
    "('d, 'e) device_ops \<Rightarrow> Volume \<Rightarrow> u64 \<times> u32 \<times> u32 \<Rightarrow> ('d, 'x, 'e, (u64 \<times> u32 \<times> u32) + u32) iom" where
  "refresh_round D v st = (case st of (byte, remaining_bits, used_clusters) \<Rightarrow>
     if remaining_bits = 0 then returnM (Inr used_clusters)
     else bindM (bitmap_location D v byte) (refresh_sector D v st))"

definition refresh_free_clusters :: "('d, 'e) device_ops \<Rightarrow> Volume \<Rightarrow> ('d, 'x, 'e, unit) fsm" where
  "refresh_free_clusters D v =
     bindM (loop_m (Suc (unat (cluster_count (vol_geometry v)))) Diverge (refresh_round D v)
       (0, cluster_count (vol_geometry v), 0)) (\<lambda>used_clusters.
     bindM (ok_or (checked_sub (cluster_count (vol_geometry v)) used_clusters) Corrupt) (\<lambda>n.
     set_free_clusters (Some n)))"

definition free_space_bytes :: "('d, 'e) device_ops \<Rightarrow> Volume \<Rightarrow> ('d, 'x, 'e, u64) fsm" where
  "free_space_bytes D v =
     bindM (getsM free_clusters) (\<lambda>count.
     bindM (whenM (count = None) (refresh_free_clusters D v)) (\<lambda>_.
     bindM (getsM free_clusters) (\<lambda>count'.
     bindM (ok_or count' Corrupt) (\<lambda>n.
     returnM (ucast n * ucast (bytes_per_cluster (vol_geometry v)))))))"

definition refresh_free_space :: "('d, 'e) device_ops \<Rightarrow> Volume \<Rightarrow> ('d, 'x, 'e, u64) fsm" where
  "refresh_free_space D v = bindM (refresh_free_clusters D v) (\<lambda>_. free_space_bytes D v)"

section \<open>Allocation\<close>

definition claim_free_cluster :: "('d, 'e) device_ops \<Rightarrow> Volume \<Rightarrow> u32 \<Rightarrow> ('d, 'x, 'e, u32 option) fsm" where
  "claim_free_cluster D v cluster =
     (let g = vol_geometry v; sz = unat (bytes_per_sector g) in
      bindM (bitmap_used D v cluster) (\<lambda>used.
      if \<not> used then
        bindM (ok_or (cluster_lba g cluster) Corrupt) (\<lambda>first.
        bindM (each_m [0..<unat (sectors_per_cluster g)] (\<lambda>i.
          bindM (sector sz) (\<lambda>_.
          bindM (set_sector (replicate sz 0)) (\<lambda>_.
          write_sector D (first + of_usize i) sz)))) (\<lambda>_.
        bindM (set_bitmap D v cluster True) (\<lambda>_.
        bindM (set_fat D v cluster 0xFFFFFFFF) (\<lambda>_.
        returnM (Some cluster)))))
      else returnM None))"

definition cluster_range :: "u32 \<Rightarrow> u32 \<Rightarrow> u32 list" where
  "cluster_range a b = map word_of_nat [unat a..<unat b]"

definition try_clusters :: "('d, 'e) device_ops \<Rightarrow> Volume \<Rightarrow> u32 list \<Rightarrow> ('d, 'x, 'e, unit + u32) fsm" where
  "try_clusters D v clusters =
     for_m clusters (\<lambda>cluster _.
       bindM (claim_free_cluster D v cluster) (\<lambda>r.
       case r of Some c \<Rightarrow> returnM (Inr c) | None \<Rightarrow> returnM (Inl ()))) ()"

definition allocate_cluster_preferred :: "('d, 'e) device_ops \<Rightarrow> Volume \<Rightarrow> u32 \<Rightarrow> ('d, 'x, 'e, u32) fsm" where
  "allocate_cluster_preferred D v preferred =
     bindM (ok_or (checked_add (cluster_count (vol_geometry v)) 2) Corrupt) (\<lambda>end_cluster.
     let first = (if 2 \<le> preferred \<and> preferred < end_cluster then preferred else 2) in
     bindM (try_clusters D v (cluster_range first end_cluster)) (\<lambda>r.
     case r of
       Inr c \<Rightarrow> returnM c
     | Inl _ \<Rightarrow>
         bindM (try_clusters D v (cluster_range 2 first)) (\<lambda>r.
         case r of Inr c \<Rightarrow> returnM c | Inl _ \<Rightarrow> fail NoSpace)))"

definition allocate_cluster :: "('d, 'e) device_ops \<Rightarrow> Volume \<Rightarrow> ('d, 'x, 'e, u32) fsm" where
  "allocate_cluster D v = allocate_cluster_preferred D v 2"

section \<open>The FAT and the bitmap as functions of the medium\<close>

type_synonym medium = "u64 \<Rightarrow> u8 list"

definition fat_pos :: "Geometry \<Rightarrow> u32 \<Rightarrow> nat" where
  "fat_pos g c = unat (fat_byte c) mod unat (bytes_per_sector g)"

definition fat_link :: "medium \<Rightarrow> Geometry \<Rightarrow> u32 \<Rightarrow> u32 option" where
  "fat_link m g c =
     map_option (\<lambda>lba. le_u32 (slice (fat_pos g c) (fat_pos g c + 4) (m lba))) (fat_lba_for_byte g (fat_byte c))"

definition with_fat_link :: "Geometry \<Rightarrow> u32 \<Rightarrow> u32 \<Rightarrow> medium \<Rightarrow> medium" where
  "with_fat_link g c val m =
     (case fat_lba_for_byte g (fat_byte c) of None \<Rightarrow> m
      | Some lba \<Rightarrow> m(lba := patch (fat_pos g c) (le32 val) (m lba)))"

primrec walk :: "medium \<Rightarrow> Geometry \<Rightarrow> u32 \<Rightarrow> nat \<Rightarrow> u32 option" where
  "walk m g c 0 = Some c"
| "walk m g c (Suc n) = Option.bind (walk m g c n) (\<lambda>d. Option.bind (fat_link m g d)
     (\<lambda>d'. if in_heap g d' then Some d' else None))"

definition chain_at :: "medium \<Rightarrow> Geometry \<Rightarrow> u32 \<Rightarrow> nat \<Rightarrow> u32 option" where
  "chain_at m g first n = (if unat (cluster_count g) \<le> n then None else walk m g first n)"

definition bitmap_addr :: "medium \<Rightarrow> Volume \<Rightarrow> u64 \<Rightarrow> (u64 \<times> nat) option" where
  "bitmap_addr m v byte =
     (let g = vol_geometry v; sz = unat (bytes_per_sector g); cb = unat (bytes_per_cluster g) in
      if ab_byte_length (vol_bitmap v) \<le> byte then None
      else Option.bind (chain_at m g (ab_first_cluster (vol_bitmap v)) (unat byte div cb)) (\<lambda>c.
        map_option (\<lambda>lba. (lba + of_usize (unat byte mod cb div sz), unat byte mod sz)) (cluster_lba g c)))"

definition bitmap_bit :: "medium \<Rightarrow> Volume \<Rightarrow> u32 \<Rightarrow> bool option" where
  "bitmap_bit m v c =
     Option.bind (position_for (vol_bitmap v) c) (\<lambda>(byte, bt).
       map_option (\<lambda>(lba, off). bit (m lba ! off) (unat bt)) (bitmap_addr m v byte))"

definition heap_start :: "Geometry \<Rightarrow> nat" where
  "heap_start g = unat (first_lba (partition_of g)) + unat (cluster_heap_offset g)"

definition fat_agree :: "Geometry \<Rightarrow> medium \<Rightarrow> medium \<Rightarrow> bool" where
  "fat_agree g m m' \<longleftrightarrow> (\<forall>c. unat c < unat (cluster_count g) + 2 \<longrightarrow> fat_link m' g c = fat_link m g c)"

text \<open>
  A medium whose allocation bitmap is usable: it is long enough, its chain is complete and does not
  visit a cluster twice.
\<close>

definition bitmap_ok :: "medium \<Rightarrow> Volume \<Rightarrow> bool" where
  "bitmap_ok m v \<longleftrightarrow>
     in_heap (vol_geometry v) (ab_first_cluster (vol_bitmap v)) \<and>
     unat (cluster_count (vol_geometry v)) \<le> 8 * unat (ab_byte_length (vol_bitmap v)) \<and>
     (\<forall>byte < ab_byte_length (vol_bitmap v). bitmap_addr m v byte \<noteq> None) \<and>
     inj_on (\<lambda>n. walk m (vol_geometry v) (ab_first_cluster (vol_bitmap v)) n)
       {n. n * unat (bytes_per_cluster (vol_geometry v)) < unat (ab_byte_length (vol_bitmap v))}"

lemma sector_size_facts:
  assumes "wf_geometry g"
  shows "unat (bytes_per_sector g) dvd 2 ^ 32" "0 < unat (bytes_per_sector g)"
    "unat (bytes_per_sector g) dvd unat (bytes_per_cluster g)" "0 < unat (bytes_per_cluster g)"
    "4 \<le> unat (bytes_per_sector g)" "unat (bytes_per_sector g) \<le> 4096"
proof -
  have b: "unat (bytes_per_sector g) \<in> {512, 1024, 2048, 4096}" by (rule wf_geometryD(1) [OF assms])
  then show "unat (bytes_per_sector g) dvd 2 ^ 32" by (auto simp: dvd_def intro: exI [of _ "2 ^ 23"] exI [of _ "2 ^ 22"] exI [of _ "2 ^ 21"] exI [of _ "2 ^ 20"])
  show "0 < unat (bytes_per_sector g)" "4 \<le> unat (bytes_per_sector g)" "unat (bytes_per_sector g) \<le> 4096"
    using b by auto
  then show "unat (bytes_per_sector g) dvd unat (bytes_per_cluster g)" "0 < unat (bytes_per_cluster g)"
    using unat_bytes_per_cluster [OF assms] wf_geometryD(2) [OF assms] by simp_all
qed

lemma fat_pos_as_usize:
  "wf_geometry g \<Longrightarrow> as_usize (fat_byte c) mod unat (bytes_per_sector g) = fat_pos g c"
  by (simp only: fat_pos_def as_usize_mod [OF sector_size_facts(1)])

lemma fat_pos_fits: "wf_geometry g \<Longrightarrow> fat_pos g c + 4 \<le> unat (bytes_per_sector g)"
  using fat_offset_fits [of g c] by (simp add: fat_pos_def unat_fat_byte)

lemma in_heap_lt: "in_heap g c \<Longrightarrow> unat c < unat (cluster_count g) + 2"
  using in_heapD [of g c] by simp

lemma fat_lba_below_heap:
  assumes "wf_geometry g" "unat c < unat (cluster_count g) + 2" "fat_lba_for_byte g (fat_byte c) = Some l"
  shows "unat l < heap_start g"
  using fat_lba_Some [OF assms(1,2)] assms(3) by (metis heap_start_def option.inject)

lemma fat_agree_below:
  assumes "wf_geometry g" "\<And>l. unat l < heap_start g \<Longrightarrow> m' l = m l"
  shows "fat_agree g m m'"
proof -
  have "fat_link m' g c = fat_link m g c" if "unat c < unat (cluster_count g) + 2" for c
    using assms(2) fat_lba_below_heap [OF assms(1) that]
    by (cases "fat_lba_for_byte g (fat_byte c)") (auto simp: fat_link_def)
  then show ?thesis by (simp add: fat_agree_def)
qed

lemma walk_agree:
  assumes "fat_agree g m m'" "in_heap g c"
  shows "walk m' g c n = walk m g c n"
proof -
  have "walk m' g c n = walk m g c n \<and> (\<forall>d. walk m g c n = Some d \<longrightarrow> in_heap g d)"
  proof (induction n)
    case 0
    show ?case using assms(2) by simp
  next
    case (Suc n)
    show ?case
    proof (cases "walk m g c n")
      case None
      with Suc show ?thesis by simp
    next
      case (Some d)
      with Suc have "fat_link m' g d = fat_link m g d"
        using assms(1) in_heap_lt by (simp add: fat_agree_def)
      with Suc Some show ?thesis by (auto split: bind_splits)
    qed
  qed
  then show ?thesis by simp
qed

lemma bitmap_addr_agree:
  assumes "fat_agree (vol_geometry v) m m'" "in_heap (vol_geometry v) (ab_first_cluster (vol_bitmap v))"
  shows "bitmap_addr m' v byte = bitmap_addr m v byte"
  by (simp add: bitmap_addr_def Let_def chain_at_def walk_agree [OF assms])

text \<open>A bitmap byte lies in the cluster heap, inside its sector.\<close>

lemma bitmap_addr_bounds:
  assumes wf: "wf_geometry (vol_geometry v)" and a: "bitmap_addr m v byte = Some (lba, off)"
  shows "heap_start (vol_geometry v) \<le> unat lba" "off < sector_bytes v"
proof -
  let ?g = "vol_geometry v"
  let ?sz = "unat (bytes_per_sector ?g)" and ?cb = "unat (bytes_per_cluster ?g)"
  obtain c l where l: "cluster_lba ?g c = Some l" "lba = l + of_usize (unat byte mod ?cb div ?sz)"
    "off = unat byte mod ?sz"
    using a by (auto simp: bitmap_addr_def Let_def bind_eq_Some_conv split: if_splits)
  have "unat byte mod ?cb div ?sz < unat (sectors_per_cluster ?g)"
    using sector_size_facts(4) [OF wf] unat_bytes_per_cluster [OF wf]
    by (simp add: less_mult_imp_div_less mult.commute)
  then show "heap_start ?g \<le> unat lba"
    using cluster_sector_bounds(1) [OF wf l(1)] l(2) by (simp add: heap_start_def)
  show "off < sector_bytes v" using l(3) sector_size_facts(2) [OF wf] by simp
qed

lemma walk_in_heap: "walk m g c n = Some d \<Longrightarrow> in_heap g c \<Longrightarrow> in_heap g d"
  by (induction n arbitrary: d) (auto simp: bind_eq_Some_conv split: if_splits)

text \<open>Different bytes of a usable bitmap are stored in different places.\<close>

lemma bitmap_addr_inj:
  assumes wf: "wf_geometry (vol_geometry v)" and ok: "bitmap_ok m v"
    and a: "bitmap_addr m v x = Some p" "bitmap_addr m v y = Some p"
  shows "x = y"
proof -
  let ?g = "vol_geometry v"
  let ?first = "ab_first_cluster (vol_bitmap v)"
  define sz cb spc where "sz = unat (bytes_per_sector ?g)" and "cb = unat (bytes_per_cluster ?g)"
    and "spc = unat (sectors_per_cluster ?g)"
  have cb: "cb = sz * spc" "0 < sz" "0 < cb"
    using unat_bytes_per_cluster [OF wf] sector_size_facts [OF wf] by (simp_all add: sz_def cb_def spc_def)
  have parts: "\<exists>c l. walk m ?g ?first (unat b div cb) = Some c \<and> cluster_lba ?g c = Some l \<and>
      p = (l + of_usize (unat b mod cb div sz), unat b mod sz) \<and> unat b mod cb div sz < spc \<and>
      unat b < unat (ab_byte_length (vol_bitmap v))"
    if "bitmap_addr m v b = Some p" for b
  proof -
    have "unat b mod cb div sz < spc"
      using cb by (simp add: less_mult_imp_div_less mult.commute)
    then show ?thesis using that
      by (auto simp: bitmap_addr_def Let_def bind_eq_Some_conv chain_at_def word_less_nat_alt not_le
          sz_def cb_def split: if_splits)
  qed
  obtain c l where c: "walk m ?g ?first (unat x div cb) = Some c" "cluster_lba ?g c = Some l"
    "p = (l + of_usize (unat x mod cb div sz), unat x mod sz)" "unat x mod cb div sz < spc"
    "unat x < unat (ab_byte_length (vol_bitmap v))" using parts [OF a(1)] by blast
  obtain d k where d: "walk m ?g ?first (unat y div cb) = Some d" "cluster_lba ?g d = Some k"
    "p = (k + of_usize (unat y mod cb div sz), unat y mod sz)" "unat y mod cb div sz < spc"
    "unat y < unat (ab_byte_length (vol_bitmap v))" using parts [OF a(2)] by blast
  have "c = d \<and> unat x mod cb div sz = unat y mod cb div sz"
    using cluster_sector_inj [OF wf c(2) d(2)] c(3,4) d(3,4) by (simp add: spc_def)
  then have eq: "walk m ?g ?first (unat x div cb) = walk m ?g ?first (unat y div cb)"
    and q: "unat x mod cb div sz = unat y mod cb div sz" using c(1) d(1) by simp_all
  have "unat x div cb * cb < unat (ab_byte_length (vol_bitmap v))"
    "unat y div cb * cb < unat (ab_byte_length (vol_bitmap v))"
    using c(5) d(5) by (auto intro: le_less_trans [OF div_times_less_eq_dividend])
  then have div_eq: "unat x div cb = unat y div cb"
    using ok eq unfolding bitmap_ok_def by (auto simp: cb_def dest: inj_onD)
  have "unat x mod cb mod sz = unat y mod cb mod sz"
    using c(3) d(3) cb by (simp add: mod_mod_cancel)
  with q have "unat x mod cb = unat y mod cb" by (metis div_mult_mod_eq)
  with div_eq have "unat x = unat y" by (metis div_mult_mod_eq)
  then show ?thesis by (simp add: word_unat_eq_iff)
qed

section \<open>Single bits and FAT entries\<close>

definition set_bit_in :: "u8 \<Rightarrow> nat \<Rightarrow> bool \<Rightarrow> u8" where
  "set_bit_in b k used = (if used then b OR push_bit k 1 else b AND NOT (push_bit k 1))"

lemma test_bit_mask: "k < 8 \<Longrightarrow> (b AND push_bit k 1 \<noteq> 0) = bit b k" for b :: u8
  by (simp add: and_exp_eq_0_iff_not_bit)

lemma bit_set_bit_in: "j < 8 \<Longrightarrow> k < 8 \<Longrightarrow> bit (set_bit_in b k used) j = (if j = k then used else bit b j)"
  by (auto simp: set_bit_in_def bit_simps)

lemma fat_link_with [simp]:
  assumes wf: "wf_geometry g" and len: "\<And>l. length (m l) = unat (bytes_per_sector g)"
    and c: "unat c < unat (cluster_count g) + 2"
  shows "fat_link (with_fat_link g c val m) g c = Some val"
proof -
  obtain l where l: "fat_lba_for_byte g (fat_byte c) = Some l" using fat_lba_Some [OF wf c] by blast
  have "slice (fat_pos g c) (fat_pos g c + length (le32 val)) (patch (fat_pos g c) (le32 val) (m l)) = le32 val"
    using fat_pos_fits [OF wf, of c] len by (intro slice_patch_same) simp
  then show ?thesis using l by (simp add: fat_link_def with_fat_link_def)
qed

lemma fat_link_with_other:
  assumes wf: "wf_geometry g" and len: "\<And>l. length (m l) = unat (bytes_per_sector g)"
    and c: "unat c < unat (cluster_count g) + 2" "unat c' < unat (cluster_count g) + 2" "c \<noteq> c'"
  shows "fat_link (with_fat_link g c val m) g c' = fat_link m g c'"
proof -
  define sz where "sz = unat (bytes_per_sector g)"
  obtain l where l: "fat_lba_for_byte g (fat_byte c) = Some l"
    "unat l = unat (first_lba (partition_of g)) + unat (fat_offset g)
           + unat (active_fat g) * unat (fat_length g) + unat c * 4 div sz"
    using fat_lba_Some [OF wf c(1)] unfolding sz_def by metis
  obtain l' where l': "fat_lba_for_byte g (fat_byte c') = Some l'"
    "unat l' = unat (first_lba (partition_of g)) + unat (fat_offset g)
           + unat (active_fat g) * unat (fat_length g) + unat c' * 4 div sz"
    using fat_lba_Some [OF wf c(2)] unfolding sz_def by metis
  show ?thesis
  proof (cases "l' = l")
    case False
    then show ?thesis using l(1) l'(1) by (simp add: fat_link_def with_fat_link_def)
  next
    case True
    then have "unat c * 4 div sz = unat c' * 4 div sz" using l(2) l'(2) by simp
    then have "fat_pos g c + 4 \<le> fat_pos g c' \<or> fat_pos g c' + 4 \<le> fat_pos g c"
      using fat_entry_disjoint [OF wf c(3)] by (simp add: fat_pos_def unat_fat_byte sz_def)
    then have "slice (fat_pos g c') (fat_pos g c' + 4) (patch (fat_pos g c) (le32 val) (m l))
        = slice (fat_pos g c') (fat_pos g c' + 4) (m l)"
      using fat_pos_fits [OF wf] len by (intro slice_patch_other) auto
    then show ?thesis using l(1) l'(1) True by (simp add: fat_link_def with_fat_link_def)
  qed
qed

text \<open>Writing a FAT entry stays below the cluster heap.\<close>

lemma with_fat_link_heap:
  assumes "wf_geometry g" "unat c < unat (cluster_count g) + 2" "heap_start g \<le> unat l"
  shows "with_fat_link g c val m l = m l"
  using fat_lba_below_heap [OF assms(1,2)] assms(3)
  by (cases "fat_lba_for_byte g (fat_byte c)") (auto simp: with_fat_link_def)

text \<open>The medium with one bitmap bit written.\<close>

definition with_bitmap_bit :: "Volume \<Rightarrow> u32 \<Rightarrow> bool \<Rightarrow> medium \<Rightarrow> medium" where
  "with_bitmap_bit v c used m =
     (case position_for (vol_bitmap v) c of None \<Rightarrow> m
      | Some (byte, bt) \<Rightarrow>
          (case bitmap_addr m v byte of None \<Rightarrow> m
           | Some (lba, off) \<Rightarrow> m(lba := (m lba)[off := set_bit_in (m lba ! off) (unat bt) used])))"

lemma bitmap_bit_SomeE:
  assumes "bitmap_bit m v c = Some b"
  obtains byte bt lba off where "position_for (vol_bitmap v) c = Some (byte, bt)" "unat bt < 8"
    "bitmap_addr m v byte = Some (lba, off)" "b = bit (m lba ! off) (unat bt)"
  using assms that by (fastforce simp: bitmap_bit_def bind_eq_Some_conv dest: position_for_bit)

lemma with_bitmap_bit_below:
  assumes "wf_geometry (vol_geometry v)" "unat l < heap_start (vol_geometry v)"
  shows "with_bitmap_bit v c used m l = m l"
  using assms(2) bitmap_addr_bounds(1) [OF assms(1)]
  by (fastforce simp: with_bitmap_bit_def split: option.splits)

text \<open>Writing a bit changes that bit and no other, and leaves the FAT alone.\<close>

lemma bitmap_bit_with:
  assumes wf: "wf_geometry (vol_geometry v)" and len: "\<And>l. length (m l) = sector_bytes v"
    and ok: "bitmap_ok m v" and c: "bitmap_bit m v c = Some b"
  shows "bitmap_bit (with_bitmap_bit v c used m) v c' = (if c' = c then Some used else bitmap_bit m v c')"
    and "bitmap_ok (with_bitmap_bit v c used m) v"
    and "fat_agree (vol_geometry v) m (with_bitmap_bit v c used m)"
proof -
  obtain byte bt lba off where pos: "position_for (vol_bitmap v) c = Some (byte, bt)" "unat bt < 8"
    and a: "bitmap_addr m v byte = Some (lba, off)" using c by (rule bitmap_bit_SomeE)
  let ?m' = "with_bitmap_bit v c used m"
  have m': "?m' = m(lba := (m lba)[off := set_bit_in (m lba ! off) (unat bt) used])"
    using pos(1) a by (simp add: with_bitmap_bit_def)
  have off: "off < length (m lba)" using bitmap_addr_bounds(2) [OF wf a] len by simp
  show agree: "fat_agree (vol_geometry v) m ?m'"
    using with_bitmap_bit_below [OF wf] by (intro fat_agree_below [OF wf])
  have first: "in_heap (vol_geometry v) (ab_first_cluster (vol_bitmap v))" using ok by (simp add: bitmap_ok_def)
  note addr = bitmap_addr_agree [OF agree first]
  show "bitmap_ok ?m' v" using ok by (simp add: bitmap_ok_def addr walk_agree [OF agree first])
  show "bitmap_bit ?m' v c' = (if c' = c then Some used else bitmap_bit m v c')"
  proof (cases "position_for (vol_bitmap v) c'")
    case None
    then show ?thesis using pos(1) by (auto simp: bitmap_bit_def)
  next
    case (Some pos')
    obtain byte' bt' where pos': "position_for (vol_bitmap v) c' = Some (byte', bt')"
      using Some by (cases pos') auto
    have bt': "unat bt' < 8" using position_for_bit [OF pos'] .
    have same_c: "c' = c \<longleftrightarrow> byte' = byte \<and> bt' = bt"
    proof
      assume "byte' = byte \<and> bt' = bt"
      then show "c' = c" using pos(1) pos' by (simp add: position_for_iff word_unat_eq_iff)
    qed (use pos(1) pos' in simp)
    show ?thesis
    proof (cases "bitmap_addr m v byte'")
      case None
      then show ?thesis using a pos(1) pos' by (auto simp: bitmap_bit_def addr)
    next
      case (Some p)
      obtain lba' off' where a': "bitmap_addr m v byte' = Some (lba', off')" using Some by (cases p) auto
      have bits: "bitmap_bit ?m' v c' = Some (bit (?m' lba' ! off') (unat bt'))"
        "bitmap_bit m v c' = Some (bit (m lba' ! off') (unat bt'))"
        using pos' a' by (simp_all add: bitmap_bit_def addr)
      show ?thesis
      proof (cases "lba' = lba \<and> off' = off")
        case True
        then have "byte' = byte" using bitmap_addr_inj [OF wf ok] a a' by blast
        then show ?thesis
          using bits True off pos(2) bt' same_c
          by (auto simp: m' bit_set_bit_in word_unat_eq_iff)
      next
        case False
        then have "byte' \<noteq> byte" using a a' by auto
        then show ?thesis using bits False same_c off by (auto simp: m')
      qed
    qed
  qed
qed

section \<open>The medium after an allocation\<close>

definition cluster_sectors :: "Geometry \<Rightarrow> u32 \<Rightarrow> u64 set" where
  "cluster_sectors g c =
     (case cluster_lba g c of None \<Rightarrow> {} | Some l \<Rightarrow> (\<lambda>i. l + of_usize i) ` {..<unat (sectors_per_cluster g)})"

definition with_zero_cluster :: "Geometry \<Rightarrow> u32 \<Rightarrow> medium \<Rightarrow> medium" where
  "with_zero_cluster g c m = (\<lambda>l. if l \<in> cluster_sectors g c then replicate (unat (bytes_per_sector g)) 0 else m l)"

definition with_allocated :: "Volume \<Rightarrow> u32 \<Rightarrow> medium \<Rightarrow> medium" where
  "with_allocated v c m =
     with_fat_link (vol_geometry v) c 0xFFFFFFFF (with_bitmap_bit v c True (with_zero_cluster (vol_geometry v) c m))"

text \<open>The clusters that hold the bitmap, and a bitmap that records them as used.\<close>

definition bitmap_cluster :: "medium \<Rightarrow> Volume \<Rightarrow> u32 \<Rightarrow> bool" where
  "bitmap_cluster m v d \<longleftrightarrow>
     (\<exists>n. n * unat (bytes_per_cluster (vol_geometry v)) < unat (ab_byte_length (vol_bitmap v)) \<and>
        walk m (vol_geometry v) (ab_first_cluster (vol_bitmap v)) n = Some d)"

definition bitmap_sound :: "medium \<Rightarrow> Volume \<Rightarrow> bool" where
  "bitmap_sound m v \<longleftrightarrow> bitmap_ok m v \<and> (\<forall>d. bitmap_cluster m v d \<longrightarrow> bitmap_bit m v d = Some True)"

lemma cluster_sectors_disjoint_heap:
  assumes "wf_geometry g" "l \<in> cluster_sectors g c" "l \<in> cluster_sectors g d"
  shows "c = d"
  using assms(2,3) cluster_sector_inj [OF assms(1)]
  by (auto simp: cluster_sectors_def split: option.splits)

lemma cluster_sectors_heap: "wf_geometry g \<Longrightarrow> l \<in> cluster_sectors g c \<Longrightarrow> heap_start g \<le> unat l"
  using cluster_sector_bounds(1) [of g c] by (auto simp: cluster_sectors_def heap_start_def split: option.splits)

lemma bitmap_addr_cluster:
  assumes wf: "wf_geometry (vol_geometry v)" and a: "bitmap_addr m v byte = Some (lba, off)"
  obtains d where "bitmap_cluster m v d" "lba \<in> cluster_sectors (vol_geometry v) d"
proof -
  let ?g = "vol_geometry v"
  define cb sz where "cb = unat (bytes_per_cluster ?g)" and "sz = unat (bytes_per_sector ?g)"
  obtain c l where c: "walk m ?g (ab_first_cluster (vol_bitmap v)) (unat byte div cb) = Some c"
    "cluster_lba ?g c = Some l" "lba = l + of_usize (unat byte mod cb div sz)"
    "unat byte < unat (ab_byte_length (vol_bitmap v))"
    using a by (auto simp: bitmap_addr_def Let_def bind_eq_Some_conv chain_at_def word_less_nat_alt not_le cb_def sz_def
        split: if_splits)
  have "unat byte mod cb div sz < unat (sectors_per_cluster ?g)"
    using sector_size_facts(4) [OF wf] unat_bytes_per_cluster [OF wf]
    by (simp add: less_mult_imp_div_less mult.commute cb_def sz_def)
  then have "lba \<in> cluster_sectors ?g c" using c by (simp add: cluster_sectors_def)
  moreover have "unat byte div cb * cb < unat (ab_byte_length (vol_bitmap v))"
    using c(4) by (auto intro: le_less_trans [OF div_times_less_eq_dividend])
  then have "bitmap_cluster m v c" using c(1) by (auto simp: bitmap_cluster_def cb_def)
  ultimately show ?thesis using that by blast
qed

text \<open>A medium that agrees on the bitmap's clusters and their links agrees on the bitmap.\<close>

definition bitmap_agree :: "Volume \<Rightarrow> medium \<Rightarrow> medium \<Rightarrow> bool" where
  "bitmap_agree v m m' \<longleftrightarrow>
     (\<forall>d. bitmap_cluster m v d \<longrightarrow> fat_link m' (vol_geometry v) d = fat_link m (vol_geometry v) d)"

lemma bitmap_walk_agree:
  assumes "bitmap_agree v m m'"
    and "n * unat (bytes_per_cluster (vol_geometry v)) < unat (ab_byte_length (vol_bitmap v))"
  shows "walk m' (vol_geometry v) (ab_first_cluster (vol_bitmap v)) n = walk m (vol_geometry v) (ab_first_cluster (vol_bitmap v)) n"
  using assms(2)
proof (induction n)
  case 0
  show ?case by simp
next
  case (Suc n)
  then have n: "n * unat (bytes_per_cluster (vol_geometry v)) < unat (ab_byte_length (vol_bitmap v))" by simp
  show ?case
  proof (cases "walk m (vol_geometry v) (ab_first_cluster (vol_bitmap v)) n")
    case None
    with Suc.IH [OF n] show ?thesis by simp
  next
    case (Some d)
    then have "bitmap_cluster m v d" using n by (auto simp: bitmap_cluster_def)
    then have "fat_link m' (vol_geometry v) d = fat_link m (vol_geometry v) d"
      using assms(1) by (simp add: bitmap_agree_def)
    with Some Suc.IH [OF n] show ?thesis by simp
  qed
qed

lemma bitmap_agree_addr:
  assumes "bitmap_agree v m m'"
  shows "bitmap_addr m' v byte = bitmap_addr m v byte"
proof (cases "ab_byte_length (vol_bitmap v) \<le> byte")
  case False
  then have "unat byte div unat (bytes_per_cluster (vol_geometry v)) * unat (bytes_per_cluster (vol_geometry v))
      < unat (ab_byte_length (vol_bitmap v))"
    by (auto simp: not_le word_less_nat_alt intro: le_less_trans [OF div_times_less_eq_dividend])
  then show ?thesis by (simp add: bitmap_addr_def Let_def chain_at_def bitmap_walk_agree [OF assms])
qed (simp add: bitmap_addr_def)

lemma bitmap_agree_cluster: "bitmap_agree v m m' \<Longrightarrow> bitmap_cluster m' v d = bitmap_cluster m v d"
  unfolding bitmap_cluster_def using bitmap_walk_agree [of v m m'] by metis

lemma bitmap_agree_ok:
  assumes "bitmap_agree v m m'"
  shows "bitmap_ok m' v = bitmap_ok m v"
proof -
  let ?S = "{n. n * unat (bytes_per_cluster (vol_geometry v)) < unat (ab_byte_length (vol_bitmap v))}"
  have "inj_on (walk m' (vol_geometry v) (ab_first_cluster (vol_bitmap v))) ?S
      = inj_on (walk m (vol_geometry v) (ab_first_cluster (vol_bitmap v))) ?S"
    by (rule inj_on_cong) (simp add: bitmap_walk_agree [OF assms])
  then show ?thesis by (simp add: bitmap_ok_def bitmap_agree_addr [OF assms])
qed

lemma bitmap_agree_bit:
  assumes "bitmap_agree v m m'"
    and "\<And>byte lba off. bitmap_addr m v byte = Some (lba, off) \<Longrightarrow> m' lba = m lba"
  shows "bitmap_bit m' v c = bitmap_bit m v c"
proof (cases "position_for (vol_bitmap v) c")
  case (Some pos)
  obtain byte bt where pos: "pos = (byte, bt)" by (cases pos)
  show ?thesis
    using assms(2) [of byte] by (cases "bitmap_addr m v byte") (auto simp: bitmap_bit_def Some pos bitmap_agree_addr [OF assms(1)])
qed (simp add: bitmap_bit_def)

lemma bitmap_cluster_in_heap: "bitmap_ok m v \<Longrightarrow> bitmap_cluster m v d \<Longrightarrow> in_heap (vol_geometry v) d"
  by (auto simp: bitmap_cluster_def bitmap_ok_def intro: walk_in_heap)

lemma fat_agree_bitmap: "fat_agree (vol_geometry v) m m' \<Longrightarrow> bitmap_ok m v \<Longrightarrow> bitmap_agree v m m'"
  using bitmap_cluster_in_heap in_heap_lt unfolding fat_agree_def bitmap_agree_def by blast

text \<open>Zeroing a free cluster, then recording it as used, then marking it as the end of a chain.\<close>

lemma zero_free_cluster:
  assumes wf: "wf_geometry (vol_geometry v)" and snd: "bitmap_sound m v" and free: "bitmap_bit m v c = Some False"
  shows "bitmap_bit (with_zero_cluster (vol_geometry v) c m) v c' = bitmap_bit m v c'"
    and "bitmap_sound (with_zero_cluster (vol_geometry v) c m) v"
    and "fat_agree (vol_geometry v) m (with_zero_cluster (vol_geometry v) c m)"
proof -
  let ?m = "with_zero_cluster (vol_geometry v) c m"
  show agree: "fat_agree (vol_geometry v) m ?m"
  proof (rule fat_agree_below [OF wf])
    fix l :: u64
    assume "unat l < heap_start (vol_geometry v)"
    then have "l \<notin> cluster_sectors (vol_geometry v) c" using cluster_sectors_heap [OF wf] by fastforce
    then show "?m l = m l" by (simp add: with_zero_cluster_def)
  qed
  have ok: "bitmap_ok m v" using snd by (simp add: bitmap_sound_def)
  note ba = fat_agree_bitmap [OF agree ok]
  have keep: "?m lba = m lba" if a: "bitmap_addr m v byte = Some (lba, off)" for byte lba off
  proof -
    obtain d where d: "bitmap_cluster m v d" "lba \<in> cluster_sectors (vol_geometry v) d"
      by (rule bitmap_addr_cluster [OF wf a])
    then have "d \<noteq> c" using snd free by (auto simp: bitmap_sound_def)
    then have "lba \<notin> cluster_sectors (vol_geometry v) c" using cluster_sectors_disjoint_heap [OF wf] d(2) by blast
    then show ?thesis by (simp add: with_zero_cluster_def)
  qed
  show bit: "bitmap_bit ?m v c' = bitmap_bit m v c'" for c'
    by (rule bitmap_agree_bit [OF ba keep])
  show "bitmap_sound ?m v"
    using snd by (simp add: bitmap_sound_def bitmap_agree_ok [OF ba] bitmap_agree_cluster [OF ba] bit)
qed

lemma with_allocated_effect:
  assumes wf: "wf_geometry (vol_geometry v)" and len: "\<And>l. length (m l) = sector_bytes v"
    and snd: "bitmap_sound m v" and free: "bitmap_bit m v c = Some False" and c: "in_heap (vol_geometry v) c"
  shows "bitmap_bit (with_allocated v c m) v c' = (if c' = c then Some True else bitmap_bit m v c')"
    and "bitmap_sound (with_allocated v c m) v"
    and "fat_link (with_allocated v c m) (vol_geometry v) c = Some 0xFFFFFFFF"
    and "\<And>d. unat d < unat (cluster_count (vol_geometry v)) + 2 \<Longrightarrow> d \<noteq> c \<Longrightarrow>
           fat_link (with_allocated v c m) (vol_geometry v) d = fat_link m (vol_geometry v) d"
    and "\<And>l. l \<in> cluster_sectors (vol_geometry v) c \<Longrightarrow> with_allocated v c m l = replicate (sector_bytes v) 0"
    and "\<And>l d. l \<in> cluster_sectors (vol_geometry v) d \<Longrightarrow> d \<noteq> c \<Longrightarrow> \<not> bitmap_cluster m v d \<Longrightarrow>
           with_allocated v c m l = m l"
proof -
  let ?g = "vol_geometry v"
  let ?m1 = "with_zero_cluster ?g c m"
  let ?m2 = "with_bitmap_bit v c True ?m1"
  let ?m3 = "with_allocated v c m"
  have m3: "?m3 = with_fat_link ?g c 0xFFFFFFFF ?m2" by (simp add: with_allocated_def)
  note z = zero_free_cluster [OF wf snd free]
  have len1: "length (?m1 l) = sector_bytes v" for l using len by (simp add: with_zero_cluster_def)
  have ok1: "bitmap_ok ?m1 v" using z(2) by (simp add: bitmap_sound_def)
  have b1: "bitmap_bit ?m1 v c = Some False" using z(1) free by simp
  note w = bitmap_bit_with [OF wf len1 ok1 b1, where used = True]
  have len2: "length (?m2 l) = sector_bytes v" for l
    using len1 by (auto simp: with_bitmap_bit_def split: option.splits)
  note c_lt = in_heap_lt [OF c]
  have links: "fat_link ?m3 ?g d = fat_link m ?g d" if "unat d < unat (cluster_count ?g) + 2" "d \<noteq> c" for d
    using that fat_link_with_other [OF wf len2 c_lt that(1)] w(3) z(3) by (auto simp: m3 fat_agree_def)
  show "fat_link ?m3 ?g c = Some 0xFFFFFFFF" unfolding m3 by (rule fat_link_with [OF wf len2 c_lt])
  show "\<And>d. unat d < unat (cluster_count ?g) + 2 \<Longrightarrow> d \<noteq> c \<Longrightarrow> fat_link ?m3 ?g d = fat_link m ?g d" by (rule links)
  have not_c: "d \<noteq> c" if "bitmap_cluster m v d" for d using that snd free by (auto simp: bitmap_sound_def)
  have ok: "bitmap_ok m v" using snd by (simp add: bitmap_sound_def)
  have agree: "bitmap_agree v m ?m3"
    using links not_c bitmap_cluster_in_heap [OF ok] in_heap_lt unfolding bitmap_agree_def by blast
  have heap: "?m3 l = ?m2 l" if "heap_start ?g \<le> unat l" for l
    unfolding m3 by (rule with_fat_link_heap [OF wf c_lt that])
  have agree2: "bitmap_agree v m ?m2"
    using fat_agree_bitmap [OF w(3) ok1] fat_agree_bitmap [OF z(3) ok]
    by (simp add: bitmap_agree_def bitmap_agree_cluster [OF fat_agree_bitmap [OF z(3) ok]])
  have agree23: "bitmap_agree v ?m2 ?m3"
    using agree agree2 by (simp add: bitmap_agree_def bitmap_agree_cluster [OF agree2])
  have bits: "bitmap_bit ?m3 v c' = (if c' = c then Some True else bitmap_bit m v c')" for c'
  proof -
    have "bitmap_bit ?m3 v c' = bitmap_bit ?m2 v c'"
      by (rule bitmap_agree_bit [OF agree23]) (rule heap, rule bitmap_addr_bounds(1) [OF wf])
    then show ?thesis using w(1) z(1) by simp
  qed
  then show "bitmap_bit ?m3 v c' = (if c' = c then Some True else bitmap_bit m v c')" .
  show "bitmap_sound ?m3 v"
    using snd by (simp add: bitmap_sound_def bitmap_agree_ok [OF agree] bitmap_agree_cluster [OF agree] bits)
  have data: "?m2 l = ?m1 l" if l: "l \<in> cluster_sectors ?g d" "\<not> bitmap_cluster m v d" for l d
  proof -
    have "lba \<noteq> l" if a: "bitmap_addr ?m1 v byte = Some (lba, off)" for byte lba off
    proof -
      obtain e where "bitmap_cluster ?m1 v e" "lba \<in> cluster_sectors ?g e"
        by (rule bitmap_addr_cluster [OF wf a])
      then show ?thesis
        using l cluster_sectors_disjoint_heap [OF wf] bitmap_agree_cluster [OF fat_agree_bitmap [OF z(3) ok]] by auto
    qed
    then show ?thesis by (auto simp: with_bitmap_bit_def split: option.splits)
  qed
  show "?m3 l = replicate (sector_bytes v) 0" if "l \<in> cluster_sectors ?g c" for l
    using heap [OF cluster_sectors_heap [OF wf that]] data [OF that] not_c that
    by (auto simp: with_zero_cluster_def)
  show "?m3 l = m l" if "l \<in> cluster_sectors ?g d" "d \<noteq> c" "\<not> bitmap_cluster m v d" for l d
  proof -
    have "l \<notin> cluster_sectors ?g c" using cluster_sectors_disjoint_heap [OF wf] that(1,2) by blast
    then show ?thesis
      using heap [OF cluster_sectors_heap [OF wf that(1)]] data [OF that(1,3)] by (simp add: with_zero_cluster_def)
  qed
qed

lemma set_cluster_range: "set (cluster_range a b) = {c. a \<le> c \<and> c < b}"
proof
  show "set (cluster_range a b) \<subseteq> {c. a \<le> c \<and> c < b}"
  proof
    fix c assume "c \<in> set (cluster_range a b)"
    then obtain n where n: "c = word_of_nat n" "unat a \<le> n" "n < unat b" by (auto simp: cluster_range_def)
    then have "n < 2 ^ 32" using less_trans [OF n(3) unat_u32_lt] by simp
    then have "unat c = n" by (simp add: n(1) unat_of_nat)
    then show "c \<in> {c. a \<le> c \<and> c < b}" using n by (simp add: word_le_nat_alt word_less_nat_alt)
  qed
  show "{c. a \<le> c \<and> c < b} \<subseteq> set (cluster_range a b)"
  proof
    fix c assume "c \<in> {c. a \<le> c \<and> c < b}"
    then have "unat c \<in> {unat a..<unat b}" by (simp add: word_le_nat_alt word_less_nat_alt)
    then have "word_of_nat (unat c) \<in> (word_of_nat ` {unat a..<unat b} :: u32 set)" by (rule imageI)
    then show "c \<in> set (cluster_range a b)" by (simp add: cluster_range_def)
  qed
qed

section \<open>Counting bits\<close>

text \<open>The bits of a list of bytes, lowest bit first, as the bitmap numbers them.\<close>

definition bits_of :: "u8 list \<Rightarrow> bool list" where
  "bits_of vals = concat (map (\<lambda>b. map (bit b) [0..<8]) vals)"

definition ones :: "bool list \<Rightarrow> nat" where
  "ones bs = length (filter id bs)"

lemma length_bits_of [simp]: "length (bits_of vals) = 8 * length vals"
  by (induction vals) (simp_all add: bits_of_def)

lemma bits_of_Cons: "bits_of (b # bs) = map (bit b) [0..<8] @ bits_of bs"
  by (simp add: bits_of_def)

lemma nth_bits_of: "j < 8 * length vals \<Longrightarrow> bits_of vals ! j = bit (vals ! (j div 8)) (j mod 8)"
proof (induction vals arbitrary: j)
  case Nil
  then show ?case by simp
next
  case (Cons b vals)
  show ?case
  proof (cases "j < 8")
    case True
    then show ?thesis by (simp add: bits_of_Cons nth_append)
  next
    case False
    then have "j div 8 = Suc ((j - 8) div 8)" "j mod 8 = (j - 8) mod 8" by (simp_all add: le_div_geq le_mod_geq)
    with False Cons show ?thesis by (simp add: bits_of_Cons nth_append)
  qed
qed

lemma ones_append [simp]: "ones (xs @ ys) = ones xs + ones ys"
  by (simp add: ones_def)

lemma ones_Nil [simp]: "ones [] = 0"
  by (simp add: ones_def)

lemma ones_le: "ones xs \<le> length xs"
  by (simp add: ones_def)

text \<open>The code's mask keeps the bits that stand for clusters.\<close>

lemma count_ones_masked:
  assumes "n \<le> 8"
  shows "count_ones (b AND (if n = 8 then 0xFF else push_bit n 1 - 1)) = ones (take n (map (bit b) [0..<8]))"
proof -
  have mask: "(if n = 8 then 0xFF else push_bit n 1 - 1) = (mask n :: u8)"
    by (auto simp: mask_eq_exp_minus_1)
  have "filter (bit (b AND mask n)) [0..<8] = filter (bit b) [0..<n]"
  proof -
    have "[0..<8] = [0..<n] @ [n..<8]" using assms upt_add_eq_append [of 0 n "8 - n"] by simp
    moreover have "filter (bit (b AND mask n)) [0..<n] = filter (bit b) [0..<n]"
      using assms by (intro filter_cong) (auto simp: bit_simps)
    moreover have "filter (bit (b AND mask n)) [n..<8] = []" by (auto simp: filter_empty_conv bit_simps)
    ultimately show ?thesis by simp
  qed
  moreover have "take n (map (bit b) [0..<8]) = map (bit b) [0..<n]"
    using assms by (simp add: take_map)
  ultimately show ?thesis unfolding mask by (simp add: count_ones_def ones_def filter_map comp_def)
qed

lemma count_used_correct:
  "unat used + unat remaining < 2 ^ 32 \<Longrightarrow>
    \<exists>remaining' used'. (count_used vals (remaining, used) :: 'e error + u32 \<times> u32) = Inr (remaining', used') \<and>
      unat remaining' = unat remaining - 8 * length vals \<and>
      unat used' = unat used + ones (take (unat remaining) (bits_of vals))"
proof (induction vals arbitrary: remaining used)
  case Nil
  then show ?case by (simp add: bits_of_def ones_def)
next
  case (Cons b vals)
  show ?case
  proof (cases "remaining = 0")
    case True
    then show ?thesis by (simp add: ones_def)
  next
    case False
    define n where "n = min (unat remaining) 8"
    define k where "k = ones (take n (map (bit b) [0..<8]))"
    have valid: "unat (min remaining 8) = n"
      by (simp add: n_def min_def word_le_nat_alt)
    have n_le: "n \<le> unat remaining" by (simp add: n_def)
    have valid8: "min remaining 8 = 8 \<longleftrightarrow> n = 8" by (simp add: word_unat_eq_iff valid)
    have k: "k \<le> n" using ones_le [of "take n (map (bit b) [0..<8])"] by (simp add: k_def n_def)
    have cnt: "count_ones (b AND (if min remaining 8 = 8 then 0xFF else push_bit (unat (min remaining 8)) 1 - 1)) = k"
      unfolding valid8 valid k_def by (rule count_ones_masked) (simp add: n_def)
    have kw: "unat (word_of_nat k :: u32) = k" using k by (simp add: n_def unat_of_nat)
    have room: "unat used + k < 2 ^ 32" using Cons.prems k by (simp add: n_def)
    then have add: "checked_add used (word_of_nat k) = Some (used + word_of_nat k)"
      by (simp add: checked_add_def kw)
    have used': "unat (used + word_of_nat k) = unat used + k" using room kw by (subst unat_add_small) simp_all
    have le: "min remaining 8 \<le> remaining" by simp
    have rem': "unat (remaining - min remaining 8) = unat remaining - n" using unat_sub [OF le] valid by simp
    have "unat (used + word_of_nat k) + unat (remaining - min remaining 8) < 2 ^ 32"
      using Cons.prems k used' rem' n_le by linarith
    from Cons.IH [OF this] obtain r u where
      ru: "(count_used vals (remaining - min remaining 8, used + word_of_nat k) :: 'e error + u32 \<times> u32) = Inr (r, u)"
      "unat r = unat remaining - n - 8 * length vals"
      "unat u = unat used + k + ones (take (unat remaining - n) (bits_of vals))"
      unfolding rem' used' by blast
    have "ones (take (unat remaining) (bits_of (b # vals))) = k + ones (take (unat remaining - n) (bits_of vals))"
      by (cases "unat remaining \<le> 8") (simp_all add: bits_of_Cons k_def n_def)
    moreover have "(count_used (b # vals) (remaining, used) :: 'e error + u32 \<times> u32) = Inr (r, u)"
      using False ru(1) add cnt by (simp only: count_used.simps prod.case if_False Let_def option.case)
    moreover have "unat r = unat remaining - 8 * length (b # vals)" using ru(2) by (auto simp: n_def)
    ultimately show ?thesis using ru(3) by simp
  qed
qed

text \<open>Consecutive bitmap bytes of one sector of one cluster are adjacent.\<close>

lemma bitmap_addr_run:
  assumes wf: "wf_geometry (vol_geometry v)" and a: "bitmap_addr m v b = Some (lba, off)"
    and i: "off + i < sector_bytes v"
      "i < unat (bytes_per_cluster (vol_geometry v)) - unat b mod unat (bytes_per_cluster (vol_geometry v))"
      "unat b + i < unat (ab_byte_length (vol_bitmap v))"
  shows "bitmap_addr m v (b + of_usize i) = Some (lba, off + i)"
proof -
  define sz cb where "sz = sector_bytes v" and "cb = unat (bytes_per_cluster (vol_geometry v))"
  have dv: "sz dvd cb" and pos: "0 < sz" "0 < cb" using sector_size_facts [OF wf] by (simp_all add: sz_def cb_def)
  have bnd: "unat b + i < 18446744073709551616" using i(3) unat_u64_lt [of "ab_byte_length (vol_bitmap v)"] by linarith
  then have sum: "unat (b + of_usize i) = unat b + i"
    by (subst unat_add_small) (simp_all add: unat_of_usize)
  have in_cb: "unat b mod cb + i < cb" using i(2) by (simp add: cb_def)
  note d = div_mod_add_small(1) [OF in_cb] and m = div_mod_add_small(2) [OF in_cb]
  have off: "off = unat b mod sz" using a by (auto simp: bitmap_addr_def Let_def bind_eq_Some_conv sz_def split: if_splits)
  have offm: "off = unat b mod cb mod sz" using dv by (simp add: off mod_mod_cancel)
  have in_sz: "unat b mod cb mod sz + i < sz" using i(1) offm by (simp add: sz_def)
  have "(unat b mod cb + i) div sz = unat b mod cb div sz" and sm: "(unat b mod cb + i) mod sz = off + i"
    using div_mod_add_small [OF in_sz] offm by simp_all
  moreover have "(unat b + i) mod sz = off + i"
    using sm dv m by (metis mod_mod_cancel)
  moreover have "\<not> ab_byte_length (vol_bitmap v) \<le> b" "\<not> ab_byte_length (vol_bitmap v) \<le> b + of_usize i"
    using i(3) sum by (simp_all add: word_le_nat_alt)
  ultimately show ?thesis using a
    by (auto simp: bitmap_addr_def Let_def sum d m sz_def [symmetric] cb_def [symmetric] bind_eq_Some_conv)
qed

text \<open>The used flags of all clusters in order, and the clusters that are free.\<close>

definition used_bits :: "medium \<Rightarrow> Volume \<Rightarrow> bool list" where
  "used_bits m v = map (\<lambda>j. bitmap_bit m v (word_of_nat (j + 2)) = Some True) [0..<unat (cluster_count (vol_geometry v))]"

definition free_set :: "medium \<Rightarrow> Volume \<Rightarrow> u32 set" where
  "free_set m v = {c. 2 \<le> unat c \<and> unat c < unat (cluster_count (vol_geometry v)) + 2 \<and> bitmap_bit m v c = Some False}"

lemma bits_of_run:
  assumes wf: "wf_geometry (vol_geometry v)" and len: "\<And>l. length (m l) = sector_bytes v"
    and big: "unat (cluster_count (vol_geometry v)) + 2 \<le> 2 ^ 32"
    and a: "bitmap_addr m v b = Some (lba, off)"
    and n: "off + n \<le> sector_bytes v" "n \<le> unat (bytes_per_cluster (vol_geometry v)) - unat b mod unat (bytes_per_cluster (vol_geometry v))"
      "unat b + n \<le> unat (ab_byte_length (vol_bitmap v))"
    and j: "j < 8 * n" "8 * unat b + j < unat (cluster_count (vol_geometry v))"
  shows "bits_of (slice off (off + n) (m lba)) ! j = used_bits m v ! (8 * unat b + j)"
proof -
  let ?i = "j div 8"
  have i: "?i < n" using j(1) by simp
  have run: "bitmap_addr m v (b + of_usize ?i) = Some (lba, off + ?i)"
    using i n by (intro bitmap_addr_run [OF wf a]) linarith+
  have "unat b + ?i < 18446744073709551616" using i n(3) unat_u64_lt [of "ab_byte_length (vol_bitmap v)"] by linarith
  then have sum: "unat (b + of_usize ?i) = unat b + ?i" by (subst unat_add_small) (simp_all add: unat_of_usize)
  have bt: "unat (word_of_nat (j mod 8) :: u8) = j mod 8" by (subst unat_of_nat) simp
  have c: "unat (word_of_nat (8 * unat b + j + 2) :: u32) = 8 * unat b + j + 2"
    using j(2) big by (subst unat_of_nat) simp
  have "8 * unat b + j + 2 = 8 * (unat b + ?i) + j mod 8 + 2" by simp
  moreover have "b + of_usize ?i < ab_byte_length (vol_bitmap v)" using sum i n(3) by (simp add: word_less_nat_alt)
  ultimately have "position_for (vol_bitmap v) (word_of_nat (8 * unat b + j + 2)) = Some (b + of_usize ?i, word_of_nat (j mod 8))"
    unfolding position_for_iff sum bt c by simp
  then have "bitmap_bit m v (word_of_nat (8 * unat b + j + 2)) = Some (bit (m lba ! (off + ?i)) (j mod 8))"
    using run bt by (simp add: bitmap_bit_def)
  moreover have "slice off (off + n) (m lba) ! ?i = m lba ! (off + ?i)"
    using i n(1) len by (intro nth_slice) simp_all
  ultimately show ?thesis using i j n(1) len by (simp add: nth_bits_of used_bits_def)
qed

lemma card_free_set:
  assumes big: "unat (cluster_count (vol_geometry v)) + 2 \<le> 2 ^ 32" and ok: "bitmap_ok m v"
  shows "card (free_set m v) = unat (cluster_count (vol_geometry v)) - ones (used_bits m v)"
proof -
  let ?N = "unat (cluster_count (vol_geometry v))"
  have cast: "unat (word_of_nat (j + 2) :: u32) = j + 2" if "j < ?N" for j
    using that big by (subst unat_of_nat) simp
  have some: "bitmap_bit m v (word_of_nat (j + 2)) \<noteq> None" if j: "j < ?N" for j
  proof -
    have len: "j div 8 < unat (ab_byte_length (vol_bitmap v))" using j ok unfolding bitmap_ok_def by linarith
    then have "j div 8 < 18446744073709551616" using unat_u64_lt [of "ab_byte_length (vol_bitmap v)"] by linarith
    then have b: "unat (of_usize (j div 8)) = j div 8" by (simp add: unat_of_usize)
    have bt: "unat (word_of_nat (j mod 8) :: u8) = j mod 8" by (subst unat_of_nat) simp
    have "of_usize (j div 8) < ab_byte_length (vol_bitmap v)" using len b by (simp add: word_less_nat_alt)
    moreover from this have "position_for (vol_bitmap v) (word_of_nat (j + 2)) = Some (of_usize (j div 8), word_of_nat (j mod 8))"
      unfolding position_for_iff b bt cast [OF j] by simp
    ultimately show ?thesis using ok by (auto simp: bitmap_ok_def bitmap_bit_def)
  qed
  have "free_set m v = (\<lambda>j. word_of_nat (j + 2)) ` {j. j < ?N \<and> \<not> used_bits m v ! j}"
  proof (rule set_eqI, rule iffI)
    fix c assume c: "c \<in> free_set m v"
    then have "c = word_of_nat (unat c - 2 + 2)" by (simp add: free_set_def)
    moreover have "unat c - 2 < ?N" using c by (auto simp: free_set_def)
    moreover from calculation c have "\<not> used_bits m v ! (unat c - 2)" by (simp add: used_bits_def free_set_def)
    ultimately show "c \<in> (\<lambda>j. word_of_nat (j + 2)) ` {j. j < ?N \<and> \<not> used_bits m v ! j}" by blast
  next
    fix c :: u32 assume "c \<in> (\<lambda>j. word_of_nat (j + 2)) ` {j. j < ?N \<and> \<not> used_bits m v ! j}"
    then obtain j where j: "c = word_of_nat (j + 2)" "j < ?N" "\<not> used_bits m v ! j" by blast
    then have "bitmap_bit m v c = Some False" using some [OF j(2)] by (auto simp: used_bits_def)
    then show "c \<in> free_set m v" using cast [OF j(2)] j by (simp add: free_set_def)
  qed
  moreover have "inj_on (\<lambda>j. word_of_nat (j + 2) :: u32) {j. j < ?N \<and> \<not> used_bits m v ! j}"
    by (rule inj_onI) (metis (lifting) add_right_cancel cast mem_Collect_eq)
  ultimately have "card (free_set m v) = card {j. j < ?N \<and> \<not> used_bits m v ! j}" by (simp add: card_image)
  also have "\<dots> = length (filter (\<lambda>b. \<not> b) (used_bits m v))"
    by (simp add: length_filter_conv_card used_bits_def)
  also have "\<dots> = ?N - ones (used_bits m v)"
    using sum_length_filter_compl [of "\<lambda>b. b" "used_bits m v"] by (simp add: ones_def id_def used_bits_def)
  finally show ?thesis .
qed

text \<open>One round of the free-space count.\<close>

definition counted :: "medium \<Rightarrow> Volume \<Rightarrow> u64 \<times> u32 \<times> u32 \<Rightarrow> bool" where
  "counted m v st = (case st of (byte, remaining, used) \<Rightarrow>
     unat remaining = unat (cluster_count (vol_geometry v)) - 8 * unat byte \<and>
     unat used = ones (take (8 * unat byte) (used_bits m v)))"

lemma counted_next:
  assumes wf: "wf_geometry (vol_geometry v)" and len: "\<And>l. length (m l) = sector_bytes v"
    and big: "unat (cluster_count (vol_geometry v)) + 2 \<le> 2 ^ 32" and ok: "bitmap_ok m v"
    and st: "counted m v (byte, remaining, used)" and more: "remaining \<noteq> 0"
    and a: "bitmap_addr m v byte = Some (lba, off)"
    and n: "n = min (min (sector_bytes v - off) (unat (bytes_per_cluster (vol_geometry v)) - unat byte mod unat (bytes_per_cluster (vol_geometry v))))
        (unat (ab_byte_length (vol_bitmap v)) - unat byte)"
  shows "0 < n \<and> (\<exists>remaining' used'. (count_used (slice off (off + n) (m lba)) (remaining, used) :: 'f error + u32 \<times> u32)
      = Inr (remaining', used') \<and> checked_add byte (of_usize n) = Some (byte + of_usize n) \<and>
      counted m v (byte + of_usize n, remaining', used') \<and> unat remaining' < unat remaining)"
proof -
  define N where "N = unat (cluster_count (vol_geometry v))"
  have rem: "unat remaining = N - 8 * unat byte" and used: "unat used = ones (take (8 * unat byte) (used_bits m v))"
    using st by (simp_all add: counted_def N_def)
  have pos: "0 < unat remaining" using more by (simp add: unat_gt_0)
  have off: "off < sector_bytes v" by (rule bitmap_addr_bounds(2) [OF wf a])
  have lt: "unat byte < unat (ab_byte_length (vol_bitmap v))"
    using a by (auto simp: bitmap_addr_def Let_def not_le word_less_nat_alt split: if_splits)
  have n0: "0 < n" using n off lt sector_size_facts(4) [OF wf] by simp
  have fit: "off + n \<le> sector_bytes v" using n off by linarith
  have "unat byte + n \<le> unat (ab_byte_length (vol_bitmap v))" using n lt by linarith
  then have bn: "unat byte + n < 18446744073709551616" using unat_u64_lt [of "ab_byte_length (vol_bitmap v)"] by linarith
  then have sum: "unat (byte + of_usize n) = unat byte + n" by (subst unat_add_small) (simp_all add: unat_of_usize)
  have add: "checked_add byte (of_usize n) = Some (byte + of_usize n)"
    using bn by (simp add: checked_add_def unat_of_usize)
  let ?vals = "slice off (off + n) (m lba)"
  have lv: "length ?vals = n" using fit len by simp
  have lu: "length (used_bits m v) = N" by (simp add: used_bits_def N_def)
  have le: "unat used + unat remaining \<le> N" using ones_le [of "take (8 * unat byte) (used_bits m v)"] rem used lu pos by simp
  then have small: "unat used + unat remaining < 2 ^ 32"
    using le_less_trans [OF le [unfolded N_def] unat_u32_lt] by simp
  obtain r u where ru: "(count_used ?vals (remaining, used) :: 'f error + u32 \<times> u32) = Inr (r, u)"
    "unat r = unat remaining - 8 * n" "unat u = unat used + ones (take (unat remaining) (bits_of ?vals))"
    using count_used_correct [OF small, of ?vals] lv by auto
  have "take (unat remaining) (bits_of ?vals) = take (8 * n) (drop (8 * unat byte) (used_bits m v))"
  proof (rule nth_equalityI)
    show "length (take (unat remaining) (bits_of ?vals)) = length (take (8 * n) (drop (8 * unat byte) (used_bits m v)))"
      using lv lu rem by simp
  next
    fix j assume "j < length (take (unat remaining) (bits_of ?vals))"
    then have j: "j < 8 * n" "j < unat remaining" using lv by simp_all
    then have N: "8 * unat byte + j < unat (cluster_count (vol_geometry v))" using rem by (simp add: N_def)
    have "bits_of ?vals ! j = used_bits m v ! (8 * unat byte + j)"
    proof (rule bits_of_run [OF wf len big a fit _ _ j(1) N])
      show "n \<le> unat (bytes_per_cluster (vol_geometry v)) - unat byte mod unat (bytes_per_cluster (vol_geometry v))"
        "unat byte + n \<le> unat (ab_byte_length (vol_bitmap v))" using n lt by linarith+
    qed
    then show "take (unat remaining) (bits_of ?vals) ! j = take (8 * n) (drop (8 * unat byte) (used_bits m v)) ! j"
      using N lu by (simp add: nth_take [OF j(1)] nth_take [OF j(2)] N_def)
  qed
  then have "unat u = ones (take (8 * (unat byte + n)) (used_bits m v))"
    using ru(3) used by (simp add: take_add distrib_left)
  then have "counted m v (byte + of_usize n, r, u)" using ru(2) rem by (simp add: counted_def sum N_def)
  moreover have "unat r < unat remaining" using ru(2) pos n0 by simp
  ultimately show ?thesis using n0 ru(1) add by blast
qed

section \<open>What the operations do under the device contract\<close>

context lawful_device
begin

lemma post_next_cluster:
  assumes r: "reading sz s0 s" and wf: "wf_geometry (vol_geometry v)" and sz: "sector_bytes v = sz"
  shows "post (next_cluster D v c) s
    (\<lambda>n s'. reading sz s0 s' \<and> fat_link (media (device s0)) (vol_geometry v) c = Some n)
    (\<lambda>e s'. reading sz s0 s' \<and>
       (e = Error Corrupt \<and> fat_link (media (device s0)) (vol_geometry v) c = None \<or> is_device_error e))"
proof (cases "fat_lba_for_byte (vol_geometry v) (fat_byte c)")
  case None
  then show ?thesis using r by (simp add: next_cluster_def Let_def fat_link_def)
next
  case (Some lba)
  have pos: "as_usize (fat_byte c) mod sz = fat_pos (vol_geometry v) c" and nz: "sz \<noteq> 0"
    and fit: "fat_pos (vol_geometry v) c + 4 \<le> sz"
    using fat_pos_as_usize [OF wf] sector_size_facts(2) [OF wf] fat_pos_fits [OF wf] sz by auto
  have "post (bindM (read_sector D lba sz) (\<lambda>_. bindM (sector_slice sz (fat_pos (vol_geometry v) c) (fat_pos (vol_geometry v) c + 4))
      (\<lambda>raw. returnM (le_u32 raw)))) s
    (\<lambda>n s'. reading sz s0 s' \<and> fat_link (media (device s0)) (vol_geometry v) c = Some n)
    (\<lambda>e s'. reading sz s0 s' \<and>
       (e = Error Corrupt \<and> fat_link (media (device s0)) (vol_geometry v) c = None \<or> is_device_error e))"
    using fit Some by (intro post_load_slice [OF r]) (simp_all add: fat_link_def)
  then show ?thesis unfolding next_cluster_def Let_def sz Some pos using nz by simp
qed

lemma post_cluster_at:
  assumes r: "reading sz s0 s" and wf: "wf_geometry (vol_geometry v)" and sz: "sector_bytes v = sz"
  shows "post (cluster_at D v first index) s
    (\<lambda>c s'. reading sz s0 s' \<and> chain_at (media (device s0)) (vol_geometry v) first (unat index) = Some c)
    (\<lambda>e s'. reading sz s0 s' \<and>
       (e = Error Corrupt \<and> chain_at (media (device s0)) (vol_geometry v) first (unat index) = None \<or> is_device_error e))"
    (is "post _ s ?Q ?E")
proof (cases "ucast (cluster_count (vol_geometry v)) \<le> index")
  case True
  then show ?thesis using r by (simp add: cluster_at_def chain_at_def word_le_nat_alt)
next
  case False
  let ?g = "vol_geometry v" and ?m = "media (device s0)"
  have dead: "walk ?m ?g first n = None" if "walk ?m ?g first k = None" "k \<le> n" for k n
    using that(2,1) by (induction n rule: dec_induct) simp_all
  have small: "chain_at ?m ?g first (unat index) = walk ?m ?g first (unat index)"
    using False by (simp add: chain_at_def word_le_nat_alt)
  have "post (fold_m [0..<unat index] (\<lambda>_ cluster. bindM (next_cluster D v cluster) (\<lambda>cluster'.
      if \<not> in_heap ?g cluster' then fail Corrupt else returnM cluster')) first) s ?Q ?E"
  proof (rule post_fold_m [where I = "\<lambda>k c s'. reading sz s0 s' \<and> walk ?m ?g first k = Some c"])
    fix k c s' assume k: "k < length [0..<unat index]" and I: "reading sz s0 s' \<and> walk ?m ?g first k = Some c"
    have stop: "walk ?m ?g first (unat index) = None" if "walk ?m ?g first (Suc k) = None"
      using dead [OF that, of "unat index"] k by simp
    show "post (bindM (next_cluster D v c) (\<lambda>cluster'. if \<not> in_heap ?g cluster' then fail Corrupt else returnM cluster')) s'
        (\<lambda>c s'. reading sz s0 s' \<and> walk ?m ?g first (Suc k) = Some c) ?E"
      unfolding post_bindM small
      by (rule post_mono [OF post_next_cluster [OF conjunct1 [OF I] wf sz, of c]])
        (use I stop in auto)
  qed (use r small in auto)
  then show ?thesis using False by (simp add: cluster_at_def)
qed

lemma post_bitmap_location:
  assumes r: "reading sz s0 s" and wf: "wf_geometry (vol_geometry v)" and sz: "sector_bytes v = sz"
  shows "post (bitmap_location D v byte) s
    (\<lambda>p s'. reading sz s0 s' \<and> bitmap_addr (media (device s0)) v byte = Some p)
    (\<lambda>e s'. reading sz s0 s' \<and>
       (e = Error Corrupt \<and> bitmap_addr (media (device s0)) v byte = None \<or> is_device_error e))"
    (is "post _ s ?Q ?E")
proof (cases "ab_byte_length (vol_bitmap v) \<le> byte")
  case True
  then show ?thesis using r by (simp add: bitmap_location_def Let_def bitmap_addr_def)
next
  case False
  let ?g = "vol_geometry v"
  let ?cb = "ucast (bytes_per_cluster ?g) :: u64"
  note facts = sector_size_facts [OF wf, unfolded sz]
  have cb: "unat ?cb = unat (bytes_per_cluster ?g)" and nz: "?cb \<noteq> 0" "sz \<noteq> 0"
    using facts(2,4) by (auto simp: unat_gt_0 [symmetric] simp del: unat_gt_0)
  have szw: "unat (of_usize sz) = sz" using facts(6) by (simp add: unat_of_usize)
  have "unat (byte mod ?cb) < 2 ^ 32"
    using less_trans [OF mod_less_divisor [OF facts(4)] unat_u32_lt] cb by (simp add: unat_mod)
  then have as: "as_usize (byte mod ?cb) mod sz = unat byte mod sz"
    using facts(3) by (simp add: as_usize_small unat_mod mod_mod_cancel)
  have q: "(byte mod ?cb) div of_usize sz = of_usize (unat byte mod unat (bytes_per_cluster ?g) div sz)"
  proof -
    have "unat byte mod unat (bytes_per_cluster ?g) div sz < 2 ^ 64"
      by (rule le_less_trans [OF div_le_dividend le_less_trans [OF mod_less_eq_dividend]]) simp
    then show ?thesis by (simp add: word_unat_eq_iff unat_div unat_mod szw unat_of_usize)
  qed
  have addr: "bitmap_addr (media (device s0)) v byte =
      Option.bind (chain_at (media (device s0)) ?g (ab_first_cluster (vol_bitmap v)) (unat (byte div ?cb))) (\<lambda>c.
        map_option (\<lambda>lba. (lba + of_usize (unat byte mod unat (bytes_per_cluster ?g) div sz), unat byte mod sz)) (cluster_lba ?g c))"
    using False by (simp add: bitmap_addr_def Let_def sz unat_div)
  show ?thesis
    unfolding bitmap_location_def Let_def sz if_not_P [OF False]
    by (simp add: nz, rule post_mono [OF post_cluster_at [OF r wf sz]])
      (auto simp: addr as q split: option.splits)
qed

lemma post_bitmap_used:
  assumes r: "reading sz s0 s" and wf: "wf_geometry (vol_geometry v)" and sz: "sector_bytes v = sz"
  shows "post (bitmap_used D v c) s
    (\<lambda>b s'. reading sz s0 s' \<and> bitmap_bit (media (device s0)) v c = Some b)
    (\<lambda>e s'. reading sz s0 s' \<and>
       (e = Error Corrupt \<and> bitmap_bit (media (device s0)) v c = None \<or> is_device_error e))"
    (is "post _ s ?Q ?E")
proof (cases "position_for (vol_bitmap v) c")
  case None
  then show ?thesis using r by (simp add: bitmap_used_def Let_def bitmap_bit_def)
next
  case (Some pos)
  obtain byte bt where pos: "position_for (vol_bitmap v) c = Some (byte, bt)" using Some by (cases pos) auto
  then have bt: "unat bt < 8" by (simp add: position_for_bit)
  have load: "post (bindM (read_sector D lba sz) (\<lambda>_. bindM (sector_byte sz off) (\<lambda>b.
      returnM (b AND push_bit (unat bt) 1 \<noteq> 0)))) s' ?Q ?E"
    if r': "reading sz s0 s'" and a: "bitmap_addr (media (device s0)) v byte = Some (lba, off)" for s' lba off
  proof -
    have off: "off < sz" using bitmap_addr_bounds(2) [OF wf a] sz by simp
    show ?thesis
      unfolding post_bindM
      by (rule post_mono [OF post_read_reading [OF r']])
        (use off bt pos a readingD(6) in \<open>auto simp: bitmap_bit_def test_bit_mask simp del: push_bit_of_1\<close>)
  qed
  show ?thesis
    unfolding bitmap_used_def Let_def sz pos
    by (simp only: post_bindM [of "ok_or _ _"] post_ok_or option.case prod.case)
      (subst post_bindM, rule post_mono [OF post_bitmap_location [OF r wf sz, of byte]],
        use load pos in \<open>auto simp del: post_bindM simp: bitmap_bit_def\<close>)
qed

lemma post_set_fat:
  assumes ok: "io_ok D invar sz s" and wf: "wf_geometry (vol_geometry v)" and sz: "sector_bytes v = sz"
  shows "post (set_fat D v c val) s
    (\<lambda>_ s'. frame D media invar sz {l. fat_lba_for_byte (vol_geometry v) (fat_byte c) = Some l} io_same s s' \<and>
       io_ok D invar sz s' \<and>
       media (device s') = with_fat_link (vol_geometry v) c val (media (device s)))
    (\<lambda>e s'. frame D media invar sz {l. fat_lba_for_byte (vol_geometry v) (fat_byte c) = Some l} io_same s s' \<and>
       (e = Error Corrupt \<and> fat_lba_for_byte (vol_geometry v) (fat_byte c) = None \<or> is_device_error e))"
proof (cases "fat_lba_for_byte (vol_geometry v) (fat_byte c)")
  case None
  then show ?thesis by (simp add: set_fat_def Let_def frame_def io_same_def)
next
  case (Some lba)
  have pos: "as_usize (fat_byte c) mod sz = fat_pos (vol_geometry v) c" and nz: "sz \<noteq> 0"
    and fit: "fat_pos (vol_geometry v) c + length (le32 val) \<le> sz"
    using fat_pos_as_usize [OF wf] sector_size_facts(2) [OF wf] fat_pos_fits [OF wf] sz by auto
  have one: "{l. Some lba = Some l} = {lba}" by auto
  show ?thesis
    unfolding set_fat_def Let_def sz Some pos one
    by (simp add: nz del: post_bindM, rule post_mono [OF post_update_sector [OF ok fit, of lba]])
      (auto simp: with_fat_link_def Some)
qed

lemma reading_fs_frame:
  fixes s :: "('d, 'x) fs_scheme"
  assumes "reading sz s s'"
  shows "frame D media invar sz W fs_same s s'" "free_clusters s' = free_clusters s" "fs.more s' = fs.more s"
  using assms fs_more_io [of s' s] by (auto simp: reading_def frame_def io_same_def fs_same_def)

lemma frame_io_fs:
  fixes s :: "('d, 'x) fs_scheme"
  assumes "frame D media invar sz W io_same s s'"
  shows "frame D media invar sz W fs_same s s'" "free_clusters s' = free_clusters s"
  using assms fs_more_io [of s' s] by (auto simp: frame_def io_same_def fs_same_def)

lemma frame_trans:
  assumes "frame D media invar sz W X s t" "frame D media invar sz W X t u" "coarse X"
  shows "frame D media invar sz W X s u"
  using preorder_frame [OF assms(3), of D media invar sz W] assms(1,2)
  unfolding preorder_on_states_def by (blast dest: transpD)

text \<open>What \<open>set_bitmap\<close> achieves, from a state \<open>s\<close>.\<close>

definition bit_written :: "Volume \<Rightarrow> u32 \<Rightarrow> bool \<Rightarrow> nat \<Rightarrow> ('d, 'x) fs_scheme \<Rightarrow> ('d, 'x) fs_scheme \<Rightarrow> bool" where
  "bit_written v c used sz s s' \<longleftrightarrow>
     frame D media invar sz UNIV fs_same s s' \<and> io_ok D invar sz s' \<and>
     media (device s') = with_bitmap_bit v c used (media (device s)) \<and>
     (\<exists>old. bitmap_bit (media (device s)) v c = Some old \<and>
        (if old = used then free_clusters s' = free_clusters s
         else new_free_count v used (free_clusters s) = Some (free_clusters s')))"

lemma post_commit_bit:
  fixes s :: "('d, 'x) fs_scheme"
  assumes ok: "io_ok D invar sz s" and wf: "wf_geometry (vol_geometry v)" and sz: "sector_bytes v = sz"
    and pos: "position_for (vol_bitmap v) c = Some (byte, bt)"
    and r: "reading sz s s1" and cur: "take sz (scratch s1) = media (device s) lba"
    and a: "bitmap_addr (media (device s)) v byte = Some (lba, off)"
    and x: "x = set_bit_in (media (device s) lba ! off) (unat bt) used"
    and old: "bit (media (device s) lba ! off) (unat bt) \<noteq> used"
    and n: "new_free_count v used (free_clusters s) = Some n"
  shows "post (bindM (sector_copy sz off [x]) (\<lambda>_. bindM (write_sector D lba sz) (\<lambda>_. set_free_clusters n))) s1
    (\<lambda>_. bit_written v c used sz s)
    (\<lambda>e s'. frame D media invar sz UNIV fs_same s s' \<and> (e = Error Corrupt \<or> is_device_error e))" (is "post _ s1 ?Q ?E")
proof -
  have off: "off + length [x] \<le> sz" using bitmap_addr_bounds(2) [OF wf a] sz by simp
  have len: "length (media (device s) lba) = sz" using media_length ok by (simp add: io_ok_def)
  have upd: "patch off [x] (media (device s) lba) = (media (device s) lba)[off := x]"
    using off len by (simp add: patch_def upd_conv_take_nth_drop)
  have wb: "post (bindM (sector_copy sz off [x]) (\<lambda>_. write_sector D lba sz)) s1
    (\<lambda>_ s'. frame D media invar sz {lba} io_same s1 s' \<and> io_ok D invar sz s' \<and>
       media (device s') = (media (device s1))(lba := patch off [x] (media (device s1) lba)))
    (\<lambda>e s'. frame D media invar sz {lba} io_same s1 s' \<and> is_device_error e)"
    using readingD [OF r] cur off by (intro post_write_back) simp_all
  have tr: "frame D media invar sz UNIV fs_same s s'" if "frame D media invar sz {lba} io_same s1 s'" for s'
    by (rule frame_trans [OF reading_fs_frame(1) [OF r] frame_mono [OF frame_io_fs(1) [OF that]]])
      (auto intro: coarse_fs_same)
  have split: "post (bindM (sector_copy sz off [x]) (\<lambda>_. bindM (write_sector D lba sz) (\<lambda>_. set_free_clusters n))) s1 ?Q ?E =
      post (bindM (sector_copy sz off [x]) (\<lambda>_. write_sector D lba sz)) s1 (\<lambda>_ s'. post (set_free_clusters n) s' ?Q ?E) ?E"
    by simp
  show ?thesis
    unfolding split
    by (rule post_mono [OF wb])
      (use tr readingD(2) [OF r] pos a n old x upd in
        \<open>auto simp: bit_written_def with_bitmap_bit_def bitmap_bit_def frame_def fs_same_def\<close>)
qed

lemma post_update_bitmap_bit:
  fixes s :: "('d, 'x) fs_scheme"
  assumes ok: "io_ok D invar sz s" and wf: "wf_geometry (vol_geometry v)" and sz: "sector_bytes v = sz"
    and pos: "position_for (vol_bitmap v) c = Some (byte, bt)"
    and r: "reading sz s s'" and a: "bitmap_addr (media (device s)) v byte = Some (lba, off)"
  shows "post (update_bitmap_bit D v used bt (lba, off)) s' (\<lambda>_. bit_written v c used sz s)
    (\<lambda>e s'. frame D media invar sz UNIV fs_same s s' \<and> (e = Error Corrupt \<or> is_device_error e))" (is "post _ s' ?Q ?E")
proof -
  let ?b = "media (device s) lba ! off"
  have bt: "unat bt < 8" using pos by (rule position_for_bit)
  have off: "off < sz" using bitmap_addr_bounds(2) [OF wf a] sz by simp
  have byte: "post (bindM (sector_byte sz off) (\<lambda>b.
      let mask = push_bit (unat bt) 1; was_used = (b AND mask \<noteq> 0) in
      if was_used = used then returnM () else
      bindM (getsM free_clusters) (\<lambda>count.
      bindM (ok_or (new_free_count v used count) Corrupt) (\<lambda>count'.
      bindM (sector_copy sz off [if used then b OR mask else b AND NOT mask]) (\<lambda>_.
      bindM (write_sector D lba sz) (\<lambda>_. set_free_clusters count')))))) s1 ?Q ?E"
    if r1: "reading sz s s1" and cur: "take sz (scratch s1) = media (device s) lba" for s1
  proof -
    note fr = reading_fs_frame [OF r1]
    have b: "take sz (scratch s1) ! off = ?b" and in_range: "sz \<le> length (scratch s1) \<and> off < sz"
      using cur off readingD(6) [OF r1] by auto
    note go = post_bindM [of "sector_byte _ _"] post_sector_byte if_True simp_thms Let_def b in_range
      test_bit_mask [OF bt] if_False post_bindM [of "getsM _"] post_getsM fr(2)
    show ?thesis
    proof (cases "bit ?b (unat bt) = used")
      case True
      have "set_bit_in ?b (unat bt) used = ?b"
        using True bt by (intro bit_word_eqI) (auto simp: bit_set_bit_in)
      then have same: "with_bitmap_bit v c used (media (device s)) = media (device s)"
        using pos a by (simp add: with_bitmap_bit_def)
      show ?thesis
        using True pos a fr readingD(1,2) [OF r1] same
        by (simp only: go) (simp add: bit_written_def bitmap_bit_def reading_fs_frame(2) [OF r1])
    next
      case False
      have set: "(if used then ?b OR push_bit (unat bt) 1 else ?b AND NOT (push_bit (unat bt) 1)) = set_bit_in ?b (unat bt) used"
        by (simp add: set_bit_in_def)
      show ?thesis
      proof (cases "new_free_count v used (free_clusters s)")
        case None
        then show ?thesis using False fr by (simp only: go) simp
      next
        case (Some n)
        have "post (bindM (sector_copy sz off [set_bit_in ?b (unat bt) used])
            (\<lambda>_. bindM (write_sector D lba sz) (\<lambda>_. set_free_clusters n))) s1 ?Q ?E"
          by (rule post_commit_bit [OF ok wf sz pos r1 cur a refl False Some])
        then show ?thesis by (simp only: go False set Some bindM_simps)
      qed
    qed
  qed
  show ?thesis
    unfolding update_bitmap_bit_def prod.case sz Let_def [of sz] post_bindM [of "read_sector D lba sz"]
    by (rule post_mono [OF post_read_reading [OF r, of lba]]) (use byte reading_fs_frame(1) in blast)+
qed

lemma post_set_bitmap:
  fixes s :: "('d, 'x) fs_scheme"
  assumes ok: "io_ok D invar sz s" and wf: "wf_geometry (vol_geometry v)" and sz: "sector_bytes v = sz"
  shows "post (set_bitmap D v c used) s (\<lambda>_. bit_written v c used sz s)
    (\<lambda>e s'. frame D media invar sz UNIV fs_same s s' \<and> (e = Error Corrupt \<or> is_device_error e))"
    (is "post _ s ?Q ?E")
proof (cases "position_for (vol_bitmap v) c")
  case None
  then show ?thesis by (simp add: set_bitmap_def Let_def frame_def fs_same_def)
next
  case (Some pos)
  obtain byte bt where pos: "position_for (vol_bitmap v) c = Some (byte, bt)" using Some by (cases pos) auto
  have rest: "post (update_bitmap_bit D v used bt p) s' ?Q ?E"
    if "reading sz s s' \<and> bitmap_addr (media (device s)) v byte = Some p" for s' p
    using that post_update_bitmap_bit [OF ok wf sz pos] by (cases p) blast
  show ?thesis
    unfolding set_bitmap_def pos bindM_simps prod.case post_bindM
    by (rule post_mono [OF post_bitmap_location [OF reading_refl [OF ok] wf sz, of byte]])
      (use rest reading_fs_frame(1) in blast)+
qed

lemma post_zero_cluster:
  assumes ok: "io_ok D invar sz s" and l: "cluster_lba g c = Some l" and sz: "unat (bytes_per_sector g) = sz"
  shows "post (each_m [0..<unat (sectors_per_cluster g)] (\<lambda>i. bindM (sector sz) (\<lambda>_.
      bindM (set_sector (replicate sz 0)) (\<lambda>_. write_sector D (l + of_usize i) sz)))) s
    (\<lambda>_ s'. frame D media invar sz UNIV io_same s s' \<and> io_ok D invar sz s' \<and>
       media (device s') = with_zero_cluster g c (media (device s)))
    (\<lambda>e s'. frame D media invar sz UNIV io_same s s' \<and> is_device_error e)"
proof (rule post_each_m [where I = "\<lambda>k s'. frame D media invar sz UNIV io_same s s' \<and> io_ok D invar sz s' \<and>
    media (device s') = (\<lambda>x. if x \<in> (\<lambda>i. l + of_usize i) ` {..<k} then replicate sz 0 else media (device s) x)"])
  fix k s'
  assume k: "k < length [0..<unat (sectors_per_cluster g)]"
    and I: "frame D media invar sz UNIV io_same s s' \<and> io_ok D invar sz s' \<and>
      media (device s') = (\<lambda>x. if x \<in> (\<lambda>i. l + of_usize i) ` {..<k} then replicate sz 0 else media (device s) x)"
  let ?s1 = "s'\<lparr>scratch := replicate sz 0 @ drop sz (scratch s')\<rparr>"
  have len: "sz \<le> length (scratch s')" and ok': "io_ok D invar sz ?s1" using I by (auto simp: io_ok_def)
  have "frame D media invar sz UNIV io_same s s''" if "frame D media invar sz UNIV io_same s' s''" for s''
    using frame_trans [OF _ that] I coarse_io_same by blast
  moreover have "frame D media invar sz UNIV io_same s' s''" if "same_rest ?s1 s''" "io_ok D invar sz s''"
    "sector_count_of D (device s'') = sector_count_of D (device ?s1)" for s''
    using that len I by (auto simp: frame_def same_rest_def io_same_def)
  ultimately show "post (bindM (sector sz) (\<lambda>_. bindM (set_sector (replicate sz 0)) (\<lambda>_.
      write_sector D (l + of_usize ([0..<unat (sectors_per_cluster g)] ! k)) sz))) s'
    (\<lambda>_ s'. frame D media invar sz UNIV io_same s s' \<and> io_ok D invar sz s' \<and>
      media (device s') = (\<lambda>x. if x \<in> (\<lambda>i. l + of_usize i) ` {..<Suc k} then replicate sz 0 else media (device s) x))
    (\<lambda>e s'. frame D media invar sz UNIV io_same s s' \<and> is_device_error e)"
    using k len I
    by (simp, intro post_mono [OF post_write_sector [OF ok']]) (auto simp: fun_eq_iff lessThan_Suc)
qed (use ok l sz in \<open>auto simp: frame_def io_same_def with_zero_cluster_def cluster_sectors_def fun_eq_iff\<close>)

text \<open>What claiming cluster \<open>c\<close> achieves, from a state \<open>s\<close>, and how it can fail.\<close>

definition allocated_from :: "Volume \<Rightarrow> nat \<Rightarrow> ('d, 'x) fs_scheme \<Rightarrow> u32 \<Rightarrow> ('d, 'x) fs_scheme \<Rightarrow> bool" where
  "allocated_from v sz s c s' \<longleftrightarrow>
     frame D media invar sz UNIV fs_same s s' \<and> io_ok D invar sz s' \<and>
     in_heap (vol_geometry v) c \<and> bitmap_bit (media (device s)) v c = Some False \<and>
     media (device s') = with_allocated v c (media (device s)) \<and>
     new_free_count v True (free_clusters s) = Some (free_clusters s')"

definition fs_error :: "nat \<Rightarrow> ('d, 'x) fs_scheme \<Rightarrow> 'e error exn \<Rightarrow> ('d, 'x) fs_scheme \<Rightarrow> bool" where
  "fs_error sz s e s' \<longleftrightarrow> frame D media invar sz UNIV fs_same s s' \<and> (e = Error Corrupt \<or> is_device_error e)"

lemma frame_fs_after_io:
  fixes s :: "('d, 'x) fs_scheme"
  assumes "frame D media invar sz UNIV fs_same s s1" "frame D media invar sz W io_same s1 s2"
  shows "frame D media invar sz UNIV fs_same s s2"
  by (rule frame_trans [OF assms(1) frame_mono [OF frame_io_fs(1) [OF assms(2)]]]) (auto intro: coarse_fs_same)

lemma post_claim_used:
  fixes s :: "('d, 'x) fs_scheme"
  assumes r: "reading sz s s1" and wf: "wf_geometry (vol_geometry v)" and sz: "sector_bytes v = sz"
    and snd: "bitmap_sound (media (device s)) v" and free: "bitmap_bit (media (device s)) v c = Some False"
    and l: "cluster_lba (vol_geometry v) c = Some l"
  shows "post (bindM (each_m [0..<unat (sectors_per_cluster (vol_geometry v))] (\<lambda>i. bindM (sector sz) (\<lambda>_.
      bindM (set_sector (replicate sz 0)) (\<lambda>_. write_sector D (l + of_usize i) sz)))) (\<lambda>_.
      bindM (set_bitmap D v c True) (\<lambda>_. bindM (set_fat D v c 0xFFFFFFFF) (\<lambda>_. returnM (Some c))))) s1
    (\<lambda>x s'. x = Some c \<and> allocated_from v sz s c s') (fs_error sz s)" (is "post _ s1 ?Q ?E")
proof -
  let ?g = "vol_geometry v" and ?m = "media (device s)"
  let ?m1 = "with_zero_cluster ?g c ?m"
  have c: "in_heap ?g c" using l by (simp add: cluster_lba_def split: if_splits)
  note z = zero_free_cluster [OF wf snd free]
  have fat: "post (bindM (set_fat D v c 0xFFFFFFFF) (\<lambda>_. returnM (Some c))) s3 ?Q ?E"
    if fr: "frame D media invar sz UNIV fs_same s s3" and ok: "io_ok D invar sz s3"
      and m: "media (device s3) = with_bitmap_bit v c True ?m1"
      and n: "new_free_count v True (free_clusters s) = Some (free_clusters s3)" for s3
    unfolding post_bindM
  proof (rule post_mono [OF post_set_fat [OF ok wf sz]], elim conjE)
    fix x s' assume "frame D media invar sz {l. fat_lba_for_byte ?g (fat_byte c) = Some l} io_same s3 s'"
      "io_ok D invar sz s'" "media (device s') = with_fat_link ?g c 0xFFFFFFFF (media (device s3))"
    then show "post (returnM (Some c)) s' ?Q ?E"
      using frame_fs_after_io [OF fr] frame_io_fs(2) [of sz _ s3 s'] m n c free
      by (simp add: allocated_from_def with_allocated_def)
  qed (use frame_fs_after_io [OF fr] in \<open>auto simp: fs_error_def\<close>)
  have bitmap: "post (bindM (set_bitmap D v c True) (\<lambda>_. bindM (set_fat D v c 0xFFFFFFFF) (\<lambda>_. returnM (Some c)))) s2 ?Q ?E"
    if fr: "frame D media invar sz UNIV fs_same s s2" and ok: "io_ok D invar sz s2"
      and m: "media (device s2) = ?m1" and n: "free_clusters s2 = free_clusters s" for s2
    unfolding post_bindM [of "set_bitmap D v c True"]
  proof (rule post_mono [OF post_set_bitmap [OF ok wf sz]])
    fix x s' assume b: "bit_written v c True sz s2 s'"
    have fr': "frame D media invar sz UNIV fs_same s s'"
      using b frame_trans [OF fr _ coarse_fs_same] by (simp add: bit_written_def)
    show "post (bindM (set_fat D v c 0xFFFFFFFF) (\<lambda>_. returnM (Some c))) s' ?Q ?E"
      by (rule fat [OF fr']) (use b m n z(1) free in \<open>auto simp: bit_written_def\<close>)
  next
    fix e :: "'e error exn" and s' assume "frame D media invar sz UNIV fs_same s2 s' \<and> (e = Error Corrupt \<or> is_device_error e)"
    then show "?E e s'" using frame_trans [OF fr _ coarse_fs_same] by (auto simp: fs_error_def)
  qed
  note fr1 = reading_fs_frame [OF r]
  show ?thesis
    unfolding post_bindM [of "each_m _ _"]
  proof (rule post_mono [OF post_zero_cluster [OF readingD(1) [OF r] l sz]], elim conjE)
    fix x s' assume "frame D media invar sz UNIV io_same s1 s'" "io_ok D invar sz s'"
      "media (device s') = with_zero_cluster ?g c (media (device s1))"
    then show "post (bindM (set_bitmap D v c True) (\<lambda>_. bindM (set_fat D v c 0xFFFFFFFF) (\<lambda>_. returnM (Some c)))) s' ?Q ?E"
      using frame_fs_after_io [OF fr1(1)] frame_io_fs(2) [of sz UNIV s1 s'] fr1(2) readingD(2) [OF r]
      by (intro bitmap) simp_all
  qed (use frame_fs_after_io [OF fr1(1)] in \<open>auto simp: fs_error_def\<close>)
qed

lemma post_claim_free_cluster:
  fixes s :: "('d, 'x) fs_scheme"
  assumes r: "reading sz s s1" and wf: "wf_geometry (vol_geometry v)" and sz: "sector_bytes v = sz"
    and snd: "bitmap_sound (media (device s)) v"
  shows "post (claim_free_cluster D v c) s1
    (\<lambda>x s'. case x of None \<Rightarrow> reading sz s s' \<and> bitmap_bit (media (device s)) v c = Some True
       | Some c' \<Rightarrow> c' = c \<and> allocated_from v sz s c s') (fs_error sz s)" (is "post _ s1 ?Q ?E")
  unfolding claim_free_cluster_def Let_def sz post_bindM [of "bitmap_used D v c"]
proof (rule post_mono [OF post_bitmap_used [OF r wf sz]])
  fix used s2 assume u: "reading sz s s2 \<and> bitmap_bit (media (device s)) v c = Some used"
  show "post (if \<not> used then bindM (ok_or (cluster_lba (vol_geometry v) c) Corrupt) (\<lambda>first.
      bindM (each_m [0..<unat (sectors_per_cluster (vol_geometry v))] (\<lambda>i. bindM (sector sz) (\<lambda>_.
      bindM (set_sector (replicate sz 0)) (\<lambda>_. write_sector D (first + of_usize i) sz)))) (\<lambda>_.
      bindM (set_bitmap D v c True) (\<lambda>_. bindM (set_fat D v c 0xFFFFFFFF) (\<lambda>_. returnM (Some c)))))
      else returnM None) s2 ?Q ?E"
  proof (cases used)
    case True
    then show ?thesis using u by simp
  next
    case False
    show ?thesis
    proof (cases "cluster_lba (vol_geometry v) c")
      case None
      then show ?thesis using False u by (auto simp: fs_error_def intro: reading_fs_frame(1))
    next
      case (Some l)
      have "post (bindM (each_m [0..<unat (sectors_per_cluster (vol_geometry v))] (\<lambda>i. bindM (sector sz) (\<lambda>_.
        bindM (set_sector (replicate sz 0)) (\<lambda>_. write_sector D (l + of_usize i) sz)))) (\<lambda>_.
        bindM (set_bitmap D v c True) (\<lambda>_. bindM (set_fat D v c 0xFFFFFFFF) (\<lambda>_. returnM (Some c))))) s2
        (\<lambda>x s'. x = Some c \<and> allocated_from v sz s c s') ?E"
        using u False by (intro post_claim_used [OF _ wf sz snd _ Some]) simp_all
      then have "post (bindM (each_m [0..<unat (sectors_per_cluster (vol_geometry v))] (\<lambda>i. bindM (sector sz) (\<lambda>_.
        bindM (set_sector (replicate sz 0)) (\<lambda>_. write_sector D (l + of_usize i) sz)))) (\<lambda>_.
        bindM (set_bitmap D v c True) (\<lambda>_. bindM (set_fat D v c 0xFFFFFFFF) (\<lambda>_. returnM (Some c))))) s2 ?Q ?E"
        by (rule post_mono) auto
      then show ?thesis unfolding Some bindM_simps using False by simp
    qed
  qed
next
  fix e :: "'e error exn" and s' assume "reading sz s s' \<and> (e = Error Corrupt \<and> bitmap_bit (media (device s)) v c = None \<or> is_device_error e)"
  then show "fs_error sz s e s'" by (auto simp: fs_error_def intro: reading_fs_frame(1))
qed

lemma post_try_clusters:
  fixes s :: "('d, 'x) fs_scheme"
  assumes r: "reading sz s s1" and wf: "wf_geometry (vol_geometry v)" and sz: "sector_bytes v = sz"
    and snd: "bitmap_sound (media (device s)) v"
  shows "post (try_clusters D v clusters) s1
    (\<lambda>x s'. case x of
        Inl _ \<Rightarrow> reading sz s s' \<and> (\<forall>c \<in> set clusters. bitmap_bit (media (device s)) v c = Some True)
      | Inr c \<Rightarrow> c \<in> set clusters \<and> allocated_from v sz s c s') (fs_error sz s)"
  unfolding try_clusters_def
proof (rule post_for_m [where I = "\<lambda>k _ s'. reading sz s s' \<and>
    (\<forall>c \<in> set (take k clusters). bitmap_bit (media (device s)) v c = Some True)"])
  fix k x s' assume k: "k < length clusters"
    and I: "reading sz s s' \<and> (\<forall>c \<in> set (take k clusters). bitmap_bit (media (device s)) v c = Some True)"
  show "post (bindM (claim_free_cluster D v (clusters ! k)) (\<lambda>r. case r of Some c \<Rightarrow> returnM (Inr c) | None \<Rightarrow> returnM (Inl ()))) s'
      (\<lambda>r s'. case r of Inl x' \<Rightarrow> reading sz s s' \<and>
           (\<forall>c \<in> set (take (Suc k) clusters). bitmap_bit (media (device s)) v c = Some True)
        | Inr y \<Rightarrow> (case Inr y of Inl _ \<Rightarrow> reading sz s s' \<and> (\<forall>c \<in> set clusters. bitmap_bit (media (device s)) v c = Some True)
          | Inr c \<Rightarrow> c \<in> set clusters \<and> allocated_from v sz s c s')) (fs_error sz s)"
    unfolding post_bindM
    by (rule post_mono [OF post_claim_free_cluster [OF conjunct1 [OF I] wf sz snd]])
      (use I k in \<open>auto simp: take_Suc_conv_app_nth split: option.splits\<close>)
qed (use r in auto)

text \<open>\<open>NoSpace\<close> means that no cluster was free, and then nothing was written.\<close>

definition allocate_error :: "Volume \<Rightarrow> nat \<Rightarrow> ('d, 'x) fs_scheme \<Rightarrow> 'e error exn \<Rightarrow> ('d, 'x) fs_scheme \<Rightarrow> bool" where
  "allocate_error v sz s e s' \<longleftrightarrow>
     fs_error sz s e s' \<or>
     e = Error NoSpace \<and> reading sz s s' \<and>
       (\<forall>c. in_heap (vol_geometry v) c \<longrightarrow> bitmap_bit (media (device s)) v c = Some True)"

lemma post_allocate_cluster_preferred:
  fixes s :: "('d, 'x) fs_scheme"
  assumes r: "reading sz s s1" and wf: "wf_geometry (vol_geometry v)" and sz: "sector_bytes v = sz"
    and snd: "bitmap_sound (media (device s)) v"
  shows "post (allocate_cluster_preferred D v preferred) s1 (allocated_from v sz s) (allocate_error v sz s)"
    (is "post _ s1 ?Q ?E")
proof (cases "checked_add (cluster_count (vol_geometry v)) 2")
  case None
  have "fs_error sz s (Error Corrupt) s1" using reading_fs_frame(1) [OF r] by (simp add: fs_error_def)
  then show ?thesis by (simp add: allocate_cluster_preferred_def None allocate_error_def)
next
  case (Some end_cluster)
  define first where "first = (if 2 \<le> preferred \<and> preferred < end_cluster then preferred else 2)"
  have cover: "in_heap (vol_geometry v) c \<Longrightarrow> c \<in> set (cluster_range first end_cluster) \<or> c \<in> set (cluster_range 2 first)" for c
    using Some by (auto simp: set_cluster_range in_heap_def saturating_add_def checked_add_def not_le split: if_splits)
  have err: "fs_error sz s e s' \<Longrightarrow> ?E e s'" for e s' by (simp add: allocate_error_def)
  have second: "post (bindM (try_clusters D v (cluster_range 2 first)) (\<lambda>r. case r of Inr c \<Rightarrow> returnM c | Inl _ \<Rightarrow> fail NoSpace)) s2 ?Q ?E"
    if r2: "reading sz s s2" and used: "\<forall>c \<in> set (cluster_range first end_cluster). bitmap_bit (media (device s)) v c = Some True" for s2
    unfolding post_bindM
    by (rule post_mono [OF post_try_clusters [OF r2 wf sz snd]])
      (use used cover err in \<open>auto simp: allocate_error_def split: sum.splits\<close>)
  have eq: "allocate_cluster_preferred D v preferred =
      bindM (try_clusters D v (cluster_range first end_cluster)) (\<lambda>r. case r of Inr c \<Rightarrow> returnM c
      | Inl _ \<Rightarrow> bindM (try_clusters D v (cluster_range 2 first)) (\<lambda>r. case r of Inr c \<Rightarrow> returnM c | Inl _ \<Rightarrow> fail NoSpace))"
    unfolding allocate_cluster_preferred_def Some bindM_simps Let_def first_def ..
  show ?thesis
    unfolding eq post_bindM [of "try_clusters D v (cluster_range first end_cluster)"]
    by (rule post_mono [OF post_try_clusters [OF r wf sz snd]])
      (use second err in \<open>auto split: sum.splits simp del: post_bindM\<close>)
qed

lemma post_refresh_sector:
  fixes s :: "('d, 'x) fs_scheme"
  assumes wf: "wf_geometry (vol_geometry v)" and sz: "sector_bytes v = sz"
    and big: "unat (cluster_count (vol_geometry v)) + 2 \<le> 2 ^ 32" and ok: "bitmap_ok (media (device s)) v"
    and c: "counted (media (device s)) v (byte, remaining, used)" and more: "remaining \<noteq> 0"
    and r: "reading sz s s2" and a: "bitmap_addr (media (device s)) v byte = Some (lba, off)"
  shows "post (refresh_sector D v (byte, remaining, used) (lba, off)) s2
    (\<lambda>x s'. \<exists>st'. x = Inl st' \<and> reading sz s s' \<and> counted (media (device s)) v st' \<and>
       unat (fst (snd st')) < unat remaining)
    (\<lambda>e s'. frame D media invar sz {} fs_same s s' \<and> is_device_error e)" (is "post _ s2 ?R ?E")
proof -
  let ?m = "media (device s)" and ?g = "vol_geometry v"
  let ?cb = "ucast (bytes_per_cluster ?g) :: u64"
  define cb where "cb = unat (bytes_per_cluster ?g)"
  define n where "n = min (min (sz - off) (cb - unat byte mod cb)) (unat (ab_byte_length (vol_bitmap v)) - unat byte)"
  have len: "length (?m l) = sector_bytes v" for l
    using r media_length sz by (auto simp: reading_def io_ok_def)
  have dev: "reading sz s s' \<Longrightarrow> is_device_error e \<Longrightarrow> ?E e s'" for e s' by (simp add: reading_fs_frame(1))
  have nz: "?cb \<noteq> 0" using sector_size_facts(4) [OF wf] by (auto simp: unat_gt_0 [symmetric] simp del: unat_gt_0)
  have lt: "byte < ab_byte_length (vol_bitmap v)" using a by (auto simp: bitmap_addr_def Let_def split: if_splits)
  then have le2: "byte \<le> ab_byte_length (vol_bitmap v)" by simp
  then have left: "checked_sub (ab_byte_length (vol_bitmap v)) byte = Some (ab_byte_length (vol_bitmap v) - byte)"
    by (simp add: checked_sub_def)
  have szb: "sz \<le> 4096" "0 < cb" using sector_size_facts(4,6) [OF wf] sz by (simp_all add: cb_def)
  have le1: "byte mod ?cb \<le> ?cb" using szb(2) by (simp add: word_le_nat_alt unat_mod cb_def less_imp_le)
  have bytes: "unat (min (min (of_usize (sz - off)) (?cb - byte mod ?cb)) (ab_byte_length (vol_bitmap v) - byte)) = n"
    using szb unat_sub [OF le1] unat_sub [OF le2]
    by (simp add: n_def min_def word_le_nat_alt unat_of_usize unat_mod cb_def)
  note next_st = counted_next [OF wf len big ok c more a, where n = n and 'f = 'e]
  have nx: "0 < n" "\<exists>remaining' used'. (count_used (slice off (off + n) (?m lba)) (remaining, used) :: 'e error + u32 \<times> u32)
      = Inr (remaining', used') \<and> checked_add byte (of_usize n) = Some (byte + of_usize n) \<and>
      counted ?m v (byte + of_usize n, remaining', used') \<and> unat remaining' < unat remaining"
    using next_st sz by (simp_all add: n_def cb_def)
  obtain remaining' used' where nx': "(count_used (slice off (off + n) (?m lba)) (remaining, used) :: 'e error + u32 \<times> u32)
      = Inr (remaining', used')" "checked_add byte (of_usize n) = Some (byte + of_usize n)"
      "counted ?m v (byte + of_usize n, remaining', used')" "unat remaining' < unat remaining" using nx(2) by blast
  have "off + n \<le> sz" using bitmap_addr_bounds(2) [OF wf a] sz by (simp add: n_def)
  then have "post (bindM (read_sector D lba sz) (\<lambda>_. bindM (sector_slice sz off (off + n)) (\<lambda>vals.
      bindM (from_result (count_used vals (remaining, used))) (\<lambda>(remaining', used').
      bindM (ok_or (checked_add byte (of_usize n)) Corrupt) (\<lambda>byte'. returnM (Inl (byte', remaining', used'))))))) s2 ?R ?E"
    by (intro post_load_slice [OF r]) (simp_all add: nx' dev)
  then show ?thesis using nz nx(1) by (simp add: refresh_sector_def sz left bytes Let_def)
qed

lemma post_refresh_free_clusters:
  fixes s :: "('d, 'x) fs_scheme"
  assumes r: "reading sz s s1" and wf: "wf_geometry (vol_geometry v)" and sz: "sector_bytes v = sz"
    and big: "unat (cluster_count (vol_geometry v)) + 2 \<le> 2 ^ 32" and ok: "bitmap_ok (media (device s)) v"
  shows "post (refresh_free_clusters D v) s1
    (\<lambda>_ s'. frame D media invar sz {} fs_same s s' \<and>
       (\<exists>n. free_clusters s' = Some n \<and> unat n = card (free_set (media (device s)) v)))
    (\<lambda>e s'. frame D media invar sz {} fs_same s s' \<and> is_device_error e)" (is "post _ s1 ?Q ?E")
proof -
  let ?m = "media (device s)" and ?g = "vol_geometry v"
  have round: "post (refresh_round D v st) s'
      (\<lambda>x s''. case x of Inl st' \<Rightarrow> (reading sz s s'' \<and> counted ?m v st') \<and> unat (fst (snd st')) < unat (fst (snd st))
         | Inr used \<Rightarrow> reading sz s s'' \<and> unat used = ones (used_bits ?m v)) ?E" (is "post _ s' ?R ?E")
    if I: "reading sz s s' \<and> counted ?m v st" for st s'
  proof -
    obtain byte remaining used where st: "st = (byte, remaining, used)" by (cases st)
    have r': "reading sz s s'" and c: "counted ?m v (byte, remaining, used)" using I st by auto
    show ?thesis
    proof (cases "remaining = 0")
      case True
      then have "take (8 * unat byte) (used_bits ?m v) = used_bits ?m v" using c by (simp add: counted_def used_bits_def)
      then show ?thesis using True c r' by (simp add: refresh_round_def st counted_def)
    next
      case False
      have "8 * unat byte < unat (cluster_count ?g)" using c False by (auto simp: counted_def unat_gt_0 [symmetric] simp del: unat_gt_0)
      then have "byte < ab_byte_length (vol_bitmap v)" using ok by (simp add: bitmap_ok_def word_less_nat_alt)
      then have some: "bitmap_addr ?m v byte \<noteq> None" using ok unfolding bitmap_ok_def by blast
      have go: "post (refresh_sector D v st p) s2 ?R ?E" if "reading sz s s2 \<and> bitmap_addr ?m v byte = Some p" for p s2
      proof -
        obtain lba off where p: "p = (lba, off)" by (cases p)
        show ?thesis unfolding st p
          by (rule post_mono [OF post_refresh_sector [OF wf sz big ok c False]]) (use that p st in auto)
      qed
      have err: "?E e s2" if "reading sz s s2 \<and> (e = Error Corrupt \<and> bitmap_addr ?m v byte = None \<or> is_device_error e)" for e s2
        using that some reading_fs_frame(1) by blast
      show ?thesis
        unfolding refresh_round_def st prod.case if_not_P [OF False] post_bindM
        by (rule post_mono [OF post_bitmap_location [OF r' wf sz, of byte]]) (use go [unfolded st] err in blast)+
    qed
  qed
  have loop: "post (loop_m (Suc (unat (cluster_count ?g))) Diverge (refresh_round D v) (0, cluster_count ?g, 0)) s1
      (\<lambda>used s'. reading sz s s' \<and> unat used = ones (used_bits ?m v)) ?E"
    by (rule post_loop_m [where I = "\<lambda>st s'. reading sz s s' \<and> counted ?m v st" and \<mu> = "\<lambda>st _. unat (fst (snd st))"])
      (use round r in \<open>auto simp: counted_def\<close>)
  have fin: "post (bindM (ok_or (checked_sub (cluster_count ?g) used) Corrupt) (\<lambda>n. set_free_clusters (Some n))) s' ?Q ?E"
    if "reading sz s s' \<and> unat used = ones (used_bits ?m v)" for used s'
  proof -
    have "ones (used_bits ?m v) \<le> unat (cluster_count ?g)" using ones_le [of "used_bits ?m v"] by (simp add: used_bits_def)
    then have "checked_sub (cluster_count ?g) used = Some (cluster_count ?g - used)" and "used \<le> cluster_count ?g"
      using that by (simp_all add: checked_sub_def word_le_nat_alt)
    moreover from this have "unat (cluster_count ?g - used) = card (free_set ?m v)"
      using that unat_sub [of used "cluster_count ?g"] by (simp add: card_free_set [OF big ok])
    ultimately show ?thesis
      using reading_fs_frame [of sz s s'] that by (auto simp: frame_def fs_same_def)
  qed
  show ?thesis
    unfolding refresh_free_clusters_def post_bindM [of "loop_m _ _ _ _"]
    by (rule post_mono [OF loop]) (use fin in blast)+
qed

end

section \<open>Every operation returns\<close>

lemma count_used_mono: "count_used vals (r, u) = (Inr (r', u') :: 'e error + _) \<Longrightarrow> unat r' \<le> unat r"
proof (induction vals arbitrary: r u)
  case (Cons b vals)
  then obtain w where "count_used vals (r - min r 8, w) = (Inr (r', u') :: 'e error + _) \<or> r' = r"
    by (auto simp: Let_def split: if_splits option.splits)
  moreover have "unat (r - min r 8) \<le> unat r" by (simp add: unat_sub)
  ultimately show ?case using Cons.IH by fastforce
qed simp

lemma count_used_decreases:
  assumes run: "count_used vals (remaining, used) = (Inr (remaining', used') :: 'e error + _)"
    and vals: "vals \<noteq> []" and rem: "remaining \<noteq> 0"
  shows "unat remaining' < unat remaining"
proof -
  obtain b bs where vs: "vals = b # bs" using vals by (cases vals) auto
  have "\<exists>u. count_used bs (remaining - min remaining 8, u) = (Inr (remaining', used') :: 'e error + _)"
    using run rem unfolding vs by (auto simp: Let_def split: option.splits)
  then obtain u where "count_used bs (remaining - min remaining 8, u) = (Inr (remaining', used') :: 'e error + _)" ..
  then have "unat remaining' \<le> unat (remaining - min remaining 8)" by (rule count_used_mono)
  also have "\<dots> < unat remaining"
  proof -
    have "min remaining 8 \<le> remaining" by (rule min.cobounded1)
    moreover have "0 < unat (min remaining 8)" using rem by (auto simp: min_def unat_gt_0)
    ultimately show ?thesis using unat_sub [of "min remaining 8" remaining] rem by (simp add: unat_gt_0)
  qed
  finally show ?thesis .
qed

lemma returns_allocation [returns_intro]:
  "returns (next_cluster D v c)" "returns (set_fat D v c val)" "returns (cluster_at D v first index)"
  "returns (bitmap_location D v byte)" "returns (bitmap_used D v c)" "returns (update_bitmap_bit D v used bt p)"
  "returns (set_bitmap D v c used)" "returns (claim_free_cluster D v c)" "returns (try_clusters D v cs)"
  "returns (allocate_cluster_preferred D v c)" "returns (allocate_cluster D v)"
proof -
  show nc: "returns (next_cluster D v c)" for c unfolding next_cluster_def Let_def by (intro returns_intro)
  show sf: "returns (set_fat D v c val)" for c val unfolding set_fat_def Let_def by (intro returns_intro)
  show ca: "returns (cluster_at D v first index)" for first index
    unfolding cluster_at_def by (intro returns_intro nc)
  show bl: "returns (bitmap_location D v byte)" for byte
    unfolding bitmap_location_def Let_def by (intro returns_intro ca)
  show bu: "returns (bitmap_used D v c)" for c unfolding bitmap_used_def Let_def by (intro returns_intro bl)
  show ub: "returns (update_bitmap_bit D v used bt p)" for used bt p
    unfolding update_bitmap_bit_def Let_def by (intro returns_intro)
  show sb: "returns (set_bitmap D v c used)" for c used unfolding set_bitmap_def by (intro returns_intro bl ub)
  show cf: "returns (claim_free_cluster D v c)" for c
    unfolding claim_free_cluster_def Let_def by (intro returns_intro bu sb sf)
  show tc: "returns (try_clusters D v cs)" for cs unfolding try_clusters_def by (intro returns_intro cf)
  show ap: "returns (allocate_cluster_preferred D v c)" for c
    unfolding allocate_cluster_preferred_def Let_def by (intro returns_intro tc)
  show "returns (allocate_cluster D v)" unfolding allocate_cluster_def by (rule ap)
qed

lemma returns_refresh [returns_intro]:
  "returns (refresh_free_clusters D v)" "returns (free_space_bytes D v)" "returns (refresh_free_space D v)"
proof -
  have sec: "returns (refresh_sector D v st p)" for st p
    unfolding refresh_sector_def Let_def by (intro returns_intro)
  have round: "returns (refresh_round D v st)" for st
    unfolding refresh_round_def by (intro returns_intro sec)
  have dec: "post (refresh_sector D v (byte, remaining, used) p) s
      (\<lambda>x _. \<forall>st'. x = Inl st' \<longrightarrow> unat (fst (snd st')) < unat remaining) (\<lambda>_ _. True)"
    if "remaining \<noteq> 0" for byte remaining used p s
    unfolding refresh_sector_def Let_def
    by (cases p, simp only: prod.case post_bindM [of "read_sector _ _ _"], rule post_mono [OF post_True])
      (use that in \<open>auto split: option.splits sum.splits dest!: count_used_decreases simp: slice_def\<close>)
  have "returns (loop_m (Suc (unat (cluster_count (vol_geometry v)))) Diverge (refresh_round D v) (0, cluster_count (vol_geometry v), 0))"
  proof (rule returns_loop_m [where \<mu> = "\<lambda>st. unat (fst (snd st))"])
    fix st s st' s'
    assume run: "refresh_round D v st s = (Inr (Inl st'), s')"
    obtain byte remaining used where st: "st = (byte, remaining, used)" by (cases st)
    have "post (refresh_round D v st) s (\<lambda>x _. \<forall>st'. x = Inl st' \<longrightarrow> unat (fst (snd st')) < unat remaining) (\<lambda>_ _. True)"
    proof (cases "remaining = 0")
      case False
      then show ?thesis
        unfolding refresh_round_def st prod.case if_not_P [OF False] post_bindM
        by (intro post_mono [OF post_True dec]) simp_all
    qed (simp add: refresh_round_def st)
    with run show "unat (fst (snd st')) < unat (fst (snd st))" by (cases st') (auto simp: st post_def)
  qed (simp_all add: round)
  then show r: "returns (refresh_free_clusters D v)"
    unfolding refresh_free_clusters_def by (intro returns_intro)
  show f: "returns (free_space_bytes D v)" unfolding free_space_bytes_def by (intro returns_intro r)
  show "returns (refresh_free_space D v)" unfolding refresh_free_space_def by (intro returns_intro r f)
qed

section \<open>No operation touches the environment\<close>

lemma quiet_fat: 
  "steps io_same (next_cluster D v c)" "steps io_same (set_fat D v c val)" "steps io_same (cluster_at D v first index)"
  "steps io_same (bitmap_location D v byte)" "steps io_same (bitmap_used D v c)"
proof -
  show nc: "steps io_same (next_cluster D v c)" for c unfolding next_cluster_def Let_def by (intro quiet_intro)
  show "steps io_same (set_fat D v c val)" unfolding set_fat_def Let_def by (intro quiet_intro)
  show ca: "steps io_same (cluster_at D v first index)" for first index
    unfolding cluster_at_def by (intro quiet_intro nc)
  show bl: "steps io_same (bitmap_location D v byte)" for byte
    unfolding bitmap_location_def Let_def by (intro quiet_intro ca)
  show "steps io_same (bitmap_used D v c)" unfolding bitmap_used_def Let_def by (intro quiet_intro bl)
qed

lemma quiet_alloc:
  "steps fs_same (set_bitmap D v c used)" "steps fs_same (claim_free_cluster D v c)"
  "steps fs_same (allocate_cluster_preferred D v c)" "steps fs_same (allocate_cluster D v)"
proof -
  show sb: "steps fs_same (set_bitmap D v c used)" for c used
    unfolding set_bitmap_def update_bitmap_bit_def Let_def by (intro quiet_intro quiet_fat [THEN fs_quiet])
  show cf: "steps fs_same (claim_free_cluster D v c)" for c
    unfolding claim_free_cluster_def Let_def by (intro quiet_intro quiet_fat [THEN fs_quiet] sb)
  show ap: "steps fs_same (allocate_cluster_preferred D v c)" for c
    unfolding allocate_cluster_preferred_def try_clusters_def Let_def by (intro quiet_intro cf)
  show "steps fs_same (allocate_cluster D v)" unfolding allocate_cluster_def by (rule ap)
qed

end
