(* ===== verification/Allocation_Correct.thy ===== *)
theory Allocation_Correct
  imports Allocation
begin

text \<open>
  What the allocator promises, stated on states alone: allocation takes a free cluster, zeroes it,
  links it as the end of a chain and touches nothing else that is in use; the cached count of free
  clusters stays the number of clear bits of the bitmap. The premises are the device contract and a
  sound bitmap (long enough, its own clusters marked used), which every operation keeps.
\<close>

section \<open>The cached count\<close>

text \<open>The cached count of free clusters, when there is one, is the number of clear bits.\<close>

definition count_ok :: "('d \<Rightarrow> medium) \<Rightarrow> Volume \<Rightarrow> ('d, 'x) fs_scheme \<Rightarrow> bool" where
  "count_ok media v s \<longleftrightarrow>
     (\<forall>n. free_clusters s = Some n \<longrightarrow> unat n = card (free_set (media (device s)) v))"

lemma free_set_with:
  assumes "\<And>c'. bitmap_bit m' v c' = (if c' = c then Some used else bitmap_bit m v c')"
    and "2 \<le> unat c" "unat c < unat (cluster_count (vol_geometry v)) + 2"
  shows "free_set m' v = (if used then free_set m v - {c} else insert c (free_set m v))"
  using assms by (auto simp: free_set_def)

lemma free_set_count:
  assumes "unat (cluster_count (vol_geometry v)) + 2 \<le> 2 ^ 32" "bitmap_ok m v"
  shows "card (free_set m v) \<le> unat (cluster_count (vol_geometry v))"
  by (simp add: card_free_set [OF assms])

lemma new_free_count_card:
  assumes upd: "\<And>c'. bitmap_bit m' v c' = (if c' = c then Some used else bitmap_bit m v c')"
    and c: "2 \<le> unat c" "unat c < unat (cluster_count (vol_geometry v)) + 2"
    and old: "bitmap_bit m v c = Some (\<not> used)"
    and cnt: "new_free_count v used (Some n) = Some (Some n')" and n: "unat n = card (free_set m v)"
  shows "unat n' = card (free_set m' v)"
proof (cases used)
  case True
  then have "c \<in> free_set m v" using old c by (simp add: free_set_def)
  then have "card (free_set m' v) = card (free_set m v) - 1"
    using True by (simp add: free_set_with [OF upd c])
  moreover have "n' = n - 1" "1 \<le> n" using cnt True by (auto simp: new_free_count_def checked_sub_def split: if_splits)
  ultimately show ?thesis using n by (simp add: unat_sub)
next
  case False
  then have "c \<notin> free_set m v" using old by (simp add: free_set_def)
  then have "card (free_set m' v) = Suc (card (free_set m v))"
    using False by (simp add: free_set_with [OF upd c])
  moreover have "n' = n + 1" "unat n + 1 < 2 ^ 32"
    using cnt False by (auto simp: new_free_count_def checked_add_def split: if_splits option.splits)
  ultimately show ?thesis using n by (simp add: unat_add_small)
qed

text \<open>A bit that \<open>position_for\<close> finds beyond the last cluster is not counted.\<close>

lemma new_free_count_None: "new_free_count v used None = Some None"
  by (simp add: new_free_count_def)

lemma new_free_count_Some: "new_free_count v used (Some n) = Some x \<Longrightarrow> \<exists>n'. x = Some n'"
  by (auto simp: new_free_count_def split: if_splits option.splits) (metis option.exhaust)

lemma count_ok_update:
  assumes upd: "\<And>c'. bitmap_bit (media (device s')) v c' = (if c' = c then Some used else bitmap_bit (media (device s)) v c')"
    and c: "in_heap (vol_geometry v) c" and old: "bitmap_bit (media (device s)) v c = Some (\<not> used)"
    and cnt: "new_free_count v used (free_clusters s) = Some (free_clusters s')" and ok: "count_ok media v s"
  shows "count_ok media v s'"
proof (cases "free_clusters s")
  case None
  then show ?thesis using cnt by (simp add: count_ok_def new_free_count_None)
next
  case (Some n)
  then obtain n' where n': "free_clusters s' = Some n'" "new_free_count v used (Some n) = Some (Some n')"
    using cnt new_free_count_Some by fastforce
  have "unat n' = card (free_set (media (device s')) v)"
    by (rule new_free_count_card [OF upd _ _ old n'(2)]) (use in_heapD [OF c] ok Some in \<open>simp_all add: count_ok_def\<close>)
  then show ?thesis using n'(1) by (simp add: count_ok_def)
qed

section \<open>A small volume\<close>

text \<open>A bitmap that fits in one cluster is sound when its own bit is set.\<close>

lemma bitmap_sound_single:
  assumes wf: "wf_geometry (vol_geometry v)"
    and first: "in_heap (vol_geometry v) (ab_first_cluster (vol_bitmap v))"
    and enough: "unat (cluster_count (vol_geometry v)) \<le> 8 * unat (ab_byte_length (vol_bitmap v))"
    and one: "unat (ab_byte_length (vol_bitmap v)) \<le> unat (bytes_per_cluster (vol_geometry v))"
    and own: "bitmap_bit m v (ab_first_cluster (vol_bitmap v)) = Some True"
  shows "bitmap_sound m v"
proof -
  let ?g = "vol_geometry v" and ?b = "vol_bitmap v"
  have cb: "0 < unat (bytes_per_cluster ?g)" by (rule sector_size_facts(4) [OF wf])
  have zero: "n = 0" if n: "n * unat (bytes_per_cluster ?g) < unat (ab_byte_length ?b)" for n
  proof (rule ccontr)
    assume "n \<noteq> 0"
    then have "unat (bytes_per_cluster ?g) \<le> n * unat (bytes_per_cluster ?g)" by simp
    then show False using n one by linarith
  qed
  obtain l where l: "cluster_lba ?g (ab_first_cluster ?b) = Some l"
    using first by (auto simp: cluster_lba_def)
  have addr: "bitmap_addr m v byte \<noteq> None" if "byte < ab_byte_length ?b" for byte
  proof -
    have "unat byte < unat (bytes_per_cluster ?g)" using that one by (simp add: word_less_nat_alt)
    then show ?thesis
      using that l wf by (simp add: bitmap_addr_def Let_def chain_at_def wf_geometry_def not_le)
  qed
  have "inj_on (\<lambda>n. walk m ?g (ab_first_cluster ?b) n) {n. n * unat (bytes_per_cluster ?g) < unat (ab_byte_length ?b)}"
    by (auto simp: inj_on_def dest!: zero)
  moreover have "d = ab_first_cluster ?b" if "bitmap_cluster m v d" for d
    using that by (auto simp: bitmap_cluster_def dest!: zero)
  ultimately show ?thesis
    using first enough addr own by (auto simp: bitmap_sound_def bitmap_ok_def)
qed

text \<open>
  The geometry of the crate's own test, with the bitmap in cluster 2; on the card everything is zero
  but the first bit of the bitmap, and the device is the plain array of \<open>Mem_Device\<close>.
\<close>

definition test_volume :: Volume where
  "test_volume = \<lparr>vol_geometry = test_geometry, vol_bitmap = \<lparr>ab_first_cluster = 2, ab_byte_length = 125\<rparr>,
     vol_upcase = \<lparr>ut_checksum = 0, ut_first_cluster = 3, ut_byte_length = 0\<rparr>, vol_upcase_valid = False,
     vol_label = empty_label\<rparr>"

definition test_card :: "(u8 list list) fs" where
  "test_card = \<lparr>device = (replicate 1100 (replicate 512 0))[41 := 1 # replicate 511 0],
     scratch = replicate 512 0, free_clusters = None\<rparr>"

lemma test_volume_simps [simp]:
  "vol_geometry test_volume = test_geometry" "bytes_per_sector test_geometry = 512"
  "vol_bitmap test_volume = \<lparr>ab_first_cluster = 2, ab_byte_length = 125\<rparr>"
  by (simp_all add: test_volume_def test_geometry_def)

lemma test_card_ok: "io_ok mem_ops mem_ok 512 test_card"
proof -
  have "mem_ok (replicate 1100 (replicate 512 0))" by (simp add: mem_ok_def)
  then have "mem_ok (device test_card)" by (simp add: test_card_def mem_ok_update)
  then show ?thesis by (simp add: io_ok_def test_card_def)
qed

lemma test_card_sound: "bitmap_sound (mem_media (device test_card)) test_volume"
proof (rule bitmap_sound_single)
  show "wf_geometry (vol_geometry test_volume)" using wf_test_geometry by simp
  show "bitmap_bit (mem_media (device test_card)) test_volume (ab_first_cluster (vol_bitmap test_volume)) = Some True"
    by (simp add: bitmap_bit_def position_for_def checked_sub_def bitmap_addr_def Let_def chain_at_def test_geometry_def
        cluster_lba_def in_heap_def saturating_add_def bytes_per_cluster_def mem_media_def test_card_def of_usize_def)
qed (simp_all add: test_geometry_def in_heap_def saturating_add_def bytes_per_cluster_def)

section \<open>Properties\<close>

text \<open>
  C6: Allocating a cluster is correct on any medium with a sound bitmap and any lawful device,
  whatever cluster is preferred. On success the cluster returned was free; it is now marked used and
  no other bit of the bitmap changed, the bitmap is sound again, its FAT entry ends a chain and the
  other FAT entries are as before, its sectors are zero, no sector of another cluster outside the
  bitmap changed, and the cached free count is right if it was. An error other than a device error
  is \<open>Corrupt\<close> or \<open>NoSpace\<close>, and \<open>NoSpace\<close> means that no cluster was free and that the medium is
  unchanged.
\<close>

theorem allocate_cluster_correct:
  fixes D :: "('d, 'e) device_ops" and s :: "('d, 'x) fs_scheme"
  assumes "lawful_device D media invar" "io_ok D invar (sector_bytes v) s" "wf_geometry (vol_geometry v)"
    and "bitmap_sound (media (device s)) v"
  shows "case allocate_cluster_preferred D v preferred s of
      (Inr c, s') \<Rightarrow>
        in_heap (vol_geometry v) c \<and> bitmap_bit (media (device s)) v c = Some False \<and>
        (\<forall>c'. bitmap_bit (media (device s')) v c' = (if c' = c then Some True else bitmap_bit (media (device s)) v c')) \<and>
        bitmap_sound (media (device s')) v \<and>
        fat_link (media (device s')) (vol_geometry v) c = Some 0xFFFFFFFF \<and>
        (\<forall>d. unat d < unat (cluster_count (vol_geometry v)) + 2 \<and> d \<noteq> c \<longrightarrow>
           fat_link (media (device s')) (vol_geometry v) d = fat_link (media (device s)) (vol_geometry v) d) \<and>
        (\<forall>l \<in> cluster_sectors (vol_geometry v) c. media (device s') l = replicate (sector_bytes v) 0) \<and>
        (\<forall>d. d \<noteq> c \<and> \<not> bitmap_cluster (media (device s)) v d \<longrightarrow>
           (\<forall>l \<in> cluster_sectors (vol_geometry v) d. media (device s') l = media (device s) l)) \<and>
        (count_ok media v s \<longrightarrow> count_ok media v s')
    | (Inl e, s') \<Rightarrow>
        e = Error NoSpace \<and> media (device s') = media (device s) \<and>
          (\<forall>c. in_heap (vol_geometry v) c \<longrightarrow> bitmap_bit (media (device s)) v c = Some True) \<or>
        e = Error Corrupt \<or> is_device_error e"
proof -
  let ?m = "media (device s)"
  note L = assms(1)
  note run = lawful_device.post_allocate_cluster_preferred [OF L lawful_device.reading_refl [OF L assms(2)] assms(3) refl assms(4)]
  have len: "length (?m l) = sector_bytes v" for l
    using lawful_device.media_length [OF L] assms(2) by (simp add: io_ok_def)
  obtain r s' where m: "allocate_cluster_preferred D v preferred s = (r, s')" by fastforce
  show ?thesis
  proof (cases r)
    case (Inl e)
    then show ?thesis
      using post_InlD [OF run, of preferred e s'] m
      by (auto simp: lawful_device.allocate_error_def [OF L] lawful_device.fs_error_def [OF L]
          dest: lawful_device.readingD(2) [OF L])
  next
    case (Inr c)
    then have a: "in_heap (vol_geometry v) c" "bitmap_bit ?m v c = Some False"
      "media (device s') = with_allocated v c ?m" "new_free_count v True (free_clusters s) = Some (free_clusters s')"
      using post_InrD [OF run, of preferred c s'] m by (simp_all add: lawful_device.allocated_from_def [OF L])
    note eff = with_allocated_effect [OF assms(3) len assms(4) a(2,1)]
    have "count_ok media v s \<Longrightarrow> count_ok media v s'"
      by (rule count_ok_update [OF _ a(1) _ a(4)]) (use eff(1) a(2,3) in simp_all)
    then show ?thesis using m Inr a eff by simp
  qed
qed

theorem allocate_cluster_correct_witness:
  "case allocate_cluster_preferred mem_ops test_volume 7 test_card of
      (Inr c, s') \<Rightarrow> bitmap_bit (mem_media (device s')) test_volume c = Some True \<and> count_ok mem_media test_volume s'
    | (Inl e, s') \<Rightarrow> e = Error NoSpace \<or> e = Error Corrupt \<or> is_device_error e"
proof -
  have "count_ok mem_media test_volume test_card" by (simp add: count_ok_def test_card_def)
  then show ?thesis
    using allocate_cluster_correct [OF mem.lawful_device_axioms, of test_volume test_card 7]
      test_card_ok test_card_sound wf_test_geometry
    by (auto split: prod.splits sum.splits)
qed

text \<open>
  C13: Setting or clearing a bit of the allocation bitmap, on any medium whose bitmap is usable: on
  success exactly this bit of the bitmap has the new value, the bitmap is usable again, the whole FAT
  is as before, and the cached free count is right if it was and the bit belongs to a cluster. An
  error is \<open>Corrupt\<close> or comes from the device.
\<close>

theorem set_bitmap_correct:
  fixes D :: "('d, 'e) device_ops" and s :: "('d, 'x) fs_scheme"
  assumes "lawful_device D media invar" "io_ok D invar (sector_bytes v) s" "wf_geometry (vol_geometry v)"
    and "bitmap_ok (media (device s)) v"
  shows "case set_bitmap D v c used s of
      (Inr _, s') \<Rightarrow>
        (\<forall>c'. bitmap_bit (media (device s')) v c' = (if c' = c then Some used else bitmap_bit (media (device s)) v c')) \<and>
        bitmap_ok (media (device s')) v \<and>
        fat_agree (vol_geometry v) (media (device s)) (media (device s')) \<and>
        (in_heap (vol_geometry v) c \<and> count_ok media v s \<longrightarrow> count_ok media v s')
    | (Inl e, s') \<Rightarrow> e = Error Corrupt \<or> is_device_error e"
proof -
  let ?m = "media (device s)"
  note L = assms(1)
  note run = lawful_device.post_set_bitmap [OF L assms(2,3) refl]
  have len: "length (?m l) = sector_bytes v" for l
    using lawful_device.media_length [OF L] assms(2) by (simp add: io_ok_def)
  obtain r s' where m: "set_bitmap D v c used s = (r, s')" by fastforce
  show ?thesis
  proof (cases r)
    case (Inl e)
    then show ?thesis using post_InlD [OF run, of c used e s'] m by simp
  next
    case (Inr u)
    then obtain old where a: "media (device s') = with_bitmap_bit v c used ?m" "bitmap_bit ?m v c = Some old"
      "if old = used then free_clusters s' = free_clusters s else new_free_count v used (free_clusters s) = Some (free_clusters s')"
      using post_InrD [OF run, of c used u s'] m by (auto simp: lawful_device.bit_written_def [OF L])
    note eff = bitmap_bit_with [OF assms(3) len assms(4) a(2)]
    have "count_ok media v s'" if "in_heap (vol_geometry v) c" "count_ok media v s"
    proof (cases "old = used")
      case True
      then have "free_set (media (device s')) v = free_set ?m v" using eff(1) a(1,2) by (auto simp: free_set_def)
      then show ?thesis using that(2) a(3) True by (simp add: count_ok_def)
    next
      case False
      show ?thesis
        by (rule count_ok_update [OF _ that(1) _ _ that(2)]) (use eff(1) a False in auto)
    qed
    then show ?thesis using m Inr a(1) eff by simp
  qed
qed

theorem set_bitmap_correct_witness:
  "case set_bitmap mem_ops test_volume 9 True test_card of
      (Inr _, s') \<Rightarrow> bitmap_bit (mem_media (device s')) test_volume 9 = Some True
    | (Inl e, s') \<Rightarrow> e = Error Corrupt \<or> is_device_error e"
  using set_bitmap_correct [OF mem.lawful_device_axioms, of test_volume test_card 9 True]
    test_card_ok test_card_sound wf_test_geometry
  by (auto simp: bitmap_sound_def split: prod.splits sum.splits)

text \<open>
  C18: Writing a FAT entry: on success reading it back gives the value, every other FAT entry of an
  admissible cluster number and every sector outside the FAT are unchanged, and \<open>next_cluster\<close> then
  returns the value unless the device fails. No other error can occur.
\<close>

theorem set_fat_correct:
  fixes D :: "('d, 'e) device_ops" and s :: "('d, 'x) fs_scheme"
  assumes "lawful_device D media invar" "io_ok D invar (sector_bytes v) s" "wf_geometry (vol_geometry v)"
    and "unat c < unat (cluster_count (vol_geometry v)) + 2"
  shows "case set_fat D v c val s of
      (Inr _, s') \<Rightarrow>
        fat_link (media (device s')) (vol_geometry v) c = Some val \<and>
        (\<forall>d. unat d < unat (cluster_count (vol_geometry v)) + 2 \<and> d \<noteq> c \<longrightarrow>
           fat_link (media (device s')) (vol_geometry v) d = fat_link (media (device s)) (vol_geometry v) d) \<and>
        (\<forall>l. heap_start (vol_geometry v) \<le> unat l \<longrightarrow> media (device s') l = media (device s) l) \<and>
        (case next_cluster D v c s' of
           (Inr n, s'') \<Rightarrow> n = val \<and> media (device s'') = media (device s') | (Inl e, s'') \<Rightarrow> is_device_error e)
    | (Inl e, s') \<Rightarrow> is_device_error e"
proof -
  let ?g = "vol_geometry v" and ?m = "media (device s)"
  note L = assms(1)
  note run = lawful_device.post_set_fat [OF L assms(2,3) refl, of c val]
  have len: "length (?m l) = unat (bytes_per_sector ?g)" for l
    using lawful_device.media_length [OF L] assms(2) by (simp add: io_ok_def)
  obtain lba where lba: "fat_lba_for_byte ?g (fat_byte c) = Some lba" using fat_lba_Some [OF assms(3,4)] by blast
  have low: "unat lba < heap_start ?g" by (rule fat_lba_below_heap [OF assms(3,4) lba])
  obtain r s' where m: "set_fat D v c val s = (r, s')" by fastforce
  show ?thesis
  proof (cases r)
    case (Inl e)
    then show ?thesis using post_InlD [OF run, of e s'] m lba by simp
  next
    case (Inr u)
    then have a: "media (device s') = with_fat_link ?g c val ?m" "io_ok D invar (sector_bytes v) s'"
      using post_InrD [OF run, of u s'] m by simp_all
    note next_run = lawful_device.post_next_cluster [OF L lawful_device.reading_refl [OF L a(2)] assms(3) refl, of c]
    have out: "media (device s') l = ?m l" if "heap_start ?g \<le> unat l" for l
      using that low a(1) lba by (auto simp: with_fat_link_def)
    have link: "fat_link (media (device s')) ?g c = Some val" using fat_link_with [OF assms(3) len assms(4)] a(1) by simp
    have "case next_cluster D v c s' of (Inr n, s'') \<Rightarrow> n = val \<and> media (device s'') = media (device s')
        | (Inl e, s'') \<Rightarrow> is_device_error e"
      using next_run link
      by (auto simp: post_def dest: lawful_device.readingD(2) [OF L] split: prod.splits sum.splits)
    then show ?thesis
      using m Inr link out fat_link_with_other [OF assms(3) len assms(4)] a(1) by auto
  qed
qed

theorem set_fat_correct_witness:
  "case set_fat mem_ops test_volume 5 6 test_card of
      (Inr _, s') \<Rightarrow> fat_link (mem_media (device s')) test_geometry 5 = Some 6
    | (Inl e, s') \<Rightarrow> is_device_error e"
proof -
  have "unat (5 :: u32) < unat (cluster_count (vol_geometry test_volume)) + 2" by (simp add: test_geometry_def)
  then show ?thesis
    using set_fat_correct [OF mem.lawful_device_axioms, of test_volume test_card 5 6] test_card_ok wf_test_geometry
    by (auto split: prod.splits sum.splits)
qed

text \<open>
  C20: Walking a cluster chain reads the medium only and is the n-th iterate of the FAT: on success the
  cluster is the one \<open>walk\<close> names, after at most as many steps as the volume has clusters, and it is a
  cluster of the heap whenever the first one is; \<open>Corrupt\<close> means that the chain leaves the heap before
  or that the index is too large. No other error can occur but a device error.
\<close>

theorem cluster_at_walks:
  fixes D :: "('d, 'e) device_ops" and s :: "('d, 'x) io_scheme"
  assumes "lawful_device D media invar" "io_ok D invar (sector_bytes v) s" "wf_geometry (vol_geometry v)"
  shows "case cluster_at D v first index s of
      (r, s') \<Rightarrow> media (device s') = media (device s) \<and> (case r of
        Inr c \<Rightarrow> walk (media (device s)) (vol_geometry v) first (unat index) = Some c \<and>
          unat index < unat (cluster_count (vol_geometry v)) \<and>
          (in_heap (vol_geometry v) first \<longrightarrow> in_heap (vol_geometry v) c)
      | Inl e \<Rightarrow> is_device_error e \<or> e = Error Corrupt \<and>
          (walk (media (device s)) (vol_geometry v) first (unat index) = None \<or>
           unat (cluster_count (vol_geometry v)) \<le> unat index))"
proof -
  note L = assms(1)
  have heap: "in_heap g c" if "walk m g a n = Some c" "in_heap g a" for m g a c n
    using that by (cases n) (auto simp: bind_eq_Some_conv split: if_splits)
  show ?thesis
    using lawful_device.post_cluster_at [OF L lawful_device.reading_refl [OF L assms(2)] assms(3) refl, of first index]
    by (auto simp: post_def chain_at_def dest: lawful_device.readingD(2) [OF L] heap split: prod.splits sum.splits if_splits)
qed

theorem cluster_at_walks_witness:
  "case cluster_at mem_ops test_volume 5 2 test_card of
      (r, s') \<Rightarrow> mem_media (device s') = mem_media (device test_card)"
  using cluster_at_walks [OF mem.lawful_device_axioms, of test_volume test_card 5 2]
    test_card_ok wf_test_geometry
  by (auto split: prod.splits)

text \<open>
  C19: Counting the free clusters is exact: on any usable bitmap of a volume with fewer than
  \<open>2 ^ 32 - 2\<close> clusters, whatever its cluster size and wherever its sectors lie,
  \<open>refresh_free_clusters\<close> caches the number of clear bits of existing clusters, bits beyond the last
  cluster excluded. It never writes, and only the device can make it fail.
\<close>

theorem refresh_free_clusters_counts:
  fixes D :: "('d, 'e) device_ops" and s :: "('d, 'x) fs_scheme"
  assumes "lawful_device D media invar" "io_ok D invar (sector_bytes v) s" "wf_geometry (vol_geometry v)"
    and "bitmap_ok (media (device s)) v" "unat (cluster_count (vol_geometry v)) + 2 \<le> 2 ^ 32"
  shows "case refresh_free_clusters D v s of
      (r, s') \<Rightarrow> media (device s') = media (device s) \<and> (case r of
        Inr _ \<Rightarrow> (\<exists>n. free_clusters s' = Some n \<and> unat n = card (free_set (media (device s)) v))
      | Inl e \<Rightarrow> is_device_error e)"
  using lawful_device.post_refresh_free_clusters [OF assms(1) lawful_device.reading_refl [OF assms(1,2)] assms(3) refl assms(5,4)]
    assms(2)
  by (auto simp: post_def frame_def fun_eq_iff split: prod.splits sum.splits)

theorem refresh_free_clusters_counts_witness:
  "case refresh_free_clusters mem_ops test_volume test_card of
      (r, s') \<Rightarrow> mem_media (device s') = mem_media (device test_card)"
proof -
  have "unat (cluster_count (vol_geometry test_volume)) + 2 \<le> 2 ^ 32" by (simp add: test_geometry_def)
  then show ?thesis
    using refresh_free_clusters_counts [OF mem.lawful_device_axioms, of test_volume test_card]
      test_card_ok test_card_sound wf_test_geometry
    by (auto simp: bitmap_sound_def split: prod.splits)
qed

end
