(* ===== verification/File_IO.thy ===== *)
theory File_IO
  imports Allocation_Correct
begin

text \<open>
  The file operations of \<open>fs/operations.rs\<close>: resolving a cluster of a file with the handle's cache,
  sequential reading and writing, growing by appending, truncating, and committing the stream entry.

  A \<open>File\<close> handle is detached from the filesystem. Operations that take \<open>&mut File\<close> run on an
  environment that holds the handle and the caller's output buffer; \<open>update_stream\<close> only borrows it.
\<close>

section \<open>Handles\<close>

record File =
  file_primary :: EntryLocator
  file_stream :: EntryLocator
  file_entry_locs :: "EntryLocator list"
  file_entry_count :: u8
  file_first_cluster :: u32
  file_data_length :: u64
  file_valid_length :: u64
  file_position :: u64
  file_no_fat_chain :: bool
  cached_cluster_index :: "u64 option"
  cached_cluster :: u32

definition file_len :: "File \<Rightarrow> u64" where
  "file_len f = file_valid_length f"

definition file_is_empty :: "File \<Rightarrow> bool" where
  "file_is_empty f \<longleftrightarrow> file_valid_length f = 0"

text \<open>The handle \<open>open_with_workspace\<close> makes of a directory entry.\<close>

definition file_of_entry :: "DirectoryEntry \<Rightarrow> File" where
  "file_of_entry e = \<lparr>file_primary = de_primary e, file_stream = de_stream e, file_entry_locs = de_entry_locs e,
     file_entry_count = de_entry_count e, file_first_cluster = de_first_cluster e,
     file_data_length = de_data_length e, file_valid_length = de_valid_length e, file_position = 0,
     file_no_fat_chain = de_no_fat_chain e, cached_cluster_index = None, cached_cluster = 0\<rparr>"

record File_env =
  handle :: File
  out_buf :: "u8 list"

type_synonym ('d, 'e, 'a) file_m = "('d, File_env, 'e, 'a) fsm"

definition get_file :: "('d, 'e, File) file_m" where
  "get_file = getsM (\<lambda>s. handle (fs.more s))"

definition modify_file :: "(File \<Rightarrow> File) \<Rightarrow> ('d, 'e, unit) file_m" where
  "modify_file f = modifyM (fs.more_update (handle_update f))"

text \<open>\<open>out[done..done + count].copy_from_slice(bs)\<close>\<close>

definition put_out :: "nat \<Rightarrow> u8 list \<Rightarrow> ('d, 'e, unit) file_m" where
  "put_out done_bytes bs =
     bindM (getsM (\<lambda>s. length (out_buf (fs.more s)))) (\<lambda>n.
     bindM (no_panic_if (done_bytes + length bs \<le> n)) (\<lambda>_.
     modifyM (fs.more_update (out_buf_update (patch done_bytes bs)))))"

section \<open>Resolving clusters\<close>

definition chain_step :: "('d, 'e) device_ops \<Rightarrow> Volume \<Rightarrow> u32 \<Rightarrow> nat \<Rightarrow> u32 \<Rightarrow> ('d, 'x, 'e, u32) iom" where
  "chain_step D v first index previous =
     (let g = vol_geometry v in
      bindM (next_cluster D v previous) (\<lambda>cluster.
      if \<not> in_heap g cluster
      then bindM (ok_or (fat_lba_for_byte g (fat_byte previous)) Corrupt) (\<lambda>lba.
        fail (FileChainInvalid first (word_of_nat (Suc index)) previous cluster lba))
      else returnM cluster))"

definition file_cluster_at :: "('d, 'e) device_ops \<Rightarrow> Volume \<Rightarrow> u64 \<Rightarrow> ('d, 'e, u32) file_m" where
  "file_cluster_at D v wanted =
     (let g = vol_geometry v in
      bindM get_file (\<lambda>f.
      if ucast (cluster_count g) \<le> wanted then fail Corrupt
      else if file_no_fat_chain f
      then bindM (ok_or (u32_try_from wanted) Corrupt) (\<lambda>n.
        bindM (ok_or (checked_add (file_first_cluster f) n) Corrupt) (\<lambda>cluster.
        if in_heap g cluster then returnM cluster else fail Corrupt))
      else
        let (index, cluster) = (case cached_cluster_index f of
              Some index \<Rightarrow> if index \<le> wanted then (index, cached_cluster f) else (0, file_first_cluster f)
            | None \<Rightarrow> (0, file_first_cluster f)) in
        if \<not> in_heap g cluster then fail Corrupt else
        bindM (fold_m [unat index..<unat wanted] (chain_step D v (file_first_cluster f)) cluster) (\<lambda>cluster'.
        bindM (modify_file (\<lambda>f. f\<lparr>cached_cluster_index := Some wanted, cached_cluster := cluster'\<rparr>)) (\<lambda>_.
        returnM cluster'))))"

section \<open>Reading and writing\<close>

text \<open>Where the byte at the handle's position lies: sector and offset in it.\<close>

definition file_sector :: "('d, 'e) device_ops \<Rightarrow> Volume \<Rightarrow> ('d, 'e, u64 \<times> nat) file_m" where
  "file_sector D v =
     (let g = vol_geometry v; sz = sector_bytes v; cluster_bytes = ucast (bytes_per_cluster g) :: u64 in
      bindM get_file (\<lambda>f.
      bindM (no_panic_if (cluster_bytes \<noteq> 0)) (\<lambda>_.
      bindM (file_cluster_at D v (file_position f div cluster_bytes)) (\<lambda>cluster.
      let within = file_position f mod cluster_bytes in
      bindM (ok_or (cluster_lba g cluster) Corrupt) (\<lambda>lba.
      bindM (no_panic_if (sz \<noteq> 0)) (\<lambda>_.
      returnM (lba + within div of_usize sz, as_usize within mod sz)))))))"

definition advance :: "nat \<Rightarrow> ('d, 'e, unit) file_m" where
  "advance count = modify_file (\<lambda>f. f\<lparr>file_position := file_position f + of_usize count\<rparr>)"

definition read_step :: "('d, 'e) device_ops \<Rightarrow> Volume \<Rightarrow> nat \<Rightarrow> nat \<Rightarrow> ('d, 'e, nat + nat) file_m" where
  "read_step D v wanted done_bytes =
     (let sz = sector_bytes v in
      if \<not> done_bytes < wanted then returnM (Inr done_bytes) else
      bindM (file_sector D v) (\<lambda>(lba, sector_offset).
      bindM (read_sector D lba sz) (\<lambda>_.
      let count = min (sz - sector_offset) (wanted - done_bytes) in
      bindM (sector_slice sz sector_offset (sector_offset + count)) (\<lambda>bs.
      bindM (put_out done_bytes bs) (\<lambda>_.
      bindM (advance count) (\<lambda>_.
      returnM (Inl (done_bytes + count))))))))"

definition file_read :: "('d, 'e) device_ops \<Rightarrow> Volume \<Rightarrow> ('d, 'e, nat) file_m" where
  "file_read D v =
     bindM get_file (\<lambda>f.
     bindM (getsM (\<lambda>s. length (out_buf (fs.more s)))) (\<lambda>n.
     if file_valid_length f \<le> file_position f \<or> n = 0 then returnM 0
     else
       let wanted = min n (unat (file_valid_length f - file_position f)) in
       loop_m (Suc wanted) Diverge (read_step D v wanted) 0))"

definition write_step :: "('d, 'e) device_ops \<Rightarrow> Volume \<Rightarrow> u8 list \<Rightarrow> nat \<Rightarrow> nat \<Rightarrow> ('d, 'e, nat + nat) file_m" where
  "write_step D v input wanted done_bytes =
     (let sz = sector_bytes v in
      if \<not> done_bytes < wanted then returnM (Inr done_bytes) else
      bindM (file_sector D v) (\<lambda>(lba, sector_offset).
      let count = min (sz - sector_offset) (wanted - done_bytes) in
      bindM (whenM (sector_offset \<noteq> 0 \<or> count \<noteq> sz) (read_sector D lba sz)) (\<lambda>_.
      bindM (sector_copy sz sector_offset (slice done_bytes (done_bytes + count) input)) (\<lambda>_.
      bindM (write_sector D lba sz) (\<lambda>_.
      bindM (advance count) (\<lambda>_.
      returnM (Inl (done_bytes + count))))))))"

definition file_write :: "('d, 'e) device_ops \<Rightarrow> Volume \<Rightarrow> u8 list \<Rightarrow> ('d, 'e, nat) file_m" where
  "file_write D v input =
     bindM get_file (\<lambda>f.
     if file_valid_length f \<le> file_position f \<or> input = [] then returnM 0
     else
       let wanted = min (length input) (unat (file_valid_length f - file_position f)) in
       loop_m (Suc wanted) Diverge (write_step D v input wanted) 0)"

definition fs_flush :: "('d, 'e) device_ops \<Rightarrow> ('d, 'x, 'e, unit) fsm" where
  "fs_flush D = dev_flush D"

section \<open>Committing metadata\<close>

text \<open>The checksum over the directory entries at \<open>locs\<close>; the first one is the primary.\<close>

definition checksum_entries :: "('d, 'e) device_ops \<Rightarrow> nat \<Rightarrow> EntryLocator list \<Rightarrow> ('d, 'x, 'e, u16) iom" where
  "checksum_entries D sz locs =
     fold_m (enumerate 0 locs) (\<lambda>(index, loc) checksum.
       let offset = unat (el_offset loc) in
       if sz < offset + 32 then fail Corrupt else
       bindM (read_sector D (el_lba loc) sz) (\<lambda>_.
       bindM (sector_slice sz offset (offset + 32)) (\<lambda>raw.
       returnM (entry_set_checksum_step checksum raw (index = 0))))) 0"

definition stream_fields_of :: "File \<Rightarrow> (nat \<times> u8 list) list" where
  "stream_fields_of f = [(1, [if file_no_fat_chain f then 3 else 1]), (8, le64 (file_valid_length f)),
     (20, le32 (file_first_cluster f)), (24, le64 (file_data_length f))]"

definition write_stream_entry :: "('d, 'e) device_ops \<Rightarrow> nat \<Rightarrow> File \<Rightarrow> ('d, 'x, 'e, unit) iom" where
  "write_stream_entry D sz f =
     bindM (read_sector D (el_lba (file_stream f)) sz) (\<lambda>_.
     let stream = unat (el_offset (file_stream f)) in
     if sz < stream + 32 then fail Corrupt else
     bindM (each_m (stream_fields_of f) (\<lambda>(i, bs). sector_copy sz (stream + i) bs)) (\<lambda>_.
     write_sector D (el_lba (file_stream f)) sz))"

definition update_stream :: "('d, 'e) device_ops \<Rightarrow> Volume \<Rightarrow> File \<Rightarrow> ('d, 'x, 'e, unit) iom" where
  "update_stream D v f =
     (let sz = sector_bytes v in
      if file_entry_count f < 2 \<or> length (file_entry_locs f) < unat (file_entry_count f) then fail Corrupt else
      bindM (write_stream_entry D sz f) (\<lambda>_.
      bindM (checksum_entries D sz (take (unat (file_entry_count f)) (file_entry_locs f))) (\<lambda>checksum.
      bindM (read_sector D (el_lba (file_primary f)) sz) (\<lambda>_.
      let primary = unat (el_offset (file_primary f)) in
      if sz < primary + 32 then fail Corrupt else
      bindM (sector_copy sz (primary + 2) (le16 checksum)) (\<lambda>_.
      write_sector D (el_lba (file_primary f)) sz)))))"

section \<open>Growing\<close>

definition append_last :: "('d, 'e) device_ops \<Rightarrow> Volume \<Rightarrow> File \<Rightarrow> u64 \<Rightarrow> ('d, 'x, 'e, u32 option) iom" where
  "append_last D v f cluster_bytes =
     (if file_first_cluster f = 0 then returnM None
      else if file_no_fat_chain f then
        bindM (no_panic_if (cluster_bytes \<noteq> 0)) (\<lambda>_.
        bindM (ok_or (u32_try_from (file_data_length f div cluster_bytes - 1)) Corrupt) (\<lambda>n.
        bindM (ok_or (checked_add (file_first_cluster f) n) NoSpace) (\<lambda>last_cluster. returnM (Some last_cluster))))
      else
        bindM (no_panic_if (cluster_bytes \<noteq> 0)) (\<lambda>_.
        bindM (cluster_at D v (file_first_cluster f) (saturating_sub (file_data_length f) 1 div cluster_bytes)) (\<lambda>last_cluster.
        returnM (Some last_cluster))))"

text \<open>A contiguous file gets explicit links for the clusters it has.\<close>

definition link_contiguous :: "('d, 'e) device_ops \<Rightarrow> Volume \<Rightarrow> File \<Rightarrow> u64 \<Rightarrow> ('d, 'x, 'e, unit) iom" where
  "link_contiguous D v f cluster_bytes =
     each_m [0..<unat (saturating_sub (file_data_length f div cluster_bytes) 1)] (\<lambda>index.
       bindM (ok_or (u32_try_from (word_of_nat index)) Corrupt) (\<lambda>n.
       bindM (ok_or (checked_add (file_first_cluster f) n) Corrupt) (\<lambda>cluster.
       bindM (ok_or (checked_add cluster 1) Corrupt) (\<lambda>next_one.
       set_fat D v cluster next_one))))"

definition append_link ::
    "('d, 'e) device_ops \<Rightarrow> Volume \<Rightarrow> u64 \<Rightarrow> u32 option \<Rightarrow> u32 \<Rightarrow> u32 \<Rightarrow> ('d, 'e, unit) file_m" where
  "append_link D v cluster_bytes last_cluster preferred new_cluster =
     bindM get_file (\<lambda>f.
     if file_first_cluster f = 0 then modify_file (\<lambda>f. f\<lparr>file_first_cluster := new_cluster\<rparr>)
     else if file_no_fat_chain f \<and> new_cluster = preferred then returnM ()
     else
       bindM (whenM (file_no_fat_chain f)
         (bindM (no_panic_if (cluster_bytes \<noteq> 0)) (\<lambda>_.
          bindM (link_contiguous D v f cluster_bytes) (\<lambda>_.
          modify_file (\<lambda>f. f\<lparr>file_no_fat_chain := False, cached_cluster_index := None\<rparr>))))) (\<lambda>_.
       bindM (ok_or last_cluster Corrupt) (\<lambda>l. set_fat D v l new_cluster)))"

definition append_cluster :: "('d, 'e) device_ops \<Rightarrow> Volume \<Rightarrow> u64 \<Rightarrow> ('d, 'e, unit) file_m" where
  "append_cluster D v cluster_bytes =
     bindM get_file (\<lambda>f.
     bindM (append_last D v f cluster_bytes) (\<lambda>last_cluster.
     bindM (case last_cluster of None \<Rightarrow> returnM 2 | Some l \<Rightarrow> ok_or (checked_add l 1) NoSpace) (\<lambda>preferred.
     bindM (allocate_cluster_preferred D v preferred) (\<lambda>new_cluster.
     bindM (append_link D v cluster_bytes last_cluster preferred new_cluster) (\<lambda>_.
     bindM get_file (\<lambda>f'.
     bindM (ok_or (checked_add (file_data_length f') cluster_bytes) NoSpace) (\<lambda>len.
     modify_file (\<lambda>f. f\<lparr>file_data_length := len\<rparr>))))))))"

definition append_grow :: "('d, 'e) device_ops \<Rightarrow> Volume \<Rightarrow> u64 \<Rightarrow> u64 \<Rightarrow> ('d, 'e, unit + unit) file_m" where
  "append_grow D v cluster_bytes end_length =
     bindM get_file (\<lambda>f.
     if \<not> file_data_length f < end_length then returnM (Inr ())
     else bindM (append_cluster D v cluster_bytes) (\<lambda>_. returnM (Inl ())))"

text \<open>\<open>restore_on_err!\<close>: an error puts the handle back and is raised again.\<close>

definition restore_on_err :: "File \<Rightarrow> ('d, 'e, 'a) file_m \<Rightarrow> ('d, 'e, 'a) file_m" where
  "restore_on_err original m =
     bindM (attempt m) (\<lambda>r. case r of
       Inr x \<Rightarrow> returnM x
     | Inl e \<Rightarrow> bindM (modify_file (\<lambda>_. original)) (\<lambda>_. fail e))"

definition append_body :: "('d, 'e) device_ops \<Rightarrow> Volume \<Rightarrow> u8 list \<Rightarrow> ('d, 'e, nat) file_m" where
  "append_body D v input =
     (let cluster_bytes = ucast (bytes_per_cluster (vol_geometry v)) in
      bindM get_file (\<lambda>f.
      bindM (ok_or (checked_add (file_valid_length f) (of_usize (length input))) NoSpace) (\<lambda>end_length.
      bindM (loop_m (unat end_length + 2) Diverge (\<lambda>_. append_grow D v cluster_bytes end_length) ()) (\<lambda>_.
      bindM (modify_file (\<lambda>f. f\<lparr>file_position := file_valid_length f, file_valid_length := end_length\<rparr>)) (\<lambda>_.
      bindM (file_write D v input) (\<lambda>written.
      if written \<noteq> length input then fail Corrupt else
      bindM get_file (\<lambda>f'.
      bindM (update_stream D v f') (\<lambda>_. returnM written))))))))"

definition file_append :: "('d, 'e) device_ops \<Rightarrow> Volume \<Rightarrow> u8 list \<Rightarrow> ('d, 'e, nat) file_m" where
  "file_append D v input =
     (if input = [] then returnM 0 else
      bindM get_file (\<lambda>original.
      bindM (modify_file (\<lambda>f. f\<lparr>cached_cluster_index := None\<rparr>)) (\<lambda>_.
      restore_on_err original (append_body D v input))))"

section \<open>Shortening\<close>

text \<open>Both loops of \<open>truncate\<close>: unlink and free \<open>n\<close> clusters of a stream, starting at \<open>first\<close>.\<close>

definition free_clusters_from :: "('d, 'e) device_ops \<Rightarrow> Volume \<Rightarrow> bool \<Rightarrow> nat \<Rightarrow> u32 \<Rightarrow> ('d, 'x, 'e, u32) fsm" where
  "free_clusters_from D v contiguous n first =
     fold_m [0..<n] (\<lambda>_ cluster.
       bindM (if contiguous then ok_or (checked_add cluster 1) Corrupt else next_cluster D v cluster) (\<lambda>next_one.
       bindM (set_fat D v cluster 0) (\<lambda>_.
       bindM (set_bitmap D v cluster False) (\<lambda>_.
       returnM next_one)))) first"

definition shorten_chain :: "('d, 'e) device_ops \<Rightarrow> Volume \<Rightarrow> u64 \<Rightarrow> u64 \<Rightarrow> ('d, 'e, unit) file_m" where
  "shorten_chain D v keep allocated =
     bindM get_file (\<lambda>f.
     if keep = 0 then
       bindM (free_clusters_from D v (file_no_fat_chain f) (unat allocated) (file_first_cluster f)) (\<lambda>_.
       modify_file (\<lambda>f. f\<lparr>file_first_cluster := 0\<rparr>))
     else
       bindM (if file_no_fat_chain f
         then bindM (ok_or (u32_try_from keep) Corrupt) (\<lambda>n.
           bindM (ok_or (checked_add (file_first_cluster f) n) Corrupt) (\<lambda>c. ok_or (checked_sub c 1) Corrupt))
         else cluster_at D v (file_first_cluster f) (keep - 1)) (\<lambda>last_cluster.
       bindM (if file_no_fat_chain f then ok_or (checked_add last_cluster 1) Corrupt
         else next_cluster D v last_cluster) (\<lambda>cluster.
       bindM (set_fat D v last_cluster 0xFFFFFFFF) (\<lambda>_.
       bindM (free_clusters_from D v (file_no_fat_chain f) (unat allocated - unat keep) cluster) (\<lambda>_.
       returnM ())))))"

definition file_truncate :: "('d, 'e) device_ops \<Rightarrow> Volume \<Rightarrow> u64 \<Rightarrow> ('d, 'e, unit) file_m" where
  "file_truncate D v len =
     (let cluster_bytes = ucast (bytes_per_cluster (vol_geometry v)) in
      bindM get_file (\<lambda>f.
      if file_valid_length f < len then fail EndOfFile else
      bindM (no_panic_if (cluster_bytes \<noteq> 0 \<or> len = 0 \<and> file_data_length f = 0)) (\<lambda>_.
      let keep = (if len = 0 then 0 else div_ceil len cluster_bytes);
          allocated = (if file_data_length f = 0 then 0 else div_ceil (file_data_length f) cluster_bytes) in
      bindM (whenM (keep < allocated)
        (bindM (shorten_chain D v keep allocated) (\<lambda>_.
         bindM (ok_or (checked_mul keep cluster_bytes) Corrupt) (\<lambda>n.
         modify_file (\<lambda>f. f\<lparr>file_data_length := n, cached_cluster_index := None\<rparr>))))) (\<lambda>_.
      bindM (modify_file (\<lambda>f. f\<lparr>file_valid_length := len, file_position := min (file_position f) len\<rparr>)) (\<lambda>_.
      bindM get_file (\<lambda>f'. update_stream D v f'))))))"

end
