(* ===== verification/File_Content.thy ===== *)
theory File_Content
  imports File_IO
begin

text \<open>
  The contents of a file as a function of the medium: the clusters of a handle's stream
  (\<open>file_cluster\<close>), the place of each byte (\<open>file_addr\<close>) and its value (\<open>file_byte\<close>). Distinct bytes
  of a file whose clusters are distinct have distinct places, so storing bytes in one sector changes
  exactly these bytes of the file.
\<close>

section \<open>The stream of a handle\<close>

definition file_cluster :: "medium \<Rightarrow> Geometry \<Rightarrow> File \<Rightarrow> nat \<Rightarrow> u32 option" where
  "file_cluster m g f i =
     (if unat (cluster_count g) \<le> i then None
      else if file_no_fat_chain f then
        (let c = file_first_cluster f + word_of_nat i in
         if unat (file_first_cluster f) + i < 2 ^ 32 \<and> in_heap g c then Some c else None)
      else if in_heap g (file_first_cluster f) then walk m g (file_first_cluster f) i else None)"

definition file_addr :: "medium \<Rightarrow> Volume \<Rightarrow> File \<Rightarrow> nat \<Rightarrow> (u64 \<times> nat) option" where
  "file_addr m v f p =
     (let g = vol_geometry v; sz = sector_bytes v; cb = unat (bytes_per_cluster g) in
      Option.bind (file_cluster m g f (p div cb)) (\<lambda>c.
        map_option (\<lambda>lba. (lba + of_usize (p mod cb div sz), p mod sz)) (cluster_lba g c)))"

definition file_byte :: "medium \<Rightarrow> Volume \<Rightarrow> File \<Rightarrow> nat \<Rightarrow> u8 option" where
  "file_byte m v f p = map_option (\<lambda>(lba, off). m lba ! off) (file_addr m v f p)"

text \<open>The cache of a handle agrees with the chain.\<close>

definition cache_ok :: "medium \<Rightarrow> Geometry \<Rightarrow> File \<Rightarrow> bool" where
  "cache_ok m g f \<longleftrightarrow> (\<not> file_no_fat_chain f \<longrightarrow> (\<forall>i. cached_cluster_index f = Some i \<longrightarrow>
     file_cluster m g f (unat i) = Some (cached_cluster f)))"

text \<open>
  The sectors that hold one of the \<open>n\<close> bytes of a file from \<open>p\<close> on; a stream that visits no cluster
  twice.
\<close>

definition range_sectors :: "medium \<Rightarrow> Volume \<Rightarrow> File \<Rightarrow> nat \<Rightarrow> nat \<Rightarrow> u64 set" where
  "range_sectors m v f p n = {l. \<exists>q off. p \<le> q \<and> q < p + n \<and> file_addr m v f q = Some (l, off)}"

definition stream_distinct :: "medium \<Rightarrow> Geometry \<Rightarrow> File \<Rightarrow> bool" where
  "stream_distinct m g f \<longleftrightarrow>
     (\<forall>i j c. file_cluster m g f i = Some c \<longrightarrow> file_cluster m g f j = Some c \<longrightarrow> i = j)"

text \<open>Two handles of the same stream, whatever they cache and wherever they stand.\<close>

definition same_stream :: "File \<Rightarrow> File \<Rightarrow> bool" where
  "same_stream f f' \<longleftrightarrow>
     file_first_cluster f' = file_first_cluster f \<and> file_no_fat_chain f' = file_no_fat_chain f"

lemma same_stream_refl [simp]: "same_stream f f"
  by (simp add: same_stream_def)

lemma file_cluster_same: "same_stream f f' \<Longrightarrow> file_cluster m g f' = file_cluster m g f"
  by (simp add: fun_eq_iff file_cluster_def same_stream_def)

lemma file_addr_same: "same_stream f f' \<Longrightarrow> file_addr m v f' = file_addr m v f"
  by (simp add: fun_eq_iff file_addr_def file_cluster_same)

lemma file_byte_same: "same_stream f f' \<Longrightarrow> file_byte m v f' = file_byte m v f"
  by (simp add: fun_eq_iff file_byte_def file_addr_same)

lemma file_cluster_in_heap: "file_cluster m g f i = Some c \<Longrightarrow> in_heap g c"
  by (auto simp: file_cluster_def Let_def dest: walk_in_heap split: if_splits)

lemma fat_agree_trans: "fat_agree g m m' \<Longrightarrow> fat_agree g m' m'' \<Longrightarrow> fat_agree g m m''"
  by (simp add: fat_agree_def)

lemma file_cluster_agree: "fat_agree g m m' \<Longrightarrow> file_cluster m' g f i = file_cluster m g f i"
  by (auto simp: file_cluster_def walk_agree)

lemma file_addr_agree: "fat_agree (vol_geometry v) m m' \<Longrightarrow> file_addr m' v f p = file_addr m v f p"
  by (simp add: file_addr_def Let_def file_cluster_agree)

lemma range_sectors_mono: "n \<le> n' \<Longrightarrow> range_sectors m v f p n \<subseteq> range_sectors m v f p n'"
  by (fastforce simp: range_sectors_def)

lemma range_sectorsI: "file_addr m v f (p + k) = Some (l, off) \<Longrightarrow> k < n \<Longrightarrow> l \<in> range_sectors m v f p n"
  unfolding range_sectors_def by (intro CollectI exI [of _ "p + k"] exI [of _ off]) simp

lemma range_sectors_empty [simp]: "range_sectors m v f p 0 = {}"
  by (simp add: range_sectors_def)

lemma cache_ok_agree: "fat_agree g m m' \<Longrightarrow> cache_ok m' g f = cache_ok m g f"
  by (simp add: cache_ok_def file_cluster_agree)

section \<open>Places of bytes\<close>

lemma sector_run:
  fixes sz cb p k :: nat
  assumes "sz dvd cb" "0 < sz" "0 < cb" "p mod sz + k < sz"
  shows "(p + k) div cb = p div cb" "(p + k) mod cb div sz = p mod cb div sz" "(p + k) mod sz = p mod sz + k"
proof -
  have s: "(p + k) div sz = p div sz" and m: "(p + k) mod sz = p mod sz + k"
    using div_mod_add_small [OF assms(4)] by simp_all
  show "(p + k) mod sz = p mod sz + k" by (rule m)
  obtain q where q: "cb = sz * q" using assms(1) by (elim dvdE)
  show "(p + k) div cb = p div cb" by (simp add: q div_mult2_eq s)
  show "(p + k) mod cb div sz = p mod cb div sz" using assms(2) by (simp add: q mod_mult2_eq s)
qed

lemma file_addr_run:
  assumes wf: "wf_geometry (vol_geometry v)" and a: "file_addr m v f p = Some (lba, off)"
    and k: "off + k < sector_bytes v"
  shows "file_addr m v f (p + k) = Some (lba, off + k)"
proof -
  have off: "off = p mod sector_bytes v" using a by (auto simp: file_addr_def Let_def bind_eq_Some_conv)
  note run = sector_run [OF sector_size_facts(3,2,4) [OF wf], of p k]
  show ?thesis using a k off run by (auto simp: file_addr_def Let_def bind_eq_Some_conv)
qed

lemma file_addr_bounds:
  assumes wf: "wf_geometry (vol_geometry v)" and a: "file_addr m v f p = Some (lba, off)"
  shows "off < sector_bytes v" "heap_start (vol_geometry v) \<le> unat lba"
    "\<exists>c. file_cluster m (vol_geometry v) f (p div unat (bytes_per_cluster (vol_geometry v))) = Some c \<and>
       lba \<in> cluster_sectors (vol_geometry v) c" "off = p mod sector_bytes v"
proof -
  let ?g = "vol_geometry v" and ?sz = "sector_bytes v" and ?cb = "unat (bytes_per_cluster (vol_geometry v))"
  obtain c l where c: "file_cluster m ?g f (p div ?cb) = Some c" "cluster_lba ?g c = Some l"
    "lba = l + of_usize (p mod ?cb div ?sz)" "off = p mod ?sz"
    using a by (auto simp: file_addr_def Let_def bind_eq_Some_conv)
  note facts = sector_size_facts [OF wf]
  show "off = p mod ?sz" by (rule c(4))
  show "off < ?sz" using c(4) facts(2) by simp
  have i: "p mod ?cb div ?sz < unat (sectors_per_cluster ?g)"
    using facts(2,4) unat_bytes_per_cluster [OF wf] by (simp add: div_less_iff_less_mult mult.commute)
  then have "lba \<in> cluster_sectors ?g c" using c by (auto simp: cluster_sectors_def)
  then show "\<exists>c. file_cluster m ?g f (p div ?cb) = Some c \<and> lba \<in> cluster_sectors ?g c" "heap_start ?g \<le> unat lba"
    using c(1) cluster_sectors_heap [OF wf] by auto
qed

lemma file_addr_inj:
  assumes wf: "wf_geometry (vol_geometry v)" and d: "stream_distinct m (vol_geometry v) f"
    and a: "file_addr m v f p = Some (lba, off)" "file_addr m v f q = Some (lba, off)"
  shows "p = q"
proof -
  let ?g = "vol_geometry v"
  define sz cb where "sz = sector_bytes v" and "cb = unat (bytes_per_cluster ?g)"
  note facts = sector_size_facts [OF wf, folded sz_def cb_def]
  have spc: "cb = sz * unat (sectors_per_cluster ?g)" using unat_bytes_per_cluster [OF wf] by (simp add: sz_def cb_def)
  have idx: "x mod cb div sz < unat (sectors_per_cluster ?g)" for x
    using facts(2,4) spc by (simp add: div_less_iff_less_mult mult.commute)
  obtain c l where c: "file_cluster m ?g f (p div cb) = Some c" "cluster_lba ?g c = Some l"
    "lba = l + of_usize (p mod cb div sz)" "off = p mod sz"
    using a(1) by (auto simp: file_addr_def Let_def bind_eq_Some_conv sz_def cb_def)
  obtain c' l' where c': "file_cluster m ?g f (q div cb) = Some c'" "cluster_lba ?g c' = Some l'"
    "lba = l' + of_usize (q mod cb div sz)" "off = q mod sz"
    using a(2) by (auto simp: file_addr_def Let_def bind_eq_Some_conv sz_def cb_def)
  have same: "c = c' \<and> p mod cb div sz = q mod cb div sz"
    by (rule cluster_sector_inj [OF wf c(2) c'(2) idx idx]) (use c(3) c'(3) in simp)
  then have "p div cb = q div cb" using d c(1) c'(1) by (auto simp: stream_distinct_def)
  moreover have "p mod cb mod sz = q mod cb mod sz" using c(4) c'(4) facts(3) by (simp add: mod_mod_cancel)
  then have "p mod cb = q mod cb" using same by (metis div_mult_mod_eq)
  ultimately show ?thesis by (metis div_mult_mod_eq)
qed

section \<open>Storing bytes\<close>

text \<open>Storing \<open>bs\<close> at the place of byte \<open>p\<close>, within its sector.\<close>

lemma file_byte_store:
  assumes wf: "wf_geometry (vol_geometry v)" and len: "\<And>l. length (m l) = sector_bytes v"
    and d: "stream_distinct m (vol_geometry v) f"
    and a: "file_addr m v f p = Some (lba, off)" and fit: "off + length bs \<le> sector_bytes v"
  shows "fat_agree (vol_geometry v) m (m(lba := patch off bs (m lba)))"
    and "file_byte (m(lba := patch off bs (m lba))) v f q =
      (if p \<le> q \<and> q < p + length bs then Some (bs ! (q - p)) else file_byte m v f q)"
proof -
  let ?m' = "m(lba := patch off bs (m lba))"
  show agree: "fat_agree (vol_geometry v) m ?m'"
    using file_addr_bounds(2) [OF wf a] by (intro fat_agree_below [OF wf]) auto
  have fit': "off + length bs \<le> length (m lba)" using fit len by simp
  show "file_byte ?m' v f q = (if p \<le> q \<and> q < p + length bs then Some (bs ! (q - p)) else file_byte m v f q)"
  proof (cases "p \<le> q \<and> q < p + length bs")
    case True
    then have "off + (q - p) < sector_bytes v" "p + (q - p) = q" using fit by linarith+
    then have "file_addr m v f q = Some (lba, off + (q - p))" using file_addr_run [OF wf a] by metis
    moreover have "patch off bs (m lba) ! (off + (q - p)) = bs ! (q - p)"
    proof -
      have "off + (q - p) < length (m lba)" "q - p < length bs" using True fit' by linarith+
      then show ?thesis by (simp only: nth_patch [OF fit']) simp
    qed
    ultimately show ?thesis
      using True by (simp add: file_byte_def file_addr_agree [OF agree] del: diff_diff_left add_diff_assoc)
  next
    case False
    show ?thesis
    proof (cases "file_addr m v f q")
      case None
      then show ?thesis using False by (auto simp: file_byte_def file_addr_agree [OF agree])
    next
      case (Some b)
      obtain lba' off' where b: "b = (lba', off')" by (cases b)
      have "?m' lba' ! off' = m lba' ! off'"
      proof (cases "lba' = lba")
        case True
        have off': "off' < length (m lba)" using file_addr_bounds(1) [OF wf] Some b len by metis
        have "\<not> (off \<le> off' \<and> off' < off + length bs)"
        proof
          assume in_run: "off \<le> off' \<and> off' < off + length bs"
          then have "file_addr m v f (p + (off' - off)) = Some (lba, off')"
            using file_addr_run [OF wf a, of "off' - off"] fit by simp
          then have "q = p + (off' - off)" using file_addr_inj [OF wf d] Some b True by metis
          then show False using False in_run by linarith
        qed
        then show ?thesis using True by (auto simp: nth_patch [OF fit' off'])
      qed simp
      then show ?thesis using False Some b by (auto simp: file_byte_def file_addr_agree [OF agree])
    qed
  qed
qed

section \<open>The code's arithmetic on positions\<close>

lemma within_cluster:
  fixes p :: u64
  assumes wf: "wf_geometry (vol_geometry v)"
  defines "cb \<equiv> ucast (bytes_per_cluster (vol_geometry v)) :: u64"
  shows "cb \<noteq> 0" "unat cb = unat (bytes_per_cluster (vol_geometry v))" "sector_bytes v \<noteq> 0"
    "unat (p div cb) = unat p div unat (bytes_per_cluster (vol_geometry v))"
    "as_usize (p mod cb) mod sector_bytes v = unat p mod sector_bytes v"
    "(p mod cb) div of_usize (sector_bytes v) = of_usize (unat p mod unat (bytes_per_cluster (vol_geometry v)) div sector_bytes v)"
proof -
  let ?b = "bytes_per_cluster (vol_geometry v)"
  note facts = sector_size_facts [OF wf]
  show cb: "unat cb = unat ?b" by (simp add: cb_def)
  then show nz: "cb \<noteq> 0" "sector_bytes v \<noteq> 0" using facts(2,4) by (auto simp: unat_gt_0 [symmetric] simp del: unat_gt_0)
  show "unat (p div cb) = unat p div unat ?b" by (simp add: unat_div cb)
  have "unat (p mod cb) < 2 ^ 32"
    using less_trans [OF mod_less_divisor [OF facts(4)] unat_u32_lt] cb by (simp add: unat_mod)
  then show "as_usize (p mod cb) mod sector_bytes v = unat p mod sector_bytes v"
    using facts(3) cb by (simp add: as_usize_small unat_mod mod_mod_cancel)
  have szw: "unat (of_usize (sector_bytes v)) = sector_bytes v" using facts(6) by (simp add: unat_of_usize)
  have "unat p mod unat ?b div sector_bytes v < 2 ^ 64"
    by (rule le_less_trans [OF div_le_dividend le_less_trans [OF mod_less_eq_dividend]]) simp
  then show "(p mod cb) div of_usize (sector_bytes v) = of_usize (unat p mod unat ?b div sector_bytes v)"
    by (simp add: word_unat_eq_iff unat_div unat_mod szw unat_of_usize cb)
qed

text \<open>How many bytes a transfer of \<open>n\<close> bytes moves at the handle's position.\<close>

definition transfer_count :: "File \<Rightarrow> nat \<Rightarrow> nat" where
  "transfer_count f n = min n (unat (file_valid_length f) - unat (file_position f))"

lemma transfer_count_fits: "unat (file_position f) + transfer_count f n < 2 ^ 64 \<or> transfer_count f n = 0"
proof (cases "unat (file_position f) < unat (file_valid_length f)")
  case True
  then have "unat (file_position f) + transfer_count f n \<le> unat (file_valid_length f)" by (simp add: transfer_count_def)
  then show ?thesis using le_less_trans [OF _ unat_u64_lt] by simp
qed (simp add: transfer_count_def)

lemma transfer_count_word:
  "\<not> file_valid_length f \<le> file_position f \<Longrightarrow>
    min n (unat (file_valid_length f - file_position f)) = transfer_count f n"
  by (simp add: transfer_count_def unat_sub word_le_nat_alt not_le less_imp_le)

lemma transfer_count_none: "file_valid_length f \<le> file_position f \<Longrightarrow> transfer_count f n = 0"
  by (simp add: transfer_count_def word_le_nat_alt)

end
