(* ===== verification/File_IO_Correct.thy ===== *)
theory File_IO_Correct
  imports File_Content
begin

text \<open>
  What the file operations do to the contents of files: \<open>file_cluster_at\<close> with its cache finds the
  cluster a walk from the start would find, \<open>file_read\<close> delivers the bytes of the file,
  \<open>file_write\<close> stores them and changes nothing else, and all of them return.
\<close>

section \<open>Environment access\<close>

lemma fs_more_update_simps [simp]:
  fixes s :: "('d, 'x) fs_scheme"
  shows "device (fs.more_update f s) = device s" "scratch (fs.more_update f s) = scratch s"
    "free_clusters (fs.more_update f s) = free_clusters s" "fs.more (fs.more_update f s) = f (fs.more s)"
    "io_ok D invar sz (fs.more_update f s) = io_ok D invar sz s"
  by (cases s, simp add: io_ok_def)+

lemma post_get_file [simp]: "post get_file s Q E = Q (handle (fs.more s)) s"
  by (simp add: get_file_def)

lemma post_modify_file [simp]: "post (modify_file f) s Q E = Q () (fs.more_update (handle_update f) s)"
  by (simp add: modify_file_def)

lemma post_put_out [simp]:
  "post (put_out k bs) s Q E =
     (if k + length bs \<le> length (out_buf (fs.more s)) then Q () (fs.more_update (out_buf_update (patch k bs)) s)
      else E Panic s)"
  by (simp add: put_out_def)

lemma returns_env [returns_intro]:
  "returns get_file" "returns (modify_file f)" "returns (put_out k bs)" "returns (advance n)"
  unfolding get_file_def modify_file_def put_out_def advance_def by (intro returns_intro)+

section \<open>Resolving clusters\<close>

definition no_cache :: "File \<Rightarrow> File" where
  "no_cache f = f\<lparr>cached_cluster_index := None, cached_cluster := 0\<rparr>"

definition chain_error :: "'e error exn \<Rightarrow> bool" where
  "chain_error e \<longleftrightarrow> e = Error Corrupt \<or> (\<exists>a i c n l. e = Error (FileChainInvalid a i c n l))"

lemma no_cache_same:
  assumes "no_cache f' = no_cache f"
  shows "same_stream f f'" "file_position f' = file_position f" "file_valid_length f' = file_valid_length f"
    "file_data_length f' = file_data_length f" "file_stream f' = file_stream f" "file_primary f' = file_primary f"
    "file_entry_locs f' = file_entry_locs f" "file_entry_count f' = file_entry_count f"
  using assms by (cases f; cases f'; simp add: no_cache_def same_stream_def)+

lemma no_cache_advance:
  assumes "no_cache f = no_cache (f0\<lparr>file_position := file_position f0 + of_usize k\<rparr>)"
  shows "no_cache (f\<lparr>file_position := file_position f + of_usize n\<rparr>) =
    no_cache (f0\<lparr>file_position := file_position f0 + of_usize (k + n)\<rparr>)"
  using assms by (cases f; cases f0) (simp add: no_cache_def of_usize_def add.assoc)

lemma file_cluster_position [simp]: "file_cluster m g (f\<lparr>file_position := x\<rparr>) = file_cluster m g f"
  by (rule file_cluster_same) (simp add: same_stream_def)

lemma cache_ok_position [simp]: "cache_ok m g (f\<lparr>file_position := x\<rparr>) = cache_ok m g f"
  by (simp add: cache_ok_def)

context lawful_device
begin

text \<open>Only reads have happened since \<open>s0\<close>, and the handle changed in its cache only.\<close>

definition file_reading :: "nat \<Rightarrow> ('d, File_env) fs_scheme \<Rightarrow> ('d, File_env) fs_scheme \<Rightarrow> bool" where
  "file_reading sz s0 s \<longleftrightarrow>
     io_ok D invar sz s0 \<and> frame D media invar sz {} (\<lambda>_ _. True) s0 s \<and>
     free_clusters s = free_clusters s0 \<and> out_buf (fs.more s) = out_buf (fs.more s0) \<and>
     no_cache (handle (fs.more s)) = no_cache (handle (fs.more s0))"

lemma file_readingD:
  assumes "file_reading sz s0 s"
  shows "io_ok D invar sz s" "media (device s) = media (device s0)" "io_ok D invar sz s0"
    "free_clusters s = free_clusters s0" "out_buf (fs.more s) = out_buf (fs.more s0)"
    "no_cache (handle (fs.more s)) = no_cache (handle (fs.more s0))"
  using assms by (auto simp: file_reading_def frame_def fun_eq_iff)

lemma file_reading_io:
  assumes "reading sz s0 s"
  shows "file_reading sz s0 s"
  using assms reading_fs_frame(2,3) [OF assms]
  by (auto simp: file_reading_def reading_def intro: frame_mono)

lemma file_reading_trans: "file_reading sz s0 s1 \<Longrightarrow> file_reading sz s1 s2 \<Longrightarrow> file_reading sz s0 s2"
  unfolding file_reading_def using frame_trans [OF _ _ coarse_True] by auto

lemma file_reading_cache:
  "file_reading sz s0 s \<Longrightarrow>
    file_reading sz s0 (fs.more_update (handle_update (\<lambda>f. f\<lparr>cached_cluster_index := i, cached_cluster := c\<rparr>)) s)"
  by (auto simp: file_reading_def frame_def no_cache_def)

text \<open>One link of a chain, with the code's detailed error.\<close>

lemma post_chain_step:
  fixes s :: "('d, 'x) fs_scheme"
  assumes r: "reading sz s0 s" and wf: "wf_geometry (vol_geometry v)" and sz: "sector_bytes v = sz"
  shows "post (chain_step D v first k c) s
    (\<lambda>n s'. reading sz s0 s' \<and> fat_link (media (device s0)) (vol_geometry v) c = Some n \<and> in_heap (vol_geometry v) n)
    (\<lambda>e s'. reading sz s0 s' \<and> (is_device_error e \<or> chain_error e \<and>
       (\<forall>n. fat_link (media (device s0)) (vol_geometry v) c = Some n \<longrightarrow> \<not> in_heap (vol_geometry v) n)))"
  unfolding chain_step_def Let_def post_bindM [of "next_cluster D v c"]
  by (rule post_mono [OF post_next_cluster [OF r wf sz]]) (auto simp: chain_error_def split: option.splits)

lemma post_chain_walk:
  fixes s :: "('d, 'x) fs_scheme"
  assumes r: "reading sz s0 s" and wf: "wf_geometry (vol_geometry v)" and sz: "sector_bytes v = sz"
    and c: "walk (media (device s0)) (vol_geometry v) first i = Some c" and le: "i \<le> n"
  shows "post (fold_m [i..<n] (chain_step D v a) c) s
    (\<lambda>d s'. reading sz s0 s' \<and> walk (media (device s0)) (vol_geometry v) first n = Some d)
    (\<lambda>e s'. reading sz s0 s' \<and> (is_device_error e \<or>
       chain_error e \<and> walk (media (device s0)) (vol_geometry v) first n = None))"
    (is "post _ s ?Q ?E")
proof (rule post_fold_m [where I = "\<lambda>k c s'. reading sz s0 s' \<and> walk (media (device s0)) (vol_geometry v) first (i + k) = Some c"])
  let ?m = "media (device s0)" and ?g = "vol_geometry v"
  have dead: "walk ?m ?g first n = None" if "walk ?m ?g first k = None" "k \<le> n" for k n
    using that(2,1) by (induction n rule: dec_induct) simp_all
  fix k c s' assume k: "k < length [i..<n]" and I: "reading sz s0 s' \<and> walk ?m ?g first (i + k) = Some c"
  have stop: "walk ?m ?g first n = None" if "walk ?m ?g first (Suc (i + k)) = None"
    using dead [OF that, of n] k by simp
  have step: "walk ?m ?g first (Suc (i + k)) = None" if "\<forall>n. fat_link ?m ?g c = Some n \<longrightarrow> \<not> in_heap ?g n"
    using that I by (cases "fat_link ?m ?g c") auto
  show "post (chain_step D v a ([i..<n] ! k) c) s'
      (\<lambda>d s'. reading sz s0 s' \<and> walk ?m ?g first (i + Suc k) = Some d) ?E"
    by (rule post_mono [OF post_chain_step [OF conjunct1 [OF I] wf sz]]) (use I stop step in auto)
qed (use r c le in auto)

lemma post_file_cluster_at:
  assumes ok: "io_ok D invar sz s" and wf: "wf_geometry (vol_geometry v)" and sz: "sector_bytes v = sz"
    and cache: "cache_ok (media (device s)) (vol_geometry v) (handle (fs.more s))"
  shows "post (file_cluster_at D v wanted) s
    (\<lambda>c s'. file_reading sz s s' \<and> cache_ok (media (device s)) (vol_geometry v) (handle (fs.more s')) \<and>
       file_cluster (media (device s)) (vol_geometry v) (handle (fs.more s)) (unat wanted) = Some c)
    (\<lambda>e s'. file_reading sz s s' \<and> cache_ok (media (device s)) (vol_geometry v) (handle (fs.more s')) \<and>
       (is_device_error e \<or> chain_error e \<and>
        file_cluster (media (device s)) (vol_geometry v) (handle (fs.more s)) (unat wanted) = None))"
    (is "post _ s ?Q ?E")
proof -
  let ?g = "vol_geometry v" and ?m = "media (device s)"
  define f where "f = handle (fs.more s)"
  have refl: "file_reading sz s s" by (rule file_reading_io [OF reading_refl [OF ok]])
  show ?thesis
  proof (cases "ucast (cluster_count ?g) \<le> wanted")
    case True
    then have "file_cluster ?m ?g f (unat wanted) = None" by (simp add: file_cluster_def word_le_nat_alt)
    then show ?thesis using True refl cache by (simp add: file_cluster_at_def Let_def chain_error_def f_def)
  next
    case False
    then have lt: "\<not> unat (cluster_count ?g) \<le> unat wanted" by (simp add: word_le_nat_alt)
    have w32: "unat wanted < 2 ^ 32" using lt less_trans [OF _ unat_u32_lt] by (simp add: not_le)
    show ?thesis
    proof (cases "file_no_fat_chain f")
      case nfc: True
      have "u32_try_from wanted = Some (ucast wanted)" and u: "unat (ucast wanted :: u32) = unat wanted"
        using w32 by (simp_all add: u32_try_from_def unat_ucast_down_small)
      then show ?thesis
        using False lt nfc refl cache
        by (auto simp: file_cluster_at_def Let_def chain_error_def f_def file_cluster_def checked_add_def
            word_unat_eq_iff unat_of_nat unat_word_ariths split: option.splits)
    next
      case chain: False
      obtain index c0 where start: "(case cached_cluster_index f of
              Some index \<Rightarrow> if index \<le> wanted then (index, cached_cluster f) else (0, file_first_cluster f)
            | None \<Rightarrow> (0, file_first_cluster f)) = (index, c0)" by fastforce
      let ?fc = "file_first_cluster f"
      have at: "index \<le> wanted \<and> walk ?m ?g ?fc (unat index) = Some c0 \<and> (in_heap ?g c0 \<longleftrightarrow> in_heap ?g ?fc)"
        using start cache chain walk_in_heap [of ?m ?g ?fc "unat index" c0]
        by (auto simp: cache_ok_def f_def file_cluster_def split: option.splits if_splits)
      show ?thesis
      proof (cases "in_heap ?g c0")
        case False
        then have "file_cluster ?m ?g f (unat wanted) = None" using at chain by (simp add: file_cluster_def)
        then show ?thesis
          using False chain lt refl cache \<open>\<not> ucast (cluster_count ?g) \<le> wanted\<close>
          by (simp add: file_cluster_at_def Let_def chain_error_def f_def start [unfolded f_def])
      next
        case True
        then have fc: "file_cluster ?m ?g f k = (if unat (cluster_count ?g) \<le> k then None else walk ?m ?g ?fc k)" for k
          using at chain by (simp add: file_cluster_def)
        have hit: "?Q d (fs.more_update (handle_update (\<lambda>f. f\<lparr>cached_cluster_index := Some wanted, cached_cluster := d\<rparr>)) s')"
          if "reading sz s s' \<and> walk ?m ?g ?fc (unat wanted) = Some d" for d s'
        proof -
          have fr: "file_reading sz s s'" using that file_reading_io by blast
          have "same_stream f (f\<lparr>cached_cluster_index := Some wanted, cached_cluster := d\<rparr>)" by (simp add: same_stream_def)
          then have "cache_ok ?m ?g (f\<lparr>cached_cluster_index := Some wanted, cached_cluster := d\<rparr>)"
            using fc lt that by (simp add: cache_ok_def file_cluster_same)
          moreover have "handle (fs.more s') = f" using reading_fs_frame(3) [of sz s s'] that by (simp add: f_def)
          ultimately show ?thesis using file_reading_cache [OF fr] fc lt that by (simp add: f_def)
        qed
        have miss: "?E e s'" if "reading sz s s' \<and> (is_device_error e \<or> chain_error e \<and> walk ?m ?g ?fc (unat wanted) = None)" for e s'
        proof -
          have "handle (fs.more s') = f" using reading_fs_frame(3) [of sz s s'] that by (simp add: f_def)
          then show ?thesis using that cache fc lt file_reading_io by (auto simp: f_def)
        qed
        have go: "post (bindM (fold_m [unat index..<unat wanted] (chain_step D v ?fc) c0) (\<lambda>cluster'.
          bindM (modify_file (\<lambda>f. f\<lparr>cached_cluster_index := Some wanted, cached_cluster := cluster'\<rparr>)) (\<lambda>_.
          returnM cluster'))) s ?Q ?E"
          unfolding post_bindM post_modify_file post_returnM
          by (rule post_mono [OF post_chain_walk [OF reading_refl [OF ok] wf sz conjunct1 [OF conjunct2 [OF at]]]])
            (use at hit miss in \<open>auto simp: word_le_nat_alt\<close>)
        show ?thesis
          using go chain True \<open>\<not> ucast (cluster_count ?g) \<le> wanted\<close>
          by (simp add: file_cluster_at_def Let_def f_def start [unfolded f_def])
      qed
    qed
  qed
qed

section \<open>Reading\<close>

lemma post_file_sector:
  assumes ok: "io_ok D invar sz s" and wf: "wf_geometry (vol_geometry v)" and sz: "sector_bytes v = sz"
    and cache: "cache_ok (media (device s)) (vol_geometry v) (handle (fs.more s))"
  shows "post (file_sector D v) s
    (\<lambda>p s'. file_reading sz s s' \<and> cache_ok (media (device s)) (vol_geometry v) (handle (fs.more s')) \<and>
       file_addr (media (device s)) v (handle (fs.more s)) (unat (file_position (handle (fs.more s)))) = Some p)
    (\<lambda>e s'. file_reading sz s s' \<and> cache_ok (media (device s)) (vol_geometry v) (handle (fs.more s')) \<and>
       (is_device_error e \<or> chain_error e \<and>
        file_addr (media (device s)) v (handle (fs.more s)) (unat (file_position (handle (fs.more s)))) = None))"
proof -
  note w = within_cluster [OF wf]
  show ?thesis
    unfolding file_sector_def Let_def
    by (simp add: w(1) w(3,5,6) [unfolded sz] sz, rule post_mono [OF post_file_cluster_at [OF ok wf sz cache]])
      (use w(4) in \<open>auto simp: file_addr_def Let_def sz chain_error_def split: option.splits\<close>)
qed

text \<open>After \<open>k\<close> bytes: the handle advanced by \<open>k\<close>, the first \<open>k\<close> bytes of the buffer are the file's.\<close>

definition read_upto :: "nat \<Rightarrow> Volume \<Rightarrow> ('d, File_env) fs_scheme \<Rightarrow> nat \<Rightarrow> ('d, File_env) fs_scheme \<Rightarrow> bool" where
  "read_upto sz v s0 k s \<longleftrightarrow>
     io_ok D invar sz s \<and> media (device s) = media (device s0) \<and> free_clusters s = free_clusters s0 \<and>
     no_cache (handle (fs.more s)) =
       no_cache ((handle (fs.more s0))\<lparr>file_position := file_position (handle (fs.more s0)) + of_usize k\<rparr>) \<and>
     cache_ok (media (device s0)) (vol_geometry v) (handle (fs.more s)) \<and>
     length (out_buf (fs.more s)) = length (out_buf (fs.more s0)) \<and>
     (\<forall>i < length (out_buf (fs.more s0)).
        if i < k then file_byte (media (device s0)) v (handle (fs.more s0))
            (unat (file_position (handle (fs.more s0))) + i) = Some (out_buf (fs.more s) ! i)
        else out_buf (fs.more s) ! i = out_buf (fs.more s0) ! i)"

lemma post_read_step:
  fixes s0 :: "('d, File_env) fs_scheme"
  defines "f0 \<equiv> handle (fs.more s0)"
  assumes wf: "wf_geometry (vol_geometry v)" and sz: "sector_bytes v = sz"
    and st: "read_upto sz v s0 k s" and k: "k < wanted" and len: "wanted \<le> length (out_buf (fs.more s0))"
    and fit: "unat (file_position f0) + wanted < 2 ^ 64"
  shows "post (read_step D v wanted k) s
    (\<lambda>x s'. \<exists>k'. x = Inl k' \<and> k < k' \<and> k' \<le> wanted \<and> read_upto sz v s0 k' s')
    (\<lambda>e s'. media (device s') = media (device s0) \<and> (is_device_error e \<or> chain_error e \<and>
       file_addr (media (device s0)) v f0 (unat (file_position f0) + k) = None))" (is "post _ s ?Q ?E")
proof -
  let ?m = "media (device s0)" and ?p = "unat (file_position f0)"
  let ?f = "handle (fs.more s)"
  have ok: "io_ok D invar sz s" and m: "media (device s) = ?m" and cache: "cache_ok (media (device s)) (vol_geometry v) ?f"
    and nc: "no_cache ?f = no_cache (f0\<lparr>file_position := file_position f0 + of_usize k\<rparr>)"
    using st by (simp_all add: read_upto_def f0_def)
  have same: "same_stream f0 ?f" using no_cache_same(1) [OF nc] by (simp add: same_stream_def)
  have pos: "unat (file_position ?f) = ?p + k"
    using no_cache_same(2) [OF nc] fit k by (simp add: unat_add_small unat_of_usize)
  have szpos: "0 < sz" using sector_size_facts(2) [OF wf] sz by simp
  have body: "post (bindM (read_sector D lba sz) (\<lambda>_.
      let count = min (sz - off) (wanted - k) in
      bindM (sector_slice sz off (off + count)) (\<lambda>bs.
      bindM (put_out k bs) (\<lambda>_. bindM (advance count) (\<lambda>_. returnM (Inl (k + count))))))) s1 ?Q ?E"
    if r: "file_reading sz s s1" and c: "cache_ok (media (device s)) (vol_geometry v) (handle (fs.more s1))"
      and a: "file_addr (media (device s)) v ?f (unat (file_position ?f)) = Some (lba, off)" for s1 lba off
  proof -
    define n where "n = min (sz - off) (wanted - k)"
    note rd = file_readingD [OF r]
    have a': "file_addr ?m v f0 (?p + k) = Some (lba, off)" using a file_addr_same [OF same] m pos by simp
    have off: "off < sz" using file_addr_bounds(1) [OF wf a'] sz by simp
    have n: "0 < n" "off + n \<le> sz" "k + n \<le> wanted" using off k by (auto simp: n_def)
    have len_m: "length (?m lba) = sz" using media_length [of "device s" lba] ok m by (simp add: io_ok_def)
    have bytes: "file_byte ?m v f0 (?p + i) = Some (slice off (off + n) (?m lba) ! (i - k))" if "k \<le> i" "i < k + n" for i
    proof -
      have i: "?p + i = (?p + k) + (i - k)" "off + (i - k) < sector_bytes v" "i - k < n" using that n sz by linarith+
      have "file_addr ?m v f0 (?p + i) = Some (lba, off + (i - k))"
        unfolding i(1) by (rule file_addr_run [OF wf a' i(2)])
      moreover have "slice off (off + n) (?m lba) ! (i - k) = ?m lba ! (off + (i - k))"
        using i(3) n(2) len_m by (intro nth_slice) simp_all
      ultimately show ?thesis by (simp add: file_byte_def)
    qed
    have fin: "?Q (Inl (k + n)) (fs.more_update (handle_update (\<lambda>f. f\<lparr>file_position := file_position f + of_usize n\<rparr>))
        (fs.more_update (out_buf_update (patch k (slice off (off + n) (?m lba)))) s2))"
      if r2: "reading sz s1 s2" for s2
    proof -
      have e: "fs.more s2 = fs.more s1" "free_clusters s2 = free_clusters s1" "media (device s2) = ?m" "io_ok D invar sz s2"
        using reading_fs_frame(2,3) [OF r2] readingD [OF r2] rd(2) m by simp_all
      have h: "no_cache ((handle (fs.more s1))\<lparr>file_position := file_position (handle (fs.more s1)) + of_usize n\<rparr>) =
          no_cache (f0\<lparr>file_position := file_position f0 + of_usize (k + n)\<rparr>)"
        by (rule no_cache_advance) (use rd(6) nc in simp)
      have buf: "length (out_buf (fs.more s1)) = length (out_buf (fs.more s0))"
        "\<forall>i < length (out_buf (fs.more s0)). if i < k then file_byte ?m v f0 (?p + i) = Some (out_buf (fs.more s1) ! i)
          else out_buf (fs.more s1) ! i = out_buf (fs.more s0) ! i"
        using st rd(5) by (simp_all add: read_upto_def f0_def)
      have sl: "length (slice off (off + n) (?m lba)) = n" using n(2) len_m by simp
      then have "k + length (slice off (off + n) (?m lba)) \<le> length (out_buf (fs.more s1))" using n(3) len buf(1) by simp
      note np = nth_patch [OF this]
      have "read_upto sz v s0 (k + n) (fs.more_update (handle_update (\<lambda>f. f\<lparr>file_position := file_position f + of_usize n\<rparr>))
        (fs.more_update (out_buf_update (patch k (slice off (off + n) (?m lba)))) s2))"
        using e rd(4) st h buf sl n(3) len c m bytes
        by (auto simp: read_upto_def f0_def [symmetric] np)
      then show ?thesis using n by auto
    qed
    have err: "?E e s2" if "reading sz s1 s2" "is_device_error e" for e s2
      using that readingD(2) [OF that(1)] rd(2) m by simp
    have go: "post (bindM (read_sector D lba sz) (\<lambda>_. bindM (sector_slice sz off (off + n)) (\<lambda>bs.
      bindM (put_out k bs) (\<lambda>_. bindM (advance n) (\<lambda>_. returnM (Inl (k + n))))))) s1 ?Q ?E"
    proof (rule post_load_slice [OF reading_refl [OF rd(1)] _ n(2)])
      fix s2 assume r2: "reading sz s1 s2"
      have "k + length (slice off (off + n) (media (device s1) lba)) \<le> length (out_buf (fs.more s2))"
        using n(2,3) len_m rd(2,5) m len st reading_fs_frame(3) [OF r2] by (simp add: read_upto_def)
      then show "post (bindM (put_out k (slice off (off + n) (media (device s1) lba)))
          (\<lambda>_. bindM (advance n) (\<lambda>_. returnM (Inl (k + n))))) s2 ?Q ?E"
        using fin [OF r2] rd(2) m by (simp add: advance_def)
    qed (use err in simp_all)
    show ?thesis using go by (simp only: Let_def n_def)
  qed
  have err: "?E e s1" if "file_reading sz s s1 \<and> cache_ok (media (device s)) (vol_geometry v) (handle (fs.more s1)) \<and>
      (is_device_error e \<or> chain_error e \<and> file_addr (media (device s)) v ?f (unat (file_position ?f)) = None)" for e s1
    using that file_addr_same [OF same] m pos file_readingD(2) by auto
  have ok_body: "post (case p of (lba, off) \<Rightarrow> bindM (read_sector D lba sz) (\<lambda>_.
      bindM (sector_slice sz off (off + min (sz - off) (wanted - k))) (\<lambda>bs.
      bindM (put_out k bs) (\<lambda>_. bindM (advance (min (sz - off) (wanted - k))) (\<lambda>_. returnM (Inl (k + min (sz - off) (wanted - k)))))))) s1 ?Q ?E"
    if "file_reading sz s s1 \<and> cache_ok (media (device s)) (vol_geometry v) (handle (fs.more s1)) \<and>
      file_addr (media (device s)) v ?f (unat (file_position ?f)) = Some p" for p s1
    using body [unfolded Let_def, of s1 "fst p" "snd p"] that by (cases p) (simp del: post_bindM)
  show ?thesis
    unfolding read_step_def Let_def sz if_not_P [OF not_not [THEN iffD2, OF k]] post_bindM [of "file_sector D v"]
    by (rule post_mono [OF post_file_sector [OF ok wf sz cache]], erule ok_body, erule err)
qed

lemma read_upto_0:
  assumes "io_ok D invar sz s" "cache_ok (media (device s)) (vol_geometry v) (handle (fs.more s))"
  shows "read_upto sz v s 0 s"
  using assms by (simp add: read_upto_def of_usize_def)

lemma post_file_read:
  assumes ok: "io_ok D invar sz s" and wf: "wf_geometry (vol_geometry v)" and sz: "sector_bytes v = sz"
    and cache: "cache_ok (media (device s)) (vol_geometry v) (handle (fs.more s))"
  shows "post (file_read D v) s
    (\<lambda>n s'. n = transfer_count (handle (fs.more s)) (length (out_buf (fs.more s))) \<and> read_upto sz v s n s')
    (\<lambda>e s'. media (device s') = media (device s) \<and> (is_device_error e \<or> chain_error e \<and>
       (\<exists>i < transfer_count (handle (fs.more s)) (length (out_buf (fs.more s))).
          file_addr (media (device s)) v (handle (fs.more s)) (unat (file_position (handle (fs.more s))) + i) = None)))"
    (is "post _ s ?Q ?E")
proof -
  let ?f = "handle (fs.more s)"
  define wanted where "wanted = transfer_count ?f (length (out_buf (fs.more s)))"
  have zero: "read_upto sz v s 0 s" by (rule read_upto_0 [OF ok cache])
  show ?thesis
  proof (cases "wanted = 0")
    case True
    then have "file_valid_length ?f \<le> file_position ?f \<or> length (out_buf (fs.more s)) = 0"
      by (auto simp: wanted_def transfer_count_def word_le_nat_alt min_def split: if_splits)
    then show ?thesis using True zero by (auto simp: file_read_def wanted_def)
  next
    case False
    then have guard: "\<not> (file_valid_length ?f \<le> file_position ?f \<or> length (out_buf (fs.more s)) = 0)"
      by (auto simp: wanted_def transfer_count_def word_le_nat_alt)
    have len: "wanted \<le> length (out_buf (fs.more s))" by (simp add: wanted_def transfer_count_def)
    have fit: "unat (file_position ?f) + wanted < 2 ^ 64"
      using transfer_count_fits [of ?f "length (out_buf (fs.more s))"] False by (simp add: wanted_def)
    have step: "post (read_step D v wanted k) s'
        (\<lambda>r s''. case r of Inl k' \<Rightarrow> (k' \<le> wanted \<and> read_upto sz v s k' s'') \<and> wanted - k' < wanted - k
           | Inr n \<Rightarrow> ?Q n s'') ?E" if I: "k \<le> wanted \<and> read_upto sz v s k s'" for k s'
    proof (cases "k < wanted")
      case True
      show ?thesis
        by (rule post_mono [OF post_read_step [OF wf sz conjunct2 [OF I] True len fit]])
          (use True in \<open>auto simp: wanted_def [symmetric]\<close>)
    next
      case False
      then have "k = wanted" using I by simp
      then show ?thesis using I by (simp add: read_step_def wanted_def [symmetric])
    qed
    have "post (loop_m (Suc wanted) Diverge (read_step D v wanted) 0) s ?Q ?E"
      by (rule post_loop_m [where I = "\<lambda>k s'. k \<le> wanted \<and> read_upto sz v s k s'" and \<mu> = "\<lambda>k _. wanted - k"])
        (use step zero in auto)
    then show ?thesis
      using guard by (simp add: file_read_def Let_def transfer_count_word wanted_def)
  qed
qed

section \<open>Writing\<close>

text \<open>Storing bytes in a sector; the old contents are read only where they are kept.\<close>

lemma post_store:
  fixes s :: "('d, 'x) io_scheme"
  assumes ok: "io_ok D invar sz s" and fit: "off + length bs \<le> sz"
    and b: "\<not> b \<Longrightarrow> off = 0 \<and> length bs = sz"
  shows "post (bindM (whenM b (read_sector D lba sz)) (\<lambda>_. bindM (sector_copy sz off bs) (\<lambda>_. write_sector D lba sz))) s
    (\<lambda>_ s'. frame D media invar sz {lba} io_same s s' \<and> io_ok D invar sz s' \<and>
       media (device s') = (media (device s))(lba := patch off bs (media (device s) lba)))
    (\<lambda>e s'. frame D media invar sz {lba} io_same s s' \<and> is_device_error e)"
proof (cases b)
  case True
  have "bindM (whenM True (read_sector D lba sz)) = bindM (read_sector D lba sz)" by (simp add: whenM_def)
  then show ?thesis using post_update_sector [OF ok fit, of lba] True by simp
next
  case False
  then have bs: "off = 0" "length bs = sz" using b by simp_all
  have len: "sz \<le> length (scratch s)" "length (media (device s) lba) = sz"
    using ok media_length by (auto simp: io_ok_def)
  let ?s = "s\<lparr>scratch := bs @ drop sz (scratch s)\<rparr>"
  have pat: "patch off bs (take sz (scratch s)) = bs" "patch off bs (media (device s) lba) = bs"
    using bs len by (simp_all add: patch_def)
  have ok': "io_ok D invar sz ?s" using ok bs(2) by (simp add: io_ok_def)
  have "post (write_sector D lba sz) ?s
      (\<lambda>_ s'. frame D media invar sz {lba} io_same s s' \<and> io_ok D invar sz s' \<and>
         media (device s') = (media (device s))(lba := patch off bs (media (device s) lba)))
      (\<lambda>e s'. frame D media invar sz {lba} io_same s s' \<and> is_device_error e)"
    by (rule post_mono [OF post_write_sector [OF ok', of lba]])
      (use bs len pat in \<open>auto simp: frame_def io_same_def same_rest_def\<close>)
  then show ?thesis using False bs len pat by (simp add: whenM_def)
qed

text \<open>After \<open>k\<close> bytes: exactly these bytes of the file hold the input, all else is as before.\<close>

definition write_upto :: "nat \<Rightarrow> Volume \<Rightarrow> u8 list \<Rightarrow> ('d, File_env) fs_scheme \<Rightarrow> nat \<Rightarrow> ('d, File_env) fs_scheme \<Rightarrow> bool" where
  "write_upto sz v input s0 k s \<longleftrightarrow>
     (let m = media (device s); m0 = media (device s0); f0 = handle (fs.more s0); p = unat (file_position f0) in
      io_ok D invar sz s \<and> free_clusters s = free_clusters s0 \<and>
      no_cache (handle (fs.more s)) = no_cache (f0\<lparr>file_position := file_position f0 + of_usize k\<rparr>) \<and>
      cache_ok m0 (vol_geometry v) (handle (fs.more s)) \<and> fat_agree (vol_geometry v) m0 m \<and>
      (\<forall>l. l \<notin> range_sectors m0 v f0 p k \<longrightarrow> m l = m0 l) \<and>
      (\<forall>q. file_byte m v f0 q = (if p \<le> q \<and> q < p + k then Some (input ! (q - p)) else file_byte m0 v f0 q)))"

definition write_error :: "Volume \<Rightarrow> nat \<Rightarrow> ('d, File_env) fs_scheme \<Rightarrow> 'e error exn \<Rightarrow> ('d, File_env) fs_scheme \<Rightarrow> bool" where
  "write_error v n s0 e s \<longleftrightarrow>
     (\<forall>l. l \<notin> range_sectors (media (device s0)) v (handle (fs.more s0)) (unat (file_position (handle (fs.more s0)))) n \<longrightarrow>
        media (device s) l = media (device s0) l) \<and>
     free_clusters s = free_clusters s0 \<and>
     (is_device_error e \<or> chain_error e \<and>
       (\<exists>i < n. file_addr (media (device s0)) v (handle (fs.more s0)) (unat (file_position (handle (fs.more s0))) + i) = None))"

lemma write_upto_advance:
  fixes s0 :: "('d, File_env) fs_scheme"
  defines "f0 \<equiv> handle (fs.more s0)" and "m0 \<equiv> media (device s0)" and "p \<equiv> unat (file_position (handle (fs.more s0)))"
  assumes wf: "wf_geometry (vol_geometry v)" and ok: "io_ok D invar (sector_bytes v) s"
    and dist: "stream_distinct m0 (vol_geometry v) f0"
    and st: "write_upto sz v input s0 k s"
    and a: "file_addr (media (device s)) v f0 (p + k) = Some (lba, off)"
    and fit: "off + n \<le> sector_bytes v" and len: "k + n \<le> length input" and pos: "0 < n"
    and m': "m' = (media (device s))(lba := patch off (slice k (k + n) input) (media (device s) lba))"
  shows "fat_agree (vol_geometry v) m0 m'" "l \<notin> range_sectors m0 v f0 p (k + n) \<Longrightarrow> m' l = m0 l"
    "file_byte m' v f0 q = (if p \<le> q \<and> q < p + (k + n) then Some (input ! (q - p)) else file_byte m0 v f0 q)"
proof -
  let ?m = "media (device s)" and ?g = "vol_geometry v" and ?bs = "slice k (k + n) input"
  have agree: "fat_agree ?g m0 ?m"
    and out: "\<And>l. l \<notin> range_sectors m0 v f0 p k \<Longrightarrow> ?m l = m0 l"
    and old: "\<And>q. file_byte ?m v f0 q = (if p \<le> q \<and> q < p + k then Some (input ! (q - p)) else file_byte m0 v f0 q)"
    using st by (auto simp: write_upto_def f0_def m0_def p_def Let_def)
  have dist': "stream_distinct ?m ?g f0" using dist by (simp add: stream_distinct_def file_cluster_agree [OF agree])
  have len_m: "length (?m l) = sector_bytes v" for l using media_length [of "device s" l] ok by (simp add: io_ok_def)
  have lbs: "length ?bs = n" using len by simp
  have in_s: "lba \<in> range_sectors m0 v f0 p (k + n)"
    using a pos by (intro range_sectorsI [where k = k and off = off]) (simp_all add: file_addr_agree [OF agree])
  note store = file_byte_store [OF wf len_m dist' a, of ?bs, unfolded lbs, OF fit, folded m']
  show "fat_agree ?g m0 m'" by (rule fat_agree_trans [OF agree store(1)])
  show "m' l = m0 l" if "l \<notin> range_sectors m0 v f0 p (k + n)"
    using that in_s out range_sectors_mono [of k "k + n" m0 v f0 p] by (auto simp: m')
  show "file_byte m' v f0 q = (if p \<le> q \<and> q < p + (k + n) then Some (input ! (q - p)) else file_byte m0 v f0 q)"
  proof (cases "p + k \<le> q \<and> q < p + k + n")
    case True
    then have i: "q - (p + k) < k + n - k" "p \<le> q" "k + (q - (p + k)) = q - p" by linarith+
    have "?bs ! (q - (p + k)) = input ! (q - p)" using nth_slice [OF i(1)] len i(3) by simp
    then show ?thesis using True i(2) store(2) [of q] by (simp add: add.assoc)
  next
    case False
    then have "(p \<le> q \<and> q < p + (k + n)) = (p \<le> q \<and> q < p + k)" by linarith
    moreover have "file_byte m' v f0 q = file_byte ?m v f0 q" unfolding store(2) if_not_P [OF False] ..
    ultimately show ?thesis unfolding old by simp
  qed
qed

lemma post_write_sectors_of_file:
  fixes s0 :: "('d, File_env) fs_scheme"
  defines "f0 \<equiv> handle (fs.more s0)"
  assumes wf: "wf_geometry (vol_geometry v)" and sz: "sector_bytes v = sz"
    and dist: "stream_distinct (media (device s0)) (vol_geometry v) f0"
    and st: "write_upto sz v input s0 k s" and r: "file_reading sz s s1"
    and c: "cache_ok (media (device s)) (vol_geometry v) (handle (fs.more s1))"
    and a: "file_addr (media (device s)) v f0 (unat (file_position f0) + k) = Some (lba, off)"
    and n: "off + n \<le> sz" "k + n \<le> length input" and pos: "0 < n" "k + n \<le> wanted"
  shows "post (bindM (whenM (off \<noteq> 0 \<or> n \<noteq> sz) (read_sector D lba sz)) (\<lambda>_.
      bindM (sector_copy sz off (slice k (k + n) input)) (\<lambda>_. bindM (write_sector D lba sz) (\<lambda>_.
      bindM (advance n) (\<lambda>_. returnM (Inl (k + n))))))) s1
    (\<lambda>x s'. x = Inl (k + n) \<and> write_upto sz v input s0 (k + n) s') (write_error v wanted s0)"
    (is "post _ s1 ?Q ?E")
proof -
  let ?old = "media (device s0)" and ?m = "media (device s)" and ?g = "vol_geometry v" and ?bs = "slice k (k + n) input"
  note rd = file_readingD [OF r]
  have ok: "io_ok D invar (sector_bytes v) s" and agree: "fat_agree ?g ?old ?m" and cnt: "free_clusters s = free_clusters s0"
    and nc: "no_cache (handle (fs.more s)) = no_cache (f0\<lparr>file_position := file_position f0 + of_usize k\<rparr>)"
    and out: "\<And>l. l \<notin> range_sectors ?old v f0 (unat (file_position f0)) k \<Longrightarrow> ?m l = ?old l"
    using st unfolding write_upto_def f0_def Let_def sz by blast+
  note adv = write_upto_advance [OF wf ok dist [unfolded f0_def] st a [unfolded f0_def] n(1) [folded sz] n(2) pos(1) refl, folded f0_def]
  have in_s: "lba \<in> range_sectors ?old v f0 (unat (file_position f0)) wanted"
    using a pos by (intro range_sectorsI [where k = k and off = off]) (simp_all add: file_addr_agree [OF agree])
  have mono: "range_sectors ?old v f0 (unat (file_position f0)) k \<subseteq> range_sectors ?old v f0 (unat (file_position f0)) wanted"
    using pos(2) by (intro range_sectors_mono) simp
  have fin: "?Q (Inl (k + n)) (fs.more_update (handle_update (\<lambda>f. f\<lparr>file_position := file_position f + of_usize n\<rparr>)) s2)"
    if w: "frame D media invar sz {lba} io_same s1 s2 \<and> io_ok D invar sz s2 \<and>
      media (device s2) = (media (device s1))(lba := patch off ?bs (media (device s1) lba))" for s2
  proof -
    have e: "fs.more s2 = fs.more s1" "free_clusters s2 = free_clusters s0"
      using w rd(4) cnt fs_more_io [of s2 s1] by (auto simp: frame_def io_same_def)
    have "no_cache ((handle (fs.more s1))\<lparr>file_position := file_position (handle (fs.more s1)) + of_usize n\<rparr>) =
        no_cache (f0\<lparr>file_position := file_position f0 + of_usize (k + n)\<rparr>)"
      by (rule no_cache_advance) (use rd(6) nc in simp)
    then show ?thesis
      using w e c cache_ok_agree [OF agree] adv rd(2) by (simp add: write_upto_def f0_def [symmetric] Let_def)
  qed
  have err: "?E e s2" if w: "frame D media invar sz {lba} io_same s1 s2 \<and> is_device_error e" for e s2
  proof -
    have "media (device s2) l = ?old l" if l: "l \<notin> range_sectors ?old v f0 (unat (file_position f0)) wanted" for l
    proof -
      have "l \<noteq> lba" "l \<notin> range_sectors ?old v f0 (unat (file_position f0)) k" using l in_s mono by blast+
      then show ?thesis using w rd(1,2) out by (auto simp: frame_def)
    qed
    then show ?thesis using w rd(4) cnt frame_io_fs(2) [of sz "{lba}" s1 s2] by (simp add: write_error_def f0_def)
  qed
  have split: "post (bindM (whenM (off \<noteq> 0 \<or> n \<noteq> sz) (read_sector D lba sz)) (\<lambda>_.
      bindM (sector_copy sz off ?bs) (\<lambda>_. bindM (write_sector D lba sz) (\<lambda>_.
      bindM (advance n) (\<lambda>_. returnM (Inl (k + n))))))) s1 ?Q ?E =
    post (bindM (whenM (off \<noteq> 0 \<or> n \<noteq> sz) (read_sector D lba sz)) (\<lambda>_.
      bindM (sector_copy sz off ?bs) (\<lambda>_. write_sector D lba sz))) s1
      (\<lambda>_ s'. ?Q (Inl (k + n)) (fs.more_update (handle_update (\<lambda>f. f\<lparr>file_position := file_position f + of_usize n\<rparr>)) s')) ?E"
    by (simp add: advance_def)
  show ?thesis
    unfolding split
    by (rule post_mono [OF post_store [OF rd(1), where bs = ?bs and off = off and lba = lba]])
      (use n fin err in auto)
qed

lemma post_write_step:
  fixes s0 :: "('d, File_env) fs_scheme"
  defines "f0 \<equiv> handle (fs.more s0)"
  assumes wf: "wf_geometry (vol_geometry v)" and sz: "sector_bytes v = sz"
    and dist: "stream_distinct (media (device s0)) (vol_geometry v) f0"
    and st: "write_upto sz v input s0 k s" and k: "k < wanted" and len: "wanted \<le> length input"
    and fit: "unat (file_position f0) + wanted < 2 ^ 64"
  shows "post (write_step D v input wanted k) s
    (\<lambda>x s'. \<exists>k'. x = Inl k' \<and> k < k' \<and> k' \<le> wanted \<and> write_upto sz v input s0 k' s') (write_error v wanted s0)"
    (is "post _ s ?Q ?E")
proof -
  let ?old = "media (device s0)" and ?m = "media (device s)" and ?p = "unat (file_position f0)" and ?g = "vol_geometry v"
  let ?f = "handle (fs.more s)"
  have ok: "io_ok D invar sz s" and agree: "fat_agree ?g ?old ?m" and cache0: "cache_ok ?old ?g ?f"
    and nc: "no_cache ?f = no_cache (f0\<lparr>file_position := file_position f0 + of_usize k\<rparr>)"
    and out: "\<And>l. l \<notin> range_sectors ?old v f0 ?p k \<Longrightarrow> ?m l = ?old l" and cnt: "free_clusters s = free_clusters s0"
    using st unfolding write_upto_def f0_def Let_def by blast+
  have cache: "cache_ok ?m ?g ?f" using cache0 by (simp add: cache_ok_agree [OF agree])
  have same: "same_stream f0 ?f" using no_cache_same(1) [OF nc] by (simp add: same_stream_def)
  have pos: "unat (file_position ?f) = ?p + k"
    using no_cache_same(2) [OF nc] fit k by (simp add: unat_add_small unat_of_usize)
  have body: "post (case p of (lba, off) \<Rightarrow> bindM (whenM (off \<noteq> 0 \<or> min (sz - off) (wanted - k) \<noteq> sz) (read_sector D lba sz)) (\<lambda>_.
      bindM (sector_copy sz off (slice k (k + min (sz - off) (wanted - k)) input)) (\<lambda>_. bindM (write_sector D lba sz) (\<lambda>_.
      bindM (advance (min (sz - off) (wanted - k))) (\<lambda>_. returnM (Inl (k + min (sz - off) (wanted - k)))))))) s1 ?Q ?E"
    if h: "file_reading sz s s1 \<and> cache_ok ?m ?g (handle (fs.more s1)) \<and> file_addr ?m v ?f (unat (file_position ?f)) = Some p" for p s1
  proof -
    obtain lba off where p: "p = (lba, off)" by (cases p)
    define n where "n = min (sz - off) (wanted - k)"
    have a: "file_addr ?m v f0 (?p + k) = Some (lba, off)" using h p file_addr_same [OF same] pos by simp
    have "off < sz" using file_addr_bounds(1) [OF wf a] sz by simp
    then have n: "0 < n" "off + n \<le> sz" "k + n \<le> wanted" "k + n \<le> length input" using k len by (auto simp: n_def)
    show ?thesis
      unfolding p prod.case n_def [symmetric]
      by (rule post_mono [OF post_write_sectors_of_file [OF wf sz dist [unfolded f0_def] st _ _ a [unfolded f0_def] n(2,4)]])
        (use h n(1,3) in simp_all)
  qed
  have mono: "range_sectors ?old v f0 ?p k \<subseteq> range_sectors ?old v f0 ?p wanted"
    using k by (intro range_sectors_mono) simp
  have err: "?E e s1" if "file_reading sz s s1 \<and> cache_ok ?m ?g (handle (fs.more s1)) \<and>
      (is_device_error e \<or> chain_error e \<and> file_addr ?m v ?f (unat (file_position ?f)) = None)" for e s1
    using that out mono cnt k file_readingD(2,4) [of sz s s1] file_addr_same [OF same] file_addr_agree [OF agree] pos
    by (auto simp: write_error_def f0_def)
  show ?thesis
    unfolding write_step_def Let_def sz if_not_P [OF not_not [THEN iffD2, OF k]] post_bindM [of "file_sector D v"]
    by (rule post_mono [OF post_file_sector [OF ok wf sz cache]], erule body, erule err)
qed

lemma post_file_write:
  assumes ok: "io_ok D invar sz s" and wf: "wf_geometry (vol_geometry v)" and sz: "sector_bytes v = sz"
    and cache: "cache_ok (media (device s)) (vol_geometry v) (handle (fs.more s))"
    and dist: "stream_distinct (media (device s)) (vol_geometry v) (handle (fs.more s))"
  shows "post (file_write D v input) s
    (\<lambda>n s'. n = transfer_count (handle (fs.more s)) (length input) \<and> write_upto sz v input s n s')
    (write_error v (transfer_count (handle (fs.more s)) (length input)) s)" (is "post _ s ?Q ?E")
proof -
  let ?f = "handle (fs.more s)"
  define wanted where "wanted = transfer_count ?f (length input)"
  have zero: "write_upto sz v input s 0 s"
    using ok cache by (auto simp: write_upto_def Let_def of_usize_def fat_agree_def)
  show ?thesis
  proof (cases "wanted = 0")
    case True
    then have "file_valid_length ?f \<le> file_position ?f \<or> input = []"
      by (auto simp: wanted_def transfer_count_def word_le_nat_alt min_def split: if_splits)
    then show ?thesis using True zero by (auto simp: file_write_def wanted_def)
  next
    case False
    then have guard: "\<not> (file_valid_length ?f \<le> file_position ?f \<or> input = [])"
      by (auto simp: wanted_def transfer_count_def word_le_nat_alt)
    have len: "wanted \<le> length input" by (simp add: wanted_def transfer_count_def)
    have fit: "unat (file_position ?f) + wanted < 2 ^ 64"
      using transfer_count_fits [of ?f "length input"] False by (simp add: wanted_def)
    have step: "post (write_step D v input wanted k) s'
        (\<lambda>r s''. case r of Inl k' \<Rightarrow> (k' \<le> wanted \<and> write_upto sz v input s k' s'') \<and> wanted - k' < wanted - k
           | Inr n \<Rightarrow> ?Q n s'') ?E" if I: "k \<le> wanted \<and> write_upto sz v input s k s'" for k s'
    proof (cases "k < wanted")
      case True
      show ?thesis
        by (rule post_mono [OF post_write_step [OF wf sz dist conjunct2 [OF I] True len fit]])
          (use True in \<open>auto simp: wanted_def [symmetric]\<close>)
    next
      case False
      then have "k = wanted" using I by simp
      then show ?thesis using I by (simp add: write_step_def wanted_def [symmetric])
    qed
    have "post (loop_m (Suc wanted) Diverge (write_step D v input wanted) 0) s ?Q ?E"
      by (rule post_loop_m [where I = "\<lambda>k s'. k \<le> wanted \<and> write_upto sz v input s k s'" and \<mu> = "\<lambda>k _. wanted - k"])
        (use step zero in auto)
    then show ?thesis
      using guard by (simp add: file_write_def Let_def transfer_count_word wanted_def)
  qed
qed

end

section \<open>Every operation returns\<close>

lemma returns_file_cluster [returns_intro]:
  "returns (chain_step D v a i c)" "returns (file_cluster_at D v wanted)" "returns (file_sector D v)"
proof -
  show cs: "returns (chain_step D v a i c)" for a i c
    unfolding chain_step_def Let_def by (intro returns_intro)
  show fc: "returns (file_cluster_at D v wanted)" for wanted
    unfolding file_cluster_at_def Let_def by (intro returns_intro cs)
  show "returns (file_sector D v)" unfolding file_sector_def Let_def by (intro returns_intro fc)
qed

lemma file_sector_offset: "gives (\<lambda>p. snd p < sector_bytes v) (file_sector D v)"
  unfolding file_sector_def Let_def by (intro gives_intro gives_guard) simp

lemma step_progress:
  assumes "k < wanted" and "bindM (file_sector D v) rest s = (Inr (Inl k'), s')"
    and "\<And>lba off. gives (\<lambda>x. x = Inl (k + min (sector_bytes v - off) (wanted - k))) (rest (lba, off))"
  shows "wanted - k' < wanted - k"
proof -
  have "gives (\<lambda>x. \<forall>k'. x = Inl k' \<longrightarrow> wanted - k' < wanted - k) (bindM (file_sector D v) rest)"
  proof (rule gives_bind_gives [OF file_sector_offset])
    fix p :: "u64 \<times> nat" assume p: "snd p < sector_bytes v"
    define n where "n = min (sector_bytes v - snd p) (wanted - k)"
    have n: "0 < n" "n \<le> wanted - k" using p assms(1) by (auto simp: n_def)
    then have less: "wanted - (k + n) < wanted - k" using assms(1) by linarith
    show "gives (\<lambda>x. \<forall>k'. x = Inl k' \<longrightarrow> wanted - k' < wanted - k) (rest p)"
    proof (rule gives_mono)
      show "gives (\<lambda>x. x = Inl (k + n)) (rest p)" using assms(3) [of "snd p" "fst p"] by (simp only: n_def prod.collapse)
      show "\<forall>k'. x = Inl k' \<longrightarrow> wanted - k' < wanted - k" if "x = Inl (k + n)" for x :: "nat + 'd" using that less by simp
    qed
  qed
  from gives_run [OF this assms(2)] show ?thesis by simp
qed

lemma returns_transfer [returns_intro]: "returns (file_read D v)" "returns (file_write D v input)"
proof -
  have r: "returns (read_step D v wanted k)" for wanted k
    unfolding read_step_def Let_def by (intro returns_intro)
  have w: "returns (write_step D v input wanted k)" for wanted k
    unfolding write_step_def Let_def by (intro returns_intro)
  have "returns (loop_m (Suc wanted) Diverge (read_step D v wanted) 0)" for wanted
  proof (rule returns_loop_m [where \<mu> = "\<lambda>k. wanted - k"])
    fix k s k' s' assume run: "read_step D v wanted k s = (Inr (Inl k'), s')"
    show "wanted - k' < wanted - k"
    proof (cases "k < wanted")
      case True
      show ?thesis
        using run True unfolding read_step_def Let_def if_not_P [OF not_not [THEN iffD2, OF True]]
        by (elim step_progress [rotated]) (simp, intro gives_intro refl)+
    qed (use run in \<open>simp add: read_step_def returnM_def\<close>)
  qed (simp_all add: r)
  then show "returns (file_read D v)" unfolding file_read_def Let_def by (intro returns_intro)
  have "returns (loop_m (Suc wanted) Diverge (write_step D v input wanted) 0)" for wanted
  proof (rule returns_loop_m [where \<mu> = "\<lambda>k. wanted - k"])
    fix k s k' s' assume run: "write_step D v input wanted k s = (Inr (Inl k'), s')"
    show "wanted - k' < wanted - k"
    proof (cases "k < wanted")
      case True
      show ?thesis
        using run True unfolding write_step_def Let_def if_not_P [OF not_not [THEN iffD2, OF True]]
        by (elim step_progress [rotated]) (simp, intro gives_intro refl)+
    qed (use run in \<open>simp add: write_step_def returnM_def\<close>)
  qed (simp_all add: w)
  then show "returns (file_write D v input)" unfolding file_write_def Let_def by (intro returns_intro)
qed

section \<open>Properties\<close>

text \<open>
  C7: Sequential reading delivers the contents of the file. On any medium and device, with a handle
  whose cache agrees with the chain, \<open>file_read\<close> never writes; on success it moved exactly as many bytes
  as the buffer and the valid length allow, the buffer holds the file's bytes from the old position on
  and is unchanged behind them, the position advanced by their number, nothing else of the handle but
  its cache changed, and the cache still agrees. Apart from device errors it fails only when a byte in
  that range has no place because the chain ends or leaves the heap.
\<close>

theorem file_read_correct:
  fixes D :: "('d, 'e) device_ops" and s :: "('d, File_env) fs_scheme"
  assumes "lawful_device D media invar" "io_ok D invar (sector_bytes v) s" "wf_geometry (vol_geometry v)"
    and "cache_ok (media (device s)) (vol_geometry v) (handle (fs.more s))"
  shows "case file_read D v s of (r, s') \<Rightarrow>
      let f = handle (fs.more s); out = out_buf (fs.more s); p = unat (file_position f); f' = handle (fs.more s');
          out' = out_buf (fs.more s'); m = media (device s)
      in media (device s') = m \<and>
        (case r of
          Inr n \<Rightarrow> n = transfer_count f (length out) \<and> length out' = length out \<and>
            (\<forall>i < length out. if i < n then file_byte m v f (p + i) = Some (out' ! i) else out' ! i = out ! i) \<and>
            no_cache f' = no_cache (f\<lparr>file_position := file_position f + of_usize n\<rparr>) \<and>
            cache_ok m (vol_geometry v) f'
        | Inl e \<Rightarrow> is_device_error e \<or>
            chain_error e \<and> (\<exists>i < transfer_count f (length out). file_addr m v f (p + i) = None))"
  using lawful_device.post_file_read [OF assms(1,2,3) refl assms(4)]
  by (auto simp: post_def Let_def lawful_device.read_upto_def [OF assms(1)] split: prod.splits sum.splits)

text \<open>A contiguous file of 700 bytes in clusters 5 and 6 of the test volume.\<close>

definition test_file :: File where
  "test_file = \<lparr>file_primary = no_locator, file_stream = no_locator, file_entry_locs = no_locators, file_entry_count = 3,
     file_first_cluster = 5, file_data_length = 1024, file_valid_length = 700, file_position = 500,
     file_no_fat_chain = True, cached_cluster_index = None, cached_cluster = 0\<rparr>"

definition test_open :: "(u8 list list, File_env) fs_scheme" where
  "test_open = fs.extend test_card \<lparr>handle = test_file, out_buf = replicate 300 7\<rparr>"

lemma test_open_simps [simp]:
  "device test_open = device test_card" "scratch test_open = scratch test_card" "free_clusters test_open = None"
  "handle (fs.more test_open) = test_file" "out_buf (fs.more test_open) = replicate 300 7"
  by (simp_all add: test_open_def test_card_def fs.extend_def)

lemma test_open_ok: "io_ok mem_ops mem_ok 512 test_open"
  using test_card_ok by (simp add: io_ok_def)

lemma test_file_cache: "cache_ok m g test_file"
  by (simp add: cache_ok_def test_file_def)

theorem file_read_correct_witness:
  "case file_read mem_ops test_volume test_open of (r, s') \<Rightarrow>
     mem_media (device s') = mem_media (device test_card) \<and> (\<forall>n. r = Inr n \<longrightarrow> n = 200)"
proof -
  have "transfer_count test_file 300 = 200" by (simp add: transfer_count_def test_file_def)
  then show ?thesis
    using file_read_correct [OF mem.lawful_device_axioms, of test_volume test_open] test_open_ok test_file_cache wf_test_geometry
    by (auto simp: Let_def split: prod.splits)
qed

text \<open>
  C2: Writing inside a file changes exactly the bytes asked for. For a stream that visits no cluster
  twice, on success \<open>file_write\<close> moved as many bytes as the valid length allows; every byte of the file
  in that range is the input's and every other byte of the file is as before; every sector that holds no
  byte of the range, all FAT entries and the free count are unchanged; the position advanced. On an
  error, too, only sectors with a byte of the range may have changed, and the error is a device error, or a byte in
  the range has no place because the chain ends or leaves the heap.
\<close>

theorem file_write_correct:
  fixes D :: "('d, 'e) device_ops" and s :: "('d, File_env) fs_scheme"
  assumes "lawful_device D media invar" "io_ok D invar (sector_bytes v) s" "wf_geometry (vol_geometry v)"
    and "cache_ok (media (device s)) (vol_geometry v) (handle (fs.more s))"
    and "stream_distinct (media (device s)) (vol_geometry v) (handle (fs.more s))"
  shows "case file_write D v input s of (r, s') \<Rightarrow>
      let f = handle (fs.more s); p = unat (file_position f); f' = handle (fs.more s');
          m = media (device s); m' = media (device s')
      in free_clusters s' = free_clusters s \<and>
        (\<forall>l. l \<notin> range_sectors m v f p (transfer_count f (length input)) \<longrightarrow> m' l = m l) \<and>
        (case r of
          Inr n \<Rightarrow> n = transfer_count f (length input) \<and> fat_agree (vol_geometry v) m m' \<and>
            (\<forall>q. file_byte m' v f q = (if p \<le> q \<and> q < p + n then Some (input ! (q - p)) else file_byte m v f q)) \<and>
            no_cache f' = no_cache (f\<lparr>file_position := file_position f + of_usize n\<rparr>)
        | Inl e \<Rightarrow> is_device_error e \<or>
            chain_error e \<and> (\<exists>i < transfer_count f (length input). file_addr m v f (p + i) = None))"
  using lawful_device.post_file_write [OF assms(1,2,3) refl assms(4,5), of input]
  by (auto simp: post_def Let_def lawful_device.write_upto_def [OF assms(1)] lawful_device.write_error_def [OF assms(1)]
      split: prod.splits sum.splits)

lemma contiguous_distinct: "file_no_fat_chain f \<Longrightarrow> stream_distinct m g f"
  by (auto simp: stream_distinct_def file_cluster_def Let_def word_unat_eq_iff unat_word_ariths unat_of_nat split: if_splits)

theorem file_write_correct_witness:
  "case file_write mem_ops test_volume [1, 2, 3] test_open of (r, s') \<Rightarrow>
     (\<forall>n. r = Inr n \<longrightarrow> n = 3 \<and> file_byte (mem_media (device s')) test_volume test_file 501 = Some 2)"
proof -
  have "transfer_count test_file (Suc (Suc (Suc 0))) = 3" "unat (file_position test_file) = 500" "file_no_fat_chain test_file"
    by (simp_all add: transfer_count_def test_file_def)
  then show ?thesis
    using file_write_correct [OF mem.lawful_device_axioms, of test_volume test_open "[1, 2, 3]"] test_open_ok test_file_cache
      wf_test_geometry contiguous_distinct [of test_file]
    by (auto simp: Let_def split: prod.splits)
qed

text \<open>
  C28: The cluster cache of a handle is transparent: on any chain, resolving a cluster from the cached
  place yields the cluster that walking the FAT from the first one yields, and leaves a cache that
  agrees with the chain again; it only reads.
\<close>

theorem file_cluster_at_transparent:
  fixes D :: "('d, 'e) device_ops" and s :: "('d, File_env) fs_scheme"
  assumes "lawful_device D media invar" "io_ok D invar (sector_bytes v) s" "wf_geometry (vol_geometry v)"
    and "cache_ok (media (device s)) (vol_geometry v) (handle (fs.more s))"
  shows "case file_cluster_at D v wanted s of (r, s') \<Rightarrow>
      let m = media (device s); f = handle (fs.more s); f' = handle (fs.more s') in
      media (device s') = m \<and> cache_ok m (vol_geometry v) f' \<and> no_cache f' = no_cache f \<and>
      (case r of
        Inr c \<Rightarrow> file_cluster m (vol_geometry v) f (unat wanted) = Some c
      | Inl e \<Rightarrow> is_device_error e \<or> chain_error e \<and> file_cluster m (vol_geometry v) f (unat wanted) = None)"
  using lawful_device.post_file_cluster_at [OF assms(1,2,3) refl assms(4), of wanted]
  by (auto simp: post_def Let_def dest: lawful_device.file_readingD(2,6) [OF assms(1)] split: prod.splits sum.splits)

theorem file_cluster_at_transparent_witness:
  "case file_cluster_at mem_ops test_volume 1 test_open of (r, s') \<Rightarrow> (\<forall>c. r = Inr c \<longrightarrow> c = 6)"
proof -
  have "file_cluster m test_geometry test_file 1 = Some 6" for m
    by (simp add: file_cluster_def test_geometry_def test_file_def in_heap_def saturating_add_def)
  then show ?thesis
    using file_cluster_at_transparent [OF mem.lawful_device_axioms, of test_volume test_open 1] test_open_ok test_file_cache
      wf_test_geometry
    by (auto simp: Let_def split: prod.splits)
qed

end
