(* ===== verification/Directory_Ops.thy ===== *)
theory Directory_Ops
  imports File_IO
begin

text \<open>
  Reading directories (\<open>fs/operations.rs\<close>): case folding through the volume's UpCase table, the
  streaming directory reader with its visitor, looking a name up in one directory and resolving a
  path. The caller's \<open>Workspace\<close> is the environment of the operations that take one; a visitor is a
  function on the environment it captures.
\<close>

section \<open>Case folding\<close>

definition upcase_word :: "('d, 'e) device_ops \<Rightarrow> Volume \<Rightarrow> u64 \<Rightarrow> ('d, 'x, 'e, u16) iom" where
  "upcase_word D v byte =
     (let g = vol_geometry v; table = vol_upcase v; sz = sector_bytes v; cluster_bytes = ucast (bytes_per_cluster g) :: u64 in
      if ut_byte_length table < byte + 2 then fail Corrupt else
      bindM (no_panic_if (cluster_bytes \<noteq> 0)) (\<lambda>_.
      bindM (cluster_at D v (ut_first_cluster table) (byte div cluster_bytes)) (\<lambda>cluster.
      let within = byte mod cluster_bytes in
      bindM (ok_or (cluster_lba g cluster) Corrupt) (\<lambda>lba.
      bindM (no_panic_if (sz \<noteq> 0)) (\<lambda>_.
      let offset = as_usize within mod sz in
      if sz < offset + 2 then fail Corrupt else
      bindM (read_sector D (lba + within div of_usize sz) sz) (\<lambda>_.
      bindM (sector_slice sz offset (offset + 2)) (\<lambda>raw.
      returnM (le_u16 raw))))))))"

text \<open>One round of the table scan; \<open>code\<close> is the unit the entry at \<open>byte\<close> stands for.\<close>

definition upcase_round :: "('d, 'e) device_ops \<Rightarrow> Volume \<Rightarrow> u16 \<Rightarrow> u32 \<times> u64 \<Rightarrow> ('d, 'x, 'e, (u32 \<times> u64) + u16) iom" where
  "upcase_round D v u st = (case st of (code, byte) \<Rightarrow>
     let len = ut_byte_length (vol_upcase v) in
     if \<not> byte + 2 \<le> len then fail Corrupt else
     bindM (upcase_word D v byte) (\<lambda>val.
     if val = 0xFFFF then
       if len < byte + 2 + 2 then fail Corrupt else
       bindM (upcase_word D v (byte + 2)) (\<lambda>skipped.
       bindM (ok_or (checked_add code (ucast skipped)) Corrupt) (\<lambda>end_code.
       if code \<le> ucast u \<and> ucast u < end_code then returnM (Inr u)
       else returnM (Inl (end_code, byte + 2 + 2))))
     else if code = ucast u then returnM (Inr val)
     else returnM (Inl (code + 1, byte + 2))))"

definition ascii_upcase :: "u16 \<Rightarrow> u16" where
  "ascii_upcase u = (if 0x61 \<le> u \<and> u \<le> 0x7A then u - 0x61 + 0x41 else u)"

definition upcase_unit :: "('d, 'e) device_ops \<Rightarrow> Volume \<Rightarrow> u16 \<Rightarrow> ('d, 'x, 'e, u16) iom" where
  "upcase_unit D v u =
     (if u \<le> 0x7F then returnM (ascii_upcase u)
      else if \<not> vol_upcase_valid v then fail UpcaseTableCorrupt
      else loop_m (Suc (unat (ut_byte_length (vol_upcase v)))) Diverge (upcase_round D v u) (0, 0))"

definition names_match :: "('d, 'e) device_ops \<Rightarrow> Volume \<Rightarrow> u16 list \<Rightarrow> u16 list \<Rightarrow> ('d, 'x, 'e, bool) iom" where
  "names_match D v actual wanted =
     (if length actual \<noteq> length wanted then returnM False
      else bindM (for_m (zip actual wanted) (\<lambda>(left, right) _.
          bindM (upcase_unit D v left) (\<lambda>a.
          bindM (upcase_unit D v right) (\<lambda>b.
          if a \<noteq> b then returnM (Inr False) else returnM (Inl ())))) ()) (\<lambda>r.
        case r of Inr b \<Rightarrow> returnM b | Inl _ \<Rightarrow> returnM True))"

definition hash_byte :: "u16 \<Rightarrow> u8 \<Rightarrow> u16" where
  "hash_byte acc b = ror1 acc + ucast b"

definition upcase_name_hash :: "('d, 'e) device_ops \<Rightarrow> Volume \<Rightarrow> u16 list \<Rightarrow> ('d, 'x, 'e, u16) iom" where
  "upcase_name_hash D v name =
     fold_m name (\<lambda>u acc. bindM (upcase_unit D v u) (\<lambda>up. returnM (foldl hash_byte acc (le16 up)))) 0"

section \<open>Reading a directory\<close>

type_synonym 'x visitor = "DirectoryEntry \<Rightarrow> 'x \<Rightarrow> bool \<times> 'x"

definition call_visitor :: "'x visitor \<Rightarrow> DirectoryEntry \<Rightarrow> ('d, 'x, 'e, bool) fsm" where
  "call_visitor visitor e = (\<lambda>s. case visitor e (fs.more s) of (b, x) \<Rightarrow> (Inr b, fs.more_update (\<lambda>_. x) s))"

text \<open>One 32-byte entry: \<open>Inr\<close> ends the reading, at the end marker or when the visitor says so.\<close>

definition visit_entry :: "'x visitor \<Rightarrow> u64 \<Rightarrow> nat \<times> u8 list \<Rightarrow> EntrySet \<Rightarrow> ('d, 'x, 'e, EntrySet + unit) fsm" where
  "visit_entry visitor lba row es = (case row of (slot, raw) \<Rightarrow>
     if raw ! 0 = 0 then returnM (Inr ()) else
     case push es raw \<lparr>el_lba = lba, el_offset = word_of_nat (slot * 32)\<rparr> of
       (Inl e, _) \<Rightarrow> fail e
     | (Inr None, es') \<Rightarrow> returnM (Inl es')
     | (Inr (Some parsed), es') \<Rightarrow>
         bindM (call_visitor visitor parsed) (\<lambda>go. if \<not> go then returnM (Inr ()) else returnM (Inl es')))"

text \<open>The bytes of a sector that belong to the directory; \<open>remaining\<close> is exact unless the length is 0.\<close>

definition usable_bytes :: "Directory \<Rightarrow> nat \<Rightarrow> u64 \<Rightarrow> nat" where
  "usable_bytes dir sz remaining = (if dir_data_length dir = 0 then sz else min sz (unat remaining))"

definition after_sector :: "Directory \<Rightarrow> nat \<Rightarrow> u64 \<Rightarrow> u64" where
  "after_sector dir usable remaining =
     (if dir_data_length dir \<noteq> 0 then saturating_sub remaining (of_usize usable) else remaining)"

definition read_directory_sector ::
    "('d, 'e) device_ops \<Rightarrow> Volume \<Rightarrow> Directory \<Rightarrow> 'x visitor \<Rightarrow> u64 \<Rightarrow> u64 \<times> EntrySet \<Rightarrow> ('d, 'x, 'e, (u64 \<times> EntrySet) + unit) fsm" where
  "read_directory_sector D v dir visitor lba st = (case st of (remaining, es) \<Rightarrow>
     let sz = sector_bytes v in
     if dir_data_length dir \<noteq> 0 \<and> remaining = 0 then returnM (Inr ()) else
     bindM (read_sector D lba sz) (\<lambda>_.
     bindM (sector sz) (\<lambda>bytes.
     let usable = usable_bytes dir sz remaining in
     bindM (for_m (enumerate 0 (chunks_exact 32 (take usable bytes))) (visit_entry visitor lba) es) (\<lambda>r.
     case r of
       Inr _ \<Rightarrow> returnM (Inr ())
     | Inl es' \<Rightarrow> returnM (Inl (after_sector dir usable remaining, es'))))))"

definition read_directory_cluster ::
    "('d, 'e) device_ops \<Rightarrow> Volume \<Rightarrow> Directory \<Rightarrow> 'x visitor \<Rightarrow> u32 \<times> u64 \<times> EntrySet \<Rightarrow>
      ('d, 'x, 'e, (u32 \<times> u64 \<times> EntrySet) + unit) fsm" where
  "read_directory_cluster D v dir visitor st = (case st of (cluster, acc) \<Rightarrow>
     let g = vol_geometry v in
     bindM (ok_or (cluster_lba g cluster) Corrupt) (\<lambda>base.
     bindM (for_m [0..<unat (sectors_per_cluster g)] (\<lambda>i. read_directory_sector D v dir visitor (base + of_usize i)) acc) (\<lambda>r.
     case r of
       Inr _ \<Rightarrow> returnM (Inr ())
     | Inl (remaining, es) \<Rightarrow>
         if dir_no_fat_chain dir then
           if remaining = 0 then returnM (Inr ())
           else bindM (ok_or (checked_add cluster 1) Corrupt) (\<lambda>c. returnM (Inl (c, remaining, es)))
         else
           bindM (next_cluster D v cluster) (\<lambda>c.
           if 0xFFFFFFF8 \<le> c then returnM (Inr ())
           else if c < 2 then fail Corrupt
           else returnM (Inl (c, remaining, es))))))"

definition read_directory :: "('d, 'e) device_ops \<Rightarrow> Volume \<Rightarrow> Directory \<Rightarrow> 'x visitor \<Rightarrow> ('d, 'x, 'e, unit) fsm" where
  "read_directory D v dir visitor =
     bindM (require (sector_bytes v)) (\<lambda>_.
     loop_m (unat (cluster_count (vol_geometry v))) (Error Corrupt) (read_directory_cluster D v dir visitor)
       (dir_first_cluster dir, dir_data_length dir, new_entry_set))"

definition read_root :: "('d, 'e) device_ops \<Rightarrow> Volume \<Rightarrow> 'x visitor \<Rightarrow> ('d, 'x, 'e, unit) fsm" where
  "read_root D v visitor = read_directory D v (root_directory (vol_geometry v)) visitor"

text \<open>The visitor of \<open>first_directory_entry\<close> stores the entry it sees and stops.\<close>

definition first_directory_entry :: "('d, 'e) device_ops \<Rightarrow> Volume \<Rightarrow> Directory \<Rightarrow> ('d, 'x, 'e, DirectoryEntry option) fsm" where
  "first_directory_entry D v dir =
     bindM (with_env None (read_directory D v dir (\<lambda>e _. (False, Some e)))) (\<lambda>(_, first). returnM first)"

section \<open>Looking a name up\<close>

type_synonym ('d, 'e, 'a) ws_m = "('d, Workspace, 'e, 'a) fsm"

definition ws_push :: "u8 list \<Rightarrow> EntryLocator \<Rightarrow> ('d, 'e, DirectoryEntry option) ws_m" where
  "ws_push raw loc =
     bindM (getsM (\<lambda>s. entry_set (fs.more s))) (\<lambda>es.
     case push es raw loc of (r, es') \<Rightarrow>
       bindM (modifyM (fs.more_update (entry_set_update (\<lambda>_. es')))) (\<lambda>_. from_result r))"

definition ws_wanted :: "nat \<Rightarrow> ('d, 'e, u16 list) ws_m" where
  "ws_wanted n =
     bindM (getsM (\<lambda>s. utf16 (fs.more s))) (\<lambda>units.
     bindM (no_panic_if (n \<le> length units)) (\<lambda>_. returnM (take n units)))"

definition find_slot :: "('d, 'e) device_ops \<Rightarrow> Volume \<Rightarrow> nat \<Rightarrow> u64 \<Rightarrow> nat \<Rightarrow> ('d, 'e, unit + DirectoryEntry option) ws_m" where
  "find_slot D v wanted_len lba slot =
     (let sz = sector_bytes v; offset = slot * 32 in
      bindM (sector_byte sz offset) (\<lambda>kind.
      if kind = 0 then returnM (Inr None) else
      bindM (sector_slice sz offset (offset + 32)) (\<lambda>raw.
      bindM (ws_push raw \<lparr>el_lba = lba, el_offset = word_of_nat offset\<rparr>) (\<lambda>r.
      case r of
        None \<Rightarrow> returnM (Inl ())
      | Some e \<Rightarrow>
          bindM (ws_wanted wanted_len) (\<lambda>wanted.
          bindM (names_match D v (name_utf16 e) wanted) (\<lambda>same.
          if same then returnM (Inr (Some e))
          else bindM (read_sector D lba sz) (\<lambda>_. returnM (Inl ()))))))))"

definition find_sector ::
    "('d, 'e) device_ops \<Rightarrow> Volume \<Rightarrow> Directory \<Rightarrow> nat \<Rightarrow> u64 \<Rightarrow> u64 \<Rightarrow> ('d, 'e, u64 + DirectoryEntry option) ws_m" where
  "find_sector D v dir wanted_len lba remaining =
     (let sz = sector_bytes v in
      if dir_data_length dir \<noteq> 0 \<and> remaining = 0 then returnM (Inr None) else
      bindM (read_sector D lba sz) (\<lambda>_.
      let usable = usable_bytes dir sz remaining in
      bindM (for_m [0..<usable div 32] (\<lambda>slot _. find_slot D v wanted_len lba slot) ()) (\<lambda>r.
      case r of
        Inr x \<Rightarrow> returnM (Inr x)
      | Inl _ \<Rightarrow> returnM (Inl (after_sector dir usable remaining)))))"

definition find_cluster ::
    "('d, 'e) device_ops \<Rightarrow> Volume \<Rightarrow> Directory \<Rightarrow> nat \<Rightarrow> u32 \<times> u64 \<Rightarrow> ('d, 'e, (u32 \<times> u64) + DirectoryEntry option) ws_m" where
  "find_cluster D v dir wanted_len st = (case st of (cluster, remaining) \<Rightarrow>
     let g = vol_geometry v in
     bindM (ok_or (cluster_lba g cluster) Corrupt) (\<lambda>base.
     bindM (for_m [0..<unat (sectors_per_cluster g)] (\<lambda>i. find_sector D v dir wanted_len (base + of_usize i)) remaining) (\<lambda>r.
     case r of
       Inr x \<Rightarrow> returnM (Inr x)
     | Inl remaining' \<Rightarrow>
         if dir_no_fat_chain dir then returnM (Inr None) else
         bindM (next_cluster D v cluster) (\<lambda>c.
         if 0xFFFFFFF8 \<le> c then returnM (Inr None)
         else if c < 2 then fail Corrupt
         else returnM (Inl (c, remaining'))))))"

definition find_child :: "('d, 'e) device_ops \<Rightarrow> Volume \<Rightarrow> Directory \<Rightarrow> nat \<Rightarrow> ('d, 'e, DirectoryEntry option) ws_m" where
  "find_child D v dir wanted_len =
     bindM (require (sector_bytes v)) (\<lambda>_.
     loop_m (unat (cluster_count (vol_geometry v))) (Error Corrupt) (find_cluster D v dir wanted_len)
       (dir_first_cluster dir, dir_data_length dir))"

section \<open>Paths\<close>

definition slash :: u32 where
  "slash = 0x2F"

text \<open>\<open>split('/')\<close>, \<open>trim_matches('/')\<close> and \<open>rsplit_once('/')\<close>\<close>

fun split_slash :: "str \<Rightarrow> str list" where
  "split_slash [] = [[]]"
| "split_slash (c # cs) =
     (if c = slash then [] # split_slash cs
      else (case split_slash cs of [] \<Rightarrow> [[c]] | seg # segs \<Rightarrow> (c # seg) # segs))"

definition trim_slashes :: "str \<Rightarrow> str" where
  "trim_slashes path = rev (dropWhile (\<lambda>c. c = slash) (rev (dropWhile (\<lambda>c. c = slash) path)))"

definition rsplit_slash :: "str \<Rightarrow> (str \<times> str) option" where
  "rsplit_slash path =
     (if slash \<in> set path
      then let name = rev (takeWhile (\<lambda>c. c \<noteq> slash) (rev path))
           in Some (take (length path - Suc (length name)) path, name)
      else None)"

text \<open>\<open>utf8_to_utf16(name, &mut workspace.utf16)\<close>\<close>

definition ws_encode :: "str \<Rightarrow> ('d, 'e, nat) ws_m" where
  "ws_encode name =
     bindM (getsM (\<lambda>s. utf16 (fs.more s))) (\<lambda>out.
     case utf8_to_utf16 name out of (r, out') \<Rightarrow>
       bindM (modifyM (fs.more_update (utf16_update (\<lambda>_. out')))) (\<lambda>_. from_result r))"

primrec lookup_segments :: "('d, 'e) device_ops \<Rightarrow> Volume \<Rightarrow> str list \<Rightarrow> Directory \<Rightarrow> str \<Rightarrow> ('d, 'e, DirectoryEntry) ws_m" where
  "lookup_segments D v [] dir current =
     bindM (ws_encode current) (\<lambda>wanted_len.
     bindM (find_child D v dir wanted_len) (\<lambda>r. ok_or r PathNotFound))"
| "lookup_segments D v (next_one # segments) dir current =
     bindM (ws_encode current) (\<lambda>wanted_len.
     bindM (find_child D v dir wanted_len) (\<lambda>r.
     bindM (ok_or r PathNotFound) (\<lambda>e.
     bindM (ok_or (entry_directory e) NotDirectory) (\<lambda>dir'.
     lookup_segments D v segments dir' next_one))))"

definition lookup_with_workspace :: "('d, 'e) device_ops \<Rightarrow> Volume \<Rightarrow> str \<Rightarrow> ('d, 'e, DirectoryEntry) ws_m" where
  "lookup_with_workspace D v path =
     (case filter (\<lambda>segment. segment \<noteq> []) (split_slash path) of
        [] \<Rightarrow> fail PathNotFound
      | segment # segments \<Rightarrow> lookup_segments D v segments (root_directory (vol_geometry v)) segment)"

definition fs_lookup :: "('d, 'e) device_ops \<Rightarrow> Volume \<Rightarrow> str \<Rightarrow> ('d, 'x, 'e, DirectoryEntry) fsm" where
  "fs_lookup D v path = bindM (with_env new_workspace (lookup_with_workspace D v path)) (\<lambda>(e, _). returnM e)"

definition open_with_workspace :: "('d, 'e) device_ops \<Rightarrow> Volume \<Rightarrow> str \<Rightarrow> ('d, 'e, File) ws_m" where
  "open_with_workspace D v path =
     bindM (lookup_with_workspace D v path) (\<lambda>e.
     if is_directory e then fail IsDirectory else returnM (file_of_entry e))"

definition fs_open :: "('d, 'e) device_ops \<Rightarrow> Volume \<Rightarrow> str \<Rightarrow> ('d, 'x, 'e, File) fsm" where
  "fs_open D v path = bindM (with_env new_workspace (open_with_workspace D v path)) (\<lambda>(f, _). returnM f)"

end
