(* ===== verification/Entry_Write.thy ===== *)
theory Entry_Write
  imports Directory_Ops
begin

text \<open>
  Writing directory entry sets (\<open>fs/operations.rs\<close>): encoding and storing a new set, finding free
  slots (growing a directory when it is full), retiring a set, recomputing its checksum and releasing
  the clusters of an entry.
\<close>

section \<open>Encoding\<close>

record NewEntrySet =
  ne_name :: "u16 list"
  ne_attributes :: u16
  ne_first_cluster :: u32
  ne_data_length :: u64
  ne_no_fat_chain :: bool
  ne_created :: ExfatTimestamp
  ne_modified :: ExfatTimestamp
  ne_accessed :: ExfatTimestamp

text \<open>The 32 bytes of the primary (its checksum still zero), the stream and a name entry.\<close>

definition primary_row :: "NewEntrySet \<Rightarrow> nat \<Rightarrow> u8 list" where
  "primary_row c count =
     [0x85, word_of_nat (count - 1), 0, 0] @ le16 (ne_attributes c) @ [0, 0] @
     le32 (date_time (ne_created c)) @ le32 (date_time (ne_modified c)) @ le32 (date_time (ne_accessed c)) @
     [ten_millis (ne_created c), ten_millis (ne_modified c), utc_offset (ne_created c), utc_offset (ne_modified c),
      utc_offset (ne_accessed c)] @ replicate 7 0"

definition stream_row :: "NewEntrySet \<Rightarrow> u16 \<Rightarrow> u8 list" where
  "stream_row c hash =
     [0xC0, if ne_no_fat_chain c then 3 else 1, 0, word_of_nat (length (ne_name c))] @ le16 hash @ [0, 0] @
     le64 (ne_data_length c) @ replicate 4 0 @ le32 (ne_first_cluster c) @ le64 (ne_data_length c)"

definition name_row :: "u8 \<Rightarrow> u16 list \<Rightarrow> u8 list" where
  "name_row flags units = [0xC1, flags] @ concat (map le16 units) @ replicate (30 - 2 * length units) 0"

definition entry_row :: "NewEntrySet \<Rightarrow> nat \<Rightarrow> u16 \<Rightarrow> nat \<Rightarrow> u8 list" where
  "entry_row c count hash index =
     (if index = 0 then primary_row c count
      else if index = 1 then stream_row c hash
      else
        let first = (index - 2) * 15
        in name_row 0 (slice first (min (first + 15) (length (ne_name c))) (ne_name c)))"

definition names_needed :: "nat \<Rightarrow> nat" where
  "names_needed len = (len + 14) div 15"

section \<open>Storing a set\<close>

definition store_row :: "('d, 'e) device_ops \<Rightarrow> nat \<Rightarrow> EntryLocator \<Rightarrow> u8 list \<Rightarrow> ('d, 'x, 'e, unit) iom" where
  "store_row D sz loc row =
     (let offset = unat (el_offset loc) in
      if sz < offset + 32 then fail Corrupt else
      bindM (read_sector D (el_lba loc) sz) (\<lambda>_.
      bindM (sector_copy sz offset row) (\<lambda>_.
      write_sector D (el_lba loc) sz)))"

text \<open>The set checksum goes to bytes 2 and 3 of the primary entry.\<close>

definition store_checksum :: "('d, 'e) device_ops \<Rightarrow> nat \<Rightarrow> EntryLocator \<Rightarrow> u16 \<Rightarrow> ('d, 'x, 'e, unit) iom" where
  "store_checksum D sz loc checksum =
     bindM (read_sector D (el_lba loc) sz) (\<lambda>_.
     bindM (sector_copy sz (unat (el_offset loc) + 2) (le16 checksum)) (\<lambda>_.
     write_sector D (el_lba loc) sz))"

definition write_entry_set ::
    "('d, 'e) device_ops \<Rightarrow> Volume \<Rightarrow> EntryLocator list \<Rightarrow> NewEntrySet \<Rightarrow> ('d, 'x, 'e, unit) iom" where
  "write_entry_set D v locs c =
     (let sz = sector_bytes v; count = length locs in
      if \<not> (3 \<le> count \<and> count \<le> 19) \<or> names_needed (length (ne_name c)) + 2 \<noteq> count then fail Corrupt else
      bindM (upcase_name_hash D v (ne_name c)) (\<lambda>hash.
      bindM (fold_m (enumerate 0 locs) (\<lambda>(index, loc) checksum.
          let row = entry_row c count hash index in
          bindM (store_row D sz loc row) (\<lambda>_.
          returnM (entry_set_checksum_step checksum row (index = 0)))) 0) (\<lambda>checksum.
      store_checksum D sz (locs ! 0) checksum)))"

text \<open>Retiring a set clears the in-use bit of each of its entries.\<close>

definition retire_row :: "('d, 'e) device_ops \<Rightarrow> nat \<Rightarrow> EntryLocator \<Rightarrow> ('d, 'x, 'e, unit) iom" where
  "retire_row D sz loc =
     (let offset = unat (el_offset loc) in
      if sz < offset + 32 then fail Corrupt else
      bindM (read_sector D (el_lba loc) sz) (\<lambda>_.
      bindM (sector_byte sz offset) (\<lambda>b.
      bindM (sector_copy sz offset [b AND NOT 0x80]) (\<lambda>_.
      write_sector D (el_lba loc) sz))))"

definition retire_entry_set :: "('d, 'e) device_ops \<Rightarrow> Volume \<Rightarrow> DirectoryEntry \<Rightarrow> ('d, 'x, 'e, unit) iom" where
  "retire_entry_set D v e =
     bindM (no_panic_if (unat (de_entry_count e) \<le> length (de_entry_locs e))) (\<lambda>_.
     each_m (take (unat (de_entry_count e)) (de_entry_locs e)) (retire_row D (sector_bytes v)))"

definition recompute_entry_checksum :: "('d, 'e) device_ops \<Rightarrow> Volume \<Rightarrow> DirectoryEntry \<Rightarrow> ('d, 'x, 'e, unit) iom" where
  "recompute_entry_checksum D v e =
     (let sz = sector_bytes v in
      bindM (no_panic_if (unat (de_entry_count e) \<le> length (de_entry_locs e))) (\<lambda>_.
      bindM (fold_m (enumerate 0 (take (unat (de_entry_count e)) (de_entry_locs e))) (\<lambda>(index, loc) checksum.
          let offset = unat (el_offset loc) in
          bindM (read_sector D (el_lba loc) sz) (\<lambda>_.
          bindM (sector_slice sz offset (offset + 32)) (\<lambda>raw.
          returnM (entry_set_checksum_step checksum raw (index = 0))))) 0) (\<lambda>checksum.
      store_checksum D sz (de_primary e) checksum)))"

section \<open>Releasing clusters\<close>

text \<open>One round: \<open>Inr\<close> ends the loop body early without a next cluster.\<close>

definition release_step ::
    "('d, 'e) device_ops \<Rightarrow> Volume \<Rightarrow> bool \<Rightarrow> nat \<Rightarrow> nat \<Rightarrow> u32 \<Rightarrow> ('d, 'x, 'e, u32) fsm" where
  "release_step D v contiguous clusters index cluster =
     bindM (if contiguous \<or> Suc index = clusters then returnM None
       else bindM (next_cluster D v cluster) (\<lambda>n. returnM (Some n))) (\<lambda>next_one.
     bindM (set_fat D v cluster 0) (\<lambda>_.
     bindM (set_bitmap D v cluster False) (\<lambda>_.
     case next_one of
       None \<Rightarrow> returnM cluster
     | Some n \<Rightarrow>
         if n < 2 \<or> saturating_add (cluster_count (vol_geometry v)) 2 \<le> n then fail Corrupt else returnM n)))"

definition release_entry_clusters :: "('d, 'e) device_ops \<Rightarrow> Volume \<Rightarrow> DirectoryEntry \<Rightarrow> ('d, 'x, 'e, unit) fsm" where
  "release_entry_clusters D v e =
     (let cluster_bytes = ucast (bytes_per_cluster (vol_geometry v)) in
      if de_first_cluster e < 2 \<or> de_data_length e = 0 then returnM () else
      bindM (no_panic_if (cluster_bytes \<noteq> 0)) (\<lambda>_.
      let clusters = unat (div_ceil (de_data_length e) cluster_bytes) in
      bindM (fold_m [0..<clusters] (release_step D v (de_no_fat_chain e) clusters) (de_first_cluster e)) (\<lambda>_.
      returnM ())))"

section \<open>Free slots\<close>

definition set_locators :: "EntryLocator list \<Rightarrow> ('d, 'e, unit) ws_m" where
  "set_locators locs = modifyM (fs.more_update (locators_update (\<lambda>_. locs)))"

definition get_locators :: "('d, 'e, EntryLocator list) ws_m" where
  "get_locators = getsM (\<lambda>s. locators (fs.more s))"

definition set_locator :: "nat \<Rightarrow> EntryLocator \<Rightarrow> ('d, 'e, unit) ws_m" where
  "set_locator i loc =
     bindM get_locators (\<lambda>locs.
     bindM (no_panic_if (i < length locs)) (\<lambda>_. set_locators (locs[i := loc])))"

text \<open>One slot of a loaded sector; \<open>run\<close> counts the free slots in a row that end before it.\<close>

definition free_slot :: "nat \<Rightarrow> nat \<Rightarrow> u64 \<Rightarrow> nat \<Rightarrow> nat \<Rightarrow> ('d, 'e, nat + EntryLocator list) ws_m" where
  "free_slot sz wanted lba slot run =
     bindM (sector_byte sz (slot * 32)) (\<lambda>kind.
     if kind AND 0x80 = 0 then
       bindM (if run < wanted then set_locator run \<lparr>el_lba = lba, el_offset = word_of_nat (slot * 32)\<rparr> else returnM ()) (\<lambda>_.
       if Suc run = wanted then bindM get_locators (\<lambda>locs. returnM (Inr locs)) else returnM (Inl (Suc run)))
     else returnM (Inl 0))"

definition free_sector ::
    "('d, 'e) device_ops \<Rightarrow> Volume \<Rightarrow> Directory \<Rightarrow> nat \<Rightarrow> u64 \<Rightarrow> nat \<times> u64 \<Rightarrow> ('d, 'e, (nat \<times> u64) + EntryLocator list) ws_m" where
  "free_sector D v dir wanted lba st = (case st of (run, remaining) \<Rightarrow>
     let sz = sector_bytes v in
     if remaining = 0 \<and> dir_data_length dir \<noteq> 0 then fail NoSpace else
     bindM (read_sector D lba sz) (\<lambda>_.
     bindM (for_m [0..<usable_bytes dir sz remaining div 32] (free_slot sz wanted lba) run) (\<lambda>r.
     case r of
       Inr locs \<Rightarrow> returnM (Inr locs)
     | Inl run' \<Rightarrow> returnM (Inl (run', after_sector dir sz remaining)))))"

text \<open>
  One cluster of the scan: \<open>Inr (Inr locs)\<close> when the slots were found, \<open>Inr (Inl (cluster, base, run))\<close>
  at the end of the chain.
\<close>

definition free_cluster ::
    "('d, 'e) device_ops \<Rightarrow> Volume \<Rightarrow> Directory \<Rightarrow> nat \<Rightarrow> u32 \<times> nat \<times> u64 \<Rightarrow>
      ('d, 'e, (u32 \<times> nat \<times> u64) + ((u32 \<times> u64 \<times> nat) + EntryLocator list)) ws_m" where
  "free_cluster D v dir wanted st = (case st of (cluster, acc) \<Rightarrow>
     let g = vol_geometry v in
     bindM (ok_or (cluster_lba g cluster) Corrupt) (\<lambda>base.
     bindM (for_m [0..<unat (sectors_per_cluster g)] (\<lambda>i. free_sector D v dir wanted (base + of_usize i)) acc) (\<lambda>r.
     case r of
       Inr locs \<Rightarrow> returnM (Inr (Inr locs))
     | Inl (run, remaining) \<Rightarrow>
         if dir_no_fat_chain dir then fail NoSpace else
         bindM (next_cluster D v cluster) (\<lambda>c.
         if c < 0xFFFFFFF8
         then (if c < 2 then fail Corrupt else returnM (Inl (c, run, remaining)))
         else returnM (Inr (Inl (cluster, base, run)))))))"

text \<open>Every end marker of a sector becomes an unused entry, so that readers go on to the next cluster.\<close>

definition mark_unused :: "nat \<Rightarrow> u8 list \<Rightarrow> u8 list" where
  "mark_unused sz bs =
     map (\<lambda>(i, b). if i mod 32 = 0 \<and> i div 32 < sz div 32 \<and> b = 0 then 0x80 else b) (enumerate 0 bs)"

definition directory_file :: "Directory \<Rightarrow> EntryLocator \<Rightarrow> EntryLocator \<Rightarrow> File" where
  "directory_file dir primary stream =
     \<lparr>file_primary = primary, file_stream = stream, file_entry_locs = dir_entry_locs dir,
      file_entry_count = dir_entry_count dir, file_first_cluster = dir_first_cluster dir,
      file_data_length = dir_data_length dir, file_valid_length = dir_data_length dir, file_position = 0,
      file_no_fat_chain = False, cached_cluster_index = None, cached_cluster = 0\<rparr>"

definition extend_directory ::
    "('d, 'e) device_ops \<Rightarrow> Volume \<Rightarrow> Directory \<Rightarrow> u32 \<Rightarrow> u64 \<Rightarrow> ('d, 'x, 'e, Directory \<times> u32) fsm" where
  "extend_directory D v dir cluster base =
     (let g = vol_geometry v; sz = sector_bytes v in
      bindM (ok_or (checked_add cluster 1) NoSpace) (\<lambda>preferred.
      bindM (allocate_cluster_preferred D v preferred) (\<lambda>new_one.
      bindM (set_fat D v cluster new_one) (\<lambda>_.
      let last_lba = base + ucast (sectors_per_cluster g - 1) in
      bindM (read_sector D last_lba sz) (\<lambda>_.
      bindM (sector sz) (\<lambda>bytes.
      bindM (set_sector (mark_unused sz bytes)) (\<lambda>_.
      bindM (write_sector D last_lba sz) (\<lambda>_.
      if dir_data_length dir = 0 then returnM (dir, new_one) else
      bindM (ok_or (checked_add (dir_data_length dir) (ucast (bytes_per_cluster g))) NoSpace) (\<lambda>len.
      let dir' = dir\<lparr>dir_data_length := len\<rparr> in
      bindM (ok_or (dir_primary dir') Corrupt) (\<lambda>primary.
      bindM (ok_or (dir_stream dir') Corrupt) (\<lambda>stream.
      bindM (update_stream D v (directory_file dir' primary stream)) (\<lambda>_.
      returnM (dir', new_one)))))))))))))"

text \<open>A run that reached the end of the old chain goes on at the start of the new cluster.\<close>

definition finish_run :: "Volume \<Rightarrow> nat \<Rightarrow> nat \<Rightarrow> u32 \<Rightarrow> ('d, 'e, EntryLocator list option) ws_m" where
  "finish_run v wanted run new_one =
     (if run = 0 then returnM None else
      bindM (ok_or (cluster_lba (vol_geometry v) new_one) Corrupt) (\<lambda>new_lba.
      let needed = wanted - run in
      if needed \<le> sector_bytes v div 32 then
        bindM (each_m [0..<needed] (\<lambda>i. set_locator (run + i) \<lparr>el_lba = new_lba, el_offset = word_of_nat (i * 32)\<rparr>)) (\<lambda>_.
        bindM get_locators (\<lambda>locs. returnM (Some locs)))
      else returnM None))"

definition find_free_round ::
    "('d, 'e) device_ops \<Rightarrow> Volume \<Rightarrow> nat \<Rightarrow> Directory \<Rightarrow> ('d, 'e, Directory + EntryLocator list) ws_m" where
  "find_free_round D v wanted dir =
     bindM (set_locators no_locators) (\<lambda>_.
     bindM (loop_m (unat (cluster_count (vol_geometry v))) (Error Corrupt) (free_cluster D v dir wanted)
         (dir_first_cluster dir, 0, dir_data_length dir)) (\<lambda>r.
     case r of
       Inr locs \<Rightarrow> returnM (Inr locs)
     | Inl (cluster, base, run) \<Rightarrow>
         bindM (extend_directory D v dir cluster base) (\<lambda>(dir', new_one).
         bindM (finish_run v wanted run new_one) (\<lambda>r.
         case r of Some locs \<Rightarrow> returnM (Inr locs) | None \<Rightarrow> returnM (Inl dir')))))"

definition find_free_entries ::
    "('d, 'e) device_ops \<Rightarrow> Volume \<Rightarrow> Directory \<Rightarrow> nat \<Rightarrow> ('d, 'e, EntryLocator list) ws_m" where
  "find_free_entries D v dir wanted =
     (if \<not> (3 \<le> wanted \<and> wanted \<le> 19) then fail Corrupt
      else loop_m (unat (cluster_count (vol_geometry v)) + 2) Diverge (find_free_round D v wanted) dir)"

end
