(* ===== verification/Path_Ops.thy ===== *)
theory Path_Ops
  imports Entry_Write
begin

text \<open>
  The operations on paths of \<open>fs/operations.rs\<close>: creating files and directories, removing, testing
  for emptiness and renaming. Each runs on the caller's \<open>Workspace\<close>; the variants without one run on a
  fresh workspace of their own.
\<close>

section \<open>Creating\<close>

definition fresh_contents :: "u16 list \<Rightarrow> u16 \<Rightarrow> u32 \<Rightarrow> u64 \<Rightarrow> bool \<Rightarrow> NewEntrySet" where
  "fresh_contents name attributes first_cluster data_length contiguous =
     \<lparr>ne_name = name, ne_attributes = attributes, ne_first_cluster = first_cluster, ne_data_length = data_length,
      ne_no_fat_chain = contiguous, ne_created = default_timestamp, ne_modified = default_timestamp,
      ne_accessed = default_timestamp\<rparr>"

text \<open>The first \<open>n\<close> locators, as a slice of the array.\<close>

definition first_locators :: "nat \<Rightarrow> EntryLocator list \<Rightarrow> ('d, 'e, EntryLocator list) ws_m" where
  "first_locators n locs = bindM (no_panic_if (n \<le> length locs)) (\<lambda>_. returnM (take n locs))"

text \<open>The directory a path's last segment lives in, and that segment.\<close>

definition split_parent :: "('d, 'e) device_ops \<Rightarrow> Volume \<Rightarrow> str \<Rightarrow> ('d, 'e, Directory \<times> str) ws_m" where
  "split_parent D v path =
     (case rsplit_slash path of
        Some (parent_path, name) \<Rightarrow>
          bindM (lookup_with_workspace D v parent_path) (\<lambda>e.
          bindM (ok_or (entry_directory e) NotDirectory) (\<lambda>dir. returnM (dir, name)))
      | None \<Rightarrow> returnM (root_directory (vol_geometry v), path))"

definition empty_file :: "EntryLocator list \<Rightarrow> nat \<Rightarrow> File" where
  "empty_file locs entries =
     \<lparr>file_primary = locs ! 0, file_stream = locs ! 1, file_entry_locs = locs, file_entry_count = word_of_nat entries,
      file_first_cluster = 0, file_data_length = 0, file_valid_length = 0, file_position = 0,
      file_no_fat_chain = True, cached_cluster_index = None, cached_cluster = 0\<rparr>"

definition create_new :: "('d, 'e) device_ops \<Rightarrow> Volume \<Rightarrow> Directory \<Rightarrow> str \<Rightarrow> ('d, 'e, File) ws_m" where
  "create_new D v parent name =
     bindM (ws_encode name) (\<lambda>len.
     let entries = 2 + names_needed len in
     bindM (find_free_entries D v parent entries) (\<lambda>locs.
     bindM (first_locators entries locs) (\<lambda>slots.
     bindM (ws_wanted len) (\<lambda>units.
     bindM (write_entry_set D v slots (fresh_contents units 0 0 0 True)) (\<lambda>_.
     returnM (empty_file locs entries))))))"

text \<open>An existing file is emptied: \<open>truncate\<close> on the handle that \<open>open\<close> gave.\<close>

definition empty_existing :: "('d, 'e) device_ops \<Rightarrow> Volume \<Rightarrow> File \<Rightarrow> ('d, 'x, 'e, File) fsm" where
  "empty_existing D v f =
     bindM (with_env \<lparr>handle = f, out_buf = []\<rparr> (file_truncate D v 0)) (\<lambda>(_, env). returnM (handle env))"

definition create_with_workspace :: "('d, 'e) device_ops \<Rightarrow> Volume \<Rightarrow> str \<Rightarrow> ('d, 'e, File) ws_m" where
  "create_with_workspace D v given =
     (let path = trim_slashes given in
      if path = [] then fail InvalidPath else
      bindM (split_parent D v path) (\<lambda>(parent, name).
      bindM (attempt (open_with_workspace D v path)) (\<lambda>r.
      case r of
        Inr f \<Rightarrow> empty_existing D v f
      | Inl PathNotFound \<Rightarrow> create_new D v parent name
      | Inl e \<Rightarrow> fail e)))"

definition fs_create :: "('d, 'e) device_ops \<Rightarrow> Volume \<Rightarrow> str \<Rightarrow> ('d, 'x, 'e, File) fsm" where
  "fs_create D v path = bindM (with_env new_workspace (create_with_workspace D v path)) (\<lambda>(f, _). returnM f)"

section \<open>Creating directories\<close>

definition new_directory :: "EntryLocator list \<Rightarrow> nat \<Rightarrow> u32 \<Rightarrow> u64 \<Rightarrow> Directory" where
  "new_directory locs entries cluster len =
     \<lparr>dir_first_cluster = cluster, dir_data_length = len, dir_no_fat_chain = False,
      dir_primary = Some (locs ! 0), dir_stream = Some (locs ! 1), dir_entry_locs = locs,
      dir_entry_count = word_of_nat entries\<rparr>"

definition create_dir_new :: "('d, 'e) device_ops \<Rightarrow> Volume \<Rightarrow> Directory \<Rightarrow> nat \<Rightarrow> ('d, 'e, Directory) ws_m" where
  "create_dir_new D v parent len =
     (let entries = 2 + names_needed len; cluster_bytes = ucast (bytes_per_cluster (vol_geometry v)) in
      bindM (find_free_entries D v parent entries) (\<lambda>locs.
      bindM (allocate_cluster D v) (\<lambda>cluster.
      bindM (first_locators entries locs) (\<lambda>slots.
      bindM (ws_wanted len) (\<lambda>units.
      bindM (write_entry_set D v slots (fresh_contents units 0x10 cluster cluster_bytes False)) (\<lambda>_.
      returnM (new_directory locs entries cluster cluster_bytes)))))))"

definition create_dir_step :: "('d, 'e) device_ops \<Rightarrow> Volume \<Rightarrow> str \<Rightarrow> Directory \<Rightarrow> ('d, 'e, Directory) ws_m" where
  "create_dir_step D v name parent =
     (if name = [] then returnM parent else
      bindM (ws_encode name) (\<lambda>len.
      bindM (find_child D v parent len) (\<lambda>r.
      case r of
        Some e \<Rightarrow> ok_or (entry_directory e) NotDirectory
      | None \<Rightarrow> create_dir_new D v parent len)))"

definition create_dir_all_with_workspace :: "('d, 'e) device_ops \<Rightarrow> Volume \<Rightarrow> str \<Rightarrow> ('d, 'e, unit) ws_m" where
  "create_dir_all_with_workspace D v given =
     (let path = trim_slashes given in
      if path = [] then fail InvalidPath else
      bindM (fold_m (split_slash path) (create_dir_step D v) (root_directory (vol_geometry v))) (\<lambda>_. returnM ()))"

definition fs_create_dir_all :: "('d, 'e) device_ops \<Rightarrow> Volume \<Rightarrow> str \<Rightarrow> ('d, 'x, 'e, unit) fsm" where
  "fs_create_dir_all D v path =
     bindM (with_env new_workspace (create_dir_all_with_workspace D v path)) (\<lambda>_. returnM ())"

section \<open>Removing\<close>

definition remove_entry_tree :: "('d, 'e) device_ops \<Rightarrow> Volume \<Rightarrow> DirectoryEntry \<Rightarrow> ('d, 'x, 'e, unit) fsm" where
  "remove_entry_tree D v e =
     bindM (case entry_directory e of
         None \<Rightarrow> returnM ()
       | Some dir \<Rightarrow>
           bindM (first_directory_entry D v dir) (\<lambda>first.
           if first \<noteq> None then fail DirectoryNotEmpty else returnM ())) (\<lambda>_.
     bindM (retire_entry_set D v e) (\<lambda>_.
     release_entry_clusters D v e))"

definition remove_with_workspace :: "('d, 'e) device_ops \<Rightarrow> Volume \<Rightarrow> str \<Rightarrow> ('d, 'e, unit) ws_m" where
  "remove_with_workspace D v path =
     bindM (lookup_with_workspace D v (trim_slashes path)) (remove_entry_tree D v)"

definition fs_remove :: "('d, 'e) device_ops \<Rightarrow> Volume \<Rightarrow> str \<Rightarrow> ('d, 'x, 'e, unit) fsm" where
  "fs_remove D v path = bindM (with_env new_workspace (remove_with_workspace D v path)) (\<lambda>_. returnM ())"

definition is_dir_empty_with_workspace :: "('d, 'e) device_ops \<Rightarrow> Volume \<Rightarrow> str \<Rightarrow> ('d, 'e, bool) ws_m" where
  "is_dir_empty_with_workspace D v path =
     bindM (lookup_with_workspace D v (trim_slashes path)) (\<lambda>e.
     bindM (ok_or (entry_directory e) NotDirectory) (\<lambda>dir.
     bindM (first_directory_entry D v dir) (\<lambda>first. returnM (first = None))))"

definition fs_is_dir_empty :: "('d, 'e) device_ops \<Rightarrow> Volume \<Rightarrow> str \<Rightarrow> ('d, 'x, 'e, bool) fsm" where
  "fs_is_dir_empty D v path = bindM (with_env new_workspace (is_dir_empty_with_workspace D v path)) (\<lambda>(b, _). returnM b)"

section \<open>Renaming\<close>

text \<open>A longer name needs a new set; the old one is retired once it is written.\<close>

definition rename_replace :: "('d, 'e) device_ops \<Rightarrow> Volume \<Rightarrow> str \<Rightarrow> DirectoryEntry \<Rightarrow> nat \<Rightarrow> ('d, 'e, unit) ws_m" where
  "rename_replace D v path e len =
     (let entries = names_needed len + 2 in
      bindM (split_parent D v (trim_slashes path)) (\<lambda>(parent, _).
      bindM (find_free_entries D v parent entries) (\<lambda>locs.
      bindM (first_locators entries locs) (\<lambda>slots.
      bindM (ws_wanted len) (\<lambda>units.
      bindM (write_entry_set D v slots
        \<lparr>ne_name = units, ne_attributes = if is_directory e then 0x10 else 0, ne_first_cluster = de_first_cluster e,
         ne_data_length = de_data_length e, ne_no_fat_chain = de_no_fat_chain e, ne_created = created e,
         ne_modified = modified e, ne_accessed = accessed e\<rparr>) (\<lambda>_.
      retire_entry_set D v e))))))"

definition rename_stream :: "('d, 'e) device_ops \<Rightarrow> nat \<Rightarrow> EntryLocator \<Rightarrow> nat \<Rightarrow> u16 \<Rightarrow> ('d, 'x, 'e, unit) iom" where
  "rename_stream D sz loc len hash =
     bindM (read_sector D (el_lba loc) sz) (\<lambda>_.
     let stream = unat (el_offset loc) in
     bindM (sector_copy sz (stream + 3) [word_of_nat len]) (\<lambda>_.
     bindM (sector_copy sz (stream + 4) (le16 hash)) (\<lambda>_.
     write_sector D (el_lba loc) sz)))"

text \<open>A name entry keeps its flags byte; the slice of the name panics when it starts beyond it.\<close>

definition rename_name :: "('d, 'e) device_ops \<Rightarrow> nat \<Rightarrow> u16 list \<Rightarrow> nat \<times> EntryLocator \<Rightarrow> ('d, 'x, 'e, unit) iom" where
  "rename_name D sz units row = (case row of (index, loc) \<Rightarrow>
     let offset = unat (el_offset loc); start = index * 15 in
     bindM (read_sector D (el_lba loc) sz) (\<lambda>_.
     bindM (sector_slice sz offset (offset + 32)) (\<lambda>old.
     bindM (no_panic_if (start \<le> length units)) (\<lambda>_.
     bindM (sector_copy sz offset (name_row (old ! 1) (slice start (min (length units) (start + 15)) units))) (\<lambda>_.
     write_sector D (el_lba loc) sz)))))"

definition rename_in_place :: "('d, 'e) device_ops \<Rightarrow> Volume \<Rightarrow> DirectoryEntry \<Rightarrow> nat \<Rightarrow> ('d, 'e, unit) ws_m" where
  "rename_in_place D v e len =
     (let sz = sector_bytes v; count = unat (de_entry_count e) in
      bindM (ws_wanted len) (\<lambda>units.
      bindM (upcase_name_hash D v units) (\<lambda>hash.
      bindM (rename_stream D sz (de_stream e) len hash) (\<lambda>_.
      bindM (no_panic_if (2 \<le> count \<and> count \<le> length (de_entry_locs e))) (\<lambda>_.
      bindM (each_m (enumerate 0 (slice 2 count (de_entry_locs e))) (rename_name D sz units)) (\<lambda>_.
      recompute_entry_checksum D v e))))))"

definition rename_with_workspace :: "('d, 'e) device_ops \<Rightarrow> Volume \<Rightarrow> str \<Rightarrow> str \<Rightarrow> ('d, 'e, unit) ws_m" where
  "rename_with_workspace D v path new_name =
     (if new_name = [] \<or> slash \<in> set new_name then fail InvalidPath else
      bindM (lookup_with_workspace D v (trim_slashes path)) (\<lambda>e.
      bindM (ws_encode new_name) (\<lambda>len.
      if unat (de_entry_count e) < names_needed len + 2 then rename_replace D v path e len
      else rename_in_place D v e len)))"

definition fs_rename :: "('d, 'e) device_ops \<Rightarrow> Volume \<Rightarrow> str \<Rightarrow> str \<Rightarrow> ('d, 'x, 'e, unit) fsm" where
  "fs_rename D v path new_name =
     bindM (with_env new_workspace (rename_with_workspace D v path new_name)) (\<lambda>_. returnM ())"

end
