(* ===== verification/Format.thy ===== *)
theory Format
  imports Boot
begin

text \<open>
  The formatter (\<open>format.rs\<close>): the layout of a fresh volume and the writers of its partition table,
  boot regions, FAT, allocation bitmap, UpCase table and root directory. The device has sectors of
  512 bytes; the partition starts at sector 1.
\<close>

section \<open>Layout\<close>

definition boot_sectors :: u32 where
  "boot_sectors = 24"

definition fat_start :: u32 where
  "fat_start = boot_sectors"

definition end_of_chain :: u32 where
  "end_of_chain = 0xFFFFFFFF"

definition upcase_bytes :: u64 where
  "upcase_bytes = 65536 * 2"

definition cluster_size_for :: "u64 \<Rightarrow> u32" where
  "cluster_size_for sectors_total =
     (if 1048576 \<le> sectors_total then 64 else if 131072 \<le> sectors_total then 16 else 1)"

text \<open>A guess of the FAT length is refined until it fits the clusters it leaves room for.\<close>

primrec layout_rounds :: "nat \<Rightarrow> u64 \<Rightarrow> u32 \<Rightarrow> u32 \<Rightarrow> 'e error + u32 \<times> u32 \<times> u32" where
  "layout_rounds 0 sectors_total spc fat = Inl Corrupt"
| "layout_rounds (Suc n) sectors_total spc fat =
     (case checked_add fat_start fat of
        None \<Rightarrow> Inl Corrupt
      | Some heap \<Rightarrow>
          (case checked_sub sectors_total (ucast heap) of
             None \<Rightarrow> Inl Corrupt
           | Some rest \<Rightarrow>
               let clusters = ucast (rest div ucast spc) :: u32;
                   needed = ucast (div_ceil (ucast (clusters + 2) * 4 :: u64) 512) in
               if needed = fat then Inr (fat, heap, clusters)
               else layout_rounds n sectors_total spc needed))"

definition layout :: "u64 \<Rightarrow> u32 \<Rightarrow> 'e error + u32 \<times> u32 \<times> u32" where
  "layout sectors_total spc = layout_rounds 8 sectors_total spc 1"

definition format_cluster_lba :: "u64 \<Rightarrow> u32 \<Rightarrow> u32 \<Rightarrow> u32 \<Rightarrow> u64" where
  "format_cluster_lba part heap spc cluster = part + ucast heap + ucast (cluster - 2) * ucast spc"

section \<open>Partition table and boot regions\<close>

text \<open>\<open>out[off..off + bs.len()].copy_from_slice(bs)\<close>, several times\<close>

definition patches :: "(nat \<times> u8 list) list \<Rightarrow> u8 list \<Rightarrow> u8 list" where
  "patches ps bs = foldl (\<lambda>acc (off, field). patch off field acc) bs ps"

definition mbr_sector :: "u32 \<Rightarrow> u8 list" where
  "mbr_sector sectors_total =
     patches [(446 + 4, [0x07]), (454, le32 1), (458, le32 sectors_total), (510, [0x55, 0xAA])] (replicate 512 0)"

definition write_mbr :: "('d, 'e) device_ops \<Rightarrow> u32 \<Rightarrow> ('d, 'x, 'e, unit) iom" where
  "write_mbr D sectors_total =
     bindM (sector 512) (\<lambda>_.
     bindM (set_sector (mbr_sector sectors_total)) (\<lambda>_.
     write_sector D 0 512))"

definition trailing_zeros :: "u32 \<Rightarrow> nat" where
  "trailing_zeros w = length (takeWhile (\<lambda>i. \<not> bit w i) [0..<32])"

definition main_boot_sector :: "u64 \<Rightarrow> u32 \<Rightarrow> u32 \<Rightarrow> u32 \<Rightarrow> u32 \<Rightarrow> u8 list" where
  "main_boot_sector len fat heap clusters spc =
     patches [(0, [0xEB, 0x76, 0x90]), (3, oem_name), (64, le64 1), (72, le64 len), (80, le32 fat_start),
       (84, le32 fat), (88, le32 heap), (92, le32 clusters), (96, le32 2), (100, le32 0x54455359),
       (104, le16 0x0100), (108, [9]), (109, [word_of_nat (trailing_zeros spc)]), (110, [1]), (111, [0x80]),
       (120, replicate 390 0xF4), (510, [0x55, 0xAA])] (replicate 512 0)"

text \<open>Sectors 1 to 8 are extended boot sectors; 9 and 10, OEM parameters and reserved, stay zero.\<close>

definition boot_region_sector :: "u64 \<Rightarrow> u32 \<Rightarrow> u32 \<Rightarrow> u32 \<Rightarrow> u32 \<Rightarrow> nat \<Rightarrow> u8 list" where
  "boot_region_sector len fat heap clusters spc i =
     (if i = 0 then main_boot_sector len fat heap clusters spc
      else if i \<le> 8 then patch 508 [0x00, 0x00, 0x55, 0xAA] (replicate 512 0)
      else replicate 512 0)"

definition write_boot_region ::
    "('d, 'e) device_ops \<Rightarrow> u64 \<Rightarrow> u64 \<Rightarrow> u32 \<Rightarrow> u32 \<Rightarrow> u32 \<Rightarrow> u32 \<Rightarrow> ('d, 'x, 'e, u32) iom" where
  "write_boot_region D start len fat heap clusters spc =
     fold_m [0..<11] (\<lambda>i checksum.
       let out = boot_region_sector len fat heap clusters spc i in
       bindM (sector 512) (\<lambda>_.
       bindM (set_sector out) (\<lambda>_.
       bindM (write_sector D (start + of_usize i) 512) (\<lambda>_.
       returnM (boot_checksum_sector (i = 0) checksum out))))) 0"

definition write_boot_checksum :: "('d, 'e) device_ops \<Rightarrow> u64 \<Rightarrow> u32 \<Rightarrow> ('d, 'x, 'e, unit) iom" where
  "write_boot_checksum D lba checksum =
     bindM (sector 512) (\<lambda>_.
     bindM (set_sector (concat (replicate 128 (le32 checksum)))) (\<lambda>_.
     write_sector D lba 512))"

section \<open>FAT, bitmap and UpCase table\<close>

definition fat_value :: "u32 \<Rightarrow> u32 \<Rightarrow> u32 \<Rightarrow> u32 \<Rightarrow> u32 \<Rightarrow> u32" where
  "fat_value bitmap bitmap_len upcase upcase_len cluster =
     (if cluster = 0 then 0xFFFFFFF8
      else if cluster = 1 \<or> cluster = 2 then end_of_chain
      else if bitmap \<le> cluster \<and> cluster < bitmap + bitmap_len then
        (if cluster + 1 < bitmap + bitmap_len then cluster + 1 else end_of_chain)
      else if upcase \<le> cluster \<and> cluster < upcase + upcase_len then
        (if cluster + 1 < upcase + upcase_len then cluster + 1 else end_of_chain)
      else 0)"

definition fat_sector :: "u32 \<Rightarrow> u32 \<Rightarrow> u32 \<Rightarrow> u32 \<Rightarrow> u32 \<Rightarrow> u8 list" where
  "fat_sector bitmap bitmap_len upcase upcase_len i =
     concat (map (\<lambda>k. le32 (fat_value bitmap bitmap_len upcase upcase_len (i * 128 + word_of_nat k))) [0..<128])"

text \<open>A run of sectors is prepared in the scratch buffer and written in one call.\<close>

definition write_run :: "('d, 'e) device_ops \<Rightarrow> u64 \<Rightarrow> u8 list \<Rightarrow> ('d, 'x, 'e, unit) iom" where
  "write_run D lba bs =
     bindM (sectors 512) (\<lambda>out.
     bindM (no_panic_if (length bs \<le> length out)) (\<lambda>_.
     bindM (set_sector bs) (\<lambda>_.
     write_sectors D lba bs)))"

definition write_fat_batch ::
    "('d, 'e) device_ops \<Rightarrow> u64 \<Rightarrow> u32 \<Rightarrow> u32 \<Rightarrow> (u32 \<Rightarrow> u8 list) \<Rightarrow> u32 \<Rightarrow> ('d, 'x, 'e, u32 + unit) iom" where
  "write_fat_batch D part fat_len batch content first_sector =
     (if \<not> first_sector < fat_len then returnM (Inr ()) else
      let count = min (fat_len - first_sector) batch in
      bindM (write_run D (part + ucast (fat_start + first_sector))
        (concat (map (\<lambda>k. content (first_sector + word_of_nat k)) [0..<unat count]))) (\<lambda>_.
      returnM (Inl (first_sector + count))))"

definition write_fat ::
    "('d, 'e) device_ops \<Rightarrow> u64 \<Rightarrow> u32 \<Rightarrow> u32 \<Rightarrow> u32 \<Rightarrow> u32 \<Rightarrow> u32 \<Rightarrow> ('d, 'x, 'e, unit) iom" where
  "write_fat D part fat_len bitmap bitmap_len upcase upcase_len =
     bindM (getsM (\<lambda>s. length (scratch s))) (\<lambda>len.
     loop_m (Suc (unat fat_len)) Diverge
       (write_fat_batch D part fat_len (word_of_nat (max (len div 512) 1)) (fat_sector bitmap bitmap_len upcase upcase_len)) 0)"

text \<open>\<open>out[bit / 8] |= 1 << (bit % 8)\<close> for the first \<open>n\<close> bits\<close>

primrec mark_reserved :: "nat \<Rightarrow> u8 list \<Rightarrow> u8 list" where
  "mark_reserved 0 bs = bs"
| "mark_reserved (Suc n) bs =
     (let bs' = mark_reserved n bs in bs'[n div 8 := bs' ! (n div 8) OR push_bit (n mod 8) 1])"

definition write_bitmap_batch ::
    "('d, 'e) device_ops \<Rightarrow> u64 \<Rightarrow> nat \<Rightarrow> u64 \<times> u64 \<Rightarrow> ('d, 'x, 'e, (u64 \<times> u64) + unit) iom" where
  "write_bitmap_batch D start_lba reserved st = (case st of (left, lba) \<Rightarrow>
     if \<not> 0 < left then returnM (Inr ()) else
     bindM (sectors 512) (\<lambda>out.
     let count = min (unat (div_ceil left 512)) (length out div 512);
         cleared = replicate (count * 512) 0 @ drop (count * 512) out;
         buf = (if lba = start_lba then mark_reserved reserved cleared else cleared) in
     bindM (no_panic_if (lba = start_lba \<longrightarrow> reserved \<le> length out * 8)) (\<lambda>_.
     bindM (set_sector buf) (\<lambda>_.
     bindM (write_sectors D lba (take (count * 512) buf)) (\<lambda>_.
     returnM (Inl (left - min left (of_usize (count * 512)), lba + of_usize count)))))))"

definition write_bitmap ::
    "('d, 'e) device_ops \<Rightarrow> u64 \<Rightarrow> u32 \<Rightarrow> u32 \<Rightarrow> u32 \<Rightarrow> u64 \<Rightarrow> u32 \<Rightarrow> ('d, 'x, 'e, unit) iom" where
  "write_bitmap D part heap spc cluster bytes reserved =
     (let start_lba = format_cluster_lba part heap spc cluster in
      loop_m (Suc (unat bytes)) Diverge (write_bitmap_batch D start_lba (unat reserved)) (bytes, start_lba))"

definition upcase_value :: "u16 \<Rightarrow> u16" where
  "upcase_value c = (if 0x61 \<le> c \<and> c \<le> 0x7A then c - 0x61 + 0x41 else c)"

text \<open>The table entries of \<open>n\<close> units from \<open>code\<close> on.\<close>

definition upcase_run :: "u32 \<Rightarrow> nat \<Rightarrow> u8 list" where
  "upcase_run code n = concat (map (\<lambda>i. le16 (upcase_value (ucast (code + word_of_nat i)))) [0..<n])"

definition write_upcase_batch ::
    "('d, 'e) device_ops \<Rightarrow> u32 \<times> u32 \<times> u64 \<Rightarrow> ('d, 'x, 'e, (u32 \<times> u32 \<times> u64) + u32) iom" where
  "write_upcase_batch D st = (case st of (checksum, code, lba) \<Rightarrow>
     if \<not> code < 65536 then returnM (Inr checksum) else
     bindM (getsM (\<lambda>s. length (scratch s))) (\<lambda>len.
     let count = unat (min (65536 - code) (word_of_nat (len div 2)));
         bs = upcase_run code count in
     bindM (write_run D lba bs) (\<lambda>_.
     returnM (Inl (foldl rotate_add checksum bs, code + word_of_nat count, lba + of_usize (count * 2 div 512))))))"

definition write_upcase :: "('d, 'e) device_ops \<Rightarrow> u64 \<Rightarrow> u32 \<Rightarrow> u32 \<Rightarrow> u32 \<Rightarrow> ('d, 'x, 'e, u32) iom" where
  "write_upcase D part heap spc cluster =
     loop_m 65537 Diverge (write_upcase_batch D) (0, 0, format_cluster_lba part heap spc cluster)"

section \<open>Root directory\<close>

definition root_sector :: "u32 \<Rightarrow> u64 \<Rightarrow> u32 \<Rightarrow> u32 \<Rightarrow> u8 list" where
  "root_sector bitmap bitmap_bytes upcase checksum =
     patches [(0, [0x81]), (20, le32 bitmap), (24, le64 bitmap_bytes), (32, [0x82]), (36, le32 checksum),
       (52, le32 upcase), (56, le64 upcase_bytes)] (replicate 512 0)"

definition write_root ::
    "('d, 'e) device_ops \<Rightarrow> u64 \<Rightarrow> u32 \<Rightarrow> u32 \<Rightarrow> u64 \<Rightarrow> u32 \<Rightarrow> u32 \<Rightarrow> ('d, 'x, 'e, unit) iom" where
  "write_root D part heap bitmap bitmap_bytes upcase checksum =
     bindM (sector 512) (\<lambda>_.
     bindM (set_sector (root_sector bitmap bitmap_bytes upcase checksum)) (\<lambda>_.
     write_sector D (format_cluster_lba part heap 1 2) 512))"

section \<open>The formatter\<close>

text \<open>Everything that is written, for a layout that was found to fit.\<close>

definition write_volume ::
    "('d, 'e) device_ops \<Rightarrow> u64 \<Rightarrow> u32 \<Rightarrow> u32 \<Rightarrow> u32 \<Rightarrow> u32 \<Rightarrow> u64 \<Rightarrow> u32 \<Rightarrow> u32 \<Rightarrow> u32 \<Rightarrow> ('d, 'x, 'e, unit) iom" where
  "write_volume D len spc fat_len heap clusters bitmap_bytes bitmap_clusters upcase_cluster upcase_clusters =
     bindM (write_mbr D (ucast len)) (\<lambda>_.
     bindM (write_boot_region D 1 len fat_len heap clusters spc) (\<lambda>checksum.
     bindM (write_boot_checksum D (1 + 11) checksum) (\<lambda>_.
     bindM (write_boot_region D (1 + 12) len fat_len heap clusters spc) (\<lambda>checksum.
     bindM (write_boot_checksum D (1 + 23) checksum) (\<lambda>_.
     bindM (write_fat D 1 fat_len 3 bitmap_clusters upcase_cluster upcase_clusters) (\<lambda>_.
     bindM (write_bitmap D 1 heap spc 3 bitmap_bytes (1 + bitmap_clusters + upcase_clusters)) (\<lambda>_.
     bindM (write_upcase D 1 heap spc upcase_cluster) (\<lambda>upcase_checksum.
     bindM (write_root D 1 heap 3 bitmap_bytes upcase_cluster upcase_checksum) (\<lambda>_.
     dev_flush D)))))))))"

definition format_exfat :: "('d, 'e) device_ops \<Rightarrow> ('d, 'x, 'e, unit) iom" where
  "format_exfat D =
     bindM (getsM (\<lambda>s. sector_size_of D (device s))) (\<lambda>sz.
     if sz \<noteq> 512 then fail UnsupportedSectorSize else
     bindM (require sz) (\<lambda>_.
     bindM (getsM (\<lambda>s. sector_count_of D (device s))) (\<lambda>total.
     if total \<le> ucast boot_sectors + 512 \<or> 0xFFFFFFFF < total - 1 then fail InvalidPartitionTable else
     let len = total - 1; spc = cluster_size_for len in
     bindM (from_result (layout len spc)) (\<lambda>(fat_len, heap, clusters).
     let cluster_bytes = ucast spc * of_usize sz :: u64;
         bitmap_bytes = div_ceil (ucast clusters) 8;
         bitmap_clusters = ucast (div_ceil bitmap_bytes cluster_bytes);
         upcase_clusters = ucast (div_ceil upcase_bytes cluster_bytes);
         upcase_cluster = 3 + bitmap_clusters in
     bindM (ok_or (checked_add upcase_cluster upcase_clusters) Corrupt) (\<lambda>end_cluster.
     if clusters + 2 < end_cluster then fail Corrupt else
     write_volume D len spc fat_len heap clusters bitmap_bytes bitmap_clusters upcase_cluster upcase_clusters)))))"

end
