(* ===== verification/Entry_Codec.thy ===== *)
theory Entry_Codec
  imports Entry_Write
begin

text \<open>
  Writing and decoding entry sets are inverse to each other. The decoder accepts every well-formed set
  (\<open>entry_set_rows\<close>), the rows \<open>write_entry_set\<close> stores are one, and the decoded entry has the
  fields and the name that were written.
\<close>

section \<open>The decoder accepts well-formed sets\<close>

definition entry_set_rows :: "(u8 list \<times> EntryLocator) list \<Rightarrow> bool" where
  "entry_set_rows rs \<longleftrightarrow>
     3 \<le> length rs \<and> length rs \<le> 19 \<and> (\<forall>row \<in> set rs. length (fst row) = 32) \<and>
     fst (rs ! 0) ! 0 = 0x85 \<and> unat (fst (rs ! 0) ! 1) = length rs - 1 \<and>
     (let stream = fst (rs ! 1); data_length = le_u64 (slice 24 32 stream) in
        stream ! 0 = 0xC0 \<and> stream ! 1 AND NOT 0x03 = 0 \<and> stream ! 1 AND 1 \<noteq> 0 \<and> stream ! 3 \<noteq> 0 \<and>
        names_needed (unat (stream ! 3)) + 2 = length rs \<and> le_u64 (slice 8 16 stream) \<le> data_length \<and>
        (data_length \<noteq> 0 \<longrightarrow> 2 \<le> le_u32 (slice 20 24 stream))) \<and>
     (\<forall>i \<in> set [2..<length rs]. fst (rs ! i) ! 0 = 0xC1) \<and>
     set_checksum (map fst rs) = le_u16 (slice 2 4 (fst (rs ! 0)))"

lemma entry_set_rowsD:
  assumes "entry_set_rows rs"
  shows "3 \<le> length rs" "length rs \<le> 19" "i < length rs \<Longrightarrow> length (fst (rs ! i)) = 32"
    "fst (rs ! 0) ! 0 = 0x85" "unat (fst (rs ! 0) ! 1) = length rs - 1"
    "fst (rs ! 1) ! 0 = 0xC0" "fst (rs ! 1) ! 1 AND NOT 0x03 = 0" "fst (rs ! 1) ! 1 AND 1 \<noteq> 0"
    "fst (rs ! 1) ! 3 \<noteq> 0" "names_needed (unat (fst (rs ! 1) ! 3)) + 2 = length rs"
    "le_u64 (slice 8 16 (fst (rs ! 1))) \<le> le_u64 (slice 24 32 (fst (rs ! 1)))"
    "le_u64 (slice 24 32 (fst (rs ! 1))) \<noteq> 0 \<Longrightarrow> 2 \<le> le_u32 (slice 20 24 (fst (rs ! 1)))"
    "2 \<le> i \<Longrightarrow> i < length rs \<Longrightarrow> fst (rs ! i) ! 0 = 0xC1"
    "set_checksum (map fst rs) = le_u16 (slice 2 4 (fst (rs ! 0)))"
  using assms by (auto simp: entry_set_rows_def Let_def)

text \<open>The decoder after the first \<open>k\<close> entries of a set.\<close>

definition midway :: "(u8 list \<times> EntryLocator) list \<Rightarrow> nat \<Rightarrow> EntrySet \<Rightarrow> bool" where
  "midway rs k es \<longleftrightarrow>
     arrays_ok es \<and> in_set (take k rs) es \<and> \<not> ignored es \<and> unat (secondary_left es) = length rs - k \<and>
     (stream_seen es \<longleftrightarrow> 2 \<le> k)"

lemma count_secondary_state:
  "snd (count_secondary es :: ('e error + DirectoryEntry option) \<times> EntrySet) = es\<lparr>secondary_left := secondary_left es - 1\<rparr>"
  by (simp add: count_secondary_def Let_def)

lemma count_secondary_more:
  "1 < unat (secondary_left es) \<Longrightarrow> fst (count_secondary es :: ('e error + DirectoryEntry option) \<times> EntrySet) = Inr None"
  by (auto simp: count_secondary_def Let_def unat_minus_1 word_unat_eq_iff)

lemma midway_parsing:
  assumes "parsing (take (Suc k) rs) es" "\<not> ignored es" "unat (secondary_left es) = length rs - Suc k"
    "Suc k < length rs" "stream_seen es \<longleftrightarrow> 2 \<le> Suc k"
  shows "midway rs (Suc k) es"
  using assms by (auto simp: midway_def parsing_def)

lemma push_first:
  assumes rs: "entry_set_rows rs" and es: "secondary_left es = 0"
  obtains es' where "(push es (fst (rs ! 0)) (snd (rs ! 0)) :: ('e error + DirectoryEntry option) \<times> EntrySet) = (Inr None, es')"
    "midway rs 1 es'"
proof -
  let ?raw = "fst (rs ! 0)" and ?loc = "snd (rs ! 0)"
  note D = entry_set_rowsD [OF rs]
  have l32: "length ?raw = 32" by (rule D(3)) (use D(1) in linarith)
  obtain r es' where run: "(push_primary es ?raw ?loc :: ('e error + DirectoryEntry option) \<times> EntrySet) = (r, es')"
    by (metis prod.collapse)
  have big: "\<not> ?raw ! 1 < 2" "\<not> 18 < ?raw ! 1" using D(5) D(1,2) by (simp_all add: word_less_nat_alt)
  then have r: "r = Inr None" and es': "\<not> ignored es'" "unat (secondary_left es') = length rs - 1" "\<not> stream_seen es'"
    using run es D(5) by (auto simp: push_primary_def)
  have "parsing [(?raw, ?loc)] es'" using push_primary_parsing [OF run [unfolded r] D(4) l32] by simp
  moreover have "take 1 rs = [(?raw, ?loc)]" using D(1) by (cases rs) auto
  ultimately have "midway rs 1 es'" using es' D(1) midway_parsing [of 0 rs es'] by simp
  then show ?thesis using that [of es'] run r D(4) by (simp add: push_def)
qed

lemma push_second:
  assumes rs: "entry_set_rows rs" and es: "midway rs 1 es"
  obtains es' where "(push es (fst (rs ! 1)) (snd (rs ! 1)) :: ('e error + DirectoryEntry option) \<times> EntrySet) = (Inr None, es')"
    "midway rs 2 es'"
proof -
  let ?raw = "fst (rs ! 1)" and ?loc = "snd (rs ! 1)"
  note D = entry_set_rowsD [OF rs]
  have l32: "length ?raw = 32" by (rule D(3)) (use D(1) in linarith)
  have ok: "arrays_ok es" and inset: "in_set (take 1 rs) es" and ni: "\<not> ignored es" and ns: "\<not> stream_seen es"
    and left: "unat (secondary_left es) = length rs - 1"
    using es by (simp_all add: midway_def)
  have left0: "secondary_left es \<noteq> 0" using left D(1) by auto
  have "unat (de_entry_count (entry es)) = 1" using inset D(1) by (simp add: in_set_def)
  then have cnt: "de_entry_count (entry es) = 1" by (simp add: word_unat_eq_iff)
  obtain r es' where run: "(push_stream es ?raw ?loc :: ('e error + DirectoryEntry option) \<times> EntrySet) = (r, es')"
    by (metis prod.collapse)
  define es1 where "es1 = add_secondary es ?raw ?loc"
  define es2 where "es2 = es1\<lparr>stream_seen := True, entry := (entry es1)\<lparr>de_stream := ?loc,
      de_no_fat_chain := ?raw ! 1 AND 0x02 \<noteq> 0, name_len := ?raw ! 3, de_valid_length := le_u64 (slice 8 16 ?raw),
      de_data_length := le_u64 (slice 24 32 ?raw), de_first_cluster := le_u32 (slice 20 24 ?raw)\<rparr>\<rparr>"
  have "\<not> le_u64 (slice 24 32 ?raw) < le_u64 (slice 8 16 ?raw)" using D(11) by simp
  moreover have "\<not> (le_u64 (slice 24 32 ?raw) \<noteq> 0 \<and> le_u32 (slice 20 24 ?raw) < 2)" using D(12) by auto
  ultimately have "(push_stream es ?raw ?loc :: ('e error + DirectoryEntry option) \<times> EntrySet) = count_secondary es2"
    using D(7-9) in_set_room [OF inset left0] unfolding push_stream_def es2_def es1_def by (auto simp: Let_def)
  moreover have es2: "secondary_left es2 = secondary_left es" "ignored es2 = ignored es" "stream_seen es2"
    by (simp_all add: es2_def es1_def add_secondary_def Let_def)
  ultimately have r: "r = Inr None" and es': "es' = es2\<lparr>secondary_left := secondary_left es - 1\<rparr>"
    using run count_secondary_more [of es2, where 'e = 'e] left D(1) count_secondary_state [of es2, where 'e = 'e]
    by (simp_all add: prod_eq_iff)
  have "parsing (take 1 rs @ [(?raw, ?loc)]) es'"
    using push_stream_parsing [OF run [unfolded r] l32 inset ok ni left0 ns] by simp
  moreover have "take 1 rs @ [(?raw, ?loc)] = take (Suc 1) rs" using D(1) by (simp add: take_Suc_conv_app_nth)
  ultimately have "midway rs (Suc 1) es'"
    using D(1) es2 ni left unat_minus_1 [OF left0] es' by (intro midway_parsing) auto
  then have "midway rs 2 es'" by (simp add: numeral_2_eq_2)
  moreover have "(push es ?raw ?loc :: ('e error + DirectoryEntry option) \<times> EntrySet) = (Inr None, es')"
    using run r D(6) left0 ni ns cnt by (simp add: push_def)
  ultimately show ?thesis using that by blast
qed

text \<open>A name entry is accepted; the last one completes the set.\<close>

lemma push_rest:
  assumes rs: "entry_set_rows rs" and es: "midway rs k es" and k: "2 \<le> k" "k < length rs"
  obtains r es' where "(push es (fst (rs ! k)) (snd (rs ! k)) :: ('e error + DirectoryEntry option) \<times> EntrySet) = (Inr r, es')"
    "Suc k < length rs \<Longrightarrow> r = None \<and> midway rs (Suc k) es'"
    "Suc k = length rs \<Longrightarrow> \<exists>e. r = Some e \<and> yields rs e \<and> secondary_left es' = 0"
proof -
  let ?raw = "fst (rs ! k)" and ?loc = "snd (rs ! k)"
  note D = entry_set_rowsD [OF rs]
  have l32: "length ?raw = 32" by (rule D(3) [OF k(2)])
  have ok: "arrays_ok es" and inset: "in_set (take k rs) es" and ni: "\<not> ignored es" and seen: "stream_seen es"
    and left: "unat (secondary_left es) = length rs - k"
    using es k by (simp_all add: midway_def)
  have left0: "secondary_left es \<noteq> 0" using left k by auto
  have lk: "length (take k rs) = k" using k by simp
  have wr: "unat (name_written es) = 15 * (k - 2)" and nl: "name_len (entry es) = fst (rs ! 1) ! 3"
    using inset seen lk k by (auto simp: in_set_def stream_fields_def)
  have nm: "15 * (length rs - 3) < unat (name_len (entry es))" "unat (name_len (entry es)) \<le> 15 * (length rs - 2)"
    using D(1) D(10) unfolding nl names_needed_def by linarith+
  have more: "name_written es < name_len (entry es)" using nm(1) k wr by (simp add: word_less_nat_alt)
  obtain r es' where run: "(push_name es ?raw ?loc :: ('e error + DirectoryEntry option) \<times> EntrySet) = (r, es')"
    by (metis prod.collapse)
  define es1 where "es1 = add_secondary es ?raw ?loc"
  define es2 where "es2 = es1\<lparr>entry := (entry es1)\<lparr>de_name := write_units (unat (name_written es))
      (unat (name_len (entry es1))) (name_units ?raw) (de_name (entry es1))\<rparr>,
      name_written := saturating_add (name_written es) 15\<rparr>"
  have cs: "(push_name es ?raw ?loc :: ('e error + DirectoryEntry option) \<times> EntrySet) = count_secondary es2"
    using in_set_room [OF inset left0] by (simp add: push_name_def Let_def es2_def es1_def name_units_def)
  have es2: "secondary_left es2 = secondary_left es" "ignored es2 = ignored es" "stream_seen es2"
    "name_len (entry es2) = name_len (entry es)" "expected_checksum es2 = expected_checksum es"
    "es_checksum es2 = es_checksum es1"
    using seen by (simp_all add: es2_def es1_def add_secondary_def Let_def)
  have es': "es' = es2\<lparr>secondary_left := secondary_left es - 1\<rparr>"
    using run cs count_secondary_state [of es2, where 'e = 'e] es2 by (simp add: prod_eq_iff)
  have rows: "take k rs @ [(?raw, ?loc)] = take (Suc k) rs" using k by (simp add: take_Suc_conv_app_nth)
  have push: "(push es ?raw ?loc :: ('e error + DirectoryEntry option) \<times> EntrySet) = (r, es')"
    using run D(13) [OF k] left0 ni seen more by (simp add: push_def)
  show ?thesis
  proof (cases "Suc k < length rs")
    case True
    then have r: "r = Inr None"
      using run cs count_secondary_more [of es2, where 'e = 'e] left es2(1) by (simp add: prod_eq_iff)
    have "parsing (take (Suc k) rs) es'"
      using push_name_parsing [OF run [unfolded r] l32 inset ok ni left0 seen more] rows by simp
    then have "midway rs (Suc k) es'"
      using True es2 ni left unat_minus_1 [OF left0] es' k by (intro midway_parsing) auto
    then show ?thesis using that [of None es'] push r True by simp
  next
    case False
    then have last: "Suc k = length rs" using k by simp
    have "15 * (k - 2) + 15 < 256" "15 * (k - 2) + 15 = 15 * (length rs - 2)" using last k D(2) by linarith+
    then have "unat (saturating_add (name_written es) 15) = 15 * (length rs - 2)"
      using wr by (simp add: saturating_add_def unat_add_small)
    then have "\<not> name_written es2 < name_len (entry es2)"
      using nm(2) es2(4) by (simp add: es2_def word_less_nat_alt)
    moreover have "es_checksum es2 = expected_checksum es2"
    proof -
      have "take k rs @ [(?raw, ?loc)] = rs" using rows last by simp
      then have "es_checksum es1 = set_checksum (map fst rs)"
        using in_set_add(3) [OF inset ok left0, of ?raw ?loc] by (simp only: es1_def)
      moreover have "rs \<noteq> []" using D(1) by auto
      then have "expected_checksum es = le_u16 (slice 2 4 (fst (rs ! 0)))"
        using inset k by (simp add: in_set_def hd_conv_nth)
      ultimately show ?thesis using D(14) es2 by simp
    qed
    moreover have "secondary_left es - 1 = 0" using left last by (simp add: word_unat_eq_iff unat_minus_1 [OF left0])
    ultimately have r: "r = Inr (Some (entry es2))"
      using run cs es2 by (simp add: count_secondary_def complete_def Let_def prod_eq_iff)
    then have "yields rs (entry es2) \<and> secondary_left es' = 0"
      using push_name_parsing [OF run [unfolded r] l32 inset ok ni left0 seen more] rows last by simp
    then show ?thesis using that [of "Some (entry es2)" es'] push r last by simp
  qed
qed

lemma push_rows_midway:
  "entry_set_rows rs \<Longrightarrow> midway rs k es \<Longrightarrow> 2 \<le> k \<Longrightarrow> k < length rs \<Longrightarrow>
    \<exists>e es'. (push_rows es (drop k rs) :: ('e error + DirectoryEntry option) \<times> EntrySet) = (Inr (Some e), es') \<and>
      yields rs e \<and> secondary_left es' = 0"
proof (induction "length rs - k" arbitrary: k es)
  case (Suc n)
  obtain raw loc where row: "rs ! k = (raw, loc)" by (cases "rs ! k")
  have split: "drop k rs = (raw, loc) # drop (Suc k) rs"
    using Suc.prems(4) row by (metis Cons_nth_drop_Suc)
  obtain r es1 where run: "(push es raw loc :: ('e error + DirectoryEntry option) \<times> EntrySet) = (Inr r, es1)"
    and more: "Suc k < length rs \<Longrightarrow> r = None \<and> midway rs (Suc k) es1"
    and last: "Suc k = length rs \<Longrightarrow> \<exists>e. r = Some e \<and> yields rs e \<and> secondary_left es1 = 0"
    using push_rest [OF Suc.prems, unfolded row fst_conv snd_conv] by metis
  show ?case
  proof (cases "Suc k < length rs")
    case True
    then show ?thesis using Suc.hyps(1) [of "Suc k" es1] Suc.hyps(2) Suc.prems more run split by simp
  next
    case False
    then show ?thesis using last Suc.prems(4) run split by auto
  qed
qed simp

lemma decoder_accepts:
  assumes rs: "entry_set_rows rs" and es: "secondary_left es = 0"
  shows "\<exists>e es'. (push_rows es rs :: ('e error + DirectoryEntry option) \<times> EntrySet) = (Inr (Some e), es') \<and>
    yields rs e \<and> secondary_left es' = 0"
proof -
  obtain es1 where 1: "(push es (fst (rs ! 0)) (snd (rs ! 0)) :: ('e error + DirectoryEntry option) \<times> EntrySet) = (Inr None, es1)"
    "midway rs 1 es1" using push_first [OF rs es] by metis
  obtain es2 where 2: "(push es1 (fst (rs ! 1)) (snd (rs ! 1)) :: ('e error + DirectoryEntry option) \<times> EntrySet) = (Inr None, es2)"
    "midway rs 2 es2" using push_second [OF rs 1(2)] by metis
  have len: "3 \<le> length rs" using rs by (rule entry_set_rowsD)
  have "rs = (fst (rs ! 0), snd (rs ! 0)) # (fst (rs ! 1), snd (rs ! 1)) # drop 2 rs"
    using len by (cases rs; cases "tl rs") auto
  moreover have "\<exists>e es'. (push_rows es2 (drop 2 rs) :: ('e error + DirectoryEntry option) \<times> EntrySet) = (Inr (Some e), es') \<and>
      yields rs e \<and> secondary_left es' = 0"
    using push_rows_midway [OF rs 2(2)] len by simp
  ultimately show ?thesis using 1(1) 2(1) by (metis (no_types, lifting) push_rows.simps(2) case_prod_conv sum.case(2) option.case(1))
qed

section \<open>The rows the writer stores\<close>

definition set_rows :: "NewEntrySet \<Rightarrow> nat \<Rightarrow> u16 \<Rightarrow> u8 list list" where
  "set_rows c count hash = map (entry_row c count hash) [0..<count]"

definition stored_rows :: "NewEntrySet \<Rightarrow> nat \<Rightarrow> u16 \<Rightarrow> u8 list list" where
  "stored_rows c count hash =
     (let raws = set_rows c count hash in raws[0 := patch 2 (le16 (set_checksum raws)) (raws ! 0)])"

text \<open>A set that \<open>write_entry_set\<close> accepts and whose extent the decoder does not refuse.\<close>

definition writable :: "NewEntrySet \<Rightarrow> nat \<Rightarrow> bool" where
  "writable c count \<longleftrightarrow> 3 \<le> count \<and> count \<le> 19 \<and> names_needed (length (ne_name c)) + 2 = count \<and>
     (ne_data_length c \<noteq> 0 \<longrightarrow> 2 \<le> ne_first_cluster c)"

lemma writable_name:
  assumes "writable c count"
  shows "0 < length (ne_name c)" "length (ne_name c) \<le> 255" "15 * (count - 3) < length (ne_name c)"
    "length (ne_name c) \<le> 15 * (count - 2)"
  using assms by (auto simp: writable_def names_needed_def)

lemma le16_parts: "le16 w = [ucast w, ucast (drop_bit 8 w)]"
  by (simp add: le16_def numeral_2_eq_2)

lemma length_concat_le16 [simp]: "length (concat (map le16 us)) = 2 * length us"
  by (induction us) simp_all

lemma length_rows [simp]:
  "length (primary_row c count) = 32" "length (stream_row c hash) = 32"
  "length us \<le> 15 \<Longrightarrow> length (name_row flags us) = 32"
  by (simp_all add: primary_row_def stream_row_def name_row_def)

lemma length_entry_row: "length (entry_row c count hash i) = 32"
  by (simp add: entry_row_def Let_def)

lemma name_units_row:
  assumes "length us \<le> 15"
  shows "name_units (name_row flags us) = us @ replicate (15 - length us) 0"
proof -
  have "replicate (2 * k) (0 :: u8) = concat (replicate k (le16 0))" for k
    by (induction k) (simp_all add: le16_parts)
  from this [of "15 - length us"] have zeros: "replicate (30 - 2 * length us) (0 :: u8) = concat (replicate (15 - length us) (le16 0))"
    by (simp add: diff_mult_distrib2)
  have "slice 2 32 (name_row flags us) = concat (map le16 (us @ replicate (15 - length us) 0))"
    unfolding map_append concat_append using assms by (simp add: name_row_def slice_parts zeros [symmetric])
  moreover have "chunks_exact 2 (concat (map le16 ws)) = map le16 ws" for ws
    by (rule chunks_exact_concat) auto
  ultimately have "name_units (name_row flags us) = map le_u16 (map le16 (us @ replicate (15 - length us) 0))"
    by (simp only: name_units_def)
  then show ?thesis by (simp add: comp_def)
qed

lemma checksum_step_unfold: "entry_set_checksum_step = checksum_step"
  by (simp add: checksum_step_eq)

text \<open>The writer's running checksum is the set checksum of the rows.\<close>

lemma set_checksum_snoc:
  "set_checksum (raws @ [raw]) = checksum_step (set_checksum raws) raw (raws = [])"
  by (cases "raws = []") (simp_all add: set_checksum_append, simp add: set_checksum_def)

lemma set_checksum_stored:
  assumes "3 \<le> count"
  shows "set_checksum (stored_rows c count hash) = set_checksum (set_rows c count hash)"
proof -
  obtain p ss where raws: "set_rows c count hash = p # ss" "length p = 32"
    using assms length_entry_row by (cases "set_rows c count hash") (auto simp: set_rows_def map_eq_Cons_conv)
  then have "checksum_step 0 (patch 2 cs p) True = checksum_step 0 p True" if "length cs = 2" for cs
    using checksum_ignores_field [of p cs 0] that by (simp add: checksum_step_eq)
  then show ?thesis using raws by (simp add: stored_rows_def set_checksum_def Let_def)
qed

lemma stored_rows_nth:
  assumes "i < count"
  shows "stored_rows c count hash ! i =
    (if i = 0 then patch 2 (le16 (set_checksum (set_rows c count hash))) (primary_row c count) else entry_row c count hash i)"
  using assms by (auto simp: stored_rows_def set_rows_def Let_def entry_row_def)

lemma length_stored_rows [simp]: "length (stored_rows c count hash) = count"
  by (simp add: stored_rows_def set_rows_def Let_def)

lemma primary_row_checksum:
  assumes "length cs = 2"
  shows "patch 2 cs (primary_row c count) = [0x85, word_of_nat (count - 1)] @ cs @ drop 4 (primary_row c count)"
  using assms by (simp add: patch_def primary_row_def)

lemma stored_rows_names:
  assumes "writable c count"
  shows "take (length (ne_name c)) (concat (map name_units (drop 2 (stored_rows c count hash)))) = ne_name c"
proof (rule nth_equalityI)
  let ?n = "length (ne_name c)" and ?rows = "map name_units (drop 2 (stored_rows c count hash))"
  have count: "3 \<le> count" "count \<le> 19" using assms by (simp_all add: writable_def)
  have rows: "?rows ! j = (let us = slice (j * 15) (min (j * 15 + 15) ?n) (ne_name c) in us @ replicate (15 - length us) 0)"
    if "j < count - 2" for j
  proof -
    have "stored_rows c count hash ! (2 + j) = name_row 0 (slice (j * 15) (min (j * 15 + 15) ?n) (ne_name c))"
      using that by (simp add: stored_rows_nth entry_row_def Let_def)
    then show ?thesis using that by (simp add: name_units_row Let_def)
  qed
  have len: "length ?rows = count - 2" by simp
  have blocks: "\<forall>x \<in> set ?rows. length x = 15"
    using len rows by (auto simp: in_set_conv_nth Let_def)
  show "length (take ?n (concat ?rows)) = ?n"
    using length_concat_blocks [OF blocks] writable_name(4) [OF assms] by simp
  fix i assume "i < length (take ?n (concat ?rows))"
  then have i: "i < ?n" "i < 15 * length ?rows" "i div 15 < count - 2"
    using length_concat_blocks [OF blocks] writable_name(4) [OF assms] by simp_all
  have "concat ?rows ! i = ?rows ! (i div 15) ! (i mod 15)"
    by (rule nth_concat_blocks [OF blocks i(2)])
  also have "\<dots> = ne_name c ! (i div 15 * 15 + i mod 15)"
  proof -
    have "i div 15 * 15 + i mod 15 < ?n" using i(1) by simp
    moreover from this have "i mod 15 < ?n - i div 15 * 15" by linarith
    ultimately show ?thesis using rows [OF i(3)] by (auto simp add: Let_def nth_append nth_slice min_def)
  qed
  finally show "take ?n (concat ?rows) ! i = ne_name c ! i" using i(1) by simp
qed

lemma stored_rows_well_formed:
  assumes c: "writable c count" and locs: "length locs = count"
  shows "entry_set_rows (zip (stored_rows c count hash) locs)"
proof -
  let ?rs = "zip (stored_rows c count hash) locs"
  have count: "3 \<le> count" "count \<le> 19" using c by (simp_all add: writable_def)
  have len: "length ?rs = count" using locs by simp
  have fst: "fst (?rs ! i) = stored_rows c count hash ! i" if "i < count" for i using that locs by simp
  have at0: "fst (?rs ! 0) = [0x85, word_of_nat (count - 1)] @ le16 (set_checksum (set_rows c count hash)) @ drop 4 (primary_row c count)"
    using fst [of 0] count by (simp add: stored_rows_nth primary_row_checksum)
  have at1: "fst (?rs ! 1) = stream_row c hash" using fst [of 1] count by (simp add: stored_rows_nth entry_row_def)
  have nl: "unat (word_of_nat (length (ne_name c)) :: u8) = length (ne_name c)"
    using writable_name(2) [OF c] by (simp add: unat_of_nat)
  show ?thesis
    unfolding entry_set_rows_def len
  proof (intro conjI)
    show "\<forall>row \<in> set ?rs. length (fst row) = 32"
      using len fst by (auto simp: in_set_conv_nth stored_rows_nth length_entry_row)
    show "unat (fst (?rs ! 0) ! 1) = count - 1"
    proof -
      have "unat (word_of_nat (count - 1) :: u8) = count - 1"
        using count by (subst unat_of_nat) simp
      then show ?thesis unfolding at0 by simp
    qed
    show "set_checksum (map fst ?rs) = le_u16 (slice 2 4 (fst (?rs ! 0)))"
      using locs count unfolding at0 by (simp add: slice_parts set_checksum_stored)
    show "\<forall>i \<in> set [2..<count]. fst (?rs ! i) ! 0 = 0xC1"
      using fst by (simp add: stored_rows_nth entry_row_def name_row_def Let_def)
    show "let stream = fst (?rs ! 1); data_length = le_u64 (slice 24 32 stream) in
        stream ! 0 = 0xC0 \<and> stream ! 1 AND NOT 0x03 = 0 \<and> stream ! 1 AND 1 \<noteq> 0 \<and> stream ! 3 \<noteq> 0 \<and>
        names_needed (unat (stream ! 3)) + 2 = count \<and> le_u64 (slice 8 16 stream) \<le> data_length \<and>
        (data_length \<noteq> 0 \<longrightarrow> 2 \<le> le_u32 (slice 20 24 stream))"
    proof -
      have fields: "slice 24 32 (stream_row c hash) = le64 (ne_data_length c)" "slice 8 16 (stream_row c hash) = le64 (ne_data_length c)"
        "slice 20 24 (stream_row c hash) = le32 (ne_first_cluster c)"
        "stream_row c hash ! 0 = 0xC0" "stream_row c hash ! 1 = (if ne_no_fat_chain c then 3 else 1)"
        "stream_row c hash ! 3 = word_of_nat (length (ne_name c))"
        by (simp_all add: stream_row_def slice_parts)
      have "word_of_nat (length (ne_name c)) \<noteq> (0 :: u8)" using nl writable_name(1) [OF c] by (auto simp: word_unat_eq_iff)
      then show ?thesis using c nl unfolding at1 fields Let_def by (simp add: writable_def)
    qed
  qed (use count at0 in simp_all)
qed

lemma entry_set_rows_decode:
  assumes "writable c (length locs)" "secondary_left es = 0"
  shows "\<exists>e es'. (push_rows es (zip (stored_rows c (length locs) hash) locs) :: ('e error + DirectoryEntry option) \<times> EntrySet)
      = (Inr (Some e), es') \<and> secondary_left es' = 0 \<and> entry_ok e \<and>
    name_utf16 e = ne_name c \<and> is_directory e = (ne_attributes c AND 0x10 \<noteq> 0) \<and>
    de_first_cluster e = ne_first_cluster c \<and> de_data_length e = ne_data_length c \<and>
    de_valid_length e = ne_data_length c \<and> de_no_fat_chain e = ne_no_fat_chain c \<and>
    created e = ne_created c \<and> modified e = ne_modified c \<and> accessed e = (ne_accessed c)\<lparr>ten_millis := 0\<rparr> \<and>
    unat (de_entry_count e) = length locs \<and> take (length locs) (de_entry_locs e) = locs"
proof -
  let ?n = "length locs" and ?rows = "stored_rows c (length locs) hash"
  let ?rs = "zip ?rows locs"
  have n: "0 < ?n" "1 < ?n" using assms(1) by (auto simp: writable_def)
  obtain e es' where run: "(push_rows es ?rs :: ('e error + DirectoryEntry option) \<times> EntrySet) = (Inr (Some e), es')"
    "secondary_left es' = 0" and y: "yields ?rs e"
    using decoder_accepts [OF stored_rows_well_formed [OF assms(1) refl] assms(2)] by blast
  have row0: "fst (?rs ! 0) = [0x85, word_of_nat (?n - 1)] @ le16 (set_checksum (set_rows c ?n hash)) @ drop 4 (primary_row c ?n)"
  proof -
    have "fst (?rs ! 0) = ?rows ! 0" using n by (subst nth_zip) auto
    then show ?thesis by (simp only: stored_rows_nth [OF n(1)] primary_row_checksum length_le refl if_True)
  qed
  have row1: "fst (?rs ! 1) = stream_row c hash"
  proof -
    have "fst (?rs ! 1) = ?rows ! 1" using n by (subst nth_zip) auto
    then show ?thesis using stored_rows_nth [OF n(2)] by (simp add: entry_row_def)
  qed
  have nl: "unat (word_of_nat (length (ne_name c)) :: u8) = length (ne_name c)"
    using writable_name(2) [OF assms(1)] by (simp add: unat_of_nat)
  have pf: "primary_fields (fst (?rs ! 0)) e" and sf: "stream_fields (fst (?rs ! 1)) e"
    using y by (simp_all only: yields_def)
  have "is_directory e = (ne_attributes c AND 0x10 \<noteq> 0)" "created e = ne_created c" "modified e = ne_modified c"
    "accessed e = (ne_accessed c)\<lparr>ten_millis := 0\<rparr>"
    using pf unfolding row0 primary_fields_def primary_row_def by (simp_all add: slice_parts nth_append)
  moreover have stream: "de_first_cluster e = ne_first_cluster c" "de_data_length e = ne_data_length c"
    "de_valid_length e = ne_data_length c" "de_no_fat_chain e = ne_no_fat_chain c"
    "name_len e = word_of_nat (length (ne_name c))"
    using sf unfolding row1 stream_fields_def stream_row_def by (simp_all add: slice_parts)
  moreover have "name_utf16 e = ne_name c"
  proof -
    have "row_names ?rs = concat (map name_units (drop 2 ?rows))"
    proof -
      have "map (\<lambda>row. name_units (fst row)) (drop 2 ?rs) = map name_units (map fst (drop 2 ?rs))"
        by simp
      also have "map fst (drop 2 ?rs) = drop 2 ?rows" by (simp flip: drop_map)
      finally show ?thesis by (simp only: row_names_def)
    qed
    then show ?thesis using y stored_rows_names [OF assms(1)] stream(5) nl by (simp add: yields_def)
  qed
  moreover have "length ?rs = ?n" "map snd ?rs = locs" by simp_all
  then have "unat (de_entry_count e) = ?n" "take ?n (de_entry_locs e) = locs" "entry_ok e"
    using y unfolding yields_def by metis+
  ultimately show ?thesis using run by blast
qed

section \<open>Properties\<close>

text \<open>
  C23: Completeness of the entry decoder. From every position between two sets the decoder accepts a run of
  3 to 19 entries of 32 bytes that meets all of these: the first is a 0x85 entry whose secondary count is
  the rest of the run; the second is a 0xC0 stream extension whose flags have bit 0 set and no bit above
  bit 1, with a name length other than 0, a valid length within the data length, and a first cluster from 2
  on unless the data is empty; the others are 0xC1 name entries, exactly as many as the name length needs;
  and the set checksum is the one in the first entry. The decoder then yields an entry whose fields,
  locators and name are read from the run, and is between two sets again. A run with a vendor entry or any
  other secondary in it is not such a run: the decoder skips it.
\<close>
theorem entry_decoder_complete:
  assumes "entry_set_rows rs" "secondary_left es = 0"
  shows "\<exists>e es'. (push_rows es rs :: ('e error + DirectoryEntry option) \<times> EntrySet) = (Inr (Some e), es') \<and>
    yields rs e \<and> secondary_left es' = 0"
  using assms by (rule decoder_accepts)

theorem entry_decoder_complete_witness:
  "\<exists>e es'. (push_rows new_entry_set (tl test_rows) :: (unit error + DirectoryEntry option) \<times> EntrySet) = (Inr (Some e), es') \<and>
    yields (tl test_rows) e"
proof -
  have "entry_set_rows (tl test_rows)" by code_simp
  then show ?thesis
    using entry_decoder_complete [of "tl test_rows" new_entry_set] by (auto simp: new_entry_set_def)
qed

text \<open>
  C21: Round trip of entry sets. The entries that \<open>write_entry_set\<close> stores for a new file or directory,
  with the checksum in the first one, decode to exactly what was written: the name, the extent, the
  allocation flag, the directory attribute and the three timestamps (the access time without its
  10 ms part, which has no field), at the locators they were stored at.
\<close>
theorem entry_set_roundtrip:
  assumes "writable c (length locs)" "secondary_left es = 0"
  shows "\<exists>e es'. (push_rows es (zip (stored_rows c (length locs) hash) locs) :: ('e error + DirectoryEntry option) \<times> EntrySet)
      = (Inr (Some e), es') \<and> secondary_left es' = 0 \<and> entry_ok e \<and>
    name_utf16 e = ne_name c \<and> is_directory e = (ne_attributes c AND 0x10 \<noteq> 0) \<and>
    de_first_cluster e = ne_first_cluster c \<and> de_data_length e = ne_data_length c \<and>
    de_valid_length e = ne_data_length c \<and> de_no_fat_chain e = ne_no_fat_chain c \<and>
    created e = ne_created c \<and> modified e = ne_modified c \<and> accessed e = (ne_accessed c)\<lparr>ten_millis := 0\<rparr> \<and>
    unat (de_entry_count e) = length locs \<and> take (length locs) (de_entry_locs e) = locs"
  using assms by (rule entry_set_rows_decode)

theorem entry_set_roundtrip_witness:
  "\<exists>e es'. (push_rows new_entry_set (zip (stored_rows (\<lparr>ne_name = [0x41, 0x42], ne_attributes = 0x10, ne_first_cluster = 7,
       ne_data_length = 4096, ne_no_fat_chain = False, ne_created = default_timestamp, ne_modified = default_timestamp,
       ne_accessed = default_timestamp\<rparr>) 3 99) (replicate 3 no_locator)) :: (unit error + DirectoryEntry option) \<times> EntrySet)
     = (Inr (Some e), es') \<and> name_utf16 e = [0x41, 0x42] \<and> is_directory e \<and> de_first_cluster e = 7"
  using entry_set_roundtrip [of "\<lparr>ne_name = [0x41, 0x42], ne_attributes = 0x10, ne_first_cluster = 7,
       ne_data_length = 4096, ne_no_fat_chain = False, ne_created = default_timestamp, ne_modified = default_timestamp,
       ne_accessed = default_timestamp\<rparr>" "replicate 3 no_locator" new_entry_set 99]
  by (fastforce simp: writable_def names_needed_def new_entry_set_def)

end
