(* ===== verification/Name_Folding.thy ===== *)
theory Name_Folding
  imports Directory_Ops File_Content
begin

text \<open>
  Case folding against the table on the medium. The UpCase table is stored compressed: a word 0xFFFF is
  followed by the number of units that map to themselves. \<open>fold_unit\<close> is the meaning of the table as a
  pure function of the medium; \<open>upcase_unit\<close>, which scans the table with one sector of memory, computes
  it, and \<open>names_match\<close> and \<open>upcase_name_hash\<close> compare and hash folded names.
\<close>

section \<open>The meaning of the table\<close>

definition table_word :: "medium \<Rightarrow> Volume \<Rightarrow> nat \<Rightarrow> u16 option" where
  "table_word m v byte =
     (let g = vol_geometry v; sz = sector_bytes v; cb = unat (bytes_per_cluster g) in
      Option.bind (chain_at m g (ut_first_cluster (vol_upcase v)) (byte div cb)) (\<lambda>c.
        map_option (\<lambda>lba. le_u16 (slice (byte mod sz) (byte mod sz + 2) (m (lba + of_usize (byte mod cb div sz)))))
          (cluster_lba g c)))"

definition table_words :: "medium \<Rightarrow> Volume \<Rightarrow> u16 option list" where
  "table_words m v = map (\<lambda>k. table_word m v (2 * k)) [0..<unat (ut_byte_length (vol_upcase v)) div 2]"

text \<open>The unit that \<open>u\<close> maps to, by the words from the one for unit \<open>code\<close> on.\<close>

fun expand_at :: "u16 option list \<Rightarrow> nat \<Rightarrow> u16 \<Rightarrow> u16 option" where
  "expand_at (Some w # ws) code u =
     (if w = 0xFFFF then
        (case ws of
           Some n # ws' \<Rightarrow> if code \<le> unat u \<and> unat u < code + unat n then Some u else expand_at ws' (code + unat n) u
         | _ \<Rightarrow> None)
      else if code = unat u then Some w
      else expand_at ws (Suc code) u)"
| "expand_at _ code u = None"

definition fold_unit :: "medium \<Rightarrow> Volume \<Rightarrow> u16 \<Rightarrow> u16 option" where
  "fold_unit m v u =
     (if u \<le> 0x7F then Some (ascii_upcase u)
      else if \<not> vol_upcase_valid v then None
      else expand_at (table_words m v) 0 u)"

definition units_hash :: "u16 list \<Rightarrow> u16" where
  "units_hash us = foldl hash_byte 0 (concat (map le16 us))"

definition fold_error :: "'e error exn \<Rightarrow> bool" where
  "fold_error e \<longleftrightarrow> e = Error Corrupt \<or> e = Error UpcaseTableCorrupt"

lemma length_table_words [simp]: "length (table_words m v) = unat (ut_byte_length (vol_upcase v)) div 2"
  by (simp add: table_words_def)

lemma drop_table_words:
  assumes "2 * k + 2 \<le> unat (ut_byte_length (vol_upcase v))"
  shows "drop k (table_words m v) = table_word m v (2 * k) # drop (Suc k) (table_words m v)"
proof -
  have "k < length (table_words m v)" using assms by simp
  then show ?thesis by (simp add: Cons_nth_drop_Suc [symmetric]) (simp add: table_words_def)
qed

section \<open>Scanning the table\<close>

text \<open>
  The scan at byte \<open>b\<close>, having passed the entries of all units below \<open>code\<close>: what is left of the table
  decides. A table of at most 128 KiB cannot make \<open>code\<close> overflow.
\<close>

definition scanning :: "medium \<Rightarrow> Volume \<Rightarrow> u16 \<Rightarrow> u32 \<times> u64 \<Rightarrow> bool" where
  "scanning m v u st \<longleftrightarrow> (case st of (code, byte) \<Rightarrow>
     even (unat byte) \<and> unat byte \<le> unat (ut_byte_length (vol_upcase v)) + 1 \<and>
     unat code \<le> 65535 * (unat byte div 2) \<and>
     expand_at (table_words m v) 0 u = expand_at (drop (unat byte div 2) (table_words m v)) (unat code) u)"

context lawful_device
begin

lemma post_upcase_word:
  assumes r: "reading sz s0 s" and wf: "wf_geometry (vol_geometry v)" and sz: "sector_bytes v = sz"
    and even: "even (unat byte)" and len: "unat byte + 2 \<le> unat (ut_byte_length (vol_upcase v))"
  shows "post (upcase_word D v byte) s
    (\<lambda>w s'. reading sz s0 s' \<and> table_word (media (device s0)) v (unat byte) = Some w)
    (\<lambda>e s'. reading sz s0 s' \<and> (is_device_error e \<or> e = Error Corrupt \<and> table_word (media (device s0)) v (unat byte) = None))"
    (is "post _ s ?Q ?E")
proof -
  let ?g = "vol_geometry v" and ?cb = "ucast (bytes_per_cluster (vol_geometry v)) :: u64" and ?m = "media (device s0)"
  let ?off = "unat byte mod sz"
  note nz = within_cluster(1,3) [OF wf, unfolded sz] and within = within_cluster(4-6) [OF wf, of byte, unfolded sz]
  note facts = sector_size_facts [OF wf, unfolded sz]
  have "even sz" using wf_geometryD(1) [OF wf] sz by auto
  then have "even ?off" using even by (simp add: dvd_mod_iff)
  moreover have "?off < sz" using facts(2) by simp
  ultimately have fit: "?off + 2 \<le> sz" using \<open>even sz\<close> by (auto elim!: evenE)
  have big: "\<not> ut_byte_length (vol_upcase v) < byte + 2"
  proof -
    have "unat byte + 2 < 2 ^ 64" using le_less_trans [OF len unat_u64_lt] by simp
    then show ?thesis using len by (simp add: word_less_nat_alt unat_add_small)
  qed
  have load: "post (bindM (read_sector D (lba + byte mod ?cb div of_usize sz) sz) (\<lambda>_.
      bindM (sector_slice sz ?off (?off + 2)) (\<lambda>raw. returnM (le_u16 raw)))) s' ?Q ?E"
    if r': "reading sz s0 s'" and c: "chain_at ?m ?g (ut_first_cluster (vol_upcase v)) (unat (byte div ?cb)) = Some c"
      and lba: "cluster_lba ?g c = Some lba" for s' c lba
    by (rule post_load_slice [OF r'])
      (use fit c lba in \<open>auto simp: table_word_def Let_def sz within(1,3)\<close>)
  have rest: "post (bindM (ok_or (cluster_lba ?g c) Corrupt) (\<lambda>lba.
      bindM (read_sector D (lba + byte mod ?cb div of_usize sz) sz) (\<lambda>_.
      bindM (sector_slice sz ?off (?off + 2)) (\<lambda>raw. returnM (le_u16 raw))))) s' ?Q ?E"
    if r': "reading sz s0 s'" and c: "chain_at ?m ?g (ut_first_cluster (vol_upcase v)) (unat (byte div ?cb)) = Some c" for s' c
  proof (cases "cluster_lba ?g c")
    case None
    then show ?thesis using r' c by (simp add: table_word_def Let_def sz within(1))
  next
    case (Some lba)
    then show ?thesis using load [OF r' c Some] by (simp del: post_bindM)
  qed
  have "post (bindM (cluster_at D v (ut_first_cluster (vol_upcase v)) (byte div ?cb)) (\<lambda>c.
      bindM (ok_or (cluster_lba ?g c) Corrupt) (\<lambda>lba.
      bindM (read_sector D (lba + byte mod ?cb div of_usize sz) sz) (\<lambda>_.
      bindM (sector_slice sz ?off (?off + 2)) (\<lambda>raw. returnM (le_u16 raw)))))) s ?Q ?E"
    unfolding post_bindM [of "cluster_at _ _ _ _"]
    by (rule post_mono [OF post_cluster_at [OF r wf sz]])
      (use rest within(1) in \<open>auto simp: table_word_def Let_def sz simp del: post_bindM\<close>)
  moreover have "\<not> sz < ?off + 2" using fit by simp
  ultimately show ?thesis
    unfolding upcase_word_def Let_def sz if_not_P [OF big] within(2) using nz by (simp del: post_bindM)
qed


lemma post_upcase_round:
  fixes s0 s :: "('d, 'x) io_scheme"
  assumes r: "reading sz s0 s" and wf: "wf_geometry (vol_geometry v)" and sz: "sector_bytes v = sz"
    and len: "ut_byte_length (vol_upcase v) \<le> 0x20000" and st: "scanning (media (device s0)) v u (code, byte)"
  shows "post (upcase_round D v u (code, byte)) s
    (\<lambda>x s'. reading sz s0 s' \<and> (case x of
        Inl (code', byte') \<Rightarrow> scanning (media (device s0)) v u (code', byte') \<and> unat byte < unat byte'
      | Inr w \<Rightarrow> expand_at (table_words (media (device s0)) v) 0 u = Some w))
    (\<lambda>e s'. reading sz s0 s' \<and> (is_device_error e \<or>
        e = Error Corrupt \<and> expand_at (table_words (media (device s0)) v) 0 u = None))"
    (is "post _ s ?Q ?E")
proof -
  let ?m = "media (device s0)" and ?len = "unat (ut_byte_length (vol_upcase v))"
  let ?ws = "table_words (media (device s0)) v"
  define k where "k = unat byte div 2"
  have even: "unat byte = 2 * k" and code: "unat code \<le> 65535 * k" and bk: "2 * k \<le> ?len + 1"
    and exp: "expand_at ?ws 0 u = expand_at (drop k ?ws) (unat code) u"
    using st by (auto simp: scanning_def k_def)
  have L: "?len \<le> 131072" using len by (simp add: word_le_nat_alt)
  have b2: "unat (byte + 2) = 2 * k + 2" "unat (byte + 2 + 2) = 2 * k + 4"
    using even bk L by (simp_all add: unat_add_small)
  have "k \<le> 65536" using bk L by presburger
  then have code_lt: "unat code + 65535 < 2 ^ 32" using code by simp
  show ?thesis
  proof (cases "byte + 2 \<le> ut_byte_length (vol_upcase v)")
    case False
    then have "length ?ws \<le> k" using b2 by (simp add: word_le_nat_alt)
    then show ?thesis using False r exp by (simp add: upcase_round_def Let_def)
  next
    case True
    then have t2: "2 * k + 2 \<le> ?len" using b2 by (simp add: word_le_nat_alt)
    note ws = drop_table_words [OF t2, of ?m]
    define body :: "u16 \<Rightarrow> ('d, 'x, 'e, (u32 \<times> u64) + u16) iom" where "body = (\<lambda>val. if val = 0xFFFF then
        if ut_byte_length (vol_upcase v) < byte + 2 + 2 then fail Corrupt else
        bindM (upcase_word D v (byte + 2)) (\<lambda>skipped.
        bindM (ok_or (checked_add code (ucast skipped)) Corrupt) (\<lambda>end_code.
        if code \<le> ucast u \<and> ucast u < end_code then returnM (Inr u) else returnM (Inl (end_code, byte + 2 + 2))))
      else if code = ucast u then returnM (Inr val) else returnM (Inl (code + 1, byte + 2)))"
    have after: "post (body val) s' ?Q ?E"
      if r': "reading sz s0 s'" and w: "table_word ?m v (2 * k) = Some val" for val and s' :: "('d, 'x) io_scheme"
    proof (cases "val = 0xFFFF")
      case False
      have c1: "unat (code + 1) = Suc (unat code)" using code_lt by (simp add: unat_add_small)
      have "code = ucast u \<longleftrightarrow> unat code = unat u" by (simp add: word_unat_eq_iff)
      then show ?thesis
        unfolding body_def using False r' exp ws w c1 b2 t2 code even by (auto simp: scanning_def)
    next
      case skip: True
      show ?thesis
      proof (cases "ut_byte_length (vol_upcase v) < byte + 2 + 2")
        case True
        then have "length ?ws \<le> Suc k" using b2 by (simp add: word_less_nat_alt)
        then show ?thesis unfolding body_def using True skip r' exp ws w by simp
      next
        case False
        then have t4: "2 * Suc k + 2 \<le> ?len" using b2 by (simp add: word_less_nat_alt)
        note ws2 = drop_table_words [OF t4, of ?m]
        have ev: "even (unat (byte + 2))" "unat (byte + 2) + 2 \<le> ?len" "unat (byte + 2) = 2 * Suc k" using b2 t4 by simp_all
        have done_skip: "post (bindM (ok_or (checked_add code (ucast skipped)) Corrupt) (\<lambda>end_code.
            if code \<le> ucast u \<and> ucast u < end_code then returnM (Inr u) else returnM (Inl (end_code, byte + 2 + 2)))) s1 ?Q ?E"
          if r1: "reading sz s0 s1" and n: "table_word ?m v (2 * Suc k) = Some skipped" for s1 skipped
        proof -
          have lt: "unat code + unat skipped < 2 ^ 32" using code_lt unat_u16_lt [of skipped] by linarith
          then have add: "checked_add code (ucast skipped) = Some (code + ucast skipped)" "unat (code + ucast skipped :: u32) = unat code + unat skipped"
            by (simp_all add: checked_add_def unat_add_small)
          have bound: "unat code + unat skipped \<le> 65535 * Suc (Suc k)" 
            using code unat_u16_lt [of skipped] unfolding mult_Suc_right by linarith
          have exp': "expand_at ?ws 0 u = (if unat code \<le> unat u \<and> unat u < unat code + unat skipped then Some u
              else expand_at (drop (Suc (Suc k)) ?ws) (unat code + unat skipped) u)"
            using exp ws ws2 w n skip by simp
          show ?thesis
            using r1 add bound exp' b2 t4 even
            by (auto simp: scanning_def word_le_nat_alt word_less_nat_alt)
        qed
        have err: "expand_at ?ws 0 u = None" if "table_word ?m v (2 * Suc k) = None"
          using exp ws ws2 w that skip by simp
        show ?thesis
          unfolding body_def if_P [OF skip] if_not_P [OF False] post_bindM [of "upcase_word _ _ _"]
          by (rule post_mono [OF post_upcase_word [OF r' wf sz ev(1,2), unfolded ev(3)]]) (use done_skip err in blast)+
      qed
    qed
    have ev: "even (unat byte)" "unat byte + 2 \<le> ?len" using even t2 by simp_all
    have err: "expand_at ?ws 0 u = None" if "table_word ?m v (2 * k) = None" using exp ws that by simp
    show ?thesis
    proof -
      have "post (bindM (upcase_word D v byte) body) s ?Q ?E"
        unfolding post_bindM by (rule post_mono [OF post_upcase_word [OF r wf sz ev, unfolded even]]) (use after err in blast)+
      then show ?thesis using True unfolding upcase_round_def body_def Let_def prod.case by simp
    qed
  qed
qed

lemma post_upcase_unit:
  assumes r: "reading sz s0 s" and wf: "wf_geometry (vol_geometry v)" and sz: "sector_bytes v = sz"
    and len: "ut_byte_length (vol_upcase v) \<le> 0x20000"
  shows "post (upcase_unit D v u) s
    (\<lambda>w s'. reading sz s0 s' \<and> fold_unit (media (device s0)) v u = Some w)
    (\<lambda>e s'. reading sz s0 s' \<and> (is_device_error e \<or> fold_error e \<and> fold_unit (media (device s0)) v u = None))"
proof (cases "u \<le> 0x7F \<or> \<not> vol_upcase_valid v")
  case True
  then show ?thesis using r by (auto simp: upcase_unit_def fold_unit_def fold_error_def)
next
  case False
  let ?len = "unat (ut_byte_length (vol_upcase v))" and ?m = "media (device s0)"
  have L: "?len \<le> 131072" using len by (simp add: word_le_nat_alt)
  have fold: "fold_unit ?m v u = expand_at (table_words ?m v) 0 u" using False by (simp add: fold_unit_def)
  have "post (loop_m (Suc ?len) Diverge (upcase_round D v u) (0, 0)) s
    (\<lambda>w s'. reading sz s0 s' \<and> expand_at (table_words ?m v) 0 u = Some w)
    (\<lambda>e s'. reading sz s0 s' \<and> (is_device_error e \<or> e = Error Corrupt \<and> expand_at (table_words ?m v) 0 u = None))"
  proof (rule post_loop_m [where I = "\<lambda>st s'. reading sz s0 s' \<and> scanning ?m v u st" and \<mu> = "\<lambda>(code, byte) _. (?len + 1 - unat byte) div 2"])
    fix st s' assume I: "reading sz s0 s' \<and> scanning ?m v u st"
    obtain code byte where st: "st = (code, byte)" by (cases st)
    have dec: "(?len + 1 - unat byte') div 2 < (?len + 1 - unat byte) div 2"
      if "scanning ?m v u (code', byte')" "unat byte < unat byte'" for code' byte'
    proof -
      have "even (unat byte)" "even (unat byte')" "unat byte' \<le> ?len + 1" using that(1) I by (auto simp: st scanning_def)
      moreover from this have "unat byte + 2 \<le> unat byte'" using that(2) by (auto elim!: evenE)
      ultimately have "?len + 1 - unat byte' + 2 \<le> ?len + 1 - unat byte" by linarith
      then show ?thesis by linarith
    qed
    show "post (upcase_round D v u st) s'
        (\<lambda>x s1. case x of Inl st' \<Rightarrow> (reading sz s0 s1 \<and> scanning ?m v u st') \<and>
            (case st' of (code, byte) \<Rightarrow> \<lambda>_. (?len + 1 - unat byte) div 2) s1 < (case st of (code, byte) \<Rightarrow> \<lambda>_. (?len + 1 - unat byte) div 2) s'
          | Inr w \<Rightarrow> reading sz s0 s1 \<and> expand_at (table_words ?m v) 0 u = Some w)
        (\<lambda>e s'. reading sz s0 s' \<and> (is_device_error e \<or> e = Error Corrupt \<and> expand_at (table_words ?m v) 0 u = None))"
      unfolding st
      by (rule post_mono [OF post_upcase_round [OF _ wf sz len]])
        (use I dec st in \<open>auto split: sum.splits prod.splits\<close>)
  qed (use r in \<open>simp_all add: scanning_def\<close>)
  then show ?thesis
    using False unfolding upcase_unit_def fold by (auto simp: fold_error_def elim!: post_mono)
qed


text \<open>Comparing and hashing whole names.\<close>

lemma post_names_match:
  fixes s0 s :: "('d, 'x) io_scheme"
  assumes r: "reading sz s0 s" and wf: "wf_geometry (vol_geometry v)" and sz: "sector_bytes v = sz"
    and len: "ut_byte_length (vol_upcase v) \<le> 0x20000"
  shows "post (names_match D v xs ys) s
    (\<lambda>b s'. reading sz s0 s' \<and> b = (map (fold_unit (media (device s0)) v) xs = map (fold_unit (media (device s0)) v) ys))
    (\<lambda>e s'. reading sz s0 s' \<and> (is_device_error e \<or> fold_error e \<and>
       (\<exists>u \<in> set xs \<union> set ys. fold_unit (media (device s0)) v u = None)))"
    (is "post _ s ?Q ?E")
proof (cases "length xs = length ys")
  case False
  then have "map (fold_unit (media (device s0)) v) xs \<noteq> map (fold_unit (media (device s0)) v) ys"
    by (metis length_map)
  then show ?thesis using False r by (simp add: names_match_def)
next
  case True
  let ?f = "fold_unit (media (device s0)) v"
  define body :: "u16 \<times> u16 \<Rightarrow> unit \<Rightarrow> ('d, 'x, 'e, unit + bool) iom" where "body = (\<lambda>(left, right) _. bindM (upcase_unit D v left) (\<lambda>a.
      bindM (upcase_unit D v right) (\<lambda>b. if a \<noteq> b then returnM (Inr False) else returnM (Inl ()))))"
  have step: "post (body (x, y) ()) s'
      (\<lambda>r s'. reading sz s0 s' \<and> (case r of Inl _ \<Rightarrow> ?f x = ?f y | Inr b \<Rightarrow> \<not> b \<and> ?f x \<noteq> ?f y))
      (\<lambda>e s'. reading sz s0 s' \<and> (is_device_error e \<or> fold_error e \<and> (?f x = None \<or> ?f y = None)))"
    if "reading sz s0 s'" for x y and s' :: "('d, 'x) io_scheme"
    unfolding body_def prod.case post_bindM
    by (rule post_mono [OF post_upcase_unit [OF that wf sz len]])
      (auto intro!: post_mono [OF post_upcase_unit [OF _ wf sz len]])
  have "post (for_m (zip xs ys) body ()) s
      (\<lambda>r s'. reading sz s0 s' \<and> (case r of Inl _ \<Rightarrow> map ?f xs = map ?f ys | Inr b \<Rightarrow> \<not> b \<and> map ?f xs \<noteq> map ?f ys)) ?E"
  proof (rule post_for_m [where I = "\<lambda>k _ s'. reading sz s0 s' \<and> (\<forall>i < k. ?f (xs ! i) = ?f (ys ! i))"])
    fix k and x :: unit and s' assume k: "k < length (zip xs ys)" and I: "reading sz s0 s' \<and> (\<forall>i < k. ?f (xs ! i) = ?f (ys ! i))"
    have at: "zip xs ys ! k = (xs ! k, ys ! k)" "xs ! k \<in> set xs" "ys ! k \<in> set ys" using k by simp_all
    have diff: "map ?f xs \<noteq> map ?f ys" if "?f (xs ! k) \<noteq> ?f (ys ! k)" using that k by (auto simp: list_eq_iff_nth_eq)
    show "post (body (zip xs ys ! k) x) s'
        (\<lambda>r s'. case r of Inl _ \<Rightarrow> reading sz s0 s' \<and> (\<forall>i < Suc k. ?f (xs ! i) = ?f (ys ! i))
          | Inr b \<Rightarrow> reading sz s0 s' \<and> (case Inr b of Inl _ \<Rightarrow> map ?f xs = map ?f ys | Inr b \<Rightarrow> \<not> b \<and> map ?f xs \<noteq> map ?f ys)) ?E"
      unfolding at
      by (simp, rule post_mono [OF step [OF conjunct1 [OF I]]]) (use I at(2,3) diff in \<open>auto simp: less_Suc_eq split: sum.splits\<close>)
  next
    show "reading sz s0 s' \<and> (case Inl x of Inl _ \<Rightarrow> map ?f xs = map ?f ys | Inr b \<Rightarrow> \<not> b \<and> map ?f xs \<noteq> map ?f ys)"
      if "reading sz s0 s' \<and> (\<forall>i < length (zip xs ys). ?f (xs ! i) = ?f (ys ! i))" for x s'
      using that True by (auto intro: nth_equalityI)
  qed (use r in simp)
  then show ?thesis
    using True unfolding names_match_def body_def by (auto elim!: post_mono split: sum.splits)
qed

lemma foldl_hash: "foldl hash_byte acc (concat (map le16 us)) = foldl (\<lambda>acc u. foldl hash_byte acc (le16 u)) acc us"
  by (induction us arbitrary: acc) simp_all

lemma post_upcase_name_hash:
  assumes r: "reading sz s0 s" and wf: "wf_geometry (vol_geometry v)" and sz: "sector_bytes v = sz"
    and len: "ut_byte_length (vol_upcase v) \<le> 0x20000"
  shows "post (upcase_name_hash D v name) s
    (\<lambda>h s'. reading sz s0 s' \<and> (\<exists>us. map (fold_unit (media (device s0)) v) name = map Some us \<and> h = units_hash us))
    (\<lambda>e s'. reading sz s0 s' \<and> (is_device_error e \<or> fold_error e \<and> (\<exists>u \<in> set name. fold_unit (media (device s0)) v u = None)))"
    (is "post _ s ?Q ?E")
  unfolding upcase_name_hash_def
proof (rule post_fold_m [where I = "\<lambda>k acc s'. reading sz s0 s' \<and>
      (\<exists>us. map (fold_unit (media (device s0)) v) (take k name) = map Some us \<and> acc = units_hash us)"])
  fix k acc s'
  assume k: "k < length name" and I: "reading sz s0 s' \<and>
      (\<exists>us. map (fold_unit (media (device s0)) v) (take k name) = map Some us \<and> acc = units_hash us)"
  let ?f = "fold_unit (media (device s0)) v"
  obtain us where us: "map ?f (take k name) = map Some us" "acc = units_hash us" using I by blast
  have "\<exists>us. map ?f (take (Suc k) name) = map Some us \<and> foldl hash_byte acc (le16 w) = units_hash us"
    if "?f (name ! k) = Some w" for w
    using us that k by (intro exI [of _ "us @ [w]"]) (simp add: take_Suc_conv_app_nth units_hash_def foldl_hash)
  note upto = this
  show "post (bindM (upcase_unit D v (name ! k)) (\<lambda>up. returnM (foldl hash_byte acc (le16 up)))) s'
      (\<lambda>acc s'. reading sz s0 s' \<and> (\<exists>us. map ?f (take (Suc k) name) = map Some us \<and> acc = units_hash us)) ?E"
    unfolding post_bindM
  proof (rule post_mono [OF post_upcase_unit [OF conjunct1 [OF I] wf sz len]])
    fix w s1 assume "reading sz s0 s1 \<and> ?f (name ! k) = Some w"
    then show "post (returnM (foldl hash_byte acc (le16 w))) s1
        (\<lambda>acc s'. reading sz s0 s' \<and> (\<exists>us. map ?f (take (Suc k) name) = map Some us \<and> acc = units_hash us)) ?E"
      using upto by simp
  qed (use k nth_mem in blast)
qed (use r in \<open>auto simp: units_hash_def\<close>)

end

section \<open>Properties\<close>

text \<open>The test card with a table in cluster 3 that maps \<open>0xE9\<close> to \<open>0xC9\<close>.\<close>

definition fold_volume :: Volume where
  "fold_volume = test_volume\<lparr>vol_upcase := \<lparr>ut_checksum = 0, ut_first_cluster = 3, ut_byte_length = 6\<rparr>, vol_upcase_valid := True\<rparr>"

definition fold_card :: "(u8 list list) fs" where
  "fold_card = test_card\<lparr>device := (device test_card)[42 := [0xFF, 0xFF, 0xE9, 0, 0xC9, 0] @ replicate 506 0]\<rparr>"

lemma fold_card_ok: "io_ok mem_ops mem_ok 512 fold_card"
  using test_card_ok by (simp add: io_ok_def fold_card_def mem_ok_update)

lemma fold_volume_simps [simp]:
  "vol_geometry fold_volume = test_geometry" "vol_upcase fold_volume = \<lparr>ut_checksum = 0, ut_first_cluster = 3, ut_byte_length = 6\<rparr>"
  by (simp_all add: fold_volume_def)

lemma fold_unit_test: "fold_unit (mem_media (device fold_card)) fold_volume 0xE9 = Some 0xC9"
proof -
  have word: "table_word (mem_media (device fold_card)) fold_volume (2 * k) =
      Some (le_u16 (slice (2 * k) (2 * k + 2) ([0xFF, 0xFF, 0xE9, 0, 0xC9, 0] @ replicate 506 0)))" if "k < 3" for k
    using that
    by (simp add: table_word_def chain_at_def cluster_lba_def in_heap_def saturating_add_def bytes_per_cluster_def
        mem_media_def fold_card_def test_card_def fold_volume_def of_usize_def test_geometry_def Let_def)
  have "[0..<unat (ut_byte_length (vol_upcase fold_volume)) div 2] = [0, 1, 2]" by (simp add: upt_rec)
  then have "table_words (mem_media (device fold_card)) fold_volume = [Some 0xFFFF, Some 0xE9, Some 0xC9]"
    using word [of 0] word [of 1] word [of 2] by (simp add: table_words_def le_u16_def slice_def)
  then show ?thesis by (simp add: fold_unit_def fold_volume_def)
qed

text \<open>
  C29: \<open>upcase_unit\<close> computes the meaning of the volume's UpCase table. For every unit and a table of at
  most 128 KiB it never writes, its result is the unit the table maps it to (ASCII by the fixed rule,
  without reading the table), and apart from device errors it fails only when the table is missing,
  ends early or has an unreadable chain.
\<close>
theorem upcase_unit_correct:
  fixes D :: "('d, 'e) device_ops" and s :: "('d, 'x) io_scheme"
  assumes "lawful_device D media invar" "io_ok D invar (sector_bytes v) s" "wf_geometry (vol_geometry v)"
    and "ut_byte_length (vol_upcase v) \<le> 0x20000"
  shows "case upcase_unit D v u s of (r, s') \<Rightarrow>
      media (device s') = media (device s) \<and>
      (case r of
        Inr w \<Rightarrow> fold_unit (media (device s)) v u = Some w
      | Inl e \<Rightarrow> is_device_error e \<or> fold_error e \<and> fold_unit (media (device s)) v u = None)"
  using lawful_device.post_upcase_unit [OF assms(1) lawful_device.reading_refl [OF assms(1,2)] assms(3) refl assms(4), of u]
  by (auto simp: post_def dest: lawful_device.readingD(2) [OF assms(1)] split: prod.splits sum.splits)

theorem upcase_unit_correct_witness:
  "case upcase_unit mem_ops fold_volume 0xE9 fold_card of (r, s') \<Rightarrow> (\<forall>w. r = Inr w \<longrightarrow> w = 0xC9) \<and> r \<noteq> Inl (Error Corrupt)"
  using upcase_unit_correct [OF mem.lawful_device_axioms, of fold_volume fold_card "0xE9"] fold_card_ok wf_test_geometry fold_unit_test
  by (auto simp: is_device_error_def split: prod.splits sum.splits)

text \<open>
  C30: Names that match hash alike. Whenever \<open>names_match\<close> answers that two names are equal up to case,
  \<open>upcase_name_hash\<close> gives both the same name hash on the same medium, whatever the states the three
  calls start in; so a lookup may rely on the hash stored in an entry.
\<close>
theorem matching_names_hash_alike:
  fixes D :: "('d, 'e) device_ops" and s :: "('d, 'x) io_scheme"
  assumes "lawful_device D media invar" "wf_geometry (vol_geometry v)" "ut_byte_length (vol_upcase v) \<le> 0x20000"
    and "io_ok D invar (sector_bytes v) s" "io_ok D invar (sector_bytes v) t" "io_ok D invar (sector_bytes v) u"
    and "media (device t) = media (device s)" "media (device u) = media (device s)"
    and "names_match D v xs ys s = (Inr True, s')"
    and "upcase_name_hash D v xs t = (Inr h, t')" "upcase_name_hash D v ys u = (Inr k, u')"
  shows "h = k"
proof -
  note refl' = lawful_device.reading_refl [OF assms(1)]
  have "map (fold_unit (media (device s)) v) xs = map (fold_unit (media (device s)) v) ys"
    using post_InrD [OF lawful_device.post_names_match [OF assms(1) refl' [OF assms(4)] assms(2) refl assms(3)] assms(9)] by simp
  moreover obtain us ws where "map (fold_unit (media (device t)) v) xs = map Some us" "h = units_hash us"
    "map (fold_unit (media (device u)) v) ys = map Some ws" "k = units_hash ws"
    using post_InrD [OF lawful_device.post_upcase_name_hash [OF assms(1) refl' [OF assms(5)] assms(2) refl assms(3)] assms(10)]
      post_InrD [OF lawful_device.post_upcase_name_hash [OF assms(1) refl' [OF assms(6)] assms(2) refl assms(3)] assms(11)]
    by blast
  moreover have "inj Some" by simp
  ultimately show ?thesis using assms(7,8) by (metis inj_map_eq_map)
qed

theorem matching_names_hash_alike_witness:
  "names_match mem_ops fold_volume [0x61, 0x42] [0x41, 0x62] fold_card = (Inr True, fold_card) \<and>
   fst (upcase_name_hash mem_ops fold_volume [0x61, 0x42] fold_card) = fst (upcase_name_hash mem_ops fold_volume [0x41, 0x62] fold_card)"
proof -
  have run: "names_match mem_ops fold_volume [0x61, 0x42] [0x41, 0x62] fold_card = (Inr True, fold_card)"
    by (simp add: names_match_def upcase_unit_def ascii_upcase_def bindM_def returnM_def)
  obtain h k where hash: "upcase_name_hash mem_ops fold_volume [0x61, 0x42] fold_card = (Inr h, fold_card)"
    "upcase_name_hash mem_ops fold_volume [0x41, 0x62] fold_card = (Inr k, fold_card)"
    by (simp add: upcase_name_hash_def upcase_unit_def ascii_upcase_def bindM_def returnM_def)
  have "h = k"
    by (rule matching_names_hash_alike [OF mem.lawful_device_axioms, of fold_volume fold_card fold_card fold_card])
      (use run hash fold_card_ok wf_test_geometry in simp_all)
  then show ?thesis using run hash by simp
qed

end
