(* ===== verification/Entry_Store.thy ===== *)
theory Entry_Store
  imports Entry_Codec Name_Folding File_IO_Correct
begin

text \<open>
  The effect on the medium of the operations that write directory entries. A slot is the 32 bytes at a
  locator; each store changes some bytes of one slot (\<open>with_field\<close>) and nothing else.
\<close>

section \<open>Slots\<close>

definition slot_row :: "medium \<Rightarrow> EntryLocator \<Rightarrow> u8 list" where
  "slot_row m loc = slice (unat (el_offset loc)) (unat (el_offset loc) + 32) (m (el_lba loc))"

definition with_field :: "EntryLocator \<Rightarrow> nat \<Rightarrow> u8 list \<Rightarrow> medium \<Rightarrow> medium" where
  "with_field loc i bs m = m(el_lba loc := patch (unat (el_offset loc) + i) bs (m (el_lba loc)))"

definition slot_ok :: "nat \<Rightarrow> EntryLocator \<Rightarrow> bool" where
  "slot_ok sz loc \<longleftrightarrow> unat (el_offset loc) mod 32 = 0 \<and> unat (el_offset loc) + 32 \<le> sz"

definition slots_ok :: "nat \<Rightarrow> EntryLocator list \<Rightarrow> bool" where
  "slots_ok sz locs \<longleftrightarrow> distinct locs \<and> list_all (slot_ok sz) locs"

text \<open>All bytes outside the slots are as before.\<close>

definition same_outside :: "nat \<Rightarrow> EntryLocator set \<Rightarrow> medium \<Rightarrow> medium \<Rightarrow> bool" where
  "same_outside sz L m m' \<longleftrightarrow>
     (\<forall>lba k. k < sz \<longrightarrow> (\<forall>loc \<in> L. el_lba loc = lba \<longrightarrow> \<not> (unat (el_offset loc) \<le> k \<and> k < unat (el_offset loc) + 32)) \<longrightarrow>
        m' lba ! k = m lba ! k)"

lemma same_outside_refl [simp]: "same_outside sz L m m"
  by (simp add: same_outside_def)

lemma same_outside_trans: "same_outside sz L m m' \<Longrightarrow> same_outside sz L m' m'' \<Longrightarrow> same_outside sz L m m''"
  by (simp add: same_outside_def)

lemma slice_patch_within:
  assumes "off + n \<le> length xs" "i + length bs \<le> n"
  shows "slice off (off + n) (patch (off + i) bs xs) = patch i bs (slice off (off + n) xs)"
  by (rule nth_equalityI) (use assms in \<open>auto simp: nth_slice nth_patch\<close>)

lemma slots_apart:
  assumes "slot_ok sz a" "slot_ok sz b" "el_lba a = el_lba b" "a \<noteq> b"
  shows "unat (el_offset a) + 32 \<le> unat (el_offset b) \<or> unat (el_offset b) + 32 \<le> unat (el_offset a)"
proof -
  obtain x y where xy: "unat (el_offset a) = 32 * x" "unat (el_offset b) = 32 * y"
    using assms(1,2) unfolding slot_ok_def by (metis dvd_def mod_0_imp_dvd)
  have "el_offset a \<noteq> el_offset b" using assms(3,4) by auto
  then have "x \<noteq> y" using xy by (auto simp: word_unat_eq_iff)
  then show ?thesis unfolding xy by linarith
qed

lemma length_slot_row: "(\<And>l. length (m l) = sz) \<Longrightarrow> slot_ok sz loc \<Longrightarrow> length (slot_row m loc) = 32"
  by (simp add: slot_row_def slot_ok_def)

lemma slot_row_with_field:
  assumes len: "\<And>l. length (m l) = sz" and ok: "slot_ok sz a" "slot_ok sz b" and fit: "i + length bs \<le> 32"
  shows "slot_row (with_field a i bs m) b = (if b = a then patch i bs (slot_row m a) else slot_row m b)"
proof (cases "b = a")
  case True
  then show ?thesis using ok len fit by (simp add: slot_row_def with_field_def slot_ok_def slice_patch_within)
next
  case False
  show ?thesis
  proof (cases "el_lba b = el_lba a")
    case True
    then have "slice (unat (el_offset b)) (unat (el_offset b) + 32) (patch (unat (el_offset a) + i) bs (m (el_lba a)))
        = slice (unat (el_offset b)) (unat (el_offset b) + 32) (m (el_lba a))"
      using slots_apart [OF ok] False ok fit len by (intro slice_patch_other) (auto simp: slot_ok_def)
    then show ?thesis using False True by (simp add: slot_row_def with_field_def)
  qed (use False in \<open>simp add: slot_row_def with_field_def\<close>)
qed

lemma same_outside_with_field:
  assumes len: "\<And>l. length (m l) = sz" and ok: "slot_ok sz a" and a: "a \<in> L" and fit: "i + length bs \<le> 32"
  shows "same_outside sz L m (with_field a i bs m)"
  unfolding same_outside_def
proof (intro allI impI)
  fix lba k assume k: "k < sz"
    and out: "\<forall>loc \<in> L. el_lba loc = lba \<longrightarrow> \<not> (unat (el_offset loc) \<le> k \<and> k < unat (el_offset loc) + 32)"
  show "with_field a i bs m lba ! k = m lba ! k"
  proof (cases "lba = el_lba a")
    case True
    then have "\<not> (unat (el_offset a) \<le> k \<and> k < unat (el_offset a) + 32)" using out a by blast
    then show ?thesis using True k len ok fit by (auto simp: with_field_def nth_patch slot_ok_def)
  qed (simp add: with_field_def)
qed

lemma length_with_field:
  assumes "\<And>l. length (m l) = sz" "slot_ok sz a" "i + length bs \<le> 32"
  shows "length (with_field a i bs m l) = sz"
  using assms by (simp add: with_field_def slot_ok_def)

text \<open>Storing a whole slot.\<close>

lemma patch_all: "length row = n \<Longrightarrow> length xs = n \<Longrightarrow> patch 0 row xs = row"
  by (simp add: patch_def)

section \<open>Progress of a set\<close>

definition rows_stored :: "nat \<Rightarrow> EntryLocator list \<Rightarrow> u8 list list \<Rightarrow> nat \<Rightarrow> medium \<Rightarrow> medium \<Rightarrow> bool" where
  "rows_stored sz locs raws k m m' \<longleftrightarrow>
     (\<forall>i < k. slot_row m' (locs ! i) = raws ! i) \<and> same_outside sz (set locs) m m'"

definition rows_retired :: "nat \<Rightarrow> EntryLocator list \<Rightarrow> nat \<Rightarrow> medium \<Rightarrow> medium \<Rightarrow> bool" where
  "rows_retired sz locs k m m' \<longleftrightarrow> same_outside sz (set locs) m m' \<and>
     (\<forall>i < length locs. slot_row m' (locs ! i) =
        (let row = slot_row m (locs ! i) in if i < k then patch 0 [row ! 0 AND NOT 0x80] row else row))"

section \<open>The stores\<close>

context lawful_device
begin

text \<open>\<open>stored W s0 s\<close>: since \<open>s0\<close> only sectors of \<open>W\<close> were written and no other state was touched.\<close>

definition storing :: "nat \<Rightarrow> u64 set \<Rightarrow> ('d, 'x) io_scheme \<Rightarrow> ('d, 'x) io_scheme \<Rightarrow> bool" where
  "storing sz W s0 s \<longleftrightarrow> io_ok D invar sz s0 \<and> frame D media invar sz W io_same s0 s"

lemma storing_refl: "io_ok D invar sz s \<Longrightarrow> storing sz W s s"
  by (simp add: storing_def frame_def io_same_def)

lemma storingD:
  assumes "storing sz W s0 s"
  shows "io_ok D invar sz s" "l \<notin> W \<Longrightarrow> media (device s) l = media (device s0) l" "io.more s = io.more s0"
    "sz \<le> length (scratch s)" "length (media (device s) l) = sz"
  using assms media_length [of "device s"] by (auto simp: storing_def frame_def io_same_def io_ok_def)

lemma storing_reading: "storing sz W s0 s \<Longrightarrow> reading sz s s' \<Longrightarrow> storing sz W s0 s'"
  by (auto simp: storing_def reading_def frame_def io_same_def)

lemma storing_frame: "storing sz W s0 s \<Longrightarrow> frame D media invar sz {lba} io_same s s' \<Longrightarrow> lba \<in> W \<Longrightarrow> storing sz W s0 s'"
  by (auto simp: storing_def frame_def io_same_def)

text \<open>Read a sector, change bytes of a slot in it, write it back.\<close>

lemma post_field:
  assumes st: "storing sz W s0 s" and ok: "slot_ok sz loc" and W: "el_lba loc \<in> W" and fit: "i + length bs \<le> 32"
  shows "post (bindM (read_sector D (el_lba loc) sz) (\<lambda>_.
      bindM (sector_copy sz (unat (el_offset loc) + i) bs) (\<lambda>_. write_sector D (el_lba loc) sz))) s
    (\<lambda>_ s'. storing sz W s0 s' \<and> media (device s') = with_field loc i bs (media (device s)))
    (\<lambda>e s'. storing sz W s0 s' \<and> is_device_error e)"
proof -
  have f: "unat (el_offset loc) + i + length bs \<le> sz" using ok fit by (simp add: slot_ok_def)
  show ?thesis
    by (rule post_mono [OF post_update_sector [OF storingD(1) [OF st] f, of "el_lba loc"]])
      (use storing_frame [OF st _ W] in \<open>auto simp: with_field_def\<close>)
qed

lemma post_store_row:
  assumes st: "storing sz W s0 s" and ok: "slot_ok sz loc" and W: "el_lba loc \<in> W" and row: "length row = 32"
  shows "post (store_row D sz loc row) s
    (\<lambda>_ s'. storing sz W s0 s' \<and> media (device s') = with_field loc 0 row (media (device s)))
    (\<lambda>e s'. storing sz W s0 s' \<and> is_device_error e)"
  using post_field [OF st ok W, of 0 row] row ok by (simp add: store_row_def Let_def slot_ok_def del: post_bindM)

lemma post_store_checksum:
  assumes st: "storing sz W s0 s" and ok: "slot_ok sz loc" and W: "el_lba loc \<in> W"
  shows "post (store_checksum D sz loc checksum) s
    (\<lambda>_ s'. storing sz W s0 s' \<and> media (device s') = with_field loc 2 (le16 checksum) (media (device s)))
    (\<lambda>e s'. storing sz W s0 s' \<and> is_device_error e)"
  using post_field [OF st ok W, of 2 "le16 checksum"] by (simp add: store_checksum_def del: post_bindM)


section \<open>Writing a set\<close>

text \<open>Rows \<open>0..k\<close> of a set have been stored and everything outside its slots is as it was.\<close>

lemma rows_stored_next:
  assumes len: "\<And>l. length (m' l) = sz" and locs: "slots_ok sz locs" and k: "k < length locs" and row: "length row = 32" "raws ! k = row"
    and m': "rows_stored sz locs raws k m m'"
  shows "rows_stored sz locs raws (Suc k) m (with_field (locs ! k) 0 row m')"
proof -
  have ok: "slot_ok sz (locs ! i)" if "i < length locs" for i using locs that by (simp add: slots_ok_def list_all_length)
  have "same_outside sz (set locs) m' (with_field (locs ! k) 0 row m')"
    by (rule same_outside_with_field [OF len ok [OF k]]) (use k row in simp_all)
  moreover have "slot_row (with_field (locs ! k) 0 row m') (locs ! i) = raws ! i" if i: "i < Suc k" for i
  proof -
    have "locs ! i = locs ! k \<longleftrightarrow> i = k" using locs k i by (simp add: slots_ok_def nth_eq_iff_index_eq)
    moreover have "length (slot_row m' (locs ! k)) = 32" by (rule length_slot_row [OF len ok [OF k]])
    ultimately show ?thesis
      using i m' row slot_row_with_field [OF len ok [OF k] ok, of i 0 row] k
      by (auto simp: rows_stored_def patch_all)
  qed
  ultimately show ?thesis using m' unfolding rows_stored_def by (blast intro: same_outside_trans)
qed

lemma post_store_rows:
  assumes st: "storing sz W s0 s" and W: "el_lba ` set locs \<subseteq> W" and locs: "slots_ok sz locs"
    and raws: "length raws = length locs" "\<And>i. i < length locs \<Longrightarrow> length (raws ! i) = 32"
    and body: "\<And>i c. i < length locs \<Longrightarrow> body (i, locs ! i) c =
      bindM (store_row D sz (locs ! i) (raws ! i)) (\<lambda>_. returnM (entry_set_checksum_step c (raws ! i) (i = 0)))"
  shows "post (fold_m (enumerate 0 locs) body 0) s
    (\<lambda>c s'. storing sz W s0 s' \<and> c = set_checksum raws \<and>
       rows_stored sz locs raws (length locs) (media (device s)) (media (device s')))
    (\<lambda>e s'. storing sz W s0 s' \<and> is_device_error e)"
proof (rule post_fold_m [where I = "\<lambda>k c s'. storing sz W s0 s' \<and> c = set_checksum (take k raws) \<and>
    rows_stored sz locs raws k (media (device s)) (media (device s'))"])
  fix k c s'
  assume k: "k < length (enumerate 0 locs)" and I: "storing sz W s0 s' \<and> c = set_checksum (take k raws) \<and>
    rows_stored sz locs raws k (media (device s)) (media (device s'))"
  have kl: "k < length locs" and at: "enumerate 0 locs ! k = (k, locs ! k)" using k by (simp_all add: nth_enumerate_eq)
  have ok: "slot_ok sz (locs ! k)" "el_lba (locs ! k) \<in> W" using locs W kl by (auto simp: slots_ok_def list_all_length)
  have sum: "entry_set_checksum_step c (raws ! k) (k = 0) = set_checksum (take (Suc k) raws)"
  proof -
    have "take (Suc k) raws = take k raws @ [raws ! k]" using kl raws(1) by (simp add: take_Suc_conv_app_nth)
    moreover have "take k raws = [] \<longleftrightarrow> k = 0" using kl raws(1) by auto
    ultimately show ?thesis using I by (simp add: set_checksum_snoc checksum_step_eq)
  qed
  note len = storingD(5) [OF conjunct1 [OF I]]
  show "post (body (enumerate 0 locs ! k) c) s'
      (\<lambda>c s'. storing sz W s0 s' \<and> c = set_checksum (take (Suc k) raws) \<and>
         rows_stored sz locs raws (Suc k) (media (device s)) (media (device s')))
      (\<lambda>e s'. storing sz W s0 s' \<and> is_device_error e)"
    unfolding at body [OF kl] post_bindM post_returnM sum
    by (rule post_mono [OF post_store_row [OF conjunct1 [OF I] ok raws(2) [OF kl]]])
      (use I rows_stored_next [OF len locs kl raws(2) [OF kl] refl] in auto)
qed (use st raws(1) in \<open>auto simp: rows_stored_def set_checksum_def\<close>)

lemma post_write_entry_set:
  assumes ok: "io_ok D invar sz s" and wf: "wf_geometry (vol_geometry v)" and sz: "sector_bytes v = sz"
    and len: "ut_byte_length (vol_upcase v) \<le> 0x20000" and locs: "slots_ok sz locs"
  shows "post (write_entry_set D v locs c) s
    (\<lambda>_ s'. storing sz (el_lba ` set locs) s s' \<and> same_outside sz (set locs) (media (device s)) (media (device s')) \<and>
       3 \<le> length locs \<and> length locs \<le> 19 \<and> names_needed (length (ne_name c)) + 2 = length locs \<and>
       (\<exists>us. map (fold_unit (media (device s)) v) (ne_name c) = map Some us \<and>
          (\<forall>i < length locs. slot_row (media (device s')) (locs ! i) = stored_rows c (length locs) (units_hash us) ! i)))
    (\<lambda>e s'. storing sz (el_lba ` set locs) s s' \<and> (is_device_error e \<or> fold_error e))"
    (is "post _ s ?Q ?E")
proof (cases "3 \<le> length locs \<and> length locs \<le> 19 \<and> names_needed (length (ne_name c)) + 2 = length locs")
  case False
  then show ?thesis using storing_refl [OF ok] by (auto simp: write_entry_set_def fold_error_def)
next
  case True
  let ?n = "length locs" and ?W = "el_lba ` set locs" and ?m = "media (device s)"
  have n0: "0 < ?n" using True by linarith
  then have loc0: "slot_ok sz (locs ! 0)" "locs ! 0 \<in> set locs" using locs by (auto simp: slots_ok_def list_all_length)
  have after: "post (bindM (fold_m (enumerate 0 locs) (\<lambda>(index, loc) checksum.
          let row = entry_row c ?n (units_hash us) index in
          bindM (store_row D sz loc row) (\<lambda>_. returnM (entry_set_checksum_step checksum row (index = 0)))) 0)
        (\<lambda>checksum. store_checksum D sz (locs ! 0) checksum)) s1 ?Q ?E"
    if r: "reading sz s s1" and us: "map (fold_unit ?m v) (ne_name c) = map Some us" for us s1
  proof -
    let ?raws = "set_rows c ?n (units_hash us)"
    have st1: "storing sz ?W s s1" by (rule storing_reading [OF storing_refl [OF ok] r])
    have m1: "media (device s1) = ?m" by (rule readingD(2) [OF r])
    have raws: "length ?raws = ?n" "\<And>i. i < ?n \<Longrightarrow> length (?raws ! i) = 32" "\<And>i. i < ?n \<Longrightarrow> ?raws ! i = entry_row c ?n (units_hash us) i"
      by (simp_all add: set_rows_def length_entry_row)
    have fin: "post (store_checksum D sz (locs ! 0) (set_checksum ?raws)) s2 ?Q ?E"
      if st2: "storing sz ?W s s2" and rows: "rows_stored sz locs ?raws ?n ?m (media (device s2))" for s2
    proof -
      let ?cs = "le16 (set_checksum ?raws)"
      note len2 = storingD(5) [OF st2]
      have "slot_row (with_field (locs ! 0) 2 ?cs (media (device s2))) (locs ! i) = stored_rows c ?n (units_hash us) ! i"
        if i: "i < ?n" for i
      proof -
        have "locs ! i = locs ! 0 \<longleftrightarrow> i = 0" using locs n0 i nth_eq_iff_index_eq [of locs i 0] by (auto simp: slots_ok_def)
        moreover have "slot_ok sz (locs ! i)" using locs i by (simp add: slots_ok_def list_all_length)
        moreover have "slot_row (media (device s2)) (locs ! j) = entry_row c ?n (units_hash us) j" if "j < ?n" for j
          using rows raws(3) that by (simp add: rows_stored_def)
        ultimately show ?thesis
          using i slot_row_with_field [OF len2 loc0(1), of "locs ! i" 2 ?cs] stored_rows_nth [OF i]
          by (auto simp: entry_row_def)
      qed
      moreover have "same_outside sz (set locs) ?m (with_field (locs ! 0) 2 ?cs (media (device s2)))"
        using rows same_outside_with_field [OF len2 loc0, of 2 ?cs] unfolding rows_stored_def
        by (auto intro: same_outside_trans)
      ultimately show ?thesis
        by (intro post_mono [OF post_store_checksum [OF st2 loc0(1)]]) (use loc0(2) True us in \<open>auto 0 3\<close>)
    qed
    show ?thesis
      unfolding post_bindM
      by (rule post_mono [OF post_store_rows [OF st1 subset_refl locs raws(1,2)]])
        (use fin m1 raws(3) in \<open>auto simp: Let_def\<close>)
  qed
  have "post (bindM (upcase_name_hash D v (ne_name c)) (\<lambda>hash.
      bindM (fold_m (enumerate 0 locs) (\<lambda>(index, loc) checksum.
          let row = entry_row c ?n hash index in
          bindM (store_row D sz loc row) (\<lambda>_. returnM (entry_set_checksum_step checksum row (index = 0)))) 0)
        (\<lambda>checksum. store_checksum D sz (locs ! 0) checksum))) s ?Q ?E"
    unfolding post_bindM [of "upcase_name_hash _ _ _"]
    by (rule post_mono [OF post_upcase_name_hash [OF reading_refl [OF ok] wf sz len]])
      (use after storing_reading [OF storing_refl [OF ok]] in blast)+
  then show ?thesis using True unfolding write_entry_set_def Let_def sz by auto
qed


section \<open>Committing a handle\<close>

text \<open>The checksum pass reads the set as it is.\<close>

lemma post_checksum_entries:
  assumes r: "reading sz s0 s" and locs: "list_all (slot_ok sz) locs"
  shows "post (checksum_entries D sz locs) s
    (\<lambda>c s'. reading sz s0 s' \<and> c = set_checksum (map (slot_row (media (device s0))) locs))
    (\<lambda>e s'. reading sz s0 s' \<and> is_device_error e)"
    (is "post _ s ?Q ?E")
  unfolding checksum_entries_def
proof (rule post_fold_m [where I = "\<lambda>k c s'. reading sz s0 s' \<and> c = set_checksum (map (slot_row (media (device s0))) (take k locs))"])
  fix k c s'
  assume k: "k < length (enumerate 0 locs)"
    and I: "reading sz s0 s' \<and> c = set_checksum (map (slot_row (media (device s0))) (take k locs))"
  let ?loc = "locs ! k" and ?m = "media (device s0)"
  have kl: "k < length locs" and at: "enumerate 0 locs ! k = (k, ?loc)" using k by (simp_all add: nth_enumerate_eq)
  have ok: "unat (el_offset ?loc) + 32 \<le> sz" using locs kl by (simp add: list_all_length slot_ok_def)
  have sum: "entry_set_checksum_step c (slot_row ?m ?loc) (k = 0) = set_checksum (map (slot_row ?m) (take (Suc k) locs))"
  proof -
    have "locs \<noteq> []" using kl by auto
    then show ?thesis using I kl by (simp add: take_Suc_conv_app_nth set_checksum_snoc checksum_step_eq)
  qed
  have "post (bindM (read_sector D (el_lba ?loc) sz) (\<lambda>_.
      bindM (sector_slice sz (unat (el_offset ?loc)) (unat (el_offset ?loc) + 32)) (\<lambda>raw.
      returnM (entry_set_checksum_step c raw (k = 0))))) s'
      (\<lambda>c s'. reading sz s0 s' \<and> c = set_checksum (map (slot_row ?m) (take (Suc k) locs))) ?E"
    by (rule post_load_slice [OF conjunct1 [OF I]]) (use ok sum in \<open>auto simp: slot_row_def\<close>)
  then show "post ((case enumerate 0 locs ! k of (index, loc) \<Rightarrow> \<lambda>checksum.
       let offset = unat (el_offset loc) in
       if sz < offset + 32 then fail Corrupt else
       bindM (read_sector D (el_lba loc) sz) (\<lambda>_.
       bindM (sector_slice sz offset (offset + 32)) (\<lambda>raw.
       returnM (entry_set_checksum_step checksum raw (index = 0))))) c) s'
      (\<lambda>c s'. reading sz s0 s' \<and> c = set_checksum (map (slot_row ?m) (take (Suc k) locs))) ?E"
    using ok unfolding at prod.case Let_def by (simp del: post_bindM)
qed (use r in \<open>simp_all add: set_checksum_def\<close>)

end

definition patch_fields :: "(nat \<times> u8 list) list \<Rightarrow> u8 list \<Rightarrow> u8 list" where
  "patch_fields ps row = foldl (\<lambda>row (i, bs). patch i bs row) row ps"

lemma length_patch_fields [simp]:
  "\<forall>(i, bs) \<in> set ps. i + length bs \<le> length row \<Longrightarrow> length (patch_fields ps row) = length row"
  unfolding patch_fields_def by (induction ps arbitrary: row) (auto split: prod.splits)

lemma patch_patch_within:
  assumes "off + length row \<le> length xs" "i + length bs \<le> length row"
  shows "patch (off + i) bs (patch off row xs) = patch off (patch i bs row) xs"
  by (rule nth_equalityI) (use assms in \<open>auto simp: nth_patch\<close>)

lemma patch_slice_same: "off + n \<le> length xs \<Longrightarrow> patch off (slice off (off + n) xs) xs = xs"
  by (rule nth_equalityI) (auto simp: nth_patch nth_slice)

text \<open>Copying several fields into a loaded sector.\<close>

lemma post_copy_fields:
  assumes "sz \<le> length (scratch s)" "take sz (scratch s) = patch off row xs"
    and "length xs = sz" "off + length row \<le> sz" "\<forall>(i, bs) \<in> set ps. i + length bs \<le> length row"
  shows "post (each_m ps (\<lambda>(i, bs). sector_copy sz (off + i) bs)) s
    (\<lambda>_ s'. s' = s\<lparr>scratch := patch off (patch_fields ps row) xs @ drop sz (scratch s)\<rparr>) E"
  using assms
proof (induction ps arbitrary: s row)
  case Nil
  have "scratch s = patch off row xs @ drop sz (scratch s)" using Nil(2) by (metis append_take_drop_id)
  then show ?case by (simp add: patch_fields_def)
next
  case (Cons p ps)
  obtain i bs where p: "p = (i, bs)" by (cases p)
  have fit: "i + length bs \<le> length row" "off + i + length bs \<le> sz" using Cons.prems(4,5) p by auto
  let ?row = "patch i bs row"
  let ?s = "s\<lparr>scratch := patch off ?row xs @ drop sz (scratch s)\<rparr>"
  have len: "length ?row = length row" using fit(1) by simp
  have "patch (off + i) bs (take sz (scratch s)) = patch off ?row xs"
    using Cons.prems(2-4) patch_patch_within [OF _ fit(1), of off xs] by simp
  moreover have "length (patch off ?row xs) = sz" using Cons.prems(3,4) len by simp
  moreover from this have "post (each_m ps (\<lambda>(i, bs). sector_copy sz (off + i) bs)) ?s
      (\<lambda>_ s'. s' = ?s\<lparr>scratch := patch off (patch_fields ps ?row) xs @ drop sz (scratch ?s)\<rparr>) E"
    using Cons.prems len by (intro Cons.IH) auto
  ultimately show ?case
    using Cons.prems(1) fit by (simp add: p patch_fields_def)
qed

definition committed_rows :: "File \<Rightarrow> u8 list list \<Rightarrow> u8 list list" where
  "committed_rows f rows =
     (let rows1 = rows[1 := patch_fields (stream_fields_of f) (rows ! 1)]
      in rows1[0 := patch 2 (le16 (set_checksum rows1)) (rows1 ! 0)])"

context lawful_device
begin

lemma post_write_stream_entry:
  assumes st: "storing sz W s0 s" and ok: "slot_ok sz (file_stream f)" and W: "el_lba (file_stream f) \<in> W"
  shows "post (write_stream_entry D sz f) s
    (\<lambda>_ s'. storing sz W s0 s' \<and> media (device s') =
       with_field (file_stream f) 0 (patch_fields (stream_fields_of f) (slot_row (media (device s)) (file_stream f))) (media (device s)))
    (\<lambda>e s'. storing sz W s0 s' \<and> is_device_error e)"
proof -
  let ?loc = "file_stream f" and ?m = "media (device s)" and ?ps = "stream_fields_of f"
  let ?row = "slot_row ?m ?loc" and ?off = "unat (el_offset ?loc)"
  note len = storingD(5) [OF st]
  have row: "length ?row = 32" by (rule length_slot_row [OF len ok])
  have fit: "?off + 32 \<le> sz" using ok by (simp add: slot_ok_def)
  have fields: "\<forall>(i, bs) \<in> set ?ps. i + length bs \<le> length ?row" unfolding row by (simp add: stream_fields_of_def)
  have base: "patch ?off ?row (?m (el_lba ?loc)) = ?m (el_lba ?loc)"
    unfolding slot_row_def by (rule patch_slice_same) (use fit len in simp)
  have fin: "post (bindM (each_m ?ps (\<lambda>(i, bs). sector_copy sz (?off + i) bs)) (\<lambda>_. write_sector D (el_lba ?loc) sz)) s1
      (\<lambda>_ s'. storing sz W s0 s' \<and> media (device s') = with_field ?loc 0 (patch_fields ?ps ?row) ?m)
      (\<lambda>e s'. storing sz W s0 s' \<and> is_device_error e)"
    if r: "reading sz s s1" and cur: "take sz (scratch s1) = ?m (el_lba ?loc)" for s1
  proof -
    let ?new = "patch ?off (patch_fields ?ps ?row) (?m (el_lba ?loc))"
    let ?s2 = "s1\<lparr>scratch := ?new @ drop sz (scratch s1)\<rparr>"
    have ln: "length ?new = sz" using fit row len length_patch_fields [OF fields] by simp
    have r2: "reading sz s ?s2" by (rule reading_scratch [OF r]) (use ln readingD(6) [OF r] in simp)
    have "post (write_sector D (el_lba ?loc) sz) ?s2
      (\<lambda>_ s'. storing sz W s0 s' \<and> media (device s') = with_field ?loc 0 (patch_fields ?ps ?row) ?m)
      (\<lambda>e s'. storing sz W s0 s' \<and> is_device_error e)"
    proof (rule post_mono [OF post_conj [OF post_write_sector [OF readingD(1) [OF r2], of "el_lba ?loc"]
          steps_post [OF steps_write_sector [OF coarse_io_same, of "el_lba ?loc" "{el_lba ?loc}"]]]])
      note tr = storing_frame [OF storing_reading [OF st r2] _ W]
      show "storing sz W s0 s' \<and> media (device s') = with_field ?loc 0 (patch_fields ?ps ?row) ?m"
        if "(io_ok D invar sz s' \<and> same_rest ?s2 s' \<and> scratch s' = scratch ?s2 \<and>
            sector_count_of D (device s') = sector_count_of D (device ?s2) \<and>
            media (device s') = (media (device ?s2))(el_lba ?loc := take sz (scratch ?s2))) \<and>
          frame D media invar sz {el_lba ?loc} io_same ?s2 s'" for s'
        using that tr ln readingD(2) [OF r2] by (simp add: with_field_def)
      show "storing sz W s0 s' \<and> is_device_error e"
        if "(io_ok D invar sz s' \<and> same_rest ?s2 s' \<and> scratch s' = scratch ?s2 \<and>
            sector_count_of D (device s') = sector_count_of D (device ?s2) \<and>
            (\<forall>l. l \<noteq> el_lba ?loc \<longrightarrow> media (device s') l = media (device ?s2) l) \<and> is_device_error e) \<and>
          frame D media invar sz {el_lba ?loc} io_same ?s2 s'" for e s'
        using that tr by simp
    qed simp
    moreover have "take sz (scratch s1) = patch ?off ?row (?m (el_lba ?loc))" using cur base by simp
    ultimately show ?thesis
      unfolding post_bindM
      by (intro post_mono [OF post_copy_fields [OF readingD(6) [OF r] _ len _ fields]]) (use fit row in auto)
  qed
  have "post (bindM (read_sector D (el_lba ?loc) sz) (\<lambda>_.
      bindM (each_m ?ps (\<lambda>(i, bs). sector_copy sz (?off + i) bs)) (\<lambda>_. write_sector D (el_lba ?loc) sz))) s
      (\<lambda>_ s'. storing sz W s0 s' \<and> media (device s') = with_field ?loc 0 (patch_fields ?ps ?row) ?m)
      (\<lambda>e s'. storing sz W s0 s' \<and> is_device_error e)"
    unfolding post_bindM [of "read_sector _ _ _"]
    by (rule post_mono [OF post_read_reading [OF reading_refl [OF storingD(1) [OF st]]]])
      (use fin storing_reading [OF st] in blast)+
  then show ?thesis using fit unfolding write_stream_entry_def Let_def by (simp del: post_bindM)
qed

text \<open>The rows of a set after its stream entry and then its checksum were rewritten.\<close>

lemma post_update_stream:
  assumes ok: "io_ok D invar sz s" and sz: "sector_bytes v = sz"
    and locs: "slots_ok sz locs" "locs = take (unat (file_entry_count f)) (file_entry_locs f)" "file_entry_count f \<ge> 2"
    and set: "file_primary f = locs ! 0" "file_stream f = locs ! 1" "unat (file_entry_count f) \<le> length (file_entry_locs f)"
  shows "post (update_stream D v f) s
    (\<lambda>_ s'. storing sz (el_lba ` set locs) s s' \<and> same_outside sz (set locs) (media (device s)) (media (device s')) \<and>
       map (slot_row (media (device s'))) locs = committed_rows f (map (slot_row (media (device s))) locs))
    (\<lambda>e s'. storing sz (el_lba ` set locs) s s' \<and> is_device_error e)"
    (is "post _ s ?Q ?E")
proof -
  let ?m = "media (device s)" and ?W = "el_lba ` set locs" and ?n = "length locs"
  let ?new = "patch_fields (stream_fields_of f) (slot_row ?m (file_stream f))"
  let ?m1 = "with_field (file_stream f) 0 ?new ?m"
  let ?cs = "set_checksum (map (slot_row ?m1) locs)"
  have n: "2 \<le> ?n" "unat (file_entry_count f) = ?n" using locs(2,3) set(3) by (simp_all add: word_le_nat_alt)
  have ok_at: "slot_ok sz (locs ! i)" "locs ! i \<in> set locs" "el_lba (locs ! i) \<in> ?W" if "i < ?n" for i
    using locs(1) that by (auto simp: slots_ok_def list_all_length)
  note p = ok_at [of 0] and q = ok_at [of 1]
  have small: "0 < ?n" "1 < ?n" using n(1) by linarith+
  note st = storing_refl [OF ok, of ?W]
  note len = storingD(5) [OF st]
  have row: "length (slot_row ?m (file_stream f)) = 32" "length ?new = 32"
  proof -
    show r: "length (slot_row ?m (file_stream f)) = 32" using length_slot_row [OF len q(1) [OF small(2)]] set(2) by simp
    have "\<forall>(i, bs) \<in> set (stream_fields_of f). i + length bs \<le> length (slot_row ?m (file_stream f))"
      unfolding r by (simp add: stream_fields_of_def)
    then show "length ?new = 32" using length_patch_fields [of "stream_fields_of f" "slot_row ?m (file_stream f)"] r by simp
  qed
  have len1: "length (?m1 l) = sz" for l
    by (rule length_with_field [OF len]) (use q(1) [OF small(2)] set(2) row in simp_all)
  have rows1: "map (slot_row ?m1) locs = (map (slot_row ?m) locs)[1 := ?new]"
  proof (rule nth_equalityI)
    fix i assume "i < length (map (slot_row ?m1) locs)"
    then have i: "i < ?n" by simp
    have "locs ! i = file_stream f \<longleftrightarrow> i = 1"
      using locs(1) i small set(2) nth_eq_iff_index_eq [of locs i 1] by (auto simp: slots_ok_def)
    then show "map (slot_row ?m1) locs ! i = (map (slot_row ?m) locs)[1 := ?new] ! i"
      using slot_row_with_field [OF len _ ok_at(1) [OF i], of "file_stream f" 0 ?new] q(1) [OF small(2)] set(2) i row
      by (auto simp: patch_all nth_list_update)
  qed simp
  have fin: "post (bindM (read_sector D (el_lba (file_primary f)) sz) (\<lambda>_.
      bindM (sector_copy sz (unat (el_offset (file_primary f)) + 2) (le16 ?cs)) (\<lambda>_.
      write_sector D (el_lba (file_primary f)) sz))) s1 ?Q ?E"
    if st1: "storing sz ?W s s1" and m1: "media (device s1) = ?m1" for s1
  proof -
    let ?m2 = "with_field (file_primary f) 2 (le16 ?cs) ?m1"
    have "map (slot_row ?m2) locs = committed_rows f (map (slot_row ?m) locs)"
    proof (rule nth_equalityI)
      fix i assume "i < length (map (slot_row ?m2) locs)"
      then have i: "i < ?n" by simp
      have eq0: "locs ! i = file_primary f \<longleftrightarrow> i = 0"
        using locs(1) i small set(1) nth_eq_iff_index_eq [of locs i 0] by (auto simp: slots_ok_def)
      have "slot_row ?m2 (locs ! i) = (if i = 0 then patch 2 (le16 ?cs) (slot_row ?m1 (locs ! 0)) else slot_row ?m1 (locs ! i))"
        using slot_row_with_field [OF len1 _ ok_at(1) [OF i], of "file_primary f" 2 "le16 ?cs"] p(1) [OF small(1)] eq0 set(1)
        by auto
      moreover have "slot_row ?m1 (locs ! j) = (map (slot_row ?m) locs)[1 := ?new] ! j" if "j < ?n" for j
        using arg_cong [OF rows1, of "\<lambda>xs. xs ! j"] that by simp
      ultimately show "map (slot_row ?m2) locs ! i = committed_rows f (map (slot_row ?m) locs) ! i"
        using i small set(2) rows1 by (simp add: committed_rows_def Let_def nth_list_update)
    qed (simp add: committed_rows_def Let_def)
    moreover have "same_outside sz (set locs) ?m ?m2"
      using same_outside_with_field [of ?m, OF len, of "file_stream f" "set locs" 0 ?new]
        same_outside_with_field [of ?m1, OF len1, of "file_primary f" "set locs" 2 "le16 ?cs"] p [OF small(1)] q [OF small(2)] set row
      by (auto intro: same_outside_trans)
    ultimately show ?thesis
      using p [OF small(1)] set(1) m1
      by (intro post_mono [OF post_field [OF st1, of "file_primary f" 2 "le16 ?cs"]]) auto
  qed
  have sum: "post (bindM (checksum_entries D sz locs) (\<lambda>checksum.
      bindM (read_sector D (el_lba (file_primary f)) sz) (\<lambda>_.
      bindM (sector_copy sz (unat (el_offset (file_primary f)) + 2) (le16 checksum)) (\<lambda>_.
      write_sector D (el_lba (file_primary f)) sz)))) s1 ?Q ?E"
    if st1: "storing sz ?W s s1" and m1: "media (device s1) = ?m1" for s1
    unfolding post_bindM [of "checksum_entries _ _ _"]
  proof (rule post_mono [OF post_checksum_entries [OF reading_refl [OF storingD(1) [OF st1]]]])
    show "list_all (slot_ok sz) locs" using locs(1) by (simp add: slots_ok_def)
    show "post (bindM (read_sector D (el_lba (file_primary f)) sz) (\<lambda>_.
        bindM (sector_copy sz (unat (el_offset (file_primary f)) + 2) (le16 c)) (\<lambda>_.
        write_sector D (el_lba (file_primary f)) sz))) s2 ?Q ?E"
      if "reading sz s1 s2 \<and> c = set_checksum (map (slot_row (media (device s1))) locs)" for c s2
      using fin [of s2] that storing_reading [OF st1] readingD(2) [of sz s1 s2] m1 by simp
    show "?E e s2" if "reading sz s1 s2 \<and> is_device_error e" for e s2
      using that storing_reading [OF st1] by blast
  qed
  have fit: "\<not> sz < unat (el_offset (file_primary f)) + 32" using p(1) [OF small(1)] set(1) by (simp add: slot_ok_def)
  have "post (bindM (write_stream_entry D sz f) (\<lambda>_. bindM (checksum_entries D sz locs) (\<lambda>checksum.
      bindM (read_sector D (el_lba (file_primary f)) sz) (\<lambda>_.
      bindM (sector_copy sz (unat (el_offset (file_primary f)) + 2) (le16 checksum)) (\<lambda>_.
      write_sector D (el_lba (file_primary f)) sz))))) s ?Q ?E"
    unfolding post_bindM [of "write_stream_entry _ _ _"]
    by (rule post_mono [OF post_write_stream_entry [OF st, of f]])
      (use sum q [OF small(2)] set(2) in \<open>auto simp del: post_bindM\<close>)
  moreover have g: "\<not> (file_entry_count f < 2 \<or> length (file_entry_locs f) < unat (file_entry_count f))"
    using locs(3) set(3) by (simp add: not_less)
  moreover have "take (unat (file_entry_count f)) (file_entry_locs f) = locs" by (rule locs(2) [symmetric])
  ultimately show ?thesis
    unfolding update_stream_def Let_def sz if_not_P [OF g] by (simp only: if_not_P [OF fit])
qed

section \<open>Retiring a set\<close>

lemma post_retire_row:
  assumes st: "storing sz W s0 s" and ok: "slot_ok sz loc" and W: "el_lba loc \<in> W"
  shows "post (retire_row D sz loc) s
    (\<lambda>_ s'. storing sz W s0 s' \<and> media (device s') =
       with_field loc 0 [slot_row (media (device s)) loc ! 0 AND NOT 0x80] (media (device s)))
    (\<lambda>e s'. storing sz W s0 s' \<and> is_device_error e)"
    (is "post _ s ?Q ?E")
proof -
  let ?off = "unat (el_offset loc)" and ?m = "media (device s)"
  have fit: "?off + 32 \<le> sz" using ok by (simp add: slot_ok_def)
  have b: "slot_row ?m loc ! 0 = ?m (el_lba loc) ! ?off" using fit storingD(5) [OF st] by (simp add: slot_row_def nth_slice)
  have fin: "post (bindM (sector_byte sz ?off) (\<lambda>b. bindM (sector_copy sz ?off [b AND NOT 0x80]) (\<lambda>_.
      write_sector D (el_lba loc) sz))) s1 ?Q ?E"
    if r: "reading sz s s1" and cur: "take sz (scratch s1) = ?m (el_lba loc)" for s1
  proof -
    have m1: "media (device s1) = ?m" by (rule readingD(2) [OF r])
    have "post (bindM (sector_copy sz ?off [slot_row ?m loc ! 0 AND NOT 0x80]) (\<lambda>_. write_sector D (el_lba loc) sz)) s1 ?Q ?E"
      by (rule post_mono [OF post_write_back [OF readingD(1) [OF r], of "el_lba loc"]])
        (use cur m1 fit storing_frame [OF storing_reading [OF st r] _ W] in \<open>auto simp: with_field_def\<close>)
    then show ?thesis using cur b fit readingD(6) [OF r] by (simp del: post_bindM add: post_bindM [of "sector_byte _ _"])
  qed
  have "post (bindM (read_sector D (el_lba loc) sz) (\<lambda>_. bindM (sector_byte sz ?off) (\<lambda>b.
      bindM (sector_copy sz ?off [b AND NOT 0x80]) (\<lambda>_. write_sector D (el_lba loc) sz)))) s ?Q ?E"
    unfolding post_bindM [of "read_sector _ _ _"]
    by (rule post_mono [OF post_read_reading [OF reading_refl [OF storingD(1) [OF st]]]])
      (use fin storing_reading [OF st] in blast)+
  then show ?thesis using fit unfolding retire_row_def Let_def by (simp del: post_bindM)
qed

text \<open>Rows \<open>0..k\<close> have their in-use bit cleared, the others are as before.\<close>

lemma post_retire_entry_set:
  assumes ok: "io_ok D invar sz s" and sz: "sector_bytes v = sz" and cnt: "unat (de_entry_count e) \<le> length (de_entry_locs e)"
    and locs: "slots_ok sz locs" "locs = take (unat (de_entry_count e)) (de_entry_locs e)"
  shows "post (retire_entry_set D v e) s
    (\<lambda>_ s'. storing sz (el_lba ` set locs) s s' \<and> rows_retired sz locs (length locs) (media (device s)) (media (device s')))
    (\<lambda>e s'. storing sz (el_lba ` set locs) s s' \<and> is_device_error e)"
proof -
  let ?W = "el_lba ` set locs" and ?m = "media (device s)"
  have "post (each_m locs (retire_row D sz)) s
    (\<lambda>_ s'. storing sz ?W s s' \<and> rows_retired sz locs (length locs) ?m (media (device s')))
    (\<lambda>e s'. storing sz ?W s s' \<and> is_device_error e)"
  proof (rule post_each_m [where I = "\<lambda>k s'. storing sz ?W s s' \<and> rows_retired sz locs k ?m (media (device s'))"])
    fix k s' assume k: "k < length locs" and I: "storing sz ?W s s' \<and> rows_retired sz locs k ?m (media (device s'))"
    let ?m1 = "media (device s')" and ?loc = "locs ! k"
    let ?m2 = "with_field ?loc 0 [slot_row ?m1 ?loc ! 0 AND NOT 0x80] ?m1"
    have ok_at: "slot_ok sz (locs ! i)" if "i < length locs" for i using locs(1) that by (simp add: slots_ok_def list_all_length)
    have mem: "?loc \<in> set locs" using k by simp
    note len = storingD(5) [OF conjunct1 [OF I]]
    have "slot_row ?m2 (locs ! i) = (let row = slot_row ?m (locs ! i) in if i < Suc k then patch 0 [row ! 0 AND NOT 0x80] row else row)"
      if i: "i < length locs" for i
    proof -
      have "locs ! i = ?loc \<longleftrightarrow> i = k" using locs(1) i k by (simp add: slots_ok_def nth_eq_iff_index_eq)
      then show ?thesis
        using I i k slot_row_with_field [of ?m1, OF len ok_at [OF k] ok_at [OF i], of 0 "[slot_row ?m1 ?loc ! 0 AND NOT 0x80]"]
        by (auto simp: rows_retired_def Let_def)
    qed
    moreover have "same_outside sz (set locs) ?m ?m2"
      using I same_outside_with_field [of ?m1, OF len ok_at [OF k] mem, of 0 "[slot_row ?m1 ?loc ! 0 AND NOT 0x80]"]
      by (auto simp: rows_retired_def intro: same_outside_trans)
    ultimately have "rows_retired sz locs (Suc k) ?m ?m2" by (simp add: rows_retired_def)
    then show "post (retire_row D sz ?loc) s' (\<lambda>_ s'. storing sz ?W s s' \<and> rows_retired sz locs (Suc k) ?m (media (device s')))
        (\<lambda>e s'. storing sz ?W s s' \<and> is_device_error e)"
      by (intro post_mono [OF post_retire_row [OF conjunct1 [OF I] ok_at [OF k]]]) (use mem in auto)
  qed (use storing_refl [OF ok] in \<open>simp_all add: rows_retired_def Let_def\<close>)
  then show ?thesis using cnt unfolding retire_entry_set_def sz locs(2) by simp
qed

end

section \<open>Decoding what is stored\<close>

definition set_at :: "medium \<Rightarrow> EntryLocator list \<Rightarrow> (u8 list \<times> EntryLocator) list" where
  "set_at m locs = map (\<lambda>loc. (slot_row m loc, loc)) locs"

definition decode_set :: "medium \<Rightarrow> EntryLocator list \<Rightarrow> DirectoryEntry option" where
  "decode_set m locs =
     (case fst (push_rows new_entry_set (set_at m locs) :: (unit error + DirectoryEntry option) \<times> EntrySet) of
        Inr r \<Rightarrow> r | Inl _ \<Rightarrow> None)"

lemma decode_set_yields:
  assumes "entry_set_rows (set_at m locs)"
  shows "\<exists>e. decode_set m locs = Some e \<and> yields (set_at m locs) e"
proof -
  obtain e es' where "(push_rows new_entry_set (set_at m locs) :: (unit error + DirectoryEntry option) \<times> EntrySet) = (Inr (Some e), es')"
    "yields (set_at m locs) e"
    using decoder_accepts [OF assms, of new_entry_set, where 'e = unit] by (auto simp: new_entry_set_def)
  then show ?thesis by (auto simp: decode_set_def)
qed

lemma set_at_zip:
  assumes "map (slot_row m) locs = rows"
  shows "set_at m locs = zip rows locs"
proof -
  have "map (\<lambda>loc. (slot_row m loc, loc)) locs = zip (map (slot_row m) locs) locs" by (induction locs) simp_all
  then show ?thesis using assms by (simp add: set_at_def)
qed

text \<open>The rows of a commit form a set again, with the new stream fields and all else unchanged.\<close>

lemma patched_stream:
  fixes f :: File
  assumes "length row = 32"
  defines "new \<equiv> patch_fields (stream_fields_of f) row"
  shows "length new = 32" "new ! 0 = row ! 0" "new ! 3 = row ! 3" "new ! 1 = (if file_no_fat_chain f then 3 else 1)"
    "slice 8 16 new = le64 (file_valid_length f)" "slice 20 24 new = le32 (file_first_cluster f)"
    "slice 24 32 new = le64 (file_data_length f)"
proof -
  let ?flag = "[if file_no_fat_chain f then 3 else 1] :: u8 list"
  define a where "a = patch 1 ?flag row"
  define b where "b = patch 8 (le64 (file_valid_length f)) a"
  define c where "c = patch 20 (le32 (file_first_cluster f)) b"
  have new: "new = patch 24 (le64 (file_data_length f)) c"
    by (simp add: new_def a_def b_def c_def patch_fields_def stream_fields_of_def)
  have len: "length a = 32" "length b = 32" "length c = 32" using assms(1) by (simp_all add: a_def b_def c_def)
  show "length new = 32" using len by (simp add: new)
  have at: "new ! i = a ! i" if "i < 8" for i using that len by (simp add: new c_def b_def nth_patch)
  show "new ! 0 = row ! 0" "new ! 3 = row ! 3" "new ! 1 = (if file_no_fat_chain f then 3 else 1)"
    using at [of 0] at [of 3] at [of 1] assms(1) by (simp_all add: a_def nth_patch)
  show "slice 24 32 new = le64 (file_data_length f)"
    using slice_patch_same [of 24 "le64 (file_data_length f)" c] len by (simp add: new)
  have "slice 20 24 new = slice 20 24 c" using len by (simp add: new slice_patch_other)
  then show "slice 20 24 new = le32 (file_first_cluster f)"
    using slice_patch_same [of 20 "le32 (file_first_cluster f)" b] len by (simp add: c_def)
  have "slice 8 16 new = slice 8 16 b" using len by (simp add: new c_def slice_patch_other)
  then show "slice 8 16 new = le64 (file_valid_length f)"
    using slice_patch_same [of 8 "le64 (file_valid_length f)" a] len by (simp add: b_def)
qed

lemma committed_rows_nth:
  assumes "1 < length rows"
  shows "length (committed_rows f rows) = length rows" "committed_rows f rows ! 1 = patch_fields (stream_fields_of f) (rows ! 1)"
    "2 \<le> i \<Longrightarrow> i < length rows \<Longrightarrow> committed_rows f rows ! i = rows ! i"
    "\<exists>cs. length cs = 2 \<and> committed_rows f rows ! 0 = patch 2 cs (rows ! 0) \<and>
       (length (rows ! 0) = 32 \<longrightarrow> le_u16 cs = set_checksum (committed_rows f rows))"
proof -
  let ?rows1 = "rows[1 := patch_fields (stream_fields_of f) (rows ! 1)]"
  let ?cs = "le16 (set_checksum ?rows1)"
  show "length (committed_rows f rows) = length rows" "committed_rows f rows ! 1 = patch_fields (stream_fields_of f) (rows ! 1)"
    "2 \<le> i \<Longrightarrow> i < length rows \<Longrightarrow> committed_rows f rows ! i = rows ! i"
    using assms by (simp_all add: committed_rows_def Let_def)
  obtain p q ss where rows: "rows = p # q # ss" using assms by (cases rows; cases "tl rows") auto
  have "set_checksum (committed_rows f rows) = set_checksum ?rows1" if "length p = 32"
    using that checksum_ignores_field [of p ?cs 0] by (simp add: rows committed_rows_def Let_def set_checksum_def checksum_step_eq)
  then show "\<exists>cs. length cs = 2 \<and> committed_rows f rows ! 0 = patch 2 cs (rows ! 0) \<and>
       (length (rows ! 0) = 32 \<longrightarrow> le_u16 cs = set_checksum (committed_rows f rows))"
    by (intro exI [of _ ?cs]) (simp add: rows committed_rows_def Let_def)
qed

lemma committed_rows_well_formed:
  assumes rs: "entry_set_rows (zip rows locs)" and len: "length rows = length locs"
    and f: "file_valid_length f \<le> file_data_length f" "file_data_length f \<noteq> 0 \<longrightarrow> 2 \<le> file_first_cluster f"
  shows "entry_set_rows (zip (committed_rows f rows) locs)"
proof -
  let ?new = "committed_rows f rows" and ?n = "length rows"
  note D = entry_set_rowsD [OF rs]
  have n: "3 \<le> ?n" "?n \<le> 19" using D(1,2) len by simp_all
  then have small: "0 < ?n" "1 < ?n" by linarith+
  have old: "fst (zip rows locs ! i) = rows ! i" if "i < ?n" for i using that len by simp
  have at: "fst (zip ?new locs ! i) = ?new ! i" if "i < ?n" for i using that len committed_rows_nth(1) [OF small(2), of f] by simp
  have l32: "length (rows ! i) = 32" if "i < ?n" for i using D(3) [of i] old that len by simp
  note cl = committed_rows_nth(1) [OF small(2), of f] and c = committed_rows_nth(3) [OF small(2), of _ f]
  obtain cs where cs: "length cs = 2" "?new ! 0 = patch 2 cs (rows ! 0)" "le_u16 cs = set_checksum ?new"
    using committed_rows_nth(4) [OF small(2), of f] l32 [OF small(1)] by blast
  note s = patched_stream [OF l32 [OF small(2)], of f]
  have r0: "?new ! 0 ! 0 = 0x85" "unat (?new ! 0 ! 1) = ?n - 1" "slice 2 4 (?new ! 0) = cs" "length (?new ! 0) = 32"
    using D(4,5) old [OF small(1)] l32 [OF small(1)] cs(1,2) len n slice_patch_same [of 2 cs "rows ! 0"] by (simp_all add: nth_patch)
  have "length (?new ! i) = 32" if "i < ?n" for i
    using r0(4) s(1) l32 [OF that] c that committed_rows_nth(2) [OF small(2), of f] by (cases "i = 0"; cases "i = 1") auto
  then have all32: "\<forall>row \<in> set (zip ?new locs). length (fst row) = 32"
    using at len cl by (auto simp: in_set_conv_nth)
  have r1: "fst (zip ?new locs ! 1) = patch_fields (stream_fields_of f) (rows ! 1)"
    using at [OF small(2)] committed_rows_nth(2) [OF small(2), of f] by simp
  have name: "names_needed (unat (rows ! 1 ! 3)) + 2 = ?n" "rows ! 1 ! 0 = 0xC0" "rows ! 1 ! 3 \<noteq> 0"
    using D(6,9,10) [unfolded old [OF small(2)]] len by simp_all
  show ?thesis
    unfolding entry_set_rows_def r1 s Let_def at [OF small(1)]
    using n all32 r0 cs(3) name f len D(13) old at c cl by auto
qed

lemma stored_attributes:
  assumes "0 < n" shows "slice 4 6 (stored_rows c n hash ! 0) = le16 (ne_attributes c)"
  using assms by (simp add: stored_rows_def set_rows_def Let_def entry_row_def primary_row_def patch_def slice_def le16_def)

lemma decode_stored:
  assumes "writable c (length locs)"
    and "\<forall>i < length locs. slot_row m (locs ! i) = stored_rows c (length locs) hash ! i"
  shows "\<exists>e. decode_set m locs = Some e \<and> entry_ok e \<and> name_utf16 e = ne_name c \<and>
    is_directory e = (ne_attributes c AND 0x10 \<noteq> 0) \<and> de_first_cluster e = ne_first_cluster c \<and>
    de_data_length e = ne_data_length c \<and> de_valid_length e = ne_data_length c \<and>
    de_no_fat_chain e = ne_no_fat_chain c \<and> created e = ne_created c \<and> modified e = ne_modified c \<and>
    accessed e = (ne_accessed c)\<lparr>ten_millis := 0\<rparr> \<and> take (length locs) (de_entry_locs e) = locs"
    and "slice 4 6 (slot_row m (locs ! 0)) = le16 (ne_attributes c)"
proof -
  show "slice 4 6 (slot_row m (locs ! 0)) = le16 (ne_attributes c)"
  proof -
    have "0 < length locs" using assms(1) by (auto simp: writable_def)
    then show ?thesis using assms(2) stored_attributes by simp
  qed
  have "set_at m locs = zip (stored_rows c (length locs) hash) locs"
    by (rule set_at_zip) (use assms(2) in \<open>auto intro: nth_equalityI\<close>)
  then show "\<exists>e. decode_set m locs = Some e \<and> entry_ok e \<and> name_utf16 e = ne_name c \<and>
    is_directory e = (ne_attributes c AND 0x10 \<noteq> 0) \<and> de_first_cluster e = ne_first_cluster c \<and>
    de_data_length e = ne_data_length c \<and> de_valid_length e = ne_data_length c \<and>
    de_no_fat_chain e = ne_no_fat_chain c \<and> created e = ne_created c \<and> modified e = ne_modified c \<and>
    accessed e = (ne_accessed c)\<lparr>ten_millis := 0\<rparr> \<and> take (length locs) (de_entry_locs e) = locs"
    using entry_set_rows_decode [OF assms(1), of new_entry_set hash, where 'e = unit]
    by (fastforce simp: decode_set_def new_entry_set_def)
qed

text \<open>A set whose rows were committed from a handle: it decodes to the handle's extent and to what it was otherwise.\<close>

lemma committed_set:
  assumes "entry_set_rows (set_at m locs)" "map (slot_row m') locs = committed_rows f (map (slot_row m) locs)"
    and "file_valid_length f \<le> file_data_length f" "file_data_length f \<noteq> 0 \<Longrightarrow> 2 \<le> file_first_cluster f"
  shows "entry_set_rows (set_at m' locs) \<and> (\<exists>old new. decode_set m locs = Some old \<and> decode_set m' locs = Some new \<and>
      de_first_cluster new = file_first_cluster f \<and> de_data_length new = file_data_length f \<and>
      de_valid_length new = file_valid_length f \<and> de_no_fat_chain new = file_no_fat_chain f \<and>
      name_utf16 new = name_utf16 old \<and> is_directory new = is_directory old \<and> created new = created old \<and>
      modified new = modified old \<and> accessed new = accessed old)"
proof -
  let ?m = m and ?rows = "map (slot_row m) locs"
  have wf: "entry_set_rows (zip ?rows locs)" using assms(1) by (simp add: set_at_zip)
  note D = entry_set_rowsD [OF wf]
  have n: "3 \<le> length locs" "length locs \<le> 19" using D(1,2) by simp_all
  have len: "1 < length ?rows" using n by simp
  have wf': "entry_set_rows (set_at m' locs)"
    using committed_rows_well_formed [OF wf _ assms(3)] assms(4) set_at_zip [OF assms(2)] by simp
  obtain old where old: "decode_set ?m locs = Some old" "yields (set_at ?m locs) old" using decode_set_yields [OF assms(1)] by blast
  obtain new where new: "decode_set m' locs = Some new" "yields (set_at m' locs) new" using decode_set_yields [OF wf'] by blast
  have row: "fst (set_at m' locs ! i) = committed_rows f ?rows ! i" "fst (set_at ?m locs ! i) = slot_row ?m (locs ! i)"
    if "i < length locs" for i
    using arg_cong [OF assms(2), of "\<lambda>xs. xs ! i"] that by (simp_all add: set_at_def)
  have l32: "length (slot_row ?m (locs ! i)) = 32" if "i < length locs" for i using D(3) [of i] that by simp
  have small: "0 < length locs" "1 < length locs" using n by linarith+
  note s = patched_stream [OF l32 [OF small(2)], of f]
  have r1: "fst (set_at m' locs ! 1) = patch_fields (stream_fields_of f) (slot_row ?m (locs ! 1))"
    using row(1) [OF small(2)] committed_rows_nth(2) [OF len, of f] small by simp
  have "stream_fields (fst (set_at m' locs ! 1)) new" "stream_fields (fst (set_at ?m locs ! 1)) old"
    using old(2) new(2) by (simp_all add: yields_def)
  then have fields: "de_first_cluster new = file_first_cluster f" "de_data_length new = file_data_length f"
    "de_valid_length new = file_valid_length f" "de_no_fat_chain new = file_no_fat_chain f" "name_len new = name_len old"
    unfolding r1 row(2) [OF small(2)] stream_fields_def s by simp_all
  obtain cs where cs: "length cs = 2" "fst (set_at m' locs ! 0) = patch 2 cs (slot_row ?m (locs ! 0))"
    using row(1) [OF small(1)] committed_rows_nth(4) [OF len, of f] small by auto
  have "primary_fields (fst (set_at m' locs ! 0)) new" "primary_fields (fst (set_at ?m locs ! 0)) old"
    using old(2) new(2) by (simp_all add: yields_def)
  then have "is_directory new = is_directory old" "created new = created old" "modified new = modified old" "accessed new = accessed old"
    unfolding cs(2) row(2) [OF small(1)] primary_fields_def using cs(1) l32 [OF small(1)]
    by (simp_all add: slice_patch_other nth_patch)
  moreover have "row_names (set_at m' locs) = row_names (set_at ?m locs)"
  proof -
    have "map fst (drop 2 (set_at m' locs)) = map fst (drop 2 (set_at ?m locs))"
      using row committed_rows_nth(3) [OF len, of _ f] by (intro nth_equalityI) (auto simp: set_at_def)
    then have "map name_units (map fst (drop 2 (set_at m' locs))) = map name_units (map fst (drop 2 (set_at ?m locs)))" by simp
    then show ?thesis unfolding row_names_def map_map comp_def by simp
  qed
  then have "name_utf16 new = name_utf16 old" using old(2) new(2) fields(5) by (simp add: yields_def)
  ultimately show ?thesis using wf' old(1) new(1) fields by blast
qed

section \<open>Properties\<close>

text \<open>The slots 32, 64, 96 of sector 60, and the contents of an empty file \<open>A\<close>.\<close>

definition test_slots :: "EntryLocator list" where
  "test_slots = [\<lparr>el_lba = 60, el_offset = 32\<rparr>, \<lparr>el_lba = 60, el_offset = 64\<rparr>, \<lparr>el_lba = 60, el_offset = 96\<rparr>]"

definition test_contents :: NewEntrySet where
  "test_contents = \<lparr>ne_name = [0x41], ne_attributes = 0, ne_first_cluster = 0, ne_data_length = 0, ne_no_fat_chain = True,
     ne_created = default_timestamp, ne_modified = default_timestamp, ne_accessed = default_timestamp\<rparr>"

lemma test_slots_ok: "slots_ok 512 test_slots" "length test_slots = 3"
  by (simp_all add: slots_ok_def slot_ok_def test_slots_def)

text \<open>The test card with the set of an empty file \<open>A\<close> in these slots, and a handle of that file.\<close>

definition set_card :: "(u8 list list) fs" where
  "set_card = test_card\<lparr>device := (device test_card)[60 := concat (map fst test_rows) @ replicate 384 0]\<rparr>"

definition set_entry :: DirectoryEntry where
  "set_entry = empty_entry\<lparr>de_primary := test_slots ! 0, de_stream := test_slots ! 1,
     de_entry_locs := test_slots @ replicate 16 no_locator, de_entry_count := 3\<rparr>"

lemma set_card_ok: "io_ok mem_ops mem_ok 512 set_card"
  using test_card_ok by (simp add: io_ok_def set_card_def mem_ok_update test_rows_def)

lemma set_card_rows: "set_at (mem_media (device set_card)) test_slots = zip (map fst (tl test_rows)) test_slots"
  by (simp add: set_at_def slot_row_def mem_media_def set_card_def test_card_def test_rows_def test_slots_def slice_def)

lemma set_card_set: "entry_set_rows (set_at (mem_media (device set_card)) test_slots)"
  unfolding set_card_rows by code_simp

text \<open>
  C9: Writing an entry set is correct. For distinct 32-byte slots inside their sectors, a successful
  \<open>write_entry_set\<close> leaves a set in them that decodes to the name, the directory flag, the extent, the
  allocation flag and the three timestamps it was given (the access time has no 10 ms field), at these
  slots, and that holds all sixteen attribute bits; no byte outside the slots changes. On an error, too, no sector without a slot
  has changed, and the error is a device error, \<open>Corrupt\<close> or \<open>UpcaseTableCorrupt\<close>.
\<close>
theorem write_entry_set_correct:
  fixes D :: "('d, 'e) device_ops" and s :: "('d, 'x) io_scheme"
  assumes "lawful_device D media invar" "io_ok D invar (sector_bytes v) s" "wf_geometry (vol_geometry v)"
    and "ut_byte_length (vol_upcase v) \<le> 0x20000" "slots_ok (sector_bytes v) locs"
    and "ne_data_length c \<noteq> 0 \<Longrightarrow> 2 \<le> ne_first_cluster c"
  shows "case write_entry_set D v locs c s of (r, s') \<Rightarrow>
      (\<forall>l. l \<notin> el_lba ` set locs \<longrightarrow> media (device s') l = media (device s) l) \<and>
      (case r of
        Inr _ \<Rightarrow> same_outside (sector_bytes v) (set locs) (media (device s)) (media (device s')) \<and>
          (\<exists>e. decode_set (media (device s')) locs = Some e \<and> entry_ok e \<and> name_utf16 e = ne_name c \<and>
             is_directory e = (ne_attributes c AND 0x10 \<noteq> 0) \<and> de_first_cluster e = ne_first_cluster c \<and>
             de_data_length e = ne_data_length c \<and> de_valid_length e = ne_data_length c \<and>
             de_no_fat_chain e = ne_no_fat_chain c \<and> created e = ne_created c \<and> modified e = ne_modified c \<and>
             accessed e = (ne_accessed c)\<lparr>ten_millis := 0\<rparr> \<and> take (length locs) (de_entry_locs e) = locs) \<and>
          slice 4 6 (slot_row (media (device s')) (locs ! 0)) = le16 (ne_attributes c)
      | Inl e \<Rightarrow> is_device_error e \<or> fold_error e)"
proof -
  have "writable c (length locs)" if "3 \<le> length locs" "length locs \<le> 19" "names_needed (length (ne_name c)) + 2 = length locs"
    using that assms(6) by (simp add: writable_def)
  then show ?thesis
    using lawful_device.post_write_entry_set [OF assms(1,2,3) refl assms(4,5), of c] decode_stored [of c locs]
      lawful_device.storingD(2) [OF assms(1)]
    by (auto simp: post_def split: prod.splits sum.splits) blast+
qed

theorem write_entry_set_correct_witness:
  "case write_entry_set mem_ops test_volume test_slots test_contents test_card of (r, s') \<Rightarrow>
     (\<forall>u. r = Inr u \<longrightarrow> (\<exists>e. decode_set (mem_media (device s')) test_slots = Some e \<and> name_utf16 e = [0x41]))"
proof -
  have "ut_byte_length (vol_upcase test_volume) \<le> 0x20000" "ne_name test_contents = [0x41]" "ne_data_length test_contents = 0"
    by (simp_all add: test_volume_def test_contents_def)
  then show ?thesis
    using write_entry_set_correct [OF mem.lawful_device_axioms, of test_volume test_card test_slots test_contents]
      test_card_ok wf_test_geometry test_slots_ok
    by (auto split: prod.splits)
qed

text \<open>
  C12: Committing a handle is correct. When the slots of a handle hold a well-formed entry set and the
  handle's extent is one the decoder accepts, a successful \<open>update_stream\<close> leaves a set in the same slots
  that decodes to the handle's first cluster, lengths and allocation flag, with the name, attributes and
  timestamps it had; no byte outside the slots changes. An error is a device error and leaves every
  sector without a slot unchanged.
\<close>
theorem update_stream_commits:
  fixes D :: "('d, 'e) device_ops" and s :: "('d, 'x) io_scheme"
  assumes "lawful_device D media invar" "io_ok D invar (sector_bytes v) s"
    and "slots_ok (sector_bytes v) locs" "locs = take (unat (file_entry_count f)) (file_entry_locs f)"
    and "file_primary f = locs ! 0" "file_stream f = locs ! 1" "unat (file_entry_count f) \<le> length (file_entry_locs f)"
    and "entry_set_rows (set_at (media (device s)) locs)"
    and "file_valid_length f \<le> file_data_length f" "file_data_length f \<noteq> 0 \<Longrightarrow> 2 \<le> file_first_cluster f"
  shows "case update_stream D v f s of (r, s') \<Rightarrow>
      (\<forall>l. l \<notin> el_lba ` set locs \<longrightarrow> media (device s') l = media (device s) l) \<and>
      (case r of
        Inr _ \<Rightarrow> same_outside (sector_bytes v) (set locs) (media (device s)) (media (device s')) \<and>
          entry_set_rows (set_at (media (device s')) locs) \<and>
          (\<exists>old new. decode_set (media (device s)) locs = Some old \<and> decode_set (media (device s')) locs = Some new \<and>
             de_first_cluster new = file_first_cluster f \<and> de_data_length new = file_data_length f \<and>
             de_valid_length new = file_valid_length f \<and> de_no_fat_chain new = file_no_fat_chain f \<and>
             name_utf16 new = name_utf16 old \<and> is_directory new = is_directory old \<and> created new = created old \<and>
             modified new = modified old \<and> accessed new = accessed old)
      | Inl e \<Rightarrow> is_device_error e)"
proof -
  let ?m = "media (device s)"
  let ?rows = "map (slot_row ?m) locs"
  have wf: "entry_set_rows (zip ?rows locs)" using assms(8) by (simp add: set_at_zip)
  note D = entry_set_rowsD [OF wf]
  have n: "3 \<le> length locs" "length locs \<le> 19" using D(1,2) by simp_all
  have cnt: "unat (file_entry_count f) = length locs" using assms(4,7) by simp
  have two: "2 \<le> file_entry_count f" using cnt n by (simp add: word_le_nat_alt)
  have good: "entry_set_rows (set_at m' locs) \<and> (\<exists>old new. decode_set ?m locs = Some old \<and> decode_set m' locs = Some new \<and>
      de_first_cluster new = file_first_cluster f \<and> de_data_length new = file_data_length f \<and>
      de_valid_length new = file_valid_length f \<and> de_no_fat_chain new = file_no_fat_chain f \<and>
      name_utf16 new = name_utf16 old \<and> is_directory new = is_directory old \<and> created new = created old \<and>
      modified new = modified old \<and> accessed new = accessed old)"
    if "map (slot_row m') locs = committed_rows f ?rows" for m'
    using committed_set [OF assms(8) that assms(9)] assms(10) by blast
  show ?thesis
    using lawful_device.post_update_stream [OF assms(1,2) refl assms(3,4) two assms(5,6,7)] good
      lawful_device.storingD(2) [OF assms(1)]
    by (auto simp: post_def split: prod.splits sum.splits) blast+
qed

theorem update_stream_commits_witness:
  "case update_stream mem_ops test_volume ((file_of_entry set_entry)\<lparr>file_first_cluster := 9, file_data_length := 512, file_valid_length := 3\<rparr>) set_card of
     (r, s') \<Rightarrow> (\<forall>u. r = Inr u \<longrightarrow> (\<exists>e. decode_set (mem_media (device s')) test_slots = Some e \<and>
        de_first_cluster e = 9 \<and> de_valid_length e = 3))"
proof -
  let ?f = "(file_of_entry set_entry)\<lparr>file_first_cluster := 9, file_data_length := 512, file_valid_length := 3\<rparr>"
  have "test_slots = take (unat (file_entry_count ?f)) (file_entry_locs ?f)"
    by (simp add: file_of_entry_def set_entry_def test_slots_ok(2))
  moreover have "file_primary ?f = test_slots ! 0" "file_stream ?f = test_slots ! 1"
    "unat (file_entry_count ?f) \<le> length (file_entry_locs ?f)" "file_valid_length ?f \<le> file_data_length ?f" "2 \<le> file_first_cluster ?f"
    "file_first_cluster ?f = 9" "file_valid_length ?f = 3"
    by (simp_all add: file_of_entry_def set_entry_def test_slots_def)
  ultimately show ?thesis
    using update_stream_commits [OF mem.lawful_device_axioms, of test_volume set_card test_slots ?f]
      set_card_ok test_slots_ok set_card_set
    by (fastforce split: prod.splits)
qed

text \<open>
  C24: Retiring an entry set is correct. A successful \<open>retire_entry_set\<close> clears the in-use bit of every
  entry of the set, keeps the other seven bits of the type byte and changes no other byte of the medium;
  from then on the decoder passes over the
  slots as if they held nothing, and \<open>find_free_entries\<close> counts each of them as free.
\<close>
theorem retire_entry_set_correct:
  fixes D :: "('d, 'e) device_ops" and s :: "('d, 'x) io_scheme"
  assumes "lawful_device D media invar" "io_ok D invar (sector_bytes v) s"
    and "slots_ok (sector_bytes v) locs" "locs = take (unat (de_entry_count e)) (de_entry_locs e)"
    and "unat (de_entry_count e) \<le> length (de_entry_locs e)"
  shows "case retire_entry_set D v e s of (r, s') \<Rightarrow>
      (\<forall>l. l \<notin> el_lba ` set locs \<longrightarrow> media (device s') l = media (device s) l) \<and>
      (case r of
        Inr _ \<Rightarrow> same_outside (sector_bytes v) (set locs) (media (device s)) (media (device s')) \<and>
          (\<forall>loc \<in> set locs. slot_row (media (device s')) loc ! 0 = slot_row (media (device s)) loc ! 0 AND NOT 0x80 \<and>
             drop 1 (slot_row (media (device s')) loc) = drop 1 (slot_row (media (device s)) loc)) \<and>
          (\<forall>es. secondary_left es = 0 \<longrightarrow>
             (push_rows es (set_at (media (device s')) locs) :: ('e error + DirectoryEntry option) \<times> EntrySet) = (Inr None, es))
      | Inl e \<Rightarrow> is_device_error e)"
proof -
  let ?m = "media (device s)"
  have main: "(\<forall>loc \<in> set locs. slot_row m' loc ! 0 = slot_row ?m loc ! 0 AND NOT 0x80 \<and> drop 1 (slot_row m' loc) = drop 1 (slot_row ?m loc)) \<and>
      (\<forall>es. secondary_left es = 0 \<longrightarrow>
         (push_rows es (set_at m' locs) :: ('e error + DirectoryEntry option) \<times> EntrySet) = (Inr None, es))"
    if m': "rows_retired (sector_bytes v) locs (length locs) ?m m'" for m'
  proof -
    have "(b AND NOT 0x80) AND 0x80 = (0 :: u8)" for b :: u8
      by (rule bit_word_eqI) (simp only: bit_and_iff bit_not_iff bit_0_eq bot_fun_def bot_bool_def, blast)
    then have bit: "(b AND - 129) AND 0x80 = (0 :: u8)" for b :: u8 by simp
    have head: "slot_row m' loc ! 0 = slot_row ?m loc ! 0 AND NOT 0x80 \<and> drop 1 (slot_row m' loc) = drop 1 (slot_row ?m loc)" if loc: "loc \<in> set locs" for loc
    proof -
      obtain i where i: "i < length locs" "loc = locs ! i" using loc by (metis in_set_conv_nth)
      have row: "slot_row m' loc = patch 0 [slot_row ?m loc ! 0 AND NOT 0x80] (slot_row ?m loc)"
        using m' i by (simp add: rows_retired_def Let_def)
      show ?thesis unfolding row by (simp add: patch_def)
    qed
    moreover have "(push_rows es (set_at m' ls) :: ('e error + DirectoryEntry option) \<times> EntrySet) = (Inr None, es)"
      if "secondary_left es = 0" "set ls \<subseteq> set locs" for es ls
      using that
    proof (induction ls)
      case (Cons l ls)
      have "slot_row m' l ! 0 AND 0x80 = 0" using head [of l] Cons.prems(2) bit by simp
      then have "slot_row m' l ! 0 \<noteq> 0x85" by auto
      then show ?case using Cons by (simp add: set_at_def push_def)
    qed (simp add: set_at_def)
    ultimately show ?thesis by blast
  qed
  show ?thesis
    using lawful_device.post_retire_entry_set [OF assms(1,2) refl assms(5,3,4)] main
      lawful_device.storingD(2) [OF assms(1)]
    by (auto simp: post_def rows_retired_def split: prod.splits sum.splits) blast+
qed

theorem retire_entry_set_correct_witness:
  "case retire_entry_set mem_ops test_volume set_entry set_card of (r, s') \<Rightarrow>
     (\<forall>u. r = Inr u \<longrightarrow> slot_row (mem_media (device s')) (test_slots ! 0) ! 0 = 0x05)"
proof -
  have "test_slots = take (unat (de_entry_count set_entry)) (de_entry_locs set_entry)"
    "unat (de_entry_count set_entry) \<le> length (de_entry_locs set_entry)" "test_slots ! 0 \<in> set test_slots"
    by (simp_all add: set_entry_def test_slots_ok(2))
  moreover have "slot_row (mem_media (device set_card)) (test_slots ! 0) ! 0 = 0x85"
    by (simp add: slot_row_def mem_media_def set_card_def test_card_def test_rows_def test_slots_def slice_def)
  then have "slot_row (mem_media (device set_card)) (test_slots ! 0) ! 0 AND NOT 0x80 = 0x05" by simp
  ultimately show ?thesis
    using retire_entry_set_correct [OF mem.lawful_device_axioms, of test_volume set_card test_slots set_entry]
      set_card_ok test_slots_ok
    by (fastforce split: prod.splits)
qed

end
