(* ===== verification/Operations.thy ===== *)
theory Operations
  imports Path_Ops Format Entry_Store Name_Folding File_IO_Correct
begin

text \<open>
  Facts that hold of every operation of \<open>fs/operations.rs\<close> and \<open>format.rs\<close>, on any medium however
  corrupt: they return (the search for free slots excepted), and the ones that only look do not write.
  The lemmas are collected in \<open>returns_intro\<close> and \<open>steps_intro\<close>, operation by operation, and each
  property is one of these collections at work.
\<close>

section \<open>Every operation returns\<close>

lemma returnsI: "(\<And>s. post m s (\<lambda>_ _. True) (\<lambda>e _. e \<noteq> Diverge)) \<Longrightarrow> returns m"
proof -
  assume *: "\<And>s. post m s (\<lambda>_ _. True) (\<lambda>e _. e \<noteq> Diverge)"
  have "fst (m s) \<noteq> Inl Diverge" for s
    using * [of s] by (cases "m s") (auto simp: post_def)
  then show ?thesis by (simp add: returns_def)
qed

text \<open>A loop with an invariant on its variables and a measure that every continuing round decreases.\<close>

lemma returns_loop_inv:
  assumes body: "\<And>x. I x \<Longrightarrow> returns (body x)"
    and dec: "\<And>x. I x \<Longrightarrow> gives (\<lambda>r. \<forall>x'. r = Inl x' \<longrightarrow> I x' \<and> \<mu> x' < (\<mu> x :: nat)) (body x)"
    and init: "I x" "\<mu> x < n"
  shows "returns (loop_m n out body x)"
proof -
  have "post (loop_m n out body x) s (\<lambda>_ _. True) (\<lambda>e _. e \<noteq> Diverge)" for s
  proof (rule post_loop_m [where I = "\<lambda>x _. I x" and \<mu> = "\<lambda>x _. \<mu> x"])
    show "post (body x) s (\<lambda>r s'. case r of Inl x' \<Rightarrow> I x' \<and> \<mu> x' < \<mu> x | Inr y \<Rightarrow> True)
        (\<lambda>e _. e \<noteq> Diverge)" if "I x" for x s
    proof (rule postI)
      show "case r of Inl x' \<Rightarrow> I x' \<and> \<mu> x' < \<mu> x | Inr y \<Rightarrow> True" if "body x s = (Inr r, s')" for r s'
        using gives_run [OF dec [OF \<open>I x\<close>] that] by (simp split: sum.splits)
      show "e \<noteq> Diverge" if "body x s = (Inl e, s')" for e s'
        using returns_run [OF body [OF \<open>I x\<close>], of s s'] that by auto
    qed
  qed (use init in simp_all)
  then show ?thesis by (rule returnsI)
qed

lemma returns_case_app [returns_intro]:
  "(\<And>x y. p = (x, y) \<Longrightarrow> returns (k x y z)) \<Longrightarrow> returns ((case p of (x, y) \<Rightarrow> k x y) z)"
  by (simp split: prod.splits)

lemma returns_with_env [returns_intro]: "returns m \<Longrightarrow> returns (with_env env m)"
  by (auto simp: returns_def with_env_def split: prod.splits sum.splits) (metis fst_conv)+

text \<open>
  What mounting guarantees of any volume, as far as termination needs it: clusters are not empty, and a
  table that passed its checksum is short enough for the counters of a scan not to wrap.
\<close>

definition has_clusters :: "Volume \<Rightarrow> bool" where
  "has_clusters v \<longleftrightarrow> bytes_per_cluster (vol_geometry v) \<noteq> 0"

definition small_table :: "Volume \<Rightarrow> bool" where
  "small_table v \<longleftrightarrow> (vol_upcase_valid v \<longrightarrow> unat (ut_byte_length (vol_upcase v)) < 2 ^ 63)"

lemma returns_upcase_parts [returns_intro]: "returns (upcase_word D v byte)" "returns (upcase_round D v u st)"
proof -
  show w: "returns (upcase_word D v byte)" for byte unfolding upcase_word_def Let_def by (intro returns_intro)
  show "returns (upcase_round D v u st)" unfolding upcase_round_def Let_def by (intro returns_intro w)
qed

lemma upcase_round_progress:
  "gives (\<lambda>r. \<forall>st'. r = Inl st' \<longrightarrow> snd st' \<le> ut_byte_length (vol_upcase v) \<and> (snd st' = byte + 2 \<or> snd st' = byte + 4))
     (upcase_round D v u (code, byte))"
  unfolding upcase_round_def Let_def prod.case by (intro gives_intro) (auto simp: algebra_simps)

lemma returns_upcase_unit [returns_intro]:
  assumes "small_table v"
  shows "returns (upcase_unit D v u)"
proof (cases "vol_upcase_valid v")
  case True
  let ?len = "unat (ut_byte_length (vol_upcase v))"
  have L: "?len < 9223372036854775808" using assms True by (simp add: small_table_def)
  have "returns (loop_m (Suc ?len) Diverge (upcase_round D v u) (0, 0))"
  proof (rule returns_loop_inv [where I = "\<lambda>st. unat (snd st) \<le> ?len" and \<mu> = "\<lambda>st. ?len - unat (snd st)"])
    fix st :: "u32 \<times> u64" assume I: "unat (snd st) \<le> ?len"
    obtain code byte where st: "st = (code, byte)" by (cases st)
    have "unat (byte + 2) = unat byte + 2" "unat (byte + 4) = unat byte + 4"
      using I L by (simp_all add: st unat_add_small)
    then show "gives (\<lambda>r. \<forall>st'. r = Inl st' \<longrightarrow> unat (snd st') \<le> ?len \<and> ?len - unat (snd st') < ?len - unat (snd st)) (upcase_round D v u st)"
      unfolding st by (intro gives_mono [OF upcase_round_progress]) (auto simp: word_le_nat_alt)
  qed (auto intro: returns_intro)
  then show ?thesis unfolding upcase_unit_def by (intro returns_intro)
qed (simp add: upcase_unit_def returns_skip)

lemma returns_names [returns_intro]:
  assumes [returns_intro]: "small_table v"
  shows "returns (names_match D v xs ys)" "returns (upcase_name_hash D v xs)"
  unfolding names_match_def upcase_name_hash_def by (intro returns_intro)+

lemma returns_visit_entry [returns_intro]: "returns (visit_entry visitor lba row es)"
proof -
  have "returns (call_visitor visitor e)" for e
    by (auto simp: returns_def call_visitor_def split: prod.splits)
  then show ?thesis
    unfolding visit_entry_def
    by (intro returns_intro) (auto intro!: returns_intro split: sum.splits option.splits)
qed

lemma returns_read_directory [returns_intro]: "returns (read_directory D v dir visitor)"
proof -
  have sec: "returns (read_directory_sector D v dir visitor lba st)" for lba st
    unfolding read_directory_sector_def Let_def by (intro returns_intro)
  have "returns (read_directory_cluster D v dir visitor st)" for st
    unfolding read_directory_cluster_def Let_def by (intro returns_intro sec)
  then show ?thesis unfolding read_directory_def by (intro returns_intro)
qed

lemma returns_read_directory_uses [returns_intro]:
  "returns (read_root D v visitor)" "returns (first_directory_entry D v dir)"
  unfolding read_root_def first_directory_entry_def by (intro returns_intro)+

lemma returns_workspace [returns_intro]:
  "returns (ws_push raw loc)" "returns (ws_wanted n)" "returns (ws_encode name)" "returns (first_locators n locs)"
  unfolding ws_push_def ws_wanted_def ws_encode_def first_locators_def by (intro returns_intro)+

lemma returns_find_child [returns_intro]:
  assumes [returns_intro]: "small_table v"
  shows "returns (find_child D v dir n)"
proof -
  have slot: "returns (find_slot D v n lba slot)" for lba slot
    unfolding find_slot_def Let_def by (intro returns_intro)
  have sec: "returns (find_sector D v dir n lba remaining)" for lba remaining
    unfolding find_sector_def Let_def by (intro returns_intro slot)
  have "returns (find_cluster D v dir n st)" for st
    unfolding find_cluster_def Let_def by (intro returns_intro sec)
  then show ?thesis unfolding find_child_def by (intro returns_intro)
qed

lemma returns_lookup [returns_intro]:
  assumes [returns_intro]: "small_table v"
  shows "returns (lookup_segments D v segments dir current)" "returns (lookup_with_workspace D v path)" "returns (fs_lookup D v path)"
    "returns (open_with_workspace D v path)" "returns (fs_open D v path)"
proof -
  show l: "returns (lookup_segments D v segments dir current)" for segments dir current
    by (induction segments arbitrary: dir current) (auto simp only: lookup_segments.simps intro!: returns_intro)
  show w: "returns (lookup_with_workspace D v path)" for path
    unfolding lookup_with_workspace_def by (auto intro!: returns_intro l split: list.splits)
  show "returns (fs_lookup D v path)" unfolding fs_lookup_def by (intro returns_intro w)
  show o: "returns (open_with_workspace D v path)" for path unfolding open_with_workspace_def by (intro returns_intro w)
  show "returns (fs_open D v path)" unfolding fs_open_def by (intro returns_intro o)
qed

text \<open>Directory entries are stored, retired and released entry by entry, cluster by cluster.\<close>

lemma returns_entry_writes [returns_intro]:
  "returns (update_stream D v f)" "returns (retire_entry_set D v e)" "returns (recompute_entry_checksum D v e)"
  "returns (release_entry_clusters D v e)" "returns (store_checksum D n loc x)" "returns (store_row D n loc row)"
  "small_table v \<Longrightarrow> returns (write_entry_set D v locs c)"
proof -
  have "returns (checksum_entries D n locs)" "returns (write_stream_entry D n f)" for n locs f
    unfolding checksum_entries_def write_stream_entry_def Let_def by (intro returns_intro)+
  then show "returns (update_stream D v f)" unfolding update_stream_def Let_def by (intro returns_intro)
  have "returns (retire_row D n loc)" for n loc unfolding retire_row_def Let_def by (intro returns_intro)
  then show "returns (retire_entry_set D v e)" unfolding retire_entry_set_def by (intro returns_intro)
  show sc: "returns (store_checksum D n loc x)" for n loc x unfolding store_checksum_def by (intro returns_intro)
  show sr: "returns (store_row D n loc row)" for n loc row unfolding store_row_def Let_def by (intro returns_intro)
  show "returns (recompute_entry_checksum D v e)"
    unfolding recompute_entry_checksum_def Let_def by (intro returns_intro sc)
  show "returns (write_entry_set D v locs c)" if [returns_intro]: "small_table v"
    unfolding write_entry_set_def Let_def by (intro returns_intro sc sr)
  have "returns (release_step D v b n i cluster)" for b n i cluster
    unfolding release_step_def by (intro returns_intro)
  then show "returns (release_entry_clusters D v e)"
    unfolding release_entry_clusters_def Let_def by (intro returns_intro)
qed

text \<open>Growing: a round of the loop makes the data length larger by a cluster, or fails.\<close>

definition same_length :: "('d, File_env) fs_scheme \<Rightarrow> ('d, File_env) fs_scheme \<Rightarrow> bool" where
  "same_length s s' \<longleftrightarrow> file_data_length (handle (fs.more s')) = file_data_length (handle (fs.more s))"

lemma preorder_same_length [steps_intro]: "preorder_on_states same_length"
  by (auto simp: preorder_on_states_def same_length_def reflp_def transp_def)

lemma steps_same_length:
  fixes m :: "('d, 'e, 'a) file_m"
  shows "steps fs_same m \<Longrightarrow> steps same_length m" "(\<And>f. file_data_length (g f) = file_data_length f) \<Longrightarrow> steps same_length (modify_file g)"
    "steps same_length get_file"
  by (auto simp: steps_def same_length_def fs_same_def modify_file_def modifyM_def get_file_def getsM_def)

lemma quiet_append_parts:
  "steps fs_same (append_last D v f cluster_bytes)" "steps fs_same (link_contiguous D v f cluster_bytes)"
  unfolding append_last_def link_contiguous_def Let_def
  by (intro quiet_intro quiet_fat quiet_fat [THEN fs_quiet])+

lemma returns_append_parts [returns_intro]:
  "returns (append_last D v f cluster_bytes)" "returns (link_contiguous D v f cluster_bytes)"
  "returns (append_link D v cluster_bytes last_cluster preferred new_cluster)" "returns (append_cluster D v cluster_bytes)"
proof -
  show a: "returns (append_last D v f cluster_bytes)" "returns (link_contiguous D v f cluster_bytes)" for f
    unfolding append_last_def link_contiguous_def Let_def by (intro returns_intro)+
  show b: "returns (append_link D v cluster_bytes last_cluster preferred new_cluster)" for last_cluster preferred new_cluster
    unfolding append_link_def by (intro returns_intro a)
  show "returns (append_cluster D v cluster_bytes)"
    unfolding append_cluster_def by (intro returns_intro a b)
qed

lemma append_link_length: "steps same_length (append_link D v cluster_bytes last_cluster preferred new_cluster)"
  unfolding append_link_def
  by (intro steps_intro steps_same_length quiet_append_parts quiet_fat [THEN fs_quiet]) simp_all

lemma post_bind_steps:
  assumes "steps R m" "preorder_on_states R" "R s0 s" "\<And>x s'. R s0 s' \<Longrightarrow> post (f x) s' Q (\<lambda>_ _. True)"
  shows "post (bindM m f) s Q (\<lambda>_ _. True)"
  unfolding post_bindM
  by (rule post_mono [OF steps_post [OF assms(1)]])
    (use assms(2-4) in \<open>auto simp: preorder_on_states_def dest: transpD\<close>)

lemma append_grow_progress:
  fixes s :: "('d, File_env) fs_scheme"
  shows "post (append_grow D v cluster_bytes end_length) s
    (\<lambda>r s'. case r of Inr _ \<Rightarrow> True
      | Inl _ \<Rightarrow> file_data_length (handle (fs.more s)) < end_length \<and>
          unat (file_data_length (handle (fs.more s'))) = unat (file_data_length (handle (fs.more s))) + unat cluster_bytes)
    (\<lambda>e _. True)"
proof -
  have last_part: "post (bindM get_file (\<lambda>f'. bindM (ok_or (checked_add (file_data_length f') cluster_bytes) NoSpace) (\<lambda>len.
      modify_file (\<lambda>f. f\<lparr>file_data_length := len\<rparr>)))) s1
      (\<lambda>_ s'. unat (file_data_length (handle (fs.more s'))) = unat (file_data_length (handle (fs.more s))) + unat cluster_bytes) (\<lambda>_ _. True)"
    if "same_length s s1" for s1 :: "('d, File_env) fs_scheme"
    using that by (auto simp: same_length_def checked_add_def unat_add_small split: option.splits if_splits)
  note parts = steps_intro steps_same_length(3) append_link_length quiet_append_parts [THEN steps_same_length(1)]
    quiet_alloc [THEN steps_same_length(1)]
  have "post (append_cluster D v cluster_bytes) s (\<lambda>_ s'.
      unat (file_data_length (handle (fs.more s'))) = unat (file_data_length (handle (fs.more s))) + unat cluster_bytes) (\<lambda>_ _. True)"
    unfolding append_cluster_def
  proof (intro last_part post_bind_steps [where R = same_length and ?s0.0 = s] parts)
  qed (simp_all add: same_length_def)
  then show ?thesis
    unfolding append_grow_def by (auto elim: post_mono)
qed

lemma returns_append [returns_intro]:
  assumes "has_clusters v"
  shows "returns (file_append D v input)"
proof -
  let ?cb = "ucast (bytes_per_cluster (vol_geometry v)) :: u64"
  have cb: "0 < unat ?cb" using assms by (simp add: has_clusters_def unat_gt_0)
  have loop: "returns (loop_m (unat end_length + 2) Diverge (\<lambda>_. append_grow D v ?cb end_length) ())" for end_length
  proof (rule returnsI)
    fix s
    show "post (loop_m (unat end_length + 2) Diverge (\<lambda>_. append_grow D v ?cb end_length) ()) s (\<lambda>_ _. True) (\<lambda>e _. e \<noteq> Diverge)"
    proof (rule post_loop_m [where I = "\<lambda>_ _. True" and \<mu> = "\<lambda>_ s. unat end_length - unat (file_data_length (handle (fs.more s)))"])
      fix s :: "('a, File_env) fs_scheme"
      have "returns (append_grow D v ?cb end_length)" unfolding append_grow_def by (intro returns_intro)
      from returns_run [OF this, of s] have "post (append_grow D v ?cb end_length) s (\<lambda>_ _. True) (\<lambda>e _. e \<noteq> Diverge)"
        by (auto intro!: postI)
      from post_conj [OF append_grow_progress this]
      show "post (append_grow D v ?cb end_length) s (\<lambda>r s'. case r of
            Inl x' \<Rightarrow> True \<and> unat end_length - unat (file_data_length (handle (fs.more s'))) <
              unat end_length - unat (file_data_length (handle (fs.more s)))
          | Inr y \<Rightarrow> True) (\<lambda>e _. e \<noteq> Diverge)"
        by (rule post_mono) (use cb in \<open>auto simp: word_less_nat_alt split: sum.splits\<close>)
    qed simp_all
  qed
  have "returns (append_body D v input)" unfolding append_body_def Let_def by (intro returns_intro loop)
  then show ?thesis unfolding file_append_def restore_on_err_def by (intro returns_intro)
qed

lemma returns_truncate [returns_intro]: "returns (file_truncate D v len)"
proof -
  have fr: "returns (free_clusters_from D v b n c)" for b n c
    unfolding free_clusters_from_def by (intro returns_intro)
  have "returns (shorten_chain D v keep allocated)" for keep allocated
    unfolding shorten_chain_def by (intro returns_intro fr)
  then show ?thesis unfolding file_truncate_def Let_def by (intro returns_intro)
qed

lemma returns_removal [returns_intro]:
  assumes [returns_intro]: "small_table v"
  shows "returns (remove_entry_tree D v e)" "returns (remove_with_workspace D v path)" "returns (fs_remove D v path)"
    "returns (is_dir_empty_with_workspace D v path)" "returns (fs_is_dir_empty D v path)" "returns (empty_existing D v f)"
proof -
  show t: "returns (remove_entry_tree D v e)" for e unfolding remove_entry_tree_def by (intro returns_intro)
  show w: "returns (remove_with_workspace D v path)" for path unfolding remove_with_workspace_def by (intro returns_intro t)
  show "returns (fs_remove D v path)" unfolding fs_remove_def by (intro returns_intro w)
  show i: "returns (is_dir_empty_with_workspace D v path)" for path
    unfolding is_dir_empty_with_workspace_def by (intro returns_intro)
  show "returns (fs_is_dir_empty D v path)" unfolding fs_is_dir_empty_def by (intro returns_intro i)
  show "returns (empty_existing D v f)" unfolding empty_existing_def by (intro returns_intro)
qed

section \<open>Looking does not write\<close>

definition same_free :: "('d, 'x) fs_scheme \<Rightarrow> ('d, 'x) fs_scheme \<Rightarrow> bool" where
  "same_free s s' \<longleftrightarrow> free_clusters s' = free_clusters s"

lemma coarse_same_free [steps_intro]: "coarse same_free"
  by (auto simp: coarse_def same_free_def preorder_on_states_def reflp_def transp_def dest: fs_more_io)

lemma same_free_more: "same_free s (fs.more_update f s)"
  by (cases s) (simp add: same_free_def)

lemma frame_more:
  "X s (fs.more_update f s) \<Longrightarrow> frame D media invar sz W X s (fs.more_update f s)"
  by (simp add: frame_def)

text \<open>A call on a local environment leaves the caller's own as it was.\<close>

lemma with_env_state:
  fixes s :: "('d, 'x) fs_scheme" and t :: "('d, 'y) fs_scheme"
  shows "device (fs.extend (fs.truncate t) x) = device t" "scratch (fs.extend (fs.truncate t) x) = scratch t"
    "free_clusters (fs.extend (fs.truncate t) x) = free_clusters t" "fs.more (fs.extend (fs.truncate t) x) = x"
    "io_ok D invar sz (fs.extend (fs.truncate t) x) = io_ok D invar sz t"
  by (simp_all add: fs.extend_def fs.truncate_def io_ok_def)

lemma steps_with_env:
  assumes "steps (frame D media invar sz W X) m"
    and "\<And>s t u. X t u \<Longrightarrow> t = fs.extend (fs.truncate s) env \<Longrightarrow> X' s (fs.extend (fs.truncate u) (fs.more s))"
  shows "steps (frame D media invar sz W X') (with_env env m)"
proof -
  have "frame D media invar sz W X' s (snd (with_env env m s))" for s
  proof (cases "m (fs.extend (fs.truncate s) env)")
    case (Pair r u)
    have "frame D media invar sz W X (fs.extend (fs.truncate s) env) u" by (rule steps_run [OF assms(1) Pair])
    then show ?thesis
      using assms(2) Pair by (auto simp: with_env_def frame_def with_env_state)
  qed
  then show ?thesis by (simp add: steps_def)
qed

lemma steps_with_env_free [steps_intro]:
  "steps (frame D media invar sz W same_free) m \<Longrightarrow> steps (frame D media invar sz W same_free) (with_env env m)"
  by (erule steps_with_env) (simp add: same_free_def with_env_state)

lemma steps_case_app [steps_intro]:
  "(\<And>x y. p = (x, y) \<Longrightarrow> steps R (k x y z)) \<Longrightarrow> steps R ((case p of (x, y) \<Rightarrow> k x y) z)"
  by (simp split: prod.splits)

context lawful_device
begin

lemma steps_fat_reads [steps_intro]:
  assumes [steps_intro]: "coarse X" and sz: "sector_bytes v = sz"
  shows "steps (frame D media invar sz W X) (next_cluster D v c)" "steps (frame D media invar sz W X) (cluster_at D v first index)"
    "steps (frame D media invar sz W X) (bitmap_location D v byte)"
proof -
  show nc: "steps (frame D media invar sz W X) (next_cluster D v c)" for c
    unfolding next_cluster_def Let_def sz [symmetric] by (intro steps_intro)
  show ca: "steps (frame D media invar sz W X) (cluster_at D v first index)" for first index
    unfolding cluster_at_def by (intro steps_intro nc)
  show "steps (frame D media invar sz W X) (bitmap_location D v byte)"
    unfolding bitmap_location_def Let_def by (intro steps_intro ca)
qed

lemma steps_folding [steps_intro]:
  assumes [steps_intro]: "coarse X" and sz [steps_intro]: "sector_bytes v = sz"
  shows "steps (frame D media invar sz W X) (upcase_unit D v u)" "steps (frame D media invar sz W X) (names_match D v xs ys)"
    "steps (frame D media invar sz W X) (upcase_name_hash D v xs)"
proof -
  have w: "steps (frame D media invar sz W X) (upcase_word D v byte)" for byte
    unfolding upcase_word_def Let_def sz by (intro steps_intro)
  have "steps (frame D media invar sz W X) (upcase_round D v u st)" for u st
    unfolding upcase_round_def Let_def by (intro steps_intro w)
  then show u: "steps (frame D media invar sz W X) (upcase_unit D v u)" for u
    unfolding upcase_unit_def by (intro steps_intro)
  show "steps (frame D media invar sz W X) (names_match D v xs ys)" "steps (frame D media invar sz W X) (upcase_name_hash D v xs)"
    unfolding names_match_def upcase_name_hash_def by (intro steps_intro u)+
qed

text \<open>An operation on the environment moves the state along any relation that ignores it.\<close>

lemma steps_read_directory [steps_intro]:
  fixes visitor :: "'x visitor" and X :: "('d, 'x) fs_scheme \<Rightarrow> ('d, 'x) fs_scheme \<Rightarrow> bool"
  assumes X [steps_intro]: "coarse X" and sz [steps_intro]: "sector_bytes v = sz" and env: "\<And>s f. X s (fs.more_update f s)"
  shows "steps (frame D media invar sz W X) (read_directory D v dir visitor)"
proof -
  let ?F = "frame D media invar sz W X"
  have call: "steps ?F (call_visitor visitor e)" for e
    using env by (auto simp: steps_def call_visitor_def intro: frame_more split: prod.splits)
  have row: "steps ?F (visit_entry visitor lba row es)" for lba row es
    unfolding visit_entry_def
    by (intro steps_intro) (auto intro!: steps_intro call split: sum.splits option.splits)
  have sec: "steps ?F (read_directory_sector D v dir visitor lba st)" for lba st
    unfolding read_directory_sector_def Let_def sz by (intro steps_intro row)
  have clu: "steps ?F (read_directory_cluster D v dir visitor st)" for st
    unfolding read_directory_cluster_def Let_def by (intro steps_intro sec)
  show ?thesis unfolding read_directory_def sz by (intro steps_intro clu)
qed

lemma steps_first_entry [steps_intro]:
  assumes [steps_intro]: "sector_bytes v = sz"
  shows "steps (frame D media invar sz W same_free) (first_directory_entry D v dir)"
  unfolding first_directory_entry_def by (intro steps_intro same_free_more)

lemma steps_workspace [steps_intro]:
  fixes X :: "('d, Workspace) fs_scheme \<Rightarrow> ('d, Workspace) fs_scheme \<Rightarrow> bool"
  assumes X [steps_intro]: "coarse X" and env: "\<And>s f. X s (fs.more_update f s)"
  shows "steps (frame D media invar sz W X) (ws_push raw loc)" "steps (frame D media invar sz W X) (ws_wanted n)"
    "steps (frame D media invar sz W X) (ws_encode name)" "steps (frame D media invar sz W X) (first_locators n locs)"
    "steps (frame D media invar sz W X) (set_locators locs)" "steps (frame D media invar sz W X) get_locators"
    "steps (frame D media invar sz W X) (set_locator i loc)"
proof -
  have m: "steps (frame D media invar sz W X) (modifyM (fs.more_update f))" for f
    by (intro steps_intro frame_more env)
  show "steps (frame D media invar sz W X) (ws_push raw loc)" "steps (frame D media invar sz W X) (ws_wanted n)"
    "steps (frame D media invar sz W X) (ws_encode name)" "steps (frame D media invar sz W X) (first_locators n locs)"
    unfolding ws_push_def ws_wanted_def ws_encode_def first_locators_def by (intro steps_intro m)+
  show s: "steps (frame D media invar sz W X) (set_locators locs)" "steps (frame D media invar sz W X) get_locators" for locs
    unfolding set_locators_def get_locators_def by (intro steps_intro m)+
  show "steps (frame D media invar sz W X) (set_locator i loc)"
    unfolding set_locator_def by (intro steps_intro s)
qed

lemma steps_lookup [steps_intro]:
  fixes X :: "('d, Workspace) fs_scheme \<Rightarrow> ('d, Workspace) fs_scheme \<Rightarrow> bool"
  assumes X [steps_intro]: "coarse X" and sz [steps_intro]: "sector_bytes v = sz" and env: "\<And>s f. X s (fs.more_update f s)"
  shows "steps (frame D media invar sz W X) (find_child D v dir n)" "steps (frame D media invar sz W X) (lookup_with_workspace D v path)"
    "steps (frame D media invar sz W X) (open_with_workspace D v path)"
proof -
  let ?F = "frame D media invar sz W X"
  have slot: "steps ?F (find_slot D v n lba slot)" for n lba slot
    unfolding find_slot_def Let_def sz by (intro steps_intro env)
  have sec: "steps ?F (find_sector D v dir n lba remaining)" for dir n lba remaining
    unfolding find_sector_def Let_def sz by (intro steps_intro slot)
  have clu: "steps ?F (find_cluster D v dir n st)" for dir n st
    unfolding find_cluster_def Let_def by (intro steps_intro sec)
  show fc: "steps ?F (find_child D v dir n)" for dir n unfolding find_child_def sz by (intro steps_intro clu)
  have "steps ?F (lookup_segments D v segments dir current)" for segments dir current
    by (induction segments arbitrary: dir current) (auto simp only: lookup_segments.simps intro!: steps_intro env fc)
  then show l: "steps ?F (lookup_with_workspace D v path)" for path
    unfolding lookup_with_workspace_def by (auto intro!: steps_intro split: list.splits)
  show "steps ?F (open_with_workspace D v path)" unfolding open_with_workspace_def by (intro steps_intro l)
qed

end

section \<open>Mounted volumes\<close>

text \<open>The checksum of the UpCase table only comes out for a table that the heap has clusters for.\<close>

lemma gives_upcase_sectors:
  "gives (\<lambda>r. unat remaining \<le> unat (fst r) + length is * sz) (fold_m is (upcase_sector D sz lba) (remaining, checksum))"
proof (induction "is" arbitrary: remaining checksum)
  case Nil
  show ?case by (simp add: gives_def returnM_def)
next
  case (Cons i "is")
  have step: "gives (\<lambda>r. unat remaining \<le> unat (fst r) + sz) (upcase_sector D sz lba i (remaining, checksum))"
    unfolding upcase_sector_def prod.case Let_def
    by (intro gives_intro) (auto simp: unat_sub word_le_nat_alt of_usize_def take_bit_nat_eq_self unat_of_nat)
  show ?case
    unfolding fold_m.simps
    by (rule gives_bind_gives [OF step]) (auto intro: gives_mono [OF Cons.IH])
qed

lemma gives_upcase_cluster:
  "gives (\<lambda>r. case r of Inr _ \<Rightarrow> unat remaining \<le> unat (sectors_per_cluster g) * unat (bytes_per_sector g)
     | Inl (_, remaining', _) \<Rightarrow> unat remaining \<le> unat remaining' + unat (sectors_per_cluster g) * unat (bytes_per_sector g))
   (upcase_cluster D g (cluster, remaining, checksum))"
  unfolding upcase_cluster_def prod.case Let_def
  by (rule gives_bindM, rule gives_bind_gives [OF gives_upcase_sectors]) (intro gives_intro, auto)

lemma gives_upcase_scan:
  "gives (\<lambda>_. unat remaining \<le> n * (unat (sectors_per_cluster g) * unat (bytes_per_sector g)))
     (loop_m n (Error Corrupt) (upcase_cluster D g) (cluster, remaining, checksum))"
proof (induction n arbitrary: cluster remaining checksum)
  case 0
  show ?case by (simp add: gives_def throwM_def)
next
  case (Suc n)
  show ?case
    unfolding loop_m.simps
    by (rule gives_bind_gives [OF gives_upcase_cluster])
      (auto split: sum.splits prod.splits intro!: gives_skip gives_mono [OF Suc.IH])
qed

definition table_fits :: "Volume \<Rightarrow> bool" where
  "table_fits v \<longleftrightarrow> (vol_upcase_valid v \<longrightarrow> unat (ut_byte_length (vol_upcase v)) \<le>
     unat (cluster_count (vol_geometry v)) * (unat (sectors_per_cluster (vol_geometry v)) * unat (bytes_per_sector (vol_geometry v))))"

lemma gives_attempt: "gives P m \<Longrightarrow> gives (\<lambda>r. \<forall>x. r = Inr x \<longrightarrow> P x) (attempt m)"
  by (auto simp: gives_def attempt_def split: prod.splits sum.splits exn.splits) (metis fst_conv)

lemma gives_volume_mount: "gives table_fits (volume_mount D)"
proof -
  have val: "gives (\<lambda>_. unat (ut_byte_length table) \<le>
      unat (cluster_count g) * (unat (sectors_per_cluster g) * unat (bytes_per_sector g))) (validate_upcase_table D g table)" for g table
    unfolding validate_upcase_table_def
    by (rule gives_branch(1), rule gives_skip, rule gives_bind_gives [OF gives_upcase_scan]) (simp add: gives_skip)
  have "gives table_fits (mount_metadata D g)" for g
    unfolding mount_metadata_def
    by (rule gives_bindM, clarify, rule gives_bind_gives [OF gives_attempt [OF val]])
      (auto simp: table_fits_def split: sum.splits error.splits intro!: gives_skip)
  then show ?thesis unfolding volume_mount_def by (intro gives_intro)
qed

lemma mounted_volume:
  assumes "lawful_device D media invar" "io_ok D invar sz s" "volume_mount D s = (Inr v, s')"
  shows "wf_geometry (vol_geometry v)" "sector_bytes v = sz" "small_table v" "has_clusters v"
proof -
  have v: "wf_geometry (vol_geometry v) \<and> unat (bytes_per_sector (vol_geometry v)) = sz"
    using post_InrD [OF lawful_device.post_volume_mount [OF assms(1,2)] assms(3)] by blast
  then show wf: "wf_geometry (vol_geometry v)" and "sector_bytes v = sz" by simp_all
  let ?g = "vol_geometry v"
  have size: "unat (bytes_per_sector ?g) * unat (sectors_per_cluster ?g) \<le> 2 ^ 25" using wf_geometryD(3) [OF wf] .
  have "unat (cluster_count ?g) * (unat (sectors_per_cluster ?g) * unat (bytes_per_sector ?g)) \<le> 2 ^ 32 * 2 ^ 25"
    by (intro mult_le_mono) (use size in \<open>simp_all add: mult.commute order.strict_implies_order [OF unat_u32_lt]\<close>)
  then show "small_table v"
    using gives_run [OF gives_volume_mount assms(3)] by (auto simp: table_fits_def small_table_def)
  have "0 < unat (bytes_per_cluster ?g)"
    unfolding unat_bytes_per_cluster [OF wf] using wf_geometryD(1,2) [OF wf] by auto
  then show "has_clusters v" unfolding has_clusters_def by (metis unat_0 less_irrefl)
qed

section \<open>Properties\<close>

context lawful_device
begin

lemma steps_look [steps_intro]:
  assumes sz [steps_intro]: "sector_bytes v = sz"
  shows "steps (frame D media invar sz W same_free) (is_dir_empty_with_workspace D v path)"
    "steps (frame D media invar sz W same_free) (fs_lookup D v path)" "steps (frame D media invar sz W same_free) (fs_open D v path)"
    "steps (frame D media invar sz W same_free) (fs_is_dir_empty D v path)"
proof -
  note look = steps_lookup(2,3) [OF coarse_same_free sz same_free_more]
  show i: "steps (frame D media invar sz W same_free) (is_dir_empty_with_workspace D v path)" for path
    unfolding is_dir_empty_with_workspace_def by (intro steps_intro look)
  show "steps (frame D media invar sz W same_free) (fs_lookup D v path)" "steps (frame D media invar sz W same_free) (fs_open D v path)"
    "steps (frame D media invar sz W same_free) (fs_is_dir_empty D v path)"
    unfolding fs_lookup_def fs_open_def fs_is_dir_empty_def by (intro steps_intro look i)+
qed

end

lemma returnsD: "returns m \<Longrightarrow> fst (m s) \<noteq> Inl Diverge"
  by (simp add: returns_def)

text \<open>
  C26: Reading, writing, appending to and truncating a file, listing a directory, looking up, opening,
  removing, testing for emptiness, storing an entry set, releasing its clusters, and the operations on FAT,
  bitmap and free space return, whatever the medium holds: chains that run in circles, directories without
  an end, entries that point anywhere. The walks are bounded by the index they look for, the
  scans by the number of clusters, and the loops that wait for a length to be reached gain at least a
  byte each round. All that is needed of the volume is that clusters are not empty and that an UpCase
  table taken for valid has less than 2^63 bytes; \<open>mounted_volume\<close> says that mounting vouches for
  both. Not among them is the search for free directory slots, which starts over after it has grown the
  directory (on a medium whose bitmap marks its own clusters as free nothing bounds how often), nor
  creating a file, creating directories and renaming, which use it.
\<close>
theorem operations_return:
  fixes D :: "('d, 'e) device_ops" and f :: "('d, File_env) fs_scheme" and w :: "('d, Workspace) fs_scheme"
    and s :: "('d, 'x) fs_scheme"
  assumes "small_table v" "has_clusters v"
  shows "fst (file_read D v f) \<noteq> Inl Diverge \<and> fst (file_write D v input f) \<noteq> Inl Diverge \<and>
    fst (file_append D v input f) \<noteq> Inl Diverge \<and> fst (file_truncate D v len f) \<noteq> Inl Diverge \<and>
    fst (read_directory D v dir visitor s) \<noteq> Inl Diverge \<and> fst (lookup_with_workspace D v path w) \<noteq> Inl Diverge \<and>
    fst (open_with_workspace D v path w) \<noteq> Inl Diverge \<and> fst (remove_with_workspace D v path w) \<noteq> Inl Diverge \<and>
    fst (is_dir_empty_with_workspace D v path w) \<noteq> Inl Diverge \<and> fst (write_entry_set D v locs c s) \<noteq> Inl Diverge \<and>
    fst (release_entry_clusters D v e s) \<noteq> Inl Diverge \<and> fst (allocate_cluster_preferred D v c' s) \<noteq> Inl Diverge \<and>
    fst (set_bitmap D v c' used s) \<noteq> Inl Diverge \<and> fst (set_fat D v c' val s) \<noteq> Inl Diverge \<and>
    fst (cluster_at D v c' index s) \<noteq> Inl Diverge \<and> fst (free_space_bytes D v s) \<noteq> Inl Diverge"
  by (intro conjI returnsD returns_intro assms)

definition unwritten :: "('d \<Rightarrow> medium) \<Rightarrow> ('d, 'x) fs_scheme \<Rightarrow> ('d, 'x) fs_scheme \<Rightarrow> bool" where
  "unwritten media s s' \<longleftrightarrow> media (device s') = media (device s) \<and> free_clusters s' = free_clusters s"

lemma unwritten_frame:
  "io_ok D invar sz s \<Longrightarrow> steps (frame D media invar sz {} same_free) m \<Longrightarrow> unwritten media s (snd (m s))"
  by (auto simp: steps_def unwritten_def frame_def same_free_def fun_eq_iff dest: spec [of _ s])

context lawful_device
begin

lemma looks_unwritten:
  fixes w :: "('d, Workspace) fs_scheme" and s :: "('d, 'x) fs_scheme"
  assumes ok: "io_ok D invar (sector_bytes v) w" "io_ok D invar (sector_bytes v) s"
  shows "unwritten media w (snd (lookup_with_workspace D v path w)) \<and> unwritten media w (snd (open_with_workspace D v path w)) \<and>
    unwritten media w (snd (find_child D v dir n w)) \<and> unwritten media w (snd (is_dir_empty_with_workspace D v path w)) \<and>
    unwritten media s (snd (fs_lookup D v path s)) \<and> unwritten media s (snd (fs_open D v path s)) \<and>
    unwritten media s (snd (fs_is_dir_empty D v path s)) \<and> unwritten media s (snd (read_directory D v dir visitor s)) \<and>
    unwritten media s (snd (first_directory_entry D v dir s))"
proof -
  note look = steps_lookup [OF coarse_same_free refl same_free_more]
  show ?thesis
    by (intro conjI unwritten_frame [OF ok(1)] unwritten_frame [OF ok(2)] look steps_look [OF refl]
        steps_first_entry [OF refl] steps_read_directory [OF coarse_same_free refl same_free_more])
qed

end

lemma test_volume_small: "small_table test_volume" "has_clusters test_volume"
  using wf_geometryD(1,2) [OF wf_test_geometry] unat_bytes_per_cluster [OF wf_test_geometry]
  by (auto simp: small_table_def has_clusters_def test_volume_def)

theorem operations_return_witness:
  "fst (file_append mem_ops test_volume [1, 2, 3] (fs.extend (fs.truncate test_card) \<lparr>handle = file_of_entry set_entry, out_buf = []\<rparr>)) \<noteq> Inl Diverge"
  using operations_return [OF test_volume_small] by blast

text \<open>
  C27: Looking is safe. On a device that keeps its contract, from any state in order and on any medium,
  looking a path up, opening it, listing a directory and testing it for emptiness leave every sector as
  it was, and the cached count of free clusters too; only the caller's own workspace changes.
\<close>
theorem lookups_never_write:
  fixes D :: "('d, 'e) device_ops" and w :: "('d, Workspace) fs_scheme" and s :: "('d, 'x) fs_scheme"
  assumes "lawful_device D media invar" "io_ok D invar (sector_bytes v) w" "io_ok D invar (sector_bytes v) s"
  shows "unwritten media w (snd (lookup_with_workspace D v path w)) \<and> unwritten media w (snd (open_with_workspace D v path w)) \<and>
    unwritten media w (snd (find_child D v dir n w)) \<and> unwritten media w (snd (is_dir_empty_with_workspace D v path w)) \<and>
    unwritten media s (snd (fs_lookup D v path s)) \<and> unwritten media s (snd (fs_open D v path s)) \<and>
    unwritten media s (snd (fs_is_dir_empty D v path s)) \<and> unwritten media s (snd (read_directory D v dir visitor s)) \<and>
    unwritten media s (snd (first_directory_entry D v dir s))"
  by (rule lawful_device.looks_unwritten [OF assms])

theorem lookups_never_write_witness:
  "mem_media (device (snd (fs_lookup mem_ops test_volume [0x61] test_card))) = mem_media (device test_card)"
proof -
  have "io_ok mem_ops mem_ok (sector_bytes test_volume) (fs.extend (fs.truncate test_card) new_workspace)"
    using test_card_ok by (simp add: with_env_state)
  from lookups_never_write [OF mem.lawful_device_axioms this, of test_card "[0x61]"]
  show ?thesis using test_card_ok by (simp add: unwritten_def)
qed

end
