(* ===== verification/Directory_Content.thy ===== *)
theory Directory_Content
  imports Operations
begin

text \<open>
  The contents of a directory as a pure function of the medium, and the streaming readers against it.
  \<open>dir_rows\<close> is the sequence of 32-byte rows the directory's clusters hold, \<open>decode_rows\<close> the entries
  they spell, \<open>listing\<close> both. \<open>read_directory\<close>, which never holds more than one sector, shows a visitor
  exactly the entries of the listing, in order, until the visitor declines.
\<close>

section \<open>Rows and entries\<close>

type_synonym row = "u8 list \<times> EntryLocator"

text \<open>How a run of rows ends: at the end marker, at a broken set, or with a decoder that wants more.\<close>

datatype row_end = Marker | Bad | More EntrySet

fun decode_rows :: "EntrySet \<Rightarrow> row list \<Rightarrow> DirectoryEntry list \<times> row_end" where
  "decode_rows es [] = ([], More es)"
| "decode_rows es ((raw, loc) # rows) =
     (if raw ! 0 = 0 then ([], Marker) else
      case push es raw loc :: (unit error + DirectoryEntry option) \<times> EntrySet of
        (Inl _, _) \<Rightarrow> ([], Bad)
      | (Inr r, es') \<Rightarrow> (case decode_rows es' rows of (out, fin) \<Rightarrow>
          (case r of None \<Rightarrow> (out, fin) | Some e \<Rightarrow> (e # out, fin))))"

text \<open>Showing entries to a visitor until it declines.\<close>

primrec feed :: "'x visitor \<Rightarrow> DirectoryEntry list \<Rightarrow> 'x \<Rightarrow> bool \<times> 'x" where
  "feed visitor [] x = (True, x)"
| "feed visitor (e # es) x = (case visitor e x of (go, x') \<Rightarrow> if go then feed visitor es x' else (False, x'))"

definition scan :: "'x visitor \<Rightarrow> EntrySet \<Rightarrow> row list \<Rightarrow> 'x \<Rightarrow> row_end \<times> 'x" where
  "scan visitor es rows x = (case decode_rows es rows of (out, fin) \<Rightarrow>
     (case feed visitor out x of (go, x') \<Rightarrow> (if go then fin else Marker, x')))"

lemma push_any:
  "(push es raw loc :: ('e error + DirectoryEntry option) \<times> EntrySet) =
     (case push es raw loc :: (unit error + DirectoryEntry option) \<times> EntrySet of
        (Inl _, es') \<Rightarrow> (Inl Corrupt, es') | (Inr r, es') \<Rightarrow> (Inr r, es'))"
  by (simp add: push_def push_primary_def push_stream_def push_name_def count_secondary_def complete_def Let_def)

lemma scan_simps:
  "scan visitor es [] x = (More es, x)"
  "scan visitor es ((raw, loc) # rows) x =
     (if raw ! 0 = 0 then (Marker, x) else
      case push es raw loc :: (unit error + DirectoryEntry option) \<times> EntrySet of
        (Inl _, _) \<Rightarrow> (Bad, x)
      | (Inr None, es') \<Rightarrow> scan visitor es' rows x
      | (Inr (Some e), es') \<Rightarrow> (case visitor e x of (go, x') \<Rightarrow> if go then scan visitor es' rows x' else (Marker, x')))"
  by (auto simp: scan_def split: prod.splits sum.splits option.splits)

lemma scan_append:
  "scan visitor es (rows @ rows') x = (case scan visitor es rows x of
     (More es', x') \<Rightarrow> scan visitor es' rows' x' | (Marker, x') \<Rightarrow> (Marker, x') | (Bad, x') \<Rightarrow> (Bad, x'))"
proof (induction rows arbitrary: es x)
  case (Cons row rows)
  then show ?case by (cases row) (auto simp: scan_simps split: prod.splits sum.splits option.splits)
qed (simp add: scan_simps)

section \<open>The rows of a directory\<close>

definition sector_rows :: "medium \<Rightarrow> u64 \<Rightarrow> nat \<Rightarrow> row list" where
  "sector_rows m lba usable =
     map (\<lambda>(slot, raw). (raw, \<lparr>el_lba = lba, el_offset = word_of_nat (slot * 32)\<rparr>)) (enumerate 0 (chunks_exact 32 (take usable (m lba))))"

text \<open>The rows of some sectors of a cluster, and the bytes left after them; \<open>None\<close> when the length ran out.\<close>

primrec cluster_rows :: "medium \<Rightarrow> Volume \<Rightarrow> Directory \<Rightarrow> u64 \<Rightarrow> nat list \<Rightarrow> u64 \<Rightarrow> row list \<times> u64 option" where
  "cluster_rows m v dir base [] remaining = ([], Some remaining)"
| "cluster_rows m v dir base (i # is) remaining =
     (if dir_data_length dir \<noteq> 0 \<and> remaining = 0 then ([], None) else
      let usable = usable_bytes dir (sector_bytes v) remaining in
      case cluster_rows m v dir base is (after_sector dir usable remaining) of (rows, left) \<Rightarrow>
        (sector_rows m (base + of_usize i) usable @ rows, left))"

text \<open>The cluster after one: \<open>Inl\<close> at the end of the directory, false when the chain is broken.\<close>

definition dir_next :: "medium \<Rightarrow> Volume \<Rightarrow> Directory \<Rightarrow> u32 \<Rightarrow> u64 \<Rightarrow> bool + u32" where
  "dir_next m v dir cluster remaining =
     (if dir_no_fat_chain dir then
        if remaining = 0 then Inl True
        else (case checked_add cluster 1 of None \<Rightarrow> Inl False | Some c \<Rightarrow> Inr c)
      else (case fat_link m (vol_geometry v) cluster of
          None \<Rightarrow> Inl False
        | Some c \<Rightarrow> if 0xFFFFFFF8 \<le> c then Inl True else if c < 2 then Inl False else Inr c))"

primrec dir_rows :: "nat \<Rightarrow> medium \<Rightarrow> Volume \<Rightarrow> Directory \<Rightarrow> u32 \<Rightarrow> u64 \<Rightarrow> row list \<times> bool" where
  "dir_rows 0 m v dir cluster remaining = ([], False)"
| "dir_rows (Suc n) m v dir cluster remaining =
     (case cluster_lba (vol_geometry v) cluster of
        None \<Rightarrow> ([], False)
      | Some base \<Rightarrow>
          (case cluster_rows m v dir base [0..<unat (sectors_per_cluster (vol_geometry v))] remaining of
             (rows, None) \<Rightarrow> (rows, True)
           | (rows, Some left) \<Rightarrow>
               (case dir_next m v dir cluster left of
                  Inl ok \<Rightarrow> (rows, ok)
                | Inr c \<Rightarrow> (case dir_rows n m v dir c left of (rows', ok) \<Rightarrow> (rows @ rows', ok)))))"

text \<open>The entries of a directory, and whether it comes to a proper end.\<close>

definition listing :: "medium \<Rightarrow> Volume \<Rightarrow> Directory \<Rightarrow> DirectoryEntry list \<times> bool" where
  "listing m v dir =
     (case dir_rows (unat (cluster_count (vol_geometry v))) m v dir (dir_first_cluster dir) (dir_data_length dir) of (rows, ok) \<Rightarrow>
        (case decode_rows new_entry_set rows of (out, fin) \<Rightarrow>
          (out, case fin of Marker \<Rightarrow> True | Bad \<Rightarrow> False | More _ \<Rightarrow> ok)))"

section \<open>Reading a directory\<close>

lemma visit_entry_run:
  "visit_entry visitor lba (slot, raw) es s =
     (if raw ! 0 = 0 then (Inr (Inr ()), s) else
      case push es raw \<lparr>el_lba = lba, el_offset = word_of_nat (slot * 32)\<rparr> :: (unit error + DirectoryEntry option) \<times> EntrySet of
        (Inl _, _) \<Rightarrow> (Inl (Error Corrupt), s)
      | (Inr None, es') \<Rightarrow> (Inr (Inl es'), s)
      | (Inr (Some e), es') \<Rightarrow> (case visitor e (fs.more s) of (go, x) \<Rightarrow>
          (Inr (if go then Inl es' else Inr ()), fs.more_update (\<lambda>_. x) s)))"
  unfolding visit_entry_def prod.case
  by (subst push_any) (simp add: bindM_def returnM_def fail_def throwM_def call_visitor_def split: prod.split sum.split option.split)

lemma visit_rows:
  "for_m (enumerate k raws) (visit_entry visitor lba) es s =
     (case scan visitor es (map (\<lambda>(slot, raw). (raw, \<lparr>el_lba = lba, el_offset = word_of_nat (slot * 32)\<rparr>)) (enumerate k raws)) (fs.more s) of
        (fin, x) \<Rightarrow> (case fin of Marker \<Rightarrow> Inr (Inr ()) | Bad \<Rightarrow> Inl (Error Corrupt) | More es' \<Rightarrow> Inr (Inl es'), fs.more_update (\<lambda>_. x) s))"
proof (induction raws arbitrary: k es s)
  case Nil
  have "fs.more_update (\<lambda>_. fs.more s) s = s" by (cases s) simp
  then show ?case by (simp add: scan_simps returnM_def)
next
  case (Cons raw raws)
  have id: "fs.more_update (\<lambda>_. fs.more s) s = s" by (cases s) simp
  have upd: "fs.more_update (\<lambda>_. y) (fs.more_update (\<lambda>_. x) s) = fs.more_update (\<lambda>_. y) s" for x y by (cases s) simp
  obtain r es' where p: "(push es raw \<lparr>el_lba = lba, el_offset = word_of_nat k * 32\<rparr> :: (unit error + DirectoryEntry option) \<times> EntrySet) = (r, es')"
    by fastforce
  show ?case
  proof (cases "raw ! 0 = 0")
    case True
    then show ?thesis by (simp add: scan_simps bindM_def visit_entry_run returnM_def id)
  next
    case False
    note simps = scan_simps bindM_def visit_entry_run returnM_def id upd p
    show ?thesis
    proof (cases r)
      case (Inl e)
      then show ?thesis using False by (simp add: simps)
    next
      case (Inr opt)
      show ?thesis
      proof (cases opt)
        case None
        then show ?thesis using False Inr by (simp add: simps Cons.IH)
      next
        case (Some e)
        then show ?thesis using False Inr by (cases "visitor e (fs.more s)") (simp add: simps Cons.IH)
      qed
    qed
  qed
qed

text \<open>Only reads happened and the visitor was called.\<close>

definition watching :: "('d, 'e) device_ops \<Rightarrow> ('d \<Rightarrow> medium) \<Rightarrow> ('d \<Rightarrow> bool) \<Rightarrow> nat \<Rightarrow> ('d, 'x) fs_scheme \<Rightarrow> ('d, 'x) fs_scheme \<Rightarrow> bool" where
  "watching D media invar sz s0 s \<longleftrightarrow> io_ok D invar sz s0 \<and> frame D media invar sz {} same_free s0 s"

lemma watchingD:
  assumes "watching D media invar sz s0 s"
  shows "io_ok D invar sz s" "media (device s) = media (device s0)" "free_clusters s = free_clusters s0"
  using assms by (auto simp: watching_def frame_def same_free_def fun_eq_iff)

lemma watching_refl: "io_ok D invar sz s \<Longrightarrow> watching D media invar sz s s"
  by (simp add: watching_def frame_def same_free_def)

lemma watching_trans: "watching D media invar sz s0 s \<Longrightarrow> watching D media invar sz s s' \<Longrightarrow> watching D media invar sz s0 s'"
  by (auto simp: watching_def frame_def same_free_def)

lemma watching_more: "watching D media invar sz s0 s \<Longrightarrow> watching D media invar sz s0 (fs.more_update f s)"
  by (auto simp: watching_def frame_def same_free_def)

text \<open>
  What a reader has done with some rows: it scanned them all and goes on, or it stopped at \<open>fin\<close>; a
  device error leaves the visitor with the entries of a prefix.
\<close>

definition scanned_prefix :: "'x visitor \<Rightarrow> EntrySet \<Rightarrow> row list \<Rightarrow> 'x \<Rightarrow> 'x \<Rightarrow> bool" where
  "scanned_prefix visitor es rows x x' \<longleftrightarrow> (\<exists>k. x' = snd (scan visitor es (take k rows) x))"

lemma scanned_prefix_start: "scanned_prefix visitor es rows x x"
  by (auto simp: scanned_prefix_def scan_simps intro: exI [of _ 0])

lemma scanned_prefix_append:
  assumes "scan visitor es rows x = (More es', x')" "scanned_prefix visitor es' rows' x' x''"
  shows "scanned_prefix visitor es (rows @ rows') x x''"
proof -
  obtain k where "x'' = snd (scan visitor es' (take k rows') x')" using assms(2) by (auto simp: scanned_prefix_def)
  then have "x'' = snd (scan visitor es (take (length rows + k) (rows @ rows')) x)"
    using assms(1) by (simp add: scan_append)
  then show ?thesis unfolding scanned_prefix_def by blast
qed

lemma scanned_prefix_left: "scanned_prefix visitor es rows x x' \<Longrightarrow> scanned_prefix visitor es (rows @ rows') x x'"
proof -
  assume "scanned_prefix visitor es rows x x'"
  then obtain k where "x' = snd (scan visitor es (take k rows) x)" by (auto simp: scanned_prefix_def)
  then have "x' = snd (scan visitor es (take (min k (length rows)) (rows @ rows')) x)" by (simp add: min_def take_all_iff)
  then show ?thesis unfolding scanned_prefix_def by blast
qed

context lawful_device
begin

lemma watching_reading:
  fixes s s' :: "('d, 'x) fs_scheme"
  shows "reading sz s s' \<Longrightarrow> watching D media invar sz s s'"
proof -
  assume r: "reading sz s s'"
  have "same_free t t'" if "io_same t t'" for t t' :: "('d, 'x) fs_scheme"
    unfolding same_free_def using that [unfolded io_same_def] by (rule conjunct2 [OF fs_more_io])
  then show "watching D media invar sz s s'"
    using r unfolding reading_def watching_def by (blast intro: frame_mono)
qed

lemma post_dir_sector:
  fixes s0 s :: "('d, 'x) fs_scheme" and lba :: u64
  assumes w: "watching D media invar sz s0 s" and sz: "sector_bytes v = sz" and more: "\<not> (dir_data_length dir \<noteq> 0 \<and> remaining = 0)"
  defines "rows \<equiv> sector_rows (media (device s0)) lba (usable_bytes dir sz remaining)"
  shows "post (read_directory_sector D v dir visitor lba (remaining, es)) s
    (\<lambda>r s'. watching D media invar sz s0 s' \<and> (\<exists>fin. scan visitor es rows (fs.more s) = (fin, fs.more s') \<and>
        (case r of Inr _ \<Rightarrow> fin = Marker
         | Inl (remaining', es') \<Rightarrow> fin = More es' \<and> remaining' = after_sector dir (usable_bytes dir sz remaining) remaining)))
    (\<lambda>e s'. watching D media invar sz s0 s' \<and> (is_device_error e \<and> fs.more s' = fs.more s \<or>
        e = Error Corrupt \<and> scan visitor es rows (fs.more s) = (Bad, fs.more s')))"
proof -
  let ?m = "media (device s0)"
  have w1: "watching D media invar sz s0 s'" "fs.more s' = fs.more s" if "reading sz s s'" for s' :: "('d, 'x) fs_scheme"
  proof -
    show "fs.more s' = fs.more s" by (rule conjunct1 [OF fs_more_io [OF readingD(3) [OF that]]])
    show "watching D media invar sz s0 s'"
      using that watching_reading by (blast intro: watching_trans [OF w])
  qed
  have id: "media (device s) = ?m" using watchingD(2) [OF w] .
  show ?thesis
    unfolding read_directory_sector_def prod.case Let_def sz if_not_P [OF more]
  proof (rule post_load [OF reading_refl [OF watchingD(1) [OF w]]], goal_cases)
    case (1 s')
    obtain fin x where sc: "scan visitor es rows (fs.more s) = (fin, x)" by fastforce
    have sc': "scan visitor es (map (\<lambda>(slot, raw). (raw, \<lparr>el_lba = lba, el_offset = word_of_nat (slot * 32)\<rparr>))
        (enumerate 0 (chunks_exact 32 (take (usable_bytes dir sz remaining) (media (device s0) lba))))) (fs.more s') = (fin, x)"
      using sc unfolding w1(2) [OF 1] rows_def sector_rows_def .
    show ?case
      using watching_more [OF w1(1) [OF 1]] sc
      by (cases fin) (simp_all add: post_def bindM_def returnM_def id visit_rows sc' del: of_nat_mult)
  next
    case (2 e s')
    then show ?case using w1 [OF 2(1)] by simp
  qed
qed

lemma post_dir_sectors:
  fixes s0 s :: "('d, 'x) fs_scheme"
  assumes sz: "sector_bytes v = sz" and w: "watching D media invar sz s0 s"
    and rows: "cluster_rows (media (device s0)) v dir base is remaining = (rows, left)"
  shows "post (for_m is (\<lambda>i. read_directory_sector D v dir visitor (base + of_usize i)) (remaining, es)) s
    (\<lambda>r s'. watching D media invar sz s0 s' \<and> (\<exists>fin. scan visitor es rows (fs.more s) = (fin, fs.more s') \<and>
        (case r of Inr _ \<Rightarrow> fin = Marker \<or> left = None \<and> (\<exists>es'. fin = More es')
         | Inl (remaining', es') \<Rightarrow> fin = More es' \<and> left = Some remaining')))
    (\<lambda>e s'. watching D media invar sz s0 s' \<and> (is_device_error e \<and> scanned_prefix visitor es rows (fs.more s) (fs.more s') \<or>
        e = Error Corrupt \<and> scan visitor es rows (fs.more s) = (Bad, fs.more s')))"
  using w rows
proof (induction "is" arbitrary: remaining es s rows)
  case Nil
  then show ?case by (simp add: scan_simps)
next
  case (Cons i "is")
  show ?case
  proof (cases "dir_data_length dir \<noteq> 0 \<and> remaining = 0")
    case True
    then show ?thesis using Cons.prems by (simp add: read_directory_sector_def scan_simps)
  next
    case False
    let ?u = "usable_bytes dir sz remaining" and ?m = "media (device s0)"
    let ?now = "sector_rows ?m (base + of_usize i) ?u"
    obtain later where later: "cluster_rows ?m v dir base is (after_sector dir ?u remaining) = (later, left)"
      and split: "rows = ?now @ later"
      using Cons.prems(2) False by (auto simp: Let_def sz split: prod.splits)
    show ?thesis
      unfolding for_m.simps post_bindM
    proof (rule post_mono [OF post_dir_sector [OF Cons.prems(1) sz False]], goal_cases)
      case (1 r s1)
      then obtain fin where w1: "watching D media invar sz s0 s1" and fin: "scan visitor es ?now (fs.more s) = (fin, fs.more s1)"
        and r: "case r of Inr _ \<Rightarrow> fin = Marker | Inl (remaining', es') \<Rightarrow> fin = More es' \<and> remaining' = after_sector dir ?u remaining"
        by blast
      show ?case
      proof (cases r)
        case (Inr u)
        then show ?thesis using w1 fin r by (simp add: split scan_append)
      next
        case (Inl st)
        obtain es' where st: "st = (after_sector dir ?u remaining, es')" and more: "fin = More es'" using Inl r by (cases st) auto
        have sc: "scan visitor es rows (fs.more s) = scan visitor es' later (fs.more s1)" using fin more by (simp add: split scan_append)
        show ?thesis
          unfolding Inl sum.case st sc
          by (rule post_mono [OF Cons.IH [OF w1 later]])
            (use scanned_prefix_append [OF fin [unfolded more]] in \<open>auto simp: split\<close>)
      qed
    next
      case (2 e s1)
      then show ?case by (auto simp: split scan_append scanned_prefix_start)
    qed
  qed
qed

end

context lawful_device
begin

text \<open>The step from one cluster to the next.\<close>

lemma post_dir_next:
  fixes s0 s :: "('d, 'x) fs_scheme"
  assumes wf: "wf_geometry (vol_geometry v)" and sz: "sector_bytes v = sz" and w: "watching D media invar sz s0 s"
  shows "post (if dir_no_fat_chain dir then
        if remaining = 0 then returnM (Inr ())
        else bindM (ok_or (checked_add cluster 1) Corrupt) (\<lambda>c. returnM (Inl (c, remaining, es)))
      else bindM (next_cluster D v cluster) (\<lambda>c.
        if 0xFFFFFFF8 \<le> c then returnM (Inr ()) else if c < 2 then fail Corrupt else returnM (Inl (c, remaining, es)))) s
    (\<lambda>r s'. watching D media invar sz s0 s' \<and> fs.more s' = fs.more s \<and>
       (case r of Inr _ \<Rightarrow> dir_next (media (device s0)) v dir cluster remaining = Inl True
        | Inl (c, remaining', es') \<Rightarrow> dir_next (media (device s0)) v dir cluster remaining = Inr c \<and> remaining' = remaining \<and> es' = es))
    (\<lambda>e s'. watching D media invar sz s0 s' \<and> fs.more s' = fs.more s \<and>
       (is_device_error e \<or> e = Error Corrupt \<and> dir_next (media (device s0)) v dir cluster remaining = Inl False))"
proof (cases "dir_no_fat_chain dir")
  case True
  then show ?thesis using w by (auto simp: dir_next_def split: option.splits)
next
  case False
  have same: "watching D media invar sz s0 s' \<and> fs.more s' = fs.more s" if "reading sz s s'" for s' :: "('d, 'x) fs_scheme"
    using watching_trans [OF w watching_reading [OF that]] conjunct1 [OF fs_more_io [OF readingD(3) [OF that]]] by simp
  show ?thesis
    unfolding if_not_P [OF False] post_bindM
    by (rule post_mono [OF post_next_cluster [OF reading_refl [OF watchingD(1) [OF w]] wf sz]])
      (use False same watchingD(2) [OF w] in \<open>auto simp: dir_next_def\<close>)
qed

lemma post_dir_clusters:
  fixes s0 s :: "('d, 'x) fs_scheme"
  assumes wf: "wf_geometry (vol_geometry v)" and sz: "sector_bytes v = sz" and w: "watching D media invar sz s0 s"
    and rows: "dir_rows n (media (device s0)) v dir cluster remaining = (rows, ok)"
  shows "post (loop_m n (Error Corrupt) (read_directory_cluster D v dir visitor) (cluster, remaining, es)) s
    (\<lambda>_ s'. watching D media invar sz s0 s' \<and> (\<exists>fin. scan visitor es rows (fs.more s) = (fin, fs.more s') \<and>
        (fin = Marker \<or> ok \<and> (\<exists>es'. fin = More es'))))
    (\<lambda>e s'. watching D media invar sz s0 s' \<and> (is_device_error e \<and> scanned_prefix visitor es rows (fs.more s) (fs.more s') \<or>
        e = Error Corrupt \<and> (\<exists>fin. scan visitor es rows (fs.more s) = (fin, fs.more s') \<and> (fin = Bad \<or> \<not> ok \<and> (\<exists>es'. fin = More es')))))"
  using w rows
proof (induction n arbitrary: cluster remaining es s rows)
  case 0
  then show ?case by (simp add: scan_simps)
next
  case (Suc n)
  let ?g = "vol_geometry v" and ?m = "media (device s0)"
  show ?case
  proof (cases "cluster_lba ?g cluster")
    case None
    then show ?thesis using Suc.prems by (simp add: read_directory_cluster_def scan_simps bindM_def ok_or_def fail_def throwM_def post_def)
  next
    case (Some base)
    obtain now left where now: "cluster_rows ?m v dir base [0..<unat (sectors_per_cluster ?g)] remaining = (now, left)"
      by fastforce
    let ?rest = "\<lambda>left. dir_next ?m v dir cluster left"
    have body: "post (read_directory_cluster D v dir visitor (cluster, remaining, es)) s
      (\<lambda>r s'. watching D media invar sz s0 s' \<and> (\<exists>fin. scan visitor es now (fs.more s) = (fin, fs.more s') \<and>
        (case r of
           Inr _ \<Rightarrow> fin = Marker \<or> (\<exists>es'. fin = More es') \<and> (left = None \<or> (\<exists>n. left = Some n \<and> ?rest n = Inl True))
         | Inl (c, remaining', es') \<Rightarrow> fin = More es' \<and> left = Some remaining' \<and> ?rest remaining' = Inr c)))
      (\<lambda>e s'. watching D media invar sz s0 s' \<and> (is_device_error e \<and> scanned_prefix visitor es now (fs.more s) (fs.more s') \<or>
        e = Error Corrupt \<and> (\<exists>fin. scan visitor es now (fs.more s) = (fin, fs.more s') \<and>
          (fin = Bad \<or> (\<exists>es' n. fin = More es' \<and> left = Some n \<and> ?rest n = Inl False)))))"
      unfolding read_directory_cluster_def prod.case Let_def Some bindM_simps post_bindM [of "for_m _ _ _"]
    proof (rule post_mono [OF post_dir_sectors [OF sz Suc.prems(1) now]], goal_cases)
      case (1 r s1)
      show ?case
      proof (cases r)
        case (Inr u)
        then show ?thesis using 1 by auto
      next
        case (Inl st)
        obtain remaining' es' where st: "st = (remaining', es')" by (cases st)
        have sc: "scan visitor es now (fs.more s) = (More es', fs.more s1)" and l: "left = Some remaining'"
          and w1: "watching D media invar sz s0 s1" using 1 by (auto simp: Inl st)
        have pre: "scanned_prefix visitor es now (fs.more s) (fs.more s1)"
          unfolding scanned_prefix_def by (rule exI [of _ "length now"]) (simp add: sc)
        show ?thesis
          unfolding Inl st sum.case prod.case
          by (rule post_mono [OF post_dir_next [OF wf sz w1]]) (use sc l pre in \<open>auto split: sum.splits\<close>)
      qed
    next
      case (2 e s1)
      then show ?case by auto
    qed
    show ?thesis
      unfolding loop_m.simps post_bindM
    proof (rule post_mono [OF body], goal_cases)
      case (1 r s1)
      then obtain fin where w1: "watching D media invar sz s0 s1" and sc: "scan visitor es now (fs.more s) = (fin, fs.more s1)"
        and r: "case r of
           Inr _ \<Rightarrow> fin = Marker \<or> (\<exists>es'. fin = More es') \<and> (left = None \<or> (\<exists>n. left = Some n \<and> ?rest n = Inl True))
         | Inl (c, remaining', es') \<Rightarrow> fin = More es' \<and> left = Some remaining' \<and> ?rest remaining' = Inr c"
        by blast
      have decl: "\<exists>more. rows = now @ more"
        using Suc.prems(2) Some now by (auto split: option.splits sum.splits prod.splits)
      show ?case
      proof (cases r)
        case (Inr u)
        consider "fin = Marker" | es' where "fin = More es'" "rows = now" "ok"
          using r Suc.prems(2) Some now by (auto simp: Inr split: prod.splits)
        then show ?thesis
        proof cases
          case 1
          then show ?thesis using decl sc w1 Inr by (auto simp: scan_append)
        next
          case 2
          then show ?thesis using sc w1 Inr by simp
        qed
      next
        case (Inl st)
        obtain c remaining' es' where st: "st = (c, remaining', es')" by (cases st)
        have f: "fin = More es'" "left = Some remaining'" "?rest remaining' = Inr c" using r by (simp_all add: Inl st)
        obtain later where later: "dir_rows n ?m v dir c remaining' = (later, ok)" "rows = now @ later"
          using Suc.prems(2) Some now f by (auto split: prod.splits)
        have sc': "scan visitor es rows (fs.more s) = scan visitor es' later (fs.more s1)"
          using sc f by (simp add: later scan_append)
        show ?thesis
          unfolding Inl sum.case st sc'
          by (rule post_mono [OF Suc.IH [OF w1 later(1)]])
            (use scanned_prefix_append [OF sc [unfolded f]] later(2) in auto)
      qed
    next
      case (2 e s1)
      have decl: "\<exists>more. rows = now @ more"
        using Suc.prems(2) Some now by (auto split: option.splits sum.splits prod.splits)
      then obtain more where more: "rows = now @ more" ..
      have over: "rows = now \<and> \<not> ok" if "left = Some n" "?rest n = Inl False" for n
        using Suc.prems(2) Some now that by (simp split: prod.splits)
      show ?case using 2 scanned_prefix_left [of visitor es now "fs.more s" "fs.more s1" more] over
        by (auto simp: more scan_append scan_simps)
    qed
  qed
qed

end

text \<open>The visitor sees the entries of the listing in order.\<close>

lemma decode_rows_take: "\<exists>k'. fst (decode_rows es (take k rows)) = take k' (fst (decode_rows es rows))"
proof (induction rows arbitrary: es k)
  case (Cons row rows)
  show ?case
  proof (cases k)
    case 0
    then show ?thesis by (simp add: exI [of _ 0])
  next
    case (Suc j)
    obtain raw loc where row: "row = (raw, loc)" by fastforce
    obtain r es' where p: "(push es raw loc :: (unit error + DirectoryEntry option) \<times> EntrySet) = (r, es')" by fastforce
    obtain k' where k': "fst (decode_rows es' (take j rows)) = take k' (fst (decode_rows es' rows))" using Cons.IH by blast
    show ?thesis
    proof (cases "raw ! 0 = 0 \<or> (\<exists>e. r = Inl e)")
      case True
      then show ?thesis using Suc by (auto simp: row p)
    next
      case False
      then obtain opt where r: "r = Inr opt" by (cases r) auto
      show ?thesis
      proof (cases opt)
        case None
        then show ?thesis using Suc False k' by (auto simp: row p r split: prod.splits)
      next
        case (Some e)
        then show ?thesis using Suc False k'
          by (intro exI [of _ "Suc k'"]) (auto simp: row p r split: prod.splits)
      qed
    qed
  qed
qed simp

lemma decode_rows_append:
  "decode_rows es (rows @ rows') = (case decode_rows es rows of
     (out, More es') \<Rightarrow> (case decode_rows es' rows' of (out', fin) \<Rightarrow> (out @ out', fin)) | (out, fin) \<Rightarrow> (out, fin))"
proof (induction rows arbitrary: es)
  case (Cons row rows)
  then show ?case by (cases row) (auto split: prod.splits sum.splits option.splits row_end.splits)
qed simp

lemma dir_rows_first:
  assumes "cluster_lba (vol_geometry v) cluster = Some base"
    and "cluster_rows m v dir base [0..<unat (sectors_per_cluster (vol_geometry v))] remaining = (now, left)"
  shows "\<exists>more ok. dir_rows (Suc n) m v dir cluster remaining = (now @ more, ok)"
  using assms by (auto split: option.split sum.split prod.split)

lemma scanned_prefix_feed:
  assumes "scanned_prefix visitor es rows x x'"
  shows "\<exists>k. x' = snd (feed visitor (take k (fst (decode_rows es rows))) x)"
proof -
  obtain k where k: "x' = snd (scan visitor es (take k rows) x)" using assms by (auto simp: scanned_prefix_def)
  obtain k' where "fst (decode_rows es (take k rows)) = take k' (fst (decode_rows es rows))" using decode_rows_take by blast
  then have "x' = snd (feed visitor (take k' (fst (decode_rows es rows))) x)" using k by (simp add: scan_def split: prod.splits)
  then show ?thesis ..
qed

context lawful_device
begin

lemma post_read_directory:
  fixes s :: "('d, 'x) fs_scheme" and visitor :: "'x visitor"
  assumes "io_ok D invar (sector_bytes v) s" "wf_geometry (vol_geometry v)"
    and list: "listing (media (device s)) v dir = (entries, ended)" and feed: "feed visitor entries (fs.more s) = (go, x)"
  shows "post (read_directory D v dir visitor) s
    (\<lambda>_ s'. watching D media invar (sector_bytes v) s s' \<and> fs.more s' = x \<and> (go \<longrightarrow> ended))
    (\<lambda>e s'. watching D media invar (sector_bytes v) s s' \<and>
       (is_device_error e \<and> (\<exists>k. fs.more s' = snd (feed visitor (take k entries) (fs.more s))) \<or>
        e = Error Corrupt \<and> go \<and> \<not> ended \<and> fs.more s' = x))"
proof -
  let ?m = "media (device s)" and ?n = "unat (cluster_count (vol_geometry v))"
  obtain rows ok where rows: "dir_rows ?n ?m v dir (dir_first_cluster dir) (dir_data_length dir) = (rows, ok)" by fastforce
  obtain fin where dec: "decode_rows new_entry_set rows = (entries, fin)"
    and e: "ended = (case fin of Marker \<Rightarrow> True | Bad \<Rightarrow> False | More _ \<Rightarrow> ok)"
    using list rows by (auto simp: listing_def split: prod.splits)
  have sc: "scan visitor new_entry_set rows (fs.more s) = (if go then fin else Marker, x)"
    using dec feed by (simp add: scan_def)
  have len: "\<not> length (scratch s) < sector_bytes v" using assms(1) by (simp add: io_ok_def)
  show ?thesis
    unfolding read_directory_def post_bindM post_require if_not_P [OF len]
    by (rule post_mono [OF post_dir_clusters [OF assms(2) refl watching_refl [OF assms(1)] rows]])
      (use sc e in \<open>auto dest!: scanned_prefix_feed simp: dec split: if_splits row_end.splits\<close>)
qed

lemma post_first_directory_entry:
  fixes s :: "('d, 'x) fs_scheme"
  assumes ok: "io_ok D invar (sector_bytes v) s" and wf: "wf_geometry (vol_geometry v)"
    and list: "listing (media (device s)) v dir = (entries, ended)"
  shows "post (first_directory_entry D v dir) s
    (\<lambda>first s'. watching D media invar (sector_bytes v) s s' \<and> fs.more s' = fs.more s \<and>
       first = (case entries of [] \<Rightarrow> None | e # _ \<Rightarrow> Some e) \<and> (entries = [] \<longrightarrow> ended))
    (\<lambda>e s'. watching D media invar (sector_bytes v) s s' \<and> fs.more s' = fs.more s \<and>
       (is_device_error e \<or> e = Error Corrupt \<and> entries = [] \<and> \<not> ended))"
proof -
  let ?vis = "\<lambda>e _ :: DirectoryEntry option. (False, Some e)" and ?t = "fs.extend (fs.truncate s) (None :: DirectoryEntry option)"
  have feed: "feed ?vis entries None = (entries = [], case entries of [] \<Rightarrow> None | e # _ \<Rightarrow> Some e)"
    by (simp split: list.split)
  have ok': "io_ok D invar (sector_bytes v) ?t" and dev: "device ?t = device s" "fs.more ?t = None" using ok by (simp_all add: with_env_state)
  have restored: "watching D media invar (sector_bytes v) s (fs.extend (fs.truncate u) (fs.more s))" if "watching D media invar (sector_bytes v) ?t u"
    for u :: "('d, DirectoryEntry option) fs_scheme"
    using that ok by (simp add: watching_def frame_def same_free_def with_env_state)
  obtain r u where run: "read_directory D v dir ?vis ?t = (r, u)" by fastforce
  have "post (read_directory D v dir ?vis) ?t
    (\<lambda>_ s'. watching D media invar (sector_bytes v) ?t s' \<and> fs.more s' = (case entries of [] \<Rightarrow> None | e # _ \<Rightarrow> Some e) \<and> (entries = [] \<longrightarrow> ended))
    (\<lambda>e s'. watching D media invar (sector_bytes v) ?t s' \<and> (is_device_error e \<or> e = Error Corrupt \<and> entries = [] \<and> \<not> ended))"
    by (rule post_mono [OF post_read_directory [OF ok' wf, unfolded dev, OF list feed]]) auto
  then show ?thesis
    using run by (auto simp: first_directory_entry_def post_def bindM_def with_env_def returnM_def with_env_state restored split: sum.splits)
qed

end

section \<open>Properties\<close>

text \<open>Cluster 21 of the test card is a directory that holds the entry set of the file \<open>A\<close>.\<close>

definition test_dir_entry :: DirectoryEntry where
  "test_dir_entry = set_entry\<lparr>is_directory := True, de_first_cluster := 21, de_data_length := 512, de_no_fat_chain := True\<rparr>"

definition test_dir :: Directory where
  "test_dir = \<lparr>dir_first_cluster = 21, dir_data_length = 512, dir_no_fat_chain = True,
     dir_primary = Some (de_primary set_entry), dir_stream = Some (de_stream set_entry),
     dir_entry_locs = de_entry_locs set_entry, dir_entry_count = de_entry_count set_entry\<rparr>"

lemma test_dir_of_entry: "entry_directory test_dir_entry = Some test_dir"
  by (simp add: entry_directory_def test_dir_entry_def test_dir_def)

lemma test_dir_listing:
  "map name_utf16 (fst (listing (mem_media (device set_card)) test_volume (test_dir\<lparr>dir_no_fat_chain := b\<rparr>))) = [[0x41]] \<and>
   snd (listing (mem_media (device set_card)) test_volume (test_dir\<lparr>dir_no_fat_chain := b\<rparr>))"
proof -
  let ?bytes = "concat (map fst test_rows) @ replicate 384 0" and ?dir = "test_dir\<lparr>dir_no_fat_chain := b\<rparr>"
  let ?m = "mem_media (device set_card)"
  have sector: "?m 60 = ?bytes"
    by (simp add: mem_media_def set_card_def test_card_def)
  have lba: "cluster_lba (vol_geometry test_volume) 21 = Some 60"
    by (simp add: cluster_lba_def in_heap_def saturating_add_def test_geometry_def)
  have usable: "usable_bytes ?dir 512 512 = 512" "after_sector ?dir 512 512 = 0" "dir_data_length ?dir = 512"
    by (simp_all add: usable_bytes_def after_sector_def test_dir_def saturating_sub_def of_usize_def)
  have same: "sector_rows ?m 60 512 = sector_rows (\<lambda>_. ?bytes) 60 512"
    by (simp only: sector_rows_def sector)
  have "unat (sectors_per_cluster test_geometry) = 1" by (simp add: test_geometry_def)
  then have "cluster_rows ?m test_volume ?dir 60 [0..<unat (sectors_per_cluster (vol_geometry test_volume))] 512 =
      (sector_rows (\<lambda>_. ?bytes) 60 512, Some 0)"
    using usable same by (simp add: of_usize_def)
  then obtain more ok where rows: "dir_rows (Suc 999) ?m test_volume ?dir 21 512 = (sector_rows (\<lambda>_. ?bytes) 60 512 @ more, ok)"
    using dir_rows_first [OF lba] by blast
  have "case decode_rows new_entry_set (sector_rows (\<lambda>_. ?bytes) 60 512) of (es, fin) \<Rightarrow> map name_utf16 es = [[0x41]] \<and> fin = Marker"
    by code_simp
  moreover have count: "unat (cluster_count (vol_geometry test_volume)) = Suc 999" and len: "dir_data_length ?dir = 512"
    and first: "dir_first_cluster ?dir = 21"
    by (simp_all add: test_geometry_def test_dir_def)
  ultimately show ?thesis
    unfolding listing_def count len first rows by (auto simp: decode_rows_append split: prod.splits)
qed

lemma test_dir_contiguous: "test_dir\<lparr>dir_no_fat_chain := True\<rparr> = test_dir"
  by (simp add: test_dir_def)

lemmas test_dir_contents = test_dir_listing [where b = True, unfolded test_dir_contiguous]

definition listing_state :: "'x \<Rightarrow> (u8 list list, 'x) fs_scheme" where
  "listing_state x = fs.extend (fs.truncate set_card) x"

lemma listing_state_ok:
  "io_ok mem_ops mem_ok (sector_bytes test_volume) (listing_state x)" "device (listing_state x) = device set_card"
  "fs.more (listing_state x) = x"
  using set_card_ok by (simp_all add: listing_state_def with_env_state)

text \<open>
  C11: Reading a directory shows it. On any medium and any device that keeps its contract,
  \<open>read_directory\<close> writes nothing and calls the visitor with exactly the entries of the directory's
  listing, in their order, until the visitor declines. It succeeds when the visitor declined or the
  directory comes to a proper end; it fails with \<open>Corrupt\<close>, after all entries were shown, when the
  chain or an entry set is broken; a device error comes after a prefix of the listing.
\<close>
theorem read_directory_correct:
  fixes D :: "('d, 'e) device_ops" and s :: "('d, 'x) fs_scheme" and visitor :: "'x visitor"
  assumes "lawful_device D media invar" "io_ok D invar (sector_bytes v) s" "wf_geometry (vol_geometry v)"
  shows "case read_directory D v dir visitor s of (r, s') \<Rightarrow>
      case listing (media (device s)) v dir of (entries, ended) \<Rightarrow> case feed visitor entries (fs.more s) of (all_shown, x) \<Rightarrow>
      media (device s') = media (device s) \<and>
      (case r of
        Inr _ \<Rightarrow> fs.more s' = x \<and> (all_shown \<longrightarrow> ended)
      | Inl e \<Rightarrow> is_device_error e \<and> (\<exists>k. fs.more s' = snd (feed visitor (take k entries) (fs.more s))) \<or>
          e = Error Corrupt \<and> all_shown \<and> \<not> ended \<and> fs.more s' = x)"
  using lawful_device.post_read_directory [OF assms, of dir _ _ visitor]
  by (fastforce simp: post_def dest: watchingD(2) split: prod.splits sum.splits)

theorem read_directory_correct_witness:
  "case read_directory mem_ops test_volume test_dir (\<lambda>e names. (True, names @ [name_utf16 e])) (listing_state []) of (r, s') \<Rightarrow>
     (\<forall>u. r = Inr u \<longrightarrow> fs.more s' = [[0x41]]) \<and> r \<noteq> Inl (Error Corrupt)"
proof -
  have feed: "feed (\<lambda>e names. (True, names @ [name_utf16 e])) es xs = (True, xs @ map name_utf16 es)" for es and xs :: "u16 list list"
    by (induction es arbitrary: xs) simp_all
  show ?thesis
    using read_directory_correct [OF mem.lawful_device_axioms listing_state_ok(1) [of "[]"],
        where dir = test_dir and visitor = "\<lambda>e names. (True, names @ [name_utf16 e])"]
      wf_test_geometry test_dir_contents
    by (auto simp: listing_state_ok feed is_device_error_def split: prod.splits sum.splits)
qed

text \<open>
  C25: A directory that holds an entry cannot be removed. On any medium and any device that keeps its
  contract, removing a directory whose listing is not empty fails with \<open>DirectoryNotEmpty\<close>, or because
  the device did, and writes nothing; so does removing one whose listing is empty but broken, with
  \<open>Corrupt\<close>. Only an empty directory that comes to a proper end is retired.
\<close>
theorem remove_refuses_nonempty:
  fixes D :: "('d, 'e) device_ops" and s :: "('d, 'x) fs_scheme"
  assumes "lawful_device D media invar" "io_ok D invar (sector_bytes v) s" "wf_geometry (vol_geometry v)"
    and "entry_directory e = Some dir" "listing (media (device s)) v dir \<noteq> ([], True)"
  shows "case remove_entry_tree D v e s of (r, s') \<Rightarrow>
      media (device s') = media (device s) \<and> free_clusters s' = free_clusters s \<and>
      (\<exists>err. r = Inl err \<and> (is_device_error err \<or>
         err = Error (if fst (listing (media (device s)) v dir) = [] then Corrupt else DirectoryNotEmpty)))"
proof -
  obtain entries ended where list: "listing (media (device s)) v dir = (entries, ended)" by fastforce
  have "post (remove_entry_tree D v e) s (\<lambda>_ _. False)
    (\<lambda>err s'. watching D media invar (sector_bytes v) s s' \<and> (is_device_error err \<or>
       err = Error (if entries = [] then Corrupt else DirectoryNotEmpty)))"
    unfolding remove_entry_tree_def assms(4) option.case post_bindM
    by (rule post_mono [OF lawful_device.post_first_directory_entry [OF assms(1-3) list]])
      (use assms(5) list in \<open>auto split: list.splits\<close>)
  then show ?thesis
    using list by (auto simp: post_def dest: watchingD(2,3) split: prod.splits sum.splits)
qed

theorem remove_refuses_nonempty_witness:
  "case remove_entry_tree mem_ops test_volume test_dir_entry (listing_state ()) of (r, s') \<Rightarrow>
     mem_media (device s') = mem_media (device set_card) \<and> (\<exists>err. r = Inl err)"
proof -
  have "listing (mem_media (device set_card)) test_volume test_dir \<noteq> ([], True)" using test_dir_contents by auto
  then show ?thesis
    using remove_refuses_nonempty [OF mem.lawful_device_axioms listing_state_ok(1) _ test_dir_of_entry, of "()"] wf_test_geometry
    by (auto simp: listing_state_ok split: prod.splits)
qed

end
