(* ===== verification/Directory_Lookup.thy ===== *)
theory Directory_Lookup
  imports Directory_Content
begin

text \<open>
  Looking a name up in a directory, against the directory's contents. \<open>find_child\<close> decodes the rows
  with the decoder the workspace carries and compares names after case folding; on a chained directory
  it finds the first entry of the listing with a matching name, and reports none only when there is
  none. Path resolution iterates it.
\<close>

section \<open>Finding an entry in rows\<close>

definition same_name :: "medium \<Rightarrow> Volume \<Rightarrow> u16 list \<Rightarrow> DirectoryEntry \<Rightarrow> bool" where
  "same_name m v wanted e \<longleftrightarrow> map (fold_unit m v) (name_utf16 e) = map (fold_unit m v) wanted"

text \<open>The search as a visitor that stops at the first match.\<close>

definition pick :: "medium \<Rightarrow> Volume \<Rightarrow> u16 list \<Rightarrow> DirectoryEntry option visitor" where
  "pick m v wanted e found = (if same_name m v wanted e then (False, Some e) else (True, found))"

definition search :: "medium \<Rightarrow> Volume \<Rightarrow> u16 list \<Rightarrow> EntrySet \<Rightarrow> row list \<Rightarrow> row_end \<times> DirectoryEntry option" where
  "search m v wanted es rows = scan (pick m v wanted) es rows None"

lemma feed_pick:
  "feed (pick m v wanted) out None = (case find (same_name m v wanted) out of None \<Rightarrow> (True, None) | Some e \<Rightarrow> (False, Some e))"
  by (induction out) (simp_all add: pick_def)

lemma search_find:
  "search m v wanted es rows = (case decode_rows es rows of (out, fin) \<Rightarrow>
     (case find (same_name m v wanted) out of None \<Rightarrow> (fin, None) | Some e \<Rightarrow> (Marker, Some e)))"
  by (simp add: search_def scan_def feed_pick split: prod.split option.split)

lemma search_More: "search m v wanted es rows = (More es', x) \<Longrightarrow> x = None"
  by (auto simp: search_find split: prod.splits option.splits)

lemma search_append:
  "search m v wanted es (rows @ rows') = (case search m v wanted es rows of
     (More es', x) \<Rightarrow> search m v wanted es' rows' | (Marker, x) \<Rightarrow> (Marker, x) | (Bad, x) \<Rightarrow> (Bad, x))"
proof -
  have "x = None" if "scan (pick m v wanted) es rows None = (More es', x)" for es' x
    using search_More that by (simp add: search_def)
  then show ?thesis by (auto simp: search_def scan_append split: prod.split row_end.split)
qed

text \<open>A row decoded to an entry, or the wanted name, holds a unit the table says nothing about.\<close>

definition unfoldable :: "medium \<Rightarrow> Volume \<Rightarrow> u16 list \<Rightarrow> EntrySet \<Rightarrow> row list \<Rightarrow> bool" where
  "unfoldable m v wanted es rows \<longleftrightarrow>
     (\<exists>e \<in> set (fst (decode_rows es rows)). \<exists>u \<in> set (name_utf16 e) \<union> set wanted. fold_unit m v u = None)"

definition trouble :: "medium \<Rightarrow> Volume \<Rightarrow> u16 list \<Rightarrow> EntrySet \<Rightarrow> row list \<Rightarrow> bool" where
  "trouble m v wanted es rows \<longleftrightarrow> fst (search m v wanted es rows) = Bad \<or> unfoldable m v wanted es rows"

lemma trouble_left: "trouble m v wanted es rows \<Longrightarrow> trouble m v wanted es (rows @ rows')"
  by (auto simp: trouble_def unfoldable_def search_append decode_rows_append split: prod.splits row_end.splits)

lemma trouble_right:
  assumes "search m v wanted es rows = (More es', x)" "trouble m v wanted es' rows'"
  shows "trouble m v wanted es (rows @ rows')"
proof -
  obtain out where "decode_rows es rows = (out, More es')"
    using assms(1) by (auto simp: search_find split: prod.splits option.splits)
  then show ?thesis using assms by (auto simp: trouble_def unfoldable_def search_append decode_rows_append split: prod.splits)
qed

section \<open>One sector\<close>

lemma slice_take: "b \<le> n \<Longrightarrow> slice a b (take n xs) = slice a b xs"
  by (simp add: slice_def drop_take min_def)

definition slot_entry :: "medium \<Rightarrow> u64 \<Rightarrow> nat \<Rightarrow> row" where
  "slot_entry m lba slot = (slice (slot * 32) (slot * 32 + 32) (m lba), \<lparr>el_lba = lba, el_offset = word_of_nat (slot * 32)\<rparr>)"

lemma sector_rows_slots:
  assumes "usable \<le> length (m lba)"
  shows "sector_rows m lba usable = map (slot_entry m lba) [0..<usable div 32]"
proof (rule nth_equalityI)
  have len: "min (length (m lba)) usable = usable" using assms by simp
  show l: "length (sector_rows m lba usable) = length (map (slot_entry m lba) [0..<usable div 32])"
    by (simp add: sector_rows_def length_chunks_exact len)
  fix i assume "i < length (sector_rows m lba usable)"
  then have i: "i < usable div 32" unfolding l by simp
  then have "i * 32 + 32 \<le> usable" by linarith
  then show "sector_rows m lba usable ! i = map (slot_entry m lba) [0..<usable div 32] ! i"
    using i by (simp add: sector_rows_def slot_entry_def nth_enumerate_eq length_chunks_exact len nth_chunks_exact slice_take)
qed

lemma usable_bytes_le: "usable_bytes dir sz remaining \<le> sz"
  by (simp add: usable_bytes_def)

text \<open>The slot loop at a loaded sector: decoder \<open>es\<close>, the wanted units still in the workspace.\<close>

definition at_sector ::
    "('d, 'e) device_ops \<Rightarrow> ('d \<Rightarrow> medium) \<Rightarrow> ('d \<Rightarrow> bool) \<Rightarrow> nat \<Rightarrow> ('d, Workspace) fs_scheme \<Rightarrow> EntrySet \<Rightarrow> ('d, Workspace) fs_scheme \<Rightarrow> bool" where
  "at_sector D media invar sz s0 es s \<longleftrightarrow> watching D media invar sz s0 s \<and> entry_set (fs.more s) = es \<and>
     utf16 (fs.more s) = utf16 (fs.more s0)"

lemma post_ws_push [simp]:
  "post (ws_push raw loc) s Q E =
     (case push (entry_set (fs.more s)) raw loc :: (unit error + DirectoryEntry option) \<times> EntrySet of
        (Inl _, es') \<Rightarrow> E (Error Corrupt) (fs.more_update (entry_set_update (\<lambda>_. es')) s)
      | (Inr r, es') \<Rightarrow> Q r (fs.more_update (entry_set_update (\<lambda>_. es')) s))"
  unfolding ws_push_def post_bindM post_getsM
  by (subst push_any) (simp split: prod.split sum.split)

lemma post_ws_wanted [simp]:
  "post (ws_wanted n) s Q E = (if n \<le> length (utf16 (fs.more s)) then Q (take n (utf16 (fs.more s))) s else E Panic s)"
  by (simp add: ws_wanted_def)

context lawful_device
begin

lemma post_find_slot:
  fixes s0 s :: "('d, Workspace) fs_scheme"
  assumes wf: "wf_geometry (vol_geometry v)" and sz: "sector_bytes v = sz" and len: "ut_byte_length (vol_upcase v) \<le> 0x20000"
    and n: "n \<le> length (utf16 (fs.more s0))" and s: "at_sector D media invar sz s0 es s" "take sz (scratch s) = media (device s0) lba"
    and slot: "slot * 32 + 32 \<le> sz"
  defines "wanted \<equiv> take n (utf16 (fs.more s0))" and "m \<equiv> media (device s0)"
  shows "post (find_slot D v n lba slot) s
    (\<lambda>r s'. case r of
        Inr x \<Rightarrow> watching D media invar sz s0 s' \<and> search m v wanted es [slot_entry m lba slot] = (Marker, x)
      | Inl _ \<Rightarrow> \<exists>es'. search m v wanted es [slot_entry m lba slot] = (More es', None) \<and>
          at_sector D media invar sz s0 es' s' \<and> take sz (scratch s') = m lba)
    (\<lambda>e s'. watching D media invar sz s0 s' \<and> (is_device_error e \<or> fold_error e \<and> trouble m v wanted es [slot_entry m lba slot]))"
    (is "post _ _ ?Q ?E")
proof -
  have w: "watching D media invar sz s0 s" and es: "entry_set (fs.more s) = es" and u: "utf16 (fs.more s) = utf16 (fs.more s0)"
    using s(1) by (simp_all add: at_sector_def)
  have sc: "sz \<le> length (scratch s)" using watchingD(1) [OF w] by (simp add: io_ok_def)
  define raw where "raw = slice (slot * 32) (slot * 32 + 32) (m lba)"
  define loc where "loc = \<lparr>el_lba = lba, el_offset = word_of_nat (slot * 32)\<rparr>"
  have raw0: "take sz (scratch s) ! (slot * 32) = raw ! 0" and rawl: "slice (slot * 32) (slot * 32 + 32) (take sz (scratch s)) = raw"
  proof -
    show "slice (slot * 32) (slot * 32 + 32) (take sz (scratch s)) = raw" using s(2) by (simp add: raw_def m_def)
    have "length (m lba) = sz" using sc s(2) by (metis length_take min.absorb2 m_def)
    then show "take sz (scratch s) ! (slot * 32) = raw ! 0" using s(2) slot by (simp add: raw_def m_def slice_def)
  qed
  have row: "slot_entry m lba slot = (raw, loc)" by (simp add: slot_entry_def raw_def loc_def)
  obtain r es' where p: "(push es raw loc :: (unit error + DirectoryEntry option) \<times> EntrySet) = (r, es')" by fastforce
  let ?s1 = "fs.more_update (entry_set_update (\<lambda>_. es')) s"
  have w1: "watching D media invar sz s0 ?s1" by (rule watching_more [OF w])
  have at1: "at_sector D media invar sz s0 es' ?s1" "take sz (scratch ?s1) = m lba" "n \<le> length (utf16 (fs.more ?s1))" "take n (utf16 (fs.more ?s1)) = wanted"
    using w1 u s(2) n by (simp_all add: at_sector_def m_def wanted_def)
  have m1: "media (device s) = m" using watchingD(2) [OF w] by (simp add: m_def)
  have found: "post (bindM (names_match D v (name_utf16 e) wanted) (\<lambda>same.
      if same then returnM (Inr (Some e)) else bindM (read_sector D lba sz) (\<lambda>_. returnM (Inl ())))) ?s1 ?Q ?E"
    if r: "r = Inr (Some e)" "raw ! 0 \<noteq> 0" for e
  proof -
    have sr: "search m v wanted es [(raw, loc)] = (if same_name m v wanted e then (Marker, Some e) else (More es', None))"
      using r p by (simp add: search_find)
    have tr: "trouble m v wanted es [(raw, loc)]" if "\<exists>u \<in> set (name_utf16 e) \<union> set wanted. fold_unit m v u = None"
      using r p that by (simp add: trouble_def unfoldable_def)
    note start = reading_refl [OF watchingD(1) [OF w1]]
    have after: "watching D media invar sz s0 s2" "at_sector D media invar sz s0 es' s2" if "reading sz ?s1 s2" for s2
    proof -
      have more: "fs.more s2 = fs.more ?s1" by (rule conjunct1 [OF fs_more_io [OF readingD(3) [OF that]]])
      show w2: "watching D media invar sz s0 s2" by (rule watching_trans [OF w1 watching_reading [OF that]])
      show "at_sector D media invar sz s0 es' s2" using w2 at1(1) unfolding at_sector_def more by simp
    qed
    have load: "post (bindM (read_sector D lba sz) (\<lambda>_. returnM (Inl ()))) s2 ?Q ?E"
      if "reading sz ?s1 s2" "\<not> same_name m v wanted e" for s2
      unfolding post_bindM
      by (rule post_mono [OF post_read_reading [OF that(1)]]) (use that(2) after m1 in \<open>auto simp: row sr\<close>)
    show ?thesis
      unfolding post_bindM [of "names_match D v (name_utf16 e) wanted"]
    proof (rule post_mono [OF post_names_match [OF start wf sz len]], goal_cases)
      case (1 b s2)
      then have "b = same_name m v wanted e" by (simp add: same_name_def m1)
      then show ?case using 1 load [of s2] after(1) [of s2] by (auto simp: row sr simp del: post_bindM)
    next
      case (2 err s2)
      then show ?case using after(1) [of s2] tr by (auto simp: row m1)
    qed
  qed
  show ?thesis
  proof (cases "raw ! 0 = 0")
    case True
    then show ?thesis
      unfolding find_slot_def Let_def sz using w sc slot raw0 by (simp add: row search_find)
  next
    case False
    have rest: "post (case x of None \<Rightarrow> returnM (Inl ()) | Some e \<Rightarrow> bindM (ws_wanted n) (\<lambda>wanted.
        bindM (names_match D v (name_utf16 e) wanted) (\<lambda>same.
        if same then returnM (Inr (Some e)) else bindM (read_sector D lba sz) (\<lambda>_. returnM (Inl ()))))) ?s1 ?Q ?E"
      if "r = Inr x" for x
    proof (cases x)
      case None
      then show ?thesis using that at1 False p by (simp add: row search_find)
    next
      case (Some e)
      then show ?thesis using that found [of e] False at1(3,4) by (simp add: post_bindM [of "ws_wanted n"] del: post_bindM)
    qed
    have bad: "?E (Error Corrupt) ?s1" if "r = Inl e" for e
      using that w1 False p by (simp add: row trouble_def search_find fold_error_def)
    show ?thesis
      unfolding find_slot_def Let_def sz
      using sc slot raw0 rawl False p es rest bad
      by (cases r) (simp_all add: loc_def [symmetric] post_bindM [of "sector_byte _ _"] post_bindM [of "sector_slice _ _ _"] post_bindM [of "ws_push _ _"]
          del: post_bindM of_nat_mult)
  qed
qed

end

text \<open>What a search over \<open>rows\<close> that started with decoder \<open>es\<close> may have come to.\<close>

definition search_done where
  "search_done D media invar sz s0 v wanted es rows left r s' \<longleftrightarrow>
     (case r of
        Inr x \<Rightarrow> watching D media invar sz s0 s' \<and>
          (search (media (device s0)) v wanted es rows = (Marker, x) \<or>
           x = None \<and> left = None \<and> (\<exists>es'. search (media (device s0)) v wanted es rows = (More es', None)))
      | Inl remaining \<Rightarrow> left = Some remaining \<and>
          (\<exists>es'. search (media (device s0)) v wanted es rows = (More es', None) \<and> at_sector D media invar sz s0 es' s'))"

definition search_failed where
  "search_failed D media invar sz s0 v wanted es rows e s' \<longleftrightarrow>
     watching D media invar sz s0 s' \<and> (is_device_error e \<or> fold_error e \<and> trouble (media (device s0)) v wanted es rows)"

lemma search_done_append:
  assumes "search (media (device s0)) v wanted es rows = (More es', x)"
    and "search_done D media invar sz s0 v wanted es' rows' left r s'"
  shows "search_done D media invar sz s0 v wanted es (rows @ rows') left r s'"
  using assms by (simp add: search_done_def search_append split: sum.splits)

lemma search_failed_append:
  assumes "search (media (device s0)) v wanted es rows = (More es', x)"
    and "search_failed D media invar sz s0 v wanted es' rows' e s'"
  shows "search_failed D media invar sz s0 v wanted es (rows @ rows') e s'"
  using assms by (auto simp: search_failed_def dest: trouble_right)

lemma search_failed_left:
  "search_failed D media invar sz s0 v wanted es rows e s' \<Longrightarrow> search_failed D media invar sz s0 v wanted es (rows @ rows') e s'"
  by (auto simp: search_failed_def dest: trouble_left)

lemma search_Nil: "search m v wanted es [] = (More es, None)"
  by (simp add: search_find)

context lawful_device
begin

lemma post_find_slots:
  fixes s0 s :: "('d, Workspace) fs_scheme"
  assumes wf: "wf_geometry (vol_geometry v)" and sz: "sector_bytes v = sz" and len: "ut_byte_length (vol_upcase v) \<le> 0x20000"
    and n: "n \<le> length (utf16 (fs.more s0))" and slots: "\<forall>slot \<in> set is. slot * 32 + 32 \<le> sz"
    and s: "at_sector D media invar sz s0 es s" "take sz (scratch s) = media (device s0) lba"
  shows "post (for_m is (\<lambda>slot _. find_slot D v n lba slot) ()) s
    (\<lambda>r s'. search_done D media invar sz s0 v (take n (utf16 (fs.more s0))) es (map (slot_entry (media (device s0)) lba) is) (Some ()) r s')
    (search_failed D media invar sz s0 v (take n (utf16 (fs.more s0))) es (map (slot_entry (media (device s0)) lba) is))"
  using slots s
proof (induction "is" arbitrary: es s)
  case Nil
  then show ?case by (simp add: search_done_def search_Nil)
next
  case (Cons slot "is")
  let ?m = "media (device s0)" and ?w = "take n (utf16 (fs.more s0))"
  let ?row = "slot_entry ?m lba slot" and ?rows = "map (slot_entry ?m lba) is"
  have fit: "slot * 32 + 32 \<le> sz" and rest: "\<forall>slot \<in> set is. slot * 32 + 32 \<le> sz" using Cons.prems(1) by simp_all
  have split: "map (slot_entry ?m lba) (slot # is) = [?row] @ ?rows" by simp
  show ?case
    unfolding for_m.simps post_bindM split
  proof (rule post_mono [OF post_find_slot [OF wf sz len n Cons.prems(2,3) fit]], goal_cases)
    case (1 r s1)
    show ?case
    proof (cases r)
      case (Inr x)
      then have "search ?m v ?w es ([?row] @ ?rows) = (Marker, x)" "watching D media invar sz s0 s1"
        using 1 by (subst search_append, simp_all)
      then show ?thesis using Inr by (simp add: search_done_def)
    next
      case (Inl u)
      then obtain es' where es': "search ?m v ?w es [?row] = (More es', None)" and at1: "at_sector D media invar sz s0 es' s1" "take sz (scratch s1) = ?m lba"
        using 1 by auto
      have r: "r = Inl ()" using Inl by simp
      show ?thesis
        unfolding r sum.case
        by (rule post_mono [OF Cons.IH [OF rest at1]]) (erule search_done_append [where media = media and ?s0.0 = s0, OF es'] search_failed_append [where media = media and ?s0.0 = s0, OF es'])+
    qed
  next
    case (2 e s1)
    then show ?case by (intro search_failed_left) (simp add: search_failed_def)
  qed
qed

lemma post_find_sector:
  fixes s0 s :: "('d, Workspace) fs_scheme" and lba :: u64
  assumes wf: "wf_geometry (vol_geometry v)" and sz: "sector_bytes v = sz" and len: "ut_byte_length (vol_upcase v) \<le> 0x20000"
    and n: "n \<le> length (utf16 (fs.more s0))" and s: "at_sector D media invar sz s0 es s"
    and more: "\<not> (dir_data_length dir \<noteq> 0 \<and> remaining = 0)"
  defines "rows \<equiv> sector_rows (media (device s0)) lba (usable_bytes dir sz remaining)"
  shows "post (find_sector D v dir n lba remaining) s
    (search_done D media invar sz s0 v (take n (utf16 (fs.more s0))) es rows (Some (after_sector dir (usable_bytes dir sz remaining) remaining)))
    (search_failed D media invar sz s0 v (take n (utf16 (fs.more s0))) es rows)"
proof -
  let ?m = "media (device s0)" and ?w = "take n (utf16 (fs.more s0))" and ?u = "usable_bytes dir sz remaining"
  have w: "watching D media invar sz s0 s" using s by (simp add: at_sector_def)
  have io: "io_ok D invar sz s0" using w by (simp add: watching_def)
  then have ml: "length (?m lba) = sz" using media_length by (simp add: io_ok_def)
  have rows: "rows = map (slot_entry ?m lba) [0..<?u div 32]"
    unfolding rows_def by (rule sector_rows_slots) (simp add: ml usable_bytes_le)
  have slots: "\<forall>slot \<in> set [0..<?u div 32]. slot * 32 + 32 \<le> sz" using usable_bytes_le [of dir sz remaining] by auto
  show ?thesis
    unfolding find_sector_def Let_def sz if_not_P [OF more] post_bindM
  proof (rule post_mono [OF post_read_reading [OF reading_refl [OF watchingD(1) [OF w]]]], goal_cases)
    case (1 u s1)
    have at1: "at_sector D media invar sz s0 es s1" "take sz (scratch s1) = ?m lba"
    proof -
      have same: "fs.more s1 = fs.more s" by (rule conjunct1 [OF fs_more_io [OF readingD(3) [OF conjunct1 [OF 1]]]])
      show "at_sector D media invar sz s0 es s1"
        using s watching_trans [OF w watching_reading [OF conjunct1 [OF 1]]] unfolding at_sector_def same by simp
      show "take sz (scratch s1) = ?m lba" using 1 watchingD(2) [OF w] by simp
    qed
    show ?case
      unfolding rows
      by (rule post_mono [OF post_find_slots [OF wf sz len n slots at1]]) (auto simp: search_done_def split: sum.splits)
  next
    case (2 e s1)
    then show ?case using watching_trans [OF w watching_reading [OF conjunct1 [OF 2]]] by (simp add: search_failed_def)
  qed
qed

lemma post_find_sectors:
  fixes s0 s :: "('d, Workspace) fs_scheme"
  assumes wf: "wf_geometry (vol_geometry v)" and sz: "sector_bytes v = sz" and len: "ut_byte_length (vol_upcase v) \<le> 0x20000"
    and n: "n \<le> length (utf16 (fs.more s0))" and s: "at_sector D media invar sz s0 es s"
    and rows: "cluster_rows (media (device s0)) v dir base is remaining = (rows, left)"
  shows "post (for_m is (\<lambda>i. find_sector D v dir n (base + of_usize i)) remaining) s
    (search_done D media invar sz s0 v (take n (utf16 (fs.more s0))) es rows left)
    (search_failed D media invar sz s0 v (take n (utf16 (fs.more s0))) es rows)"
  using s rows
proof (induction "is" arbitrary: remaining es s rows)
  case Nil
  then show ?case by (simp add: search_done_def search_Nil)
next
  case (Cons i "is")
  let ?m = "media (device s0)" and ?w = "take n (utf16 (fs.more s0))"
  have w: "watching D media invar sz s0 s" using Cons.prems(1) by (simp add: at_sector_def)
  show ?case
  proof (cases "dir_data_length dir \<noteq> 0 \<and> remaining = 0")
    case True
    then show ?thesis using Cons.prems w by (simp add: find_sector_def search_done_def search_Nil)
  next
    case False
    let ?u = "usable_bytes dir sz remaining" and ?lba = "base + of_usize i"
    obtain later where later: "cluster_rows ?m v dir base is (after_sector dir ?u remaining) = (later, left)"
      and split: "rows = sector_rows ?m ?lba ?u @ later"
      using Cons.prems(2) False by (auto simp: Let_def sz split: prod.splits)
    show ?thesis
      unfolding for_m.simps post_bindM
    proof (rule post_mono [OF post_find_sector [OF wf sz len n Cons.prems(1) False, of ?lba]], goal_cases)
      case (1 r s1)
      show ?case
      proof (cases r)
        case (Inr x)
        then show ?thesis using 1 by (simp add: search_done_def split search_append)
      next
        case (Inl left')
        then obtain es' where es': "search ?m v ?w es (sector_rows ?m ?lba ?u) = (More es', None)" and at1: "at_sector D media invar sz s0 es' s1"
          and left': "left' = after_sector dir ?u remaining"
          using 1 by (auto simp: search_done_def)
        show ?thesis
          unfolding Inl sum.case split left'
          by (rule post_mono [OF Cons.IH [OF at1 later]]) (erule search_done_append [where media = media and ?s0.0 = s0, OF es'] search_failed_append [where media = media and ?s0.0 = s0, OF es'])+
      qed
    next
      case (2 e s1)
      then show ?case unfolding split by (rule search_failed_left)
    qed
  qed
qed

section \<open>A whole directory\<close>

lemma post_find_clusters:
  fixes s0 s :: "('d, Workspace) fs_scheme"
  assumes wf: "wf_geometry (vol_geometry v)" and sz: "sector_bytes v = sz" and len: "ut_byte_length (vol_upcase v) \<le> 0x20000"
    and n: "n \<le> length (utf16 (fs.more s0))" and chained: "\<not> dir_no_fat_chain dir" and s: "at_sector D media invar sz s0 es s"
    and rows: "dir_rows k (media (device s0)) v dir cluster remaining = (rows, ok)"
  shows "post (loop_m k (Error Corrupt) (find_cluster D v dir n) (cluster, remaining)) s
    (\<lambda>x s'. watching D media invar sz s0 s' \<and>
       (search (media (device s0)) v (take n (utf16 (fs.more s0))) es rows = (Marker, x) \<or>
        x = None \<and> ok \<and> (\<exists>es'. search (media (device s0)) v (take n (utf16 (fs.more s0))) es rows = (More es', None))))
    (\<lambda>e s'. watching D media invar sz s0 s' \<and> (is_device_error e \<or> fold_error e \<and>
       (trouble (media (device s0)) v (take n (utf16 (fs.more s0))) es rows \<or>
        \<not> ok \<and> (\<exists>es'. search (media (device s0)) v (take n (utf16 (fs.more s0))) es rows = (More es', None)))))"
    (is "post _ s (\<lambda>x s'. ?Q rows ok es x s') (\<lambda>e s'. ?E rows ok es e s')")
  using s rows
proof (induction k arbitrary: cluster remaining es s rows)
  case 0
  then show ?case by (simp add: search_Nil at_sector_def fold_error_def)
next
  case (Suc k)
  let ?g = "vol_geometry v" and ?m = "media (device s0)" and ?w = "take n (utf16 (fs.more s0))"
  have w: "watching D media invar sz s0 s" using Suc.prems(1) by (simp add: at_sector_def)
  show ?case
  proof (cases "cluster_lba ?g cluster")
    case None
    then show ?thesis using Suc.prems w
      by (simp add: find_cluster_def search_Nil bindM_def ok_or_def fail_def throwM_def post_def fold_error_def)
  next
    case (Some base)
    obtain now left where now: "cluster_rows ?m v dir base [0..<unat (sectors_per_cluster ?g)] remaining = (now, left)" by fastforce
    have decl: "\<exists>more. rows = now @ more"
      using Suc.prems(2) Some now by (auto split: option.splits sum.splits prod.splits)
    have stop: "?Q rows ok es x s1" if "watching D media invar sz s0 s1" "search ?m v ?w es now = (Marker, x)" for x s1
      using that decl by (auto simp: search_append)
    have cont: "post (bindM (next_cluster D v cluster) (\<lambda>c.
        if 0xFFFFFFF8 \<le> c then returnM (Inr None) else if c < 2 then fail Corrupt else returnM (Inl (c, left')))) s1
        (\<lambda>r s'. post (case r of Inl st \<Rightarrow> loop_m k (Error Corrupt) (find_cluster D v dir n) st | Inr y \<Rightarrow> returnM y) s'
          (\<lambda>x s'. ?Q rows ok es x s') (\<lambda>e s'. ?E rows ok es e s')) (\<lambda>e s'. ?E rows ok es e s')"
      if left: "left = Some left'" and es': "search ?m v ?w es now = (More es', None)" and at1: "at_sector D media invar sz s0 es' s1"
      for left' es' s1
    proof -
      have w1: "watching D media invar sz s0 s1" using at1 by (simp add: at_sector_def)
      have after: "watching D media invar sz s0 s2" "at_sector D media invar sz s0 es' s2" if "reading sz s1 s2" for s2
      proof -
        have same: "fs.more s2 = fs.more s1" by (rule conjunct1 [OF fs_more_io [OF readingD(3) [OF that]]])
        show w2: "watching D media invar sz s0 s2" by (rule watching_trans [OF w1 watching_reading [OF that]])
        show "at_sector D media invar sz s0 es' s2" using w2 at1 unfolding at_sector_def same by simp
      qed
      have m1: "media (device s1) = ?m" using watchingD(2) [OF w1] .
      have here: "rows = now \<and> ok = b" if "dir_next ?m v dir cluster left' = Inl b" for b
        using Suc.prems(2) Some now left that by (simp split: prod.splits)
      show ?thesis
        unfolding post_bindM
      proof (rule post_mono [OF post_next_cluster [OF reading_refl [OF watchingD(1) [OF w1]] wf sz]], goal_cases)
        case (1 c s2)
        then have r: "reading sz s1 s2" and c: "fat_link ?m ?g cluster = Some c" using m1 by simp_all
        show ?case
        proof (cases "0xFFFFFFF8 \<le> c \<or> c < 2")
          case True
          then have "dir_next ?m v dir cluster left' = Inl (0xFFFFFFF8 \<le> c)" using chained c by (auto simp: dir_next_def)
          then show ?thesis using True here es' after(1) [OF r] by (auto simp: fold_error_def)
        next
          case False
          then have "dir_next ?m v dir cluster left' = Inr c" using chained c by (simp add: dir_next_def)
          then obtain later where later: "dir_rows k ?m v dir c left' = (later, ok)" "rows = now @ later"
            using Suc.prems(2) Some now left by (auto split: prod.splits)
          show ?thesis
            using False
            by simp (rule post_mono [OF Suc.IH [OF after(2) [OF r] later(1)]],
              auto simp: later(2) search_append es' dest: trouble_right [OF es'])
        qed
      next
        case (2 e s2)
        then have "dir_next ?m v dir cluster left' = Inl False" if "\<not> is_device_error e" using chained m1 that by (simp add: dir_next_def)
        then show ?case using 2 here es' after(1) [of s2] by (auto simp: fold_error_def)
      qed
    qed
    have "post (find_cluster D v dir n (cluster, remaining)) s
        (\<lambda>r s'. post (case r of Inl st \<Rightarrow> loop_m k (Error Corrupt) (find_cluster D v dir n) st | Inr y \<Rightarrow> returnM y) s'
          (\<lambda>x s'. ?Q rows ok es x s') (\<lambda>e s'. ?E rows ok es e s')) (\<lambda>e s'. ?E rows ok es e s')"
    proof (subst find_cluster_def, unfold prod.case Let_def Some bindM_simps post_bindM [of "for_m _ _ _"],
        rule post_mono [OF post_find_sectors [OF wf sz len n Suc.prems(1) now]], goal_cases)
      case (1 r s1)
      show ?case
      proof (cases r)
        case (Inr x)
        have "?Q rows ok es x s1"
        proof (cases "search ?m v ?w es now = (Marker, x)")
          case True
          then show ?thesis using stop 1 by (simp add: search_done_def Inr)
        next
          case False
          then have "x = None" "left = None" "\<exists>es'. search ?m v ?w es now = (More es', None)" "watching D media invar sz s0 s1"
            using 1 by (auto simp: search_done_def Inr)
          moreover have "rows = now \<and> ok" using Suc.prems(2) Some now \<open>left = None\<close> by simp
          ultimately show ?thesis by simp
        qed
        then show ?thesis by (simp add: Inr)
      next
        case (Inl left')
        then obtain es' where "left = Some left'" "search ?m v ?w es now = (More es', None)" "at_sector D media invar sz s0 es' s1"
          using 1 by (auto simp: search_done_def)
        from cont [OF this] show ?thesis unfolding Inl sum.case if_not_P [OF chained] .
      qed
    next
      case (2 e s1)
      then show ?case using decl by (auto simp: search_failed_def dest: trouble_left)
    qed
    then show ?thesis unfolding loop_m.simps post_bindM .
  qed
qed

end

context lawful_device
begin

lemma post_find_child:
  fixes w :: "('d, Workspace) fs_scheme"
  assumes "io_ok D invar (sector_bytes v) w" "wf_geometry (vol_geometry v)"
    and "ut_byte_length (vol_upcase v) \<le> 0x20000" "n \<le> length (utf16 (fs.more w))" "\<not> dir_no_fat_chain dir"
    and "entry_set (fs.more w) = new_entry_set" and listing: "listing (media (device w)) v dir = (entries, ended)"
  shows "post (find_child D v dir n) w
    (\<lambda>x w'. media (device w') = media (device w) \<and> x = find (same_name (media (device w)) v (take n (utf16 (fs.more w)))) entries \<and> (x = None \<longrightarrow> ended))
    (\<lambda>err w'. media (device w') = media (device w) \<and> (is_device_error err \<or> fold_error err \<and>
       (\<not> ended \<or> (\<exists>e \<in> set entries. \<exists>u \<in> set (name_utf16 e) \<union> set (take n (utf16 (fs.more w))). fold_unit (media (device w)) v u = None))))"
proof -
  let ?m = "media (device w)" and ?n = "unat (cluster_count (vol_geometry v))" and ?wanted = "take n (utf16 (fs.more w))"
  obtain rows ok where rows: "dir_rows ?n ?m v dir (dir_first_cluster dir) (dir_data_length dir) = (rows, ok)" by fastforce
  obtain fin where dec: "decode_rows new_entry_set rows = (entries, fin)"
    and ended: "ended = (case fin of Marker \<Rightarrow> True | Bad \<Rightarrow> False | More _ \<Rightarrow> ok)"
    using listing rows by (auto simp: listing_def split: prod.splits)
  have start: "at_sector D media invar (sector_bytes v) w new_entry_set w"
    using watching_refl [OF assms(1)] assms(6) by (simp add: at_sector_def)
  have len: "\<not> length (scratch w) < sector_bytes v" using assms(1) by (simp add: io_ok_def)
  have find: "search ?m v ?wanted new_entry_set rows =
      (case find (same_name ?m v ?wanted) entries of None \<Rightarrow> (fin, None) | Some e \<Rightarrow> (Marker, Some e))"
    by (simp add: search_find dec)
  show ?thesis
    unfolding find_child_def post_bindM post_require if_not_P [OF len]
    by (rule post_mono [OF post_find_clusters [OF assms(2) refl assms(3,4,5) start rows]])
      (auto dest!: watchingD(2) simp: ended find dec trouble_def unfoldable_def split: option.splits)
qed

end

section \<open>Properties\<close>

text \<open>
  C8: Looking a name up in a chained directory is correct. On any medium and any device that keeps its
  contract, \<open>find_child\<close> writes nothing; with a fresh decoder it returns the first entry of the
  directory's listing whose name equals the wanted one after case folding, and reports that there is
  none only when no entry of the listing has such a name and the directory comes to a proper end.
  Other failures than the device's are \<open>Corrupt\<close> or \<open>UpcaseTableCorrupt\<close> and mean that the directory is
  broken or that the UpCase table does not fold some unit of a listed name or of the wanted one.
\<close>
theorem find_child_correct:
  fixes D :: "('d, 'e) device_ops" and w :: "('d, Workspace) fs_scheme"
  assumes "lawful_device D media invar" "io_ok D invar (sector_bytes v) w" "wf_geometry (vol_geometry v)"
    and "ut_byte_length (vol_upcase v) \<le> 0x20000" "n \<le> length (utf16 (fs.more w))" "\<not> dir_no_fat_chain dir"
    and "entry_set (fs.more w) = new_entry_set"
  shows "case find_child D v dir n w of (r, w') \<Rightarrow>
      let m = media (device w); wanted = take n (utf16 (fs.more w)); entries = fst (listing m v dir); ended = snd (listing m v dir)
      in media (device w') = m \<and>
        (case r of
          Inr (Some e) \<Rightarrow> find (same_name m v wanted) entries = Some e
        | Inr None \<Rightarrow> find (same_name m v wanted) entries = None \<and> ended
        | Inl err \<Rightarrow> is_device_error err \<or> fold_error err \<and>
            (\<not> ended \<or> (\<exists>e \<in> set entries. \<exists>u \<in> set (name_utf16 e) \<union> set wanted. fold_unit m v u = None)))"
  using lawful_device.post_find_child [OF assms, of "fst (listing (media (device w)) v dir)" "snd (listing (media (device w)) v dir)"]
  by (auto simp: Let_def post_def split: prod.splits sum.splits option.splits)

text \<open>The name \<open>a\<close> finds the file \<open>A\<close> of the test directory, here with a chain.\<close>

theorem find_child_correct_witness:
  "case find_child mem_ops test_volume (test_dir\<lparr>dir_no_fat_chain := False\<rparr>) 1 (listing_state (new_workspace\<lparr>utf16 := [0x61]\<rparr>)) of (r, w') \<Rightarrow>
     mem_media (device w') = mem_media (device set_card) \<and>
     (\<forall>x. r = Inr x \<longrightarrow> (\<exists>e. x = Some e \<and> name_utf16 e = [0x41]))"
proof -
  let ?m = "mem_media (device set_card)" and ?dir = "test_dir\<lparr>dir_no_fat_chain := False\<rparr>"
  let ?w = "listing_state (new_workspace\<lparr>utf16 := [0x61]\<rparr>)"
  obtain e where e: "fst (listing ?m test_volume ?dir) = [e]" "name_utf16 e = [0x41]"
    using test_dir_listing [of False] by (cases "fst (listing ?m test_volume ?dir)") auto
  have "fold_unit ?m test_volume 0x41 = fold_unit ?m test_volume 0x61" by (simp add: fold_unit_def ascii_upcase_def)
  then have "same_name ?m test_volume [0x61] e" using e by (simp add: same_name_def)
  moreover have "1 \<le> length (utf16 (fs.more ?w))" "entry_set (fs.more ?w) = new_entry_set" "take 1 (utf16 (fs.more ?w)) = [0x61]"
    by (simp_all add: listing_state_ok new_workspace_def)
  moreover have "ut_byte_length (vol_upcase test_volume) \<le> 0x20000" "\<not> dir_no_fat_chain ?dir" by (simp_all add: test_volume_def)
  ultimately show ?thesis
    using find_child_correct [OF mem.lawful_device_axioms listing_state_ok(1) [of "new_workspace\<lparr>utf16 := [0x61]\<rparr>"],
        where n = 1 and dir = ?dir] wf_test_geometry e
    by (auto simp: listing_state_ok Let_def split: prod.splits sum.splits option.splits)
qed

end
