(* ===== verification/Batch_Device.thy ===== *)
theory Batch_Device
  imports Mem_Device
begin

text \<open>
  Runs of consecutive sectors, as the formatter writes them. \<open>stored sz lba bs media\<close> is the medium
  after the bytes \<open>bs\<close> went to the sectors from \<open>lba\<close> on. The locale \<open>batch_device\<close> adds to a reliable
  device what the trait promises of \<open>write_sectors\<close>; a device that inherits the trait's default
  keeps the promise, as the in-memory device does. \<open>stands s0 img s\<close> says that since \<open>s0\<close> only the
  device and the scratch contents changed and the medium is now \<open>img\<close>.
\<close>

section \<open>Runs of sectors\<close>

definition stored :: "nat \<Rightarrow> u64 \<Rightarrow> u8 list \<Rightarrow> (u64 \<Rightarrow> u8 list) \<Rightarrow> u64 \<Rightarrow> u8 list" where
  "stored sz lba bs media l =
     (if unat lba \<le> unat l \<and> unat l < unat lba + length bs div sz
      then slice ((unat l - unat lba) * sz) ((unat l - unat lba) * sz + sz) bs else media l)"

lemma stored_Nil [simp]: "stored sz lba [] media = media"
  by (auto simp: stored_def fun_eq_iff)

lemma stored_sector: "length bs = sz \<Longrightarrow> 0 < sz \<Longrightarrow> stored sz lba bs media = media(lba := bs)"
proof -
  assume "length bs = sz" "0 < sz"
  moreover have "l = lba \<longleftrightarrow> unat lba \<le> unat l \<and> unat l < Suc (unat lba)" for l
    by (metis le_antisym less_Suc_eq_le order_refl word_unat_eq_iff)
  ultimately show ?thesis by (auto simp: stored_def fun_eq_iff slice_all)
qed

lemma stored_outside: "unat l < unat lba \<or> unat lba + length bs div sz \<le> unat l \<Longrightarrow> stored sz lba bs media l = media l"
  by (auto simp: stored_def)

lemma stored_at:
  "unat lba + i < 2 ^ 64 \<Longrightarrow> i < length bs div sz \<Longrightarrow> stored sz lba bs media (lba + of_usize i) = slice (i * sz) (i * sz + sz) bs"
  by (simp add: stored_def of_usize_def unat_add_small unat_of_nat)

lemma stored_length:
  "(\<And>l. length (media l) = sz) \<Longrightarrow> length (stored sz lba bs media l) = sz"
proof -
  assume m: "\<And>l. length (media l) = sz"
  let ?i = "unat l - unat lba"
  have "?i * sz + sz \<le> length bs" if "?i < length bs div sz"
  proof -
    have "(?i + 1) * sz \<le> length bs div sz * sz" using that by (intro mult_le_mono1) simp
    also have "\<dots> \<le> length bs" by (rule div_times_less_eq_dividend)
    finally show ?thesis by simp
  qed
  then show ?thesis using m by (auto simp: stored_def)
qed

text \<open>Two runs of which the second follows the first are one run.\<close>

lemma stored_append:
  assumes xs: "length xs = n * sz" and sz: "0 < sz" and top: "unat lba + n < 2 ^ 64"
  shows "stored sz (lba + of_usize n) ys (stored sz lba xs media) = stored sz lba (xs @ ys) media"
proof
  fix l :: u64
  have at: "unat (lba + of_usize n) = unat lba + n"
    using top by (simp add: of_usize_def unat_add_small unat_of_nat)
  have len: "length xs div sz = n" "length (xs @ ys) div sz = n + length ys div sz"
    using xs sz by (simp_all add: div_add1_eq)
  let ?i = "unat l - unat lba"
  consider "unat l < unat lba" | "unat lba \<le> unat l" "?i < n" | "unat lba + n \<le> unat l" by linarith
  then show "stored sz (lba + of_usize n) ys (stored sz lba xs media) l = stored sz lba (xs @ ys) media l"
  proof cases
    case 1
    then show ?thesis by (simp add: stored_def at)
  next
    case 2
    then have "?i * sz + sz \<le> n * sz" by (metis Suc_leI add.commute mult_Suc mult_le_mono1)
    then have "slice (?i * sz) (?i * sz + sz) (xs @ ys) = slice (?i * sz) (?i * sz + sz) xs"
      using xs by (simp add: slice_append)
    with 2 show ?thesis by (auto simp: stored_def at len [unfolded length_append])
  next
    case 3
    then have "(unat l - (unat lba + n)) * sz = ?i * sz - n * sz" by (simp add: diff_mult_distrib add_mult_distrib)
    moreover have "n * sz \<le> ?i * sz" using 3 by (intro mult_le_mono1) simp
    ultimately show ?thesis using 3 xs by (auto simp: stored_def at len [unfolded length_append] slice_append slice_beyond)
  qed
qed

section \<open>The contract of a batch write\<close>

locale batch_device = reliable_device D media invar
  for D :: "('d, 'e) device_ops" and media :: "'d \<Rightarrow> u64 \<Rightarrow> u8 list" and invar :: "'d \<Rightarrow> bool" +
  assumes batch_total: "invar d \<Longrightarrow> length data = n * sector_size_of D d \<Longrightarrow>
      unat lba + n \<le> unat (sector_count_of D d) \<Longrightarrow>
      \<exists>d'. write_sectors_of D d lba data = (Done, d') \<and> invar d' \<and>
        sector_size_of D d' = sector_size_of D d \<and> sector_count_of D d' = sector_count_of D d \<and>
        media d' = stored (sector_size_of D d) lba data (media d)"
    and flush_total: "invar d \<Longrightarrow> fst (flush_of D d) = Done"

context reliable_device
begin

lemma write_run_total:
  assumes d: "invar d" and lba: "lba < sector_count_of D d" and len: "length bs = sector_size_of D d"
  obtains d' where "write_sector_of D d lba bs = (Done, d')" "invar d'"
    "sector_size_of D d' = sector_size_of D d" "sector_count_of D d' = sector_count_of D d"
    "media d' = (media d)(lba := bs)"
proof -
  obtain r d' where run: "write_sector_of D d lba bs = (r, d')" by (metis prod.exhaust)
  then have r: "r = Done" using write_total [OF d lba len] by simp
  note frame = write_frame [OF d len run] and cont = write_done [OF d len run [unfolded r]]
  have "media d' = (media d)(lba := bs)" using frame cont by (auto simp: fun_eq_iff)
  with frame run r show ?thesis by (intro that) auto
qed

text \<open>The trait's default keeps the promise.\<close>

lemma write_chunks_total:
  assumes "invar d" "sector_size_of D d = sz" "0 < sz" "length data = n * sz"
    and "unat lba + n \<le> unat (sector_count_of D d)"
  shows "\<exists>d'. write_chunks (write_sector_of D) d lba (chunks_exact sz data) = (Done, d') \<and> invar d' \<and>
      sector_size_of D d' = sz \<and> sector_count_of D d' = sector_count_of D d \<and>
      media d' = stored sz lba data (media d)"
  using assms
proof (induction n arbitrary: d lba data)
  case 0
  then show ?case by (simp add: chunks_exact.simps [of sz "[]"])
next
  case (Suc n)
  define x y where "x = take sz data" and "y = drop sz data"
  have len: "length x = sz" "length y = n * sz" "data = x @ y" using Suc.prems by (simp_all add: x_def y_def)
  have split: "chunks_exact sz data = x # chunks_exact sz y"
    using Suc.prems by (subst chunks_exact.simps) (simp add: x_def y_def)
  have lba: "lba < sector_count_of D d" using Suc.prems by (simp add: word_less_nat_alt)
  from Suc.prems len obtain d1 where d1: "write_sector_of D d lba x = (Done, d1)" "invar d1"
    "sector_size_of D d1 = sz" "sector_count_of D d1 = sector_count_of D d"
    "media d1 = (media d)(lba := x)"
    using write_run_total [OF Suc.prems(1) lba, of x] by metis
  show ?case
  proof (cases n)
    case 0
    then show ?thesis using d1 len split Suc.prems
      by (simp add: stored_sector fun_upd_def chunks_exact.simps [of sz "[]"])
  next
    case (Suc k)
    have "unat lba + 2 \<le> unat (sector_count_of D d)" using Suc.prems(5) Suc by simp
    from order.strict_trans1 [OF this unat_u64_lt] have top: "unat lba + 1 < 2 ^ 64" by simp
    then have next_lba: "unat (lba + 1) = unat lba + 1" by (simp add: unat_add_small)
    have img: "stored sz (lba + 1) y (media d1) = stored sz lba data (media d)"
      using stored_append [of x 1 sz lba y "media d"] len Suc.prems(3) top d1(5)
      by (simp add: of_usize_def stored_sector)
    obtain d' where "write_chunks (write_sector_of D) d1 (lba + 1) (chunks_exact sz y) = (Done, d') \<and> invar d' \<and>
      sector_size_of D d' = sz \<and> sector_count_of D d' = sector_count_of D d1 \<and>
      media d' = stored sz (lba + 1) y (media d1)"
      using Suc.IH [OF d1(2,3) Suc.prems(3) len(2), of "lba + 1"] next_lba Suc.prems(5) d1(4) by auto
    then show ?thesis using d1 split img by auto
  qed
qed

end

interpretation mem_batch: batch_device mem_ops mem_media mem_ok
proof unfold_locales
  fix d :: "u8 list list" and data :: "u8 list" and lba :: u64 and n
  assume d: "mem_ok d" and len: "length data = n * sector_size_of mem_ops d"
    and top: "unat lba + n \<le> unat (sector_count_of mem_ops d)"
  show "\<exists>d'. write_sectors_of mem_ops d lba data = (Done, d') \<and> mem_ok d' \<and>
        sector_size_of mem_ops d' = sector_size_of mem_ops d \<and>
        sector_count_of mem_ops d' = sector_count_of mem_ops d \<and>
        mem_media d' = stored (sector_size_of mem_ops d) lba data (mem_media d)"
    using mem.write_chunks_total [OF d, of 512 data n lba] len top
    by (auto simp: mem_ops_def default_write_sectors_def)
qed simp

section \<open>What a step of the formatter leaves\<close>

context batch_device
begin

definition stands :: "nat \<Rightarrow> ('d, 'x) io_scheme \<Rightarrow> (u64 \<Rightarrow> u8 list) \<Rightarrow> ('d, 'x) io_scheme \<Rightarrow> bool" where
  "stands sz s0 img s \<longleftrightarrow> io_ok D invar sz s \<and> same_rest s0 s \<and>
     sector_count_of D (device s) = sector_count_of D (device s0) \<and> media (device s) = img"

lemma standsD:
  assumes "stands sz s0 img s"
  shows "io_ok D invar sz s" "length (scratch s) = length (scratch s0)" "io.more s = io.more s0"
    "sector_count_of D (device s) = sector_count_of D (device s0)" "media (device s) = img" "sz \<le> length (scratch s0)"
  using assms by (auto simp: stands_def same_rest_def io_ok_def)

lemma stands_refl: "io_ok D invar sz s \<Longrightarrow> stands sz s (media (device s)) s"
  by (simp add: stands_def)

lemma stands_scratch: "stands sz s0 img s \<Longrightarrow> length bs = length (scratch s) \<Longrightarrow> stands sz s0 img (s\<lparr>scratch := bs\<rparr>)"
  by (auto simp: stands_def same_rest_def)

text \<open>One sector is filled and written.\<close>

lemma post_put_sector:
  assumes s: "stands sz s0 img s" and len: "length bs = sz" "0 < sz"
    and lba: "unat lba < unat (sector_count_of D (device s0))"
  shows "post (bindM (sector sz) (\<lambda>_. bindM (set_sector bs) (\<lambda>_. write_sector D lba sz))) s
    (\<lambda>_ s'. stands sz s0 (stored sz lba bs img) s') (\<lambda>_ _. False)"
proof -
  let ?s = "s\<lparr>scratch := bs @ drop (length bs) (scratch s)\<rparr>"
  have 1: "stands sz s0 img ?s" using standsD [OF s] len by (intro stands_scratch [OF s]) simp
  have "lba < sector_count_of D (device ?s)" using lba standsD(4) [OF 1] by (simp add: word_less_nat_alt)
  from post_write_sector_total [OF standsD(1) [OF 1] this]
  have "post (write_sector D lba sz) ?s (\<lambda>_ s'. stands sz s0 (stored sz lba bs img) s') (\<lambda>_ _. False)"
    by (rule post_mono)
      (use 1 len standsD(5) [OF 1] in \<open>auto simp: stands_def same_rest_def stored_sector\<close>)
  then show ?thesis using standsD(2,6) [OF s] by simp
qed

text \<open>A batch is written.\<close>

lemma post_write_batch:
  assumes s: "stands sz s0 img s" and len: "length bs = n * sz"
    and lba: "unat lba + n \<le> unat (sector_count_of D (device s0))"
  shows "post (write_sectors D lba bs) s (\<lambda>_ s'. stands sz s0 (stored sz lba bs img) s') (\<lambda>_ _. False)"
proof -
  note f = standsD [OF s]
  have inv: "invar (device s)" and sz: "sector_size_of D (device s) = sz" using f(1) by (auto simp: io_ok_def)
  obtain d' where "write_sectors_of D (device s) lba bs = (Done, d')" "invar d'" "sector_size_of D d' = sz"
    "sector_count_of D d' = sector_count_of D (device s)" "media d' = stored sz lba bs (media (device s))"
    using batch_total [OF inv, of bs n lba] len lba f(4) sz by auto
  with f s show ?thesis
    by (auto simp: post_def write_sectors_def run_write_def dev_outcome_def stands_def same_rest_def io_ok_def)
qed

lemma post_flush_total:
  assumes s: "stands sz s0 img s"
  shows "post (dev_flush D) s (\<lambda>_ s'. stands sz s0 img s') (\<lambda>_ _. False)"
proof -
  have inv: "invar (device s)" using standsD(1) [OF s] by (auto simp: io_ok_def)
  obtain r d where run: "flush_of D (device s) = (r, d)" by (metis prod.exhaust)
  with flush_total [OF inv] have "r = Done" by simp
  with run flush_frame [OF inv run] s show ?thesis
    by (auto simp: post_def dev_flush_def dev_outcome_def stands_def same_rest_def io_ok_def)
qed

end

end
