(* ===== verification/Format_Plan.thy ===== *)
theory Format_Plan
  imports Format
begin

text \<open>
  What the formatter decides before it writes. \<open>plan secs\<close> collects the computations of
  \<open>format_exfat\<close> (\<open>format.rs\<close>) on a device of \<open>secs\<close> sectors into one record; \<open>sound\<close> says, over
  the naturals, that the areas fit: the FAT has an entry for every cluster, the heap starts behind it
  and ends inside the partition, and the bitmap, the UpCase table and the root directory fit into the
  heap. Every accepted plan is sound, so no sum or product of the formatter wraps.
\<close>

record fresh =
  fr_len :: u64
  fr_spc :: u32
  fr_fat :: u32
  fr_heap :: u32
  fr_clusters :: u32

definition fr_cluster_bytes :: "fresh \<Rightarrow> u64" where
  "fr_cluster_bytes f = ucast (fr_spc f) * of_usize 512"

definition fr_bitmap_bytes :: "fresh \<Rightarrow> u64" where
  "fr_bitmap_bytes f = div_ceil (ucast (fr_clusters f)) 8"

definition fr_bitmap_clusters :: "fresh \<Rightarrow> u32" where
  "fr_bitmap_clusters f = ucast (div_ceil (fr_bitmap_bytes f) (fr_cluster_bytes f))"

definition fr_upcase_clusters :: "fresh \<Rightarrow> u32" where
  "fr_upcase_clusters f = ucast (div_ceil upcase_bytes (fr_cluster_bytes f))"

definition fr_upcase :: "fresh \<Rightarrow> u32" where
  "fr_upcase f = 3 + fr_bitmap_clusters f"

definition fr_reserved :: "fresh \<Rightarrow> u32" where
  "fr_reserved f = 1 + fr_bitmap_clusters f + fr_upcase_clusters f"

definition plan :: "u64 \<Rightarrow> 'e error + fresh" where
  "plan secs =
     (if secs \<le> ucast boot_sectors + 512 \<or> 0xFFFFFFFF < secs - 1 then Inl InvalidPartitionTable else
      let len = secs - 1; spc = cluster_size_for len in
      case layout len spc of
        Inl e \<Rightarrow> Inl e
      | Inr (fat, heap, clusters) \<Rightarrow>
          let f = \<lparr>fr_len = len, fr_spc = spc, fr_fat = fat, fr_heap = heap, fr_clusters = clusters\<rparr> in
          case checked_add (fr_upcase f) (fr_upcase_clusters f) of
            None \<Rightarrow> Inl Corrupt
          | Some end_cluster \<Rightarrow> if clusters + 2 < end_cluster then Inl Corrupt else Inr f)"

definition write_fresh :: "('d, 'e) device_ops \<Rightarrow> fresh \<Rightarrow> ('d, 'x, 'e, unit) iom" where
  "write_fresh D f = write_volume D (fr_len f) (fr_spc f) (fr_fat f) (fr_heap f) (fr_clusters f)
     (fr_bitmap_bytes f) (fr_bitmap_clusters f) (fr_upcase f) (fr_upcase_clusters f)"

lemma format_exfat_plan:
  "format_exfat D =
     bindM (getsM (\<lambda>s. sector_size_of D (device s))) (\<lambda>sz.
     if sz \<noteq> 512 then fail UnsupportedSectorSize else
     bindM (require 512) (\<lambda>_.
     bindM (getsM (\<lambda>s. sector_count_of D (device s))) (\<lambda>secs.
     bindM (from_result (plan secs)) (write_fresh D))))"
  by (auto simp: format_exfat_def plan_def write_fresh_def fr_cluster_bytes_def fr_bitmap_bytes_def
      fr_bitmap_clusters_def fr_upcase_clusters_def fr_upcase_def Let_def bindM_def getsM_def require_def
      from_result_def fail_def ok_or_def returnM_def throwM_def fun_eq_iff
      split: sum.splits prod.splits option.splits)

section \<open>An accepted layout\<close>

definition ceil_div :: "nat \<Rightarrow> nat \<Rightarrow> nat" where
  "ceil_div a b = (a + b - 1) div b"

lemma ceil_div_bounds:
  assumes "0 < b"
  shows "a \<le> ceil_div a b * b" "ceil_div a b * b < a + b" "a \<le> n * b \<Longrightarrow> ceil_div a b \<le> n" "0 < a \<Longrightarrow> 0 < ceil_div a b"
proof -
  let ?q = "(a + b - 1) div b"
  have lo: "?q * b \<le> a + b - 1" and hi: "a + b - 1 < ?q * b + b"
    using dividend_less_div_times [OF assms, of "a + b - 1"] by (simp_all add: div_times_less_eq_dividend add.commute)
  show 1: "a \<le> ceil_div a b * b" "ceil_div a b * b < a + b" using lo hi assms unfolding ceil_div_def by linarith+
  show "ceil_div a b \<le> n" if "a \<le> n * b"
  proof -
    have "ceil_div a b * b < (n + 1) * b" using 1(2) that by (simp add: algebra_simps)
    then have "ceil_div a b < n + 1" using mult_less_cancel2 by blast
    then show ?thesis by simp
  qed
  show "0 < ceil_div a b" if "0 < a" using 1(1) that by (cases "ceil_div a b") auto
qed

definition sound :: "fresh \<Rightarrow> bool" where
  "sound f \<longleftrightarrow>
     536 \<le> unat (fr_len f) \<and> unat (fr_len f) < 2 ^ 32 \<and> fr_spc f = cluster_size_for (fr_len f) \<and>
     unat (fr_heap f) = 24 + unat (fr_fat f) \<and> 0 < unat (fr_clusters f) \<and>
     unat (fr_fat f) = ceil_div ((unat (fr_clusters f) + 2) * 4) 512 \<and>
     unat (fr_heap f) + unat (fr_clusters f) * unat (fr_spc f) \<le> unat (fr_len f) \<and>
     3 + unat (fr_bitmap_clusters f) + unat (fr_upcase_clusters f) \<le> unat (fr_clusters f) + 2"

lemma layout_rounds_sound:
  assumes "(layout_rounds n len spc fat0 :: 'e error + _) = Inr (fat, heap, clusters)" "unat len < 2 ^ 32" "0 < unat spc"
  shows "unat heap = 24 + unat fat \<and> unat heap \<le> unat len \<and>
     unat clusters = (unat len - unat heap) div unat spc \<and>
     unat fat = ceil_div ((unat clusters + 2) * 4) 512"
  using assms(1)
proof (induction n arbitrary: fat0)
  case (Suc n)
  from Suc.prems obtain h r where h: "checked_add fat_start fat0 = Some h" and r: "checked_sub len (ucast h) = Some r"
    by (auto split: option.splits)
  define c where "c = (ucast (r div ucast spc) :: u32)"
  define needed where "needed = (ucast (div_ceil (ucast (c + 2) * 4 :: u64) 512) :: u32)"
  have run: "(if needed = fat0 then Inr (fat0, h, c) else layout_rounds n len spc needed :: 'e error + _) = Inr (fat, heap, clusters)"
    using Suc.prems h r by (simp add: Let_def c_def needed_def split: if_splits)
  have hn: "unat h = 24 + unat fat0" using conjunct1 [OF checked_add_Some [OF h]] by (simp add: fat_start_def boot_sectors_def)
  have rn: "unat r = unat len - unat h" "unat h \<le> unat len" using conjunct1 [OF checked_sub_Some [OF r]] conjunct1 [OF conjunct2 [OF checked_sub_Some [OF r]]] by simp_all
  have "unat (r div ucast spc) = (unat len - unat h) div unat spc" by (simp add: unat_div rn)
  moreover have small: "(unat len - unat h) div unat spc \<le> unat len - 24"
    using hn by (metis diff_le_mono2 div_le_dividend le_add1 order.trans)
  ultimately have cn: "unat c = (unat len - unat h) div unat spc"
    using assms(2) by (simp add: c_def unat_ucast_down_small)
  have c2: "unat c + 2 < 2 ^ 32" using small cn assms(2) hn rn by linarith
  then have "unat (c + 2) = unat c + 2" by (subst unat_add_small) simp_all
  then have "unat (ucast (c + 2) * 4 :: u64) = (unat c + 2) * 4" using c2 by (subst unat_mult_small) simp_all
  then have "unat (div_ceil (ucast (c + 2) * 4 :: u64) 512) = ceil_div ((unat c + 2) * 4) 512"
    by (subst unat_div_ceil) (simp_all add: ceil_div_def)
  moreover have "ceil_div ((unat c + 2) * 4) 512 \<le> 2 ^ 25"
    by (rule ceil_div_bounds(3)) (use c2 in simp_all)
  ultimately have "unat needed = ceil_div ((unat c + 2) * 4) 512"
    by (simp add: needed_def unat_ucast_down_small)
  with run hn rn cn show ?case by (cases "needed = fat0") (auto dest: Suc.IH)
qed simp

lemma cluster_size_cases: "cluster_size_for n \<in> {1, 16, 64}"
  by (simp add: cluster_size_for_def)

lemma fr_cluster_bytes_nat:
  assumes "unat (fr_spc f) \<le> 64" shows "unat (fr_cluster_bytes f) = 512 * unat (fr_spc f)"
  unfolding fr_cluster_bytes_def using assms by (subst unat_mult_small) (simp_all add: unat_of_usize)

lemma fr_bitmap_bytes_nat: "unat (fr_bitmap_bytes f) = ceil_div (unat (fr_clusters f)) 8"
  unfolding fr_bitmap_bytes_def by (subst unat_div_ceil) (simp_all add: ceil_div_def)

lemma fr_clusters_nat:
  assumes "unat (fr_spc f) \<le> 64" "0 < unat (fr_spc f)"
  shows "unat (fr_bitmap_clusters f) = ceil_div (ceil_div (unat (fr_clusters f)) 8) (512 * unat (fr_spc f))"
    and "unat (fr_upcase_clusters f) = ceil_div 131072 (512 * unat (fr_spc f))"
    and "unat (fr_bitmap_clusters f) \<le> 2 ^ 29"
proof -
  have nz: "fr_cluster_bytes f \<noteq> 0" using fr_cluster_bytes_nat [OF assms(1)] assms(2) by (metis mult_is_0 unat_0 not_gr_zero zero_neq_numeral)
  note eq = unat_div_ceil [OF nz]
  have "ceil_div (unat (fr_clusters f)) 8 \<le> 2 ^ 29" by (rule ceil_div_bounds(3)) (use order.strict_implies_order [OF unat_u32_lt [of "fr_clusters f"]] in \<open>simp_all\<close>)
  moreover have "ceil_div n (512 * unat (fr_spc f)) \<le> n" for n by (rule ceil_div_bounds(3)) (use assms in \<open>simp_all add: \<close>)
  ultimately have "ceil_div (ceil_div (unat (fr_clusters f)) 8) (512 * unat (fr_spc f)) \<le> 2 ^ 29"
    by (meson order.trans)
  then show "unat (fr_bitmap_clusters f) \<le> 2 ^ 29" "unat (fr_bitmap_clusters f) = ceil_div (ceil_div (unat (fr_clusters f)) 8) (512 * unat (fr_spc f))"
    unfolding fr_bitmap_clusters_def
    by (subst unat_ucast_down_small; simp_all add: eq fr_cluster_bytes_nat [OF assms(1)] fr_bitmap_bytes_nat ceil_div_def)+
  have "ceil_div 131072 (512 * unat (fr_spc f)) \<le> 131072" by (rule ceil_div_bounds(3)) (use assms in simp_all)
  then show "unat (fr_upcase_clusters f) = ceil_div 131072 (512 * unat (fr_spc f))"
    unfolding fr_upcase_clusters_def
    by (subst unat_ucast_down_small) (simp_all add: eq fr_cluster_bytes_nat [OF assms(1)] upcase_bytes_def ceil_div_def)
qed

lemma plan_sound:
  assumes "(plan secs :: 'e error + fresh) = Inr f"
  shows "sound f \<and> unat (fr_len f) = unat secs - 1"
proof -
  define len where "len = secs - 1"
  have big: "ucast boot_sectors + 512 < secs" "len \<le> 0xFFFFFFFF"
    using assms by (auto simp: plan_def len_def Let_def split: if_splits)
  then have len: "unat len = unat secs - 1" "536 < unat secs" "unat len < 2 ^ 32"
    by (simp_all add: boot_sectors_def word_less_nat_alt word_le_nat_alt len_def unat_sub_if')
  from assms obtain e where lay: "(layout len (cluster_size_for len) :: 'e error + _) = Inr (fr_fat f, fr_heap f, fr_clusters f)"
    and f: "fr_len f = len" "fr_spc f = cluster_size_for len"
    and e: "checked_add (fr_upcase f) (fr_upcase_clusters f) = Some e" "e \<le> fr_clusters f + 2"
    unfolding plan_def Let_def len_def
    by (auto simp: not_less split: sum.splits prod.splits option.splits if_splits)
  have spc: "0 < unat (fr_spc f)" "unat (fr_spc f) \<le> 64" using cluster_size_cases [of len] f by auto
  note lay' = layout_rounds_sound [OF lay [unfolded layout_def] len(3), folded f(2), OF spc(1)]
  have heap: "unat (fr_heap f) = 24 + unat (fr_fat f)" "unat (fr_heap f) \<le> unat len"
    and clusters: "unat (fr_clusters f) = (unat len - unat (fr_heap f)) div unat (fr_spc f)"
    and fat: "unat (fr_fat f) = ceil_div ((unat (fr_clusters f) + 2) * 4) 512"
    using lay' by blast+
  have room: "unat (fr_clusters f) * unat (fr_spc f) \<le> unat len - unat (fr_heap f)"
    unfolding clusters by (rule div_times_less_eq_dividend)
  have "unat (fr_clusters f) \<le> unat len - unat (fr_heap f)" unfolding clusters by (rule div_le_dividend)
  then have "unat (fr_clusters f + 2) = unat (fr_clusters f) + 2"
    using heap(1) len(3) by (subst unat_add_small) simp_all
  moreover have "unat (fr_upcase f) = 3 + unat (fr_bitmap_clusters f)"
    unfolding fr_upcase_def using fr_clusters_nat(3) [OF spc(2,1)] by (subst unat_add_small) simp_all
  moreover have "unat e = unat (fr_upcase f) + unat (fr_upcase_clusters f)" using checked_add_Some [OF e(1)] by (rule conjunct1)
  ultimately have fit: "3 + unat (fr_bitmap_clusters f) + unat (fr_upcase_clusters f) \<le> unat (fr_clusters f) + 2"
    using e(2) by (simp add: word_le_nat_alt)
  moreover have "0 < unat (fr_upcase_clusters f)"
    using fr_clusters_nat(2) [OF spc(2,1)] ceil_div_bounds(4) [of "512 * unat (fr_spc f)" 131072] spc(1) by simp
  ultimately have pos: "0 < unat (fr_clusters f)" by linarith
  have "536 \<le> unat len" "unat (fr_heap f) + unat (fr_clusters f) * unat (fr_spc f) \<le> unat len"
    using heap(2) room len by linarith+
  then show ?thesis unfolding sound_def f(1) by (intro conjI heap(1) fat fit len f(2) pos)
qed

text \<open>What the rest needs of a sound plan: cluster sizes, the areas in clusters, and where they lie.\<close>

lemma sound_spc:
  assumes "sound f"
  shows "unat (fr_spc f) \<in> {1, 16, 64}" "0 < unat (fr_spc f)" "unat (fr_spc f) \<le> 64"
    "unat (fr_upcase_clusters f) * unat (fr_spc f) = 256"
proof -
  from assms have "fr_spc f = cluster_size_for (fr_len f)" by (simp add: sound_def)
  then have c: "fr_spc f \<in> {1, 16, 64}" using cluster_size_cases by simp
  then show spc: "unat (fr_spc f) \<in> {1, 16, 64}" "0 < unat (fr_spc f)" "unat (fr_spc f) \<le> 64" by auto
  show "unat (fr_upcase_clusters f) * unat (fr_spc f) = 256"
    using c fr_clusters_nat(2) [OF spc(3,2)] by (auto simp: ceil_div_def)
qed

lemma sound_clusters:
  assumes "sound f"
  shows "unat (fr_clusters f) + 2 < 2 ^ 32" "unat (fr_upcase f) = 3 + unat (fr_bitmap_clusters f)"
    "unat (fr_reserved f) = 1 + unat (fr_bitmap_clusters f) + unat (fr_upcase_clusters f)"
    "unat (fr_reserved f) \<le> unat (fr_clusters f)"
    "unat (fr_heap f) + unat (fr_clusters f) * unat (fr_spc f) \<le> unat (fr_len f)" "unat (fr_len f) < 2 ^ 32"
    "unat (fr_heap f) = 24 + unat (fr_fat f)"
proof -
  note s = assms [unfolded sound_def]
  show 1: "unat (fr_heap f) + unat (fr_clusters f) * unat (fr_spc f) \<le> unat (fr_len f)" "unat (fr_len f) < 2 ^ 32"
    and heap: "unat (fr_heap f) = 24 + unat (fr_fat f)" using s by blast+
  have "unat (fr_clusters f) * 1 \<le> unat (fr_clusters f) * unat (fr_spc f)"
    using sound_spc(2) [OF assms] by (intro mult_le_mono2) simp
  with 1 heap show c: "unat (fr_clusters f) + 2 < 2 ^ 32" by linarith
  have fit: "3 + unat (fr_bitmap_clusters f) + unat (fr_upcase_clusters f) \<le> unat (fr_clusters f) + 2" using s by blast
  then show "unat (fr_upcase f) = 3 + unat (fr_bitmap_clusters f)"
    using c by (simp add: fr_upcase_def unat_add_small)
  show r: "unat (fr_reserved f) = 1 + unat (fr_bitmap_clusters f) + unat (fr_upcase_clusters f)"
    using fit c by (simp add: fr_reserved_def unat_add_small)
  then show "unat (fr_reserved f) \<le> unat (fr_clusters f)" using fit by linarith
qed

text \<open>The clusters marked as used all lie in the first sector of the bitmap.\<close>

lemma sound_reserved:
  assumes "sound f" shows "unat (fr_reserved f) \<le> 4096"
proof -
  note spc = sound_spc [OF assms] and c = sound_clusters [OF assms]
  have spc_eq: "fr_spc f = cluster_size_for (fr_len f)" using assms by (simp add: sound_def)
  have bc: "unat (fr_bitmap_clusters f) \<le> 256" if "unat (fr_clusters f) \<le> 256 * (512 * unat (fr_spc f)) * 8"
    unfolding fr_clusters_nat(1) [OF spc(3,2)]
    by (intro ceil_div_bounds(3)) (use that spc in simp_all)
  have "unat (fr_clusters f) \<le> 256 * (512 * unat (fr_spc f)) * 8"
  proof (cases "fr_len f < 131072")
    case True
    then have "unat (fr_len f) < 131072" by (simp add: word_less_nat_alt)
    moreover have "unat (fr_clusters f) * 1 \<le> unat (fr_clusters f) * unat (fr_spc f)"
      using spc(2) by (intro mult_le_mono2) simp
    ultimately have "unat (fr_clusters f) < 131072" using c(5) by linarith
    then show ?thesis using spc(2) by (cases "unat (fr_spc f)") auto
  next
    case False
    then have "unat (fr_spc f) = 16 \<and> unat (fr_len f) < 1048576 \<or> unat (fr_spc f) = 64"
      unfolding spc_eq cluster_size_for_def by (auto simp: word_less_nat_alt not_le)
    then show ?thesis using c(5,6) by auto
  qed
  with bc have "unat (fr_bitmap_clusters f) \<le> 256" by blast
  moreover have "unat (fr_upcase_clusters f) \<le> unat (fr_upcase_clusters f) * unat (fr_spc f)" using spc(2) by simp
  ultimately show ?thesis using c(3) spc(4) by linarith
qed

lemma format_cluster_lba_nat:
  assumes "sound f" and c: "2 \<le> unat c" "unat c < unat (fr_clusters f) + 2"
  shows "unat (format_cluster_lba 1 (fr_heap f) (fr_spc f) c) = 1 + unat (fr_heap f) + (unat c - 2) * unat (fr_spc f)"
    and "(unat c - 2) * unat (fr_spc f) + unat (fr_spc f) \<le> unat (fr_clusters f) * unat (fr_spc f)"
proof -
  note b = sound_clusters [OF assms(1)]
  have c2: "unat (c - 2) = unat c - 2" using c(1) by (simp add: unat_sub word_le_nat_alt)
  have "(unat c - 2 + 1) * unat (fr_spc f) \<le> unat (fr_clusters f) * unat (fr_spc f)" using c by (intro mult_le_mono1) simp
  then show le: "(unat c - 2) * unat (fr_spc f) + unat (fr_spc f) \<le> unat (fr_clusters f) * unat (fr_spc f)" by simp
  then have "unat (ucast (c - 2) * ucast (fr_spc f) :: u64) = (unat c - 2) * unat (fr_spc f)"
    using b(5,6) by (subst unat_mult_small) (simp_all add: c2)
  then show "unat (format_cluster_lba 1 (fr_heap f) (fr_spc f) c) = 1 + unat (fr_heap f) + (unat c - 2) * unat (fr_spc f)"
    unfolding format_cluster_lba_def using le b(5,6) by (simp add: unat_add_small)
qed

section \<open>A concrete plan\<close>

lemma layout_rounds_numeral:
  "layout_rounds (numeral k) l spc fat =
     (case checked_add fat_start fat of None \<Rightarrow> Inl Corrupt
      | Some heap \<Rightarrow> (case checked_sub l (ucast heap) of None \<Rightarrow> Inl Corrupt
          | Some rest \<Rightarrow>
              let clusters = ucast (rest div ucast spc) :: u32;
                  needed = ucast (div_ceil (ucast (clusters + 2) * 4 :: u64) 512) in
              if needed = fat then Inr (fat, heap, clusters) else layout_rounds (pred_numeral k) l spc needed))"
  by (simp add: numeral_eq_Suc)

lemma test_plan: "(plan 1000 :: unit error + fresh) =
   Inr \<lparr>fr_len = 999, fr_spc = 1, fr_fat = 8, fr_heap = 32, fr_clusters = 967\<rparr>"
  by (simp add: plan_def boot_sectors_def cluster_size_for_def layout_def layout_rounds_numeral fat_start_def checked_add_def
      checked_sub_def div_ceil_def fr_upcase_def fr_bitmap_clusters_def fr_upcase_clusters_def fr_bitmap_bytes_def
      fr_cluster_bytes_def of_usize_def upcase_bytes_def Let_def)

end
