(* ===== verification/Format_Correct.thy ===== *)
theory Format_Correct
  imports Format_Plan Batch_Device
begin

text \<open>
  The formatter writes exactly \<open>fresh_image\<close>: the partition table, the two boot regions with their
  checksums, the FAT, the allocation bitmap, the UpCase table and the first sector of the root
  directory, each as one run of sectors. The batches in which \<open>format.rs\<close> writes the longer runs are
  sized by the scratch buffer; \<open>stored_next\<close> joins them.
\<close>

section \<open>The image\<close>

definition boot_bytes :: "fresh \<Rightarrow> u8 list" where
  "boot_bytes f = concat (map (boot_region_sector (fr_len f) (fr_fat f) (fr_heap f) (fr_clusters f) (fr_spc f)) [0..<11])"

definition boot_sum :: "fresh \<Rightarrow> nat \<Rightarrow> u32" where
  "boot_sum f n = foldl (\<lambda>checksum i. boot_checksum_sector (i = 0) checksum
     (boot_region_sector (fr_len f) (fr_fat f) (fr_heap f) (fr_clusters f) (fr_spc f) i)) 0 [0..<n]"

definition boot_region :: "fresh \<Rightarrow> u8 list" where
  "boot_region f = boot_bytes f @ concat (replicate 128 (le32 (boot_sum f 11)))"

definition fat_bytes :: "u32 \<Rightarrow> u32 \<Rightarrow> u32 \<Rightarrow> u32 \<Rightarrow> nat \<Rightarrow> u8 list" where
  "fat_bytes bm bml up upl n = concat (map (\<lambda>i. fat_sector bm bml up upl (word_of_nat i)) [0..<n])"

definition fat_image :: "fresh \<Rightarrow> u8 list" where
  "fat_image f = fat_bytes 3 (fr_bitmap_clusters f) (fr_upcase f) (fr_upcase_clusters f) (unat (fr_fat f))"

definition bitmap_sectors :: "fresh \<Rightarrow> nat" where
  "bitmap_sectors f = ceil_div (unat (fr_bitmap_bytes f)) 512"

definition bitmap_image :: "fresh \<Rightarrow> u8 list" where
  "bitmap_image f = mark_reserved (unat (fr_reserved f)) (replicate (bitmap_sectors f * 512) 0)"

definition upcase_image :: "u8 list" where
  "upcase_image = upcase_run 0 65536"

definition upcase_sum :: u32 where
  "upcase_sum = foldl rotate_add 0 upcase_image"

definition root_image :: "fresh \<Rightarrow> u8 list" where
  "root_image f = root_sector 3 (fr_bitmap_bytes f) (fr_upcase f) upcase_sum"

definition fr_lba :: "fresh \<Rightarrow> u32 \<Rightarrow> u64" where
  "fr_lba f c = format_cluster_lba 1 (fr_heap f) (fr_spc f) c"

definition fresh_image :: "fresh \<Rightarrow> (u64 \<Rightarrow> u8 list) \<Rightarrow> u64 \<Rightarrow> u8 list" where
  "fresh_image f media =
     stored 512 (fr_lba f 2) (root_image f)
     (stored 512 (fr_lba f (fr_upcase f)) upcase_image
     (stored 512 (fr_lba f 3) (bitmap_image f)
     (stored 512 25 (fat_image f)
     (stored 512 13 (boot_region f)
     (stored 512 1 (boot_region f)
     (stored 512 0 (mbr_sector (ucast (fr_len f))) media))))))"

section \<open>Lists\<close>

lemma length_blocks: "(\<And>i. length (g i) = b) \<Longrightarrow> length (concat (map g is)) = length is * b"
  by (induction "is") simp_all

lemma slice_blocks:
  assumes "\<And>i. length (g i) = b" "i + m \<le> n"
  shows "slice (i * b) ((i + m) * b) (concat (map g [0..<n])) = concat (map (\<lambda>k. g (i + k)) [0..<m])"
proof -
  have len: "length (concat (map g is)) = length is * b" for "is" using length_blocks [OF assms(1)] .
  have "[0..<n] = [0..<i] @ map (\<lambda>k. i + k) [0..<m] @ [i + m..<n]"
  proof -
    obtain d where "n = i + m + d" using assms(2) le_Suc_ex by blast
    then show ?thesis
      using map_add_upt [of i m] upt_add_eq_append [of 0 i "m + d"] upt_add_eq_append [of i "i + m" d]
      by (simp add: add.commute add.left_commute)
  qed
  then have "concat (map g [0..<n]) = concat (map g [0..<i]) @ concat (map (\<lambda>k. g (i + k)) [0..<m]) @ concat (map g [i + m..<n])"
    by (simp add: comp_def)
  moreover have "length (concat (map (\<lambda>k. g (i + k)) [0..<m])) = m * b" using len [of "map (\<lambda>k. i + k) [0..<m]"] by (simp add: comp_def)
  ultimately show ?thesis using len [of "[0..<i]"] by (simp add: slice_def add_mult_distrib)
qed

lemma length_mark_reserved [simp]: "length (mark_reserved n bs) = length bs"
  by (induction n) (simp_all add: Let_def)

lemma mark_reserved_append: "n \<le> 8 * length xs \<Longrightarrow> mark_reserved n (xs @ ys) = mark_reserved n xs @ ys"
proof (induction n)
  case (Suc n)
  then have "n div 8 < length xs" by (simp add: less_mult_imp_div_less mult.commute)
  with Suc show ?case by (simp add: Let_def nth_append list_update_append)
qed simp

lemma length_patches:
  "\<forall>(off, field) \<in> set ps. off + length field \<le> length bs \<Longrightarrow> length (patches ps bs) = length bs"
  by (induction ps arbitrary: bs) (auto simp: patches_def)

lemma length_fat_sector: "length (fat_sector a b c d i) = 512"
  by (simp add: fat_sector_def length_concat comp_def sum_list_triv)

lemma length_mbr_sector: "length (mbr_sector n) = 512"
  unfolding mbr_sector_def by (subst length_patches) simp_all

lemma length_root_sector: "length (root_sector a b c d) = 512"
  unfolding root_sector_def by (subst length_patches) simp_all

lemma length_main_boot_sector: "length (main_boot_sector len fat heap clusters spc) = 512"
  unfolding main_boot_sector_def by (subst length_patches) (simp_all add: oem_name_def)

lemma length_boot_region_sector: "length (boot_region_sector len fat heap clusters spc i) = 512"
  by (simp add: boot_region_sector_def length_main_boot_sector)

lemma length_upcase_run: "length (upcase_run code n) = 2 * n"
  by (simp add: upcase_run_def length_concat comp_def sum_list_triv)

lemma stored_next:
  assumes "piece = slice (n * sz) ((n + m) * sz) bs" "(n + m) * sz \<le> length bs" "0 < sz" "unat lba + n < 2 ^ 64"
  shows "stored sz (lba + of_usize n) piece (stored sz lba (take (n * sz) bs) img) = stored sz lba (take ((n + m) * sz) bs) img"
proof -
  have "take ((n + m) * sz) bs = take (n * sz) bs @ piece"
    by (simp add: assms(1) slice_def add_mult_distrib take_add)
  moreover have "length (take (n * sz) bs) = n * sz" using assms(2) by (simp add: add_mult_distrib)
  ultimately show ?thesis using stored_append assms(3,4) by metis
qed

section \<open>Single sectors and boot regions\<close>

lemma below_count: "n \<le> unat (c :: u64) \<Longrightarrow> n < 2 ^ 64"
  using order.strict_trans1 [OF _ unat_u64_lt] by simp

context batch_device
begin

lemma post_write_mbr:
  assumes s: "stands 512 s0 img s" and lba: "0 < unat (sector_count_of D (device s0))"
  shows "post (write_mbr D n) s (\<lambda>_ s'. stands 512 s0 (stored 512 0 (mbr_sector n) img) s') (\<lambda>_ _. False)"
  unfolding write_mbr_def using post_put_sector [OF s length_mbr_sector, of 0 n] lba by simp

lemma post_write_boot_sectors:
  assumes s: "stands 512 s0 img s" and lba: "unat start + 11 \<le> unat (sector_count_of D (device s0))"
  shows "post (write_boot_region D start (fr_len f) (fr_fat f) (fr_heap f) (fr_clusters f) (fr_spc f)) s
    (\<lambda>r s'. r = boot_sum f 11 \<and> stands 512 s0 (stored 512 start (boot_bytes f) img) s') (\<lambda>_ _. False)"
proof -
  let ?sec = "boot_region_sector (fr_len f) (fr_fat f) (fr_heap f) (fr_clusters f) (fr_spc f)"
  let ?I = "\<lambda>k r s'. r = boot_sum f k \<and> stands 512 s0 (stored 512 start (take (k * 512) (boot_bytes f)) img) s'"
  have len: "length (boot_bytes f) = 11 * 512"
    unfolding boot_bytes_def by (subst length_blocks [OF length_boot_region_sector]) simp
  have top: "unat start + 11 < 2 ^ 64" using lba by (rule below_count)
  have step: "post (bindM (sector 512) (\<lambda>_. bindM (set_sector (?sec k)) (\<lambda>_. bindM (write_sector D (start + of_usize k) 512) (\<lambda>_.
      returnM (boot_checksum_sector (k = 0) r (?sec k)))))) s' (?I (Suc k)) (\<lambda>_ _. False)"
    if k: "k < 11" and I: "?I k r s'" for k r s'
  proof -
    have st: "stands 512 s0 (stored 512 start (take (k * 512) (boot_bytes f)) img) s'" and r: "r = boot_sum f k" using I by simp_all
    have at: "unat (start + of_usize k) = unat start + k"
      using k top by (simp add: of_usize_def unat_add_small unat_of_nat)
    have piece: "?sec k = slice (k * 512) ((k + 1) * 512) (boot_bytes f)"
      unfolding boot_bytes_def using slice_blocks [of ?sec 512 k 1 11] k by (simp add: length_boot_region_sector)
    have img: "stored 512 (start + of_usize k) (?sec k) (stored 512 start (take (k * 512) (boot_bytes f)) img) =
        stored 512 start (take (Suc k * 512) (boot_bytes f)) img"
      using stored_next [OF piece, of start img] len k top by (simp add: algebra_simps)
    have sum: "boot_checksum_sector (k = 0) (boot_sum f k) (?sec k) = boot_sum f (Suc k)" by (simp add: boot_sum_def)
    have "post (bindM (sector 512) (\<lambda>_. bindM (set_sector (?sec k)) (\<lambda>_. write_sector D (start + of_usize k) 512))) s'
      (\<lambda>_ s''. stands 512 s0 (stored 512 start (take (Suc k * 512) (boot_bytes f)) img) s'') (\<lambda>_ _. False)"
      by (rule post_put_sector [OF st, where bs = "?sec k" and lba = "start + of_usize k", unfolded img])
        (use at k lba in \<open>simp_all add: length_boot_region_sector\<close>)
    then show ?thesis unfolding r by (auto simp: sum elim!: post_mono)
  qed
  show ?thesis
    unfolding write_boot_region_def Let_def
    by (rule post_fold_m [where I = ?I]) (use step s len in \<open>simp_all del: post_bindM add: boot_sum_def\<close>)
qed

lemma post_boot_region:
  assumes s: "stands 512 s0 img s" and lba: "unat start + 12 \<le> unat (sector_count_of D (device s0))"
    and Q: "\<And>s'. stands 512 s0 (stored 512 start (boot_region f) img) s' \<Longrightarrow> post (k ()) s' Q E"
    and sum: "sum_lba = start + of_usize 11"
  shows "post (bindM (write_boot_region D start (fr_len f) (fr_fat f) (fr_heap f) (fr_clusters f) (fr_spc f)) (\<lambda>checksum.
     bindM (write_boot_checksum D sum_lba checksum) k)) s Q E"
proof -
  let ?c = "concat (replicate 128 (le32 (boot_sum f 11)))"
  have len: "length (boot_bytes f) = 11 * 512" "length ?c = 512"
    unfolding boot_bytes_def by (subst length_blocks [OF length_boot_region_sector]) (simp_all add: length_concat sum_list_replicate)
  have top: "unat start + 12 < 2 ^ 64" using lba by (rule below_count)
  have at: "unat (start + of_usize 11) = unat start + 11" using top by (simp add: of_usize_def unat_add_small)
  have img: "stored 512 (start + of_usize 11) ?c (stored 512 start (boot_bytes f) img) = stored 512 start (boot_region f) img"
    unfolding boot_region_def by (rule stored_append) (use len(1) top in simp_all)
  have chk: "post (write_boot_checksum D sum_lba (boot_sum f 11)) s' (\<lambda>_ s''. stands 512 s0 (stored 512 start (boot_region f) img) s'') (\<lambda>_ _. False)"
    if "stands 512 s0 (stored 512 start (boot_bytes f) img) s'" for s'
    unfolding write_boot_checksum_def sum
    by (rule post_put_sector [OF that, where bs = ?c and lba = "start + of_usize 11", unfolded img]) (use at lba len(2) in simp_all)
  have rest: "post (bindM (write_boot_checksum D sum_lba (boot_sum f 11)) k) s' Q E"
    if "stands 512 s0 (stored 512 start (boot_bytes f) img) s'" for s'
    unfolding post_bindM by (rule post_mono [OF chk [OF that]]) (simp add: Q, simp)
  show ?thesis
    unfolding post_bindM [of "write_boot_region _ _ _ _ _ _ _"]
    by (rule post_mono [OF post_write_boot_sectors [OF s, of start f]]) (use lba rest in \<open>simp, blast, blast\<close>)
qed

text \<open>The next batch of a run, prepared in the scratch buffer.\<close>

lemma post_write_run_next:
  assumes s: "stands 512 s0 (stored 512 lba (take (n * 512) bs) img) s"
    and piece: "piece = slice (n * 512) ((n + m) * 512) bs" "(n + m) * 512 \<le> length bs"
    and room: "unat lba + n + m \<le> unat (sector_count_of D (device s0))" "m * 512 \<le> length (scratch s0)"
  shows "post (write_run D (lba + of_usize n) piece) s
    (\<lambda>_ s'. stands 512 s0 (stored 512 lba (take ((n + m) * 512) bs) img) s') (\<lambda>_ _. False)"
proof -
  have top: "unat lba + n < 2 ^ 64" using room(1) below_count by (metis add_leE)
  then have at: "unat (lba + of_usize n) = unat lba + n" by (simp add: of_usize_def unat_add_small unat_of_nat)
  have len: "length piece = m * 512" using piece by (simp add: algebra_simps)
  note img = stored_next [OF piece, where lba = lba and img = img, OF _ top, simplified]
  note f = standsD [OF s]
  let ?s = "s\<lparr>scratch := piece @ drop (length piece) (scratch s)\<rparr>"
  have st: "stands 512 s0 (stored 512 lba (take (n * 512) bs) img) ?s"
    using f(2) room(2) len by (intro stands_scratch [OF s]) simp
  have "post (write_sectors D (lba + of_usize n) piece) ?s
      (\<lambda>_ s'. stands 512 s0 (stored 512 lba (take ((n + m) * 512) bs) img) s') (\<lambda>_ _. False)"
    using post_write_batch [OF st len, of "lba + of_usize n"] at room(1) by (simp add: img)
  moreover have "length piece \<le> length (scratch s) div 512 * 512"
    using len room(2) f(2) by (metis div_le_mono mult_le_mono1 nonzero_mult_div_cancel_right zero_neq_numeral)
  ultimately show ?thesis by (simp add: write_run_def sectors_def)
qed

text \<open>The same shape in every batched writer: \<open>n x\<close> sectors are done when the loop stands at \<open>x\<close>.\<close>

lemma post_batches:
  assumes body: "\<And>x s. I x \<Longrightarrow> stands 512 s0 (stored 512 lba (take (n x * 512) bs) img) s \<Longrightarrow>
      post (body x) s (\<lambda>r s'. case r of
          Inl x' \<Rightarrow> I x' \<and> n x < n x' \<and> stands 512 s0 (stored 512 lba (take (n x' * 512) bs) img) s'
        | Inr y \<Rightarrow> Q y \<and> stands 512 s0 (stored 512 lba bs img) s') (\<lambda>_ _. False)"
    and bound: "\<And>x. I x \<Longrightarrow> n x \<le> k" and init: "I x" "n x = 0" and s: "stands 512 s0 img s"
  shows "post (loop_m (Suc k) Diverge body x) s (\<lambda>y s'. Q y \<and> stands 512 s0 (stored 512 lba bs img) s') (\<lambda>_ _. False)"
proof (rule post_loop_m [where I = "\<lambda>x s. I x \<and> stands 512 s0 (stored 512 lba (take (n x * 512) bs) img) s"
      and \<mu> = "\<lambda>x _. k - n x"])
  fix x s assume a: "I x \<and> stands 512 s0 (stored 512 lba (take (n x * 512) bs) img) s"
  have "k - n x' < k - n x" if "I x'" "n x < n x'" for x' using bound [OF that(1)] that(2) by linarith
  with body [of x s] a show "post (body x) s (\<lambda>r s'. case r of
      Inl x' \<Rightarrow> (I x' \<and> stands 512 s0 (stored 512 lba (take (n x' * 512) bs) img) s') \<and> k - n x' < k - n x
    | Inr y \<Rightarrow> Q y \<and> stands 512 s0 (stored 512 lba bs img) s') (\<lambda>_ _. False)"
    by (elim conjE) (drule (1) meta_mp [OF meta_mp], auto elim!: post_mono split: sum.splits)
qed (use init s in simp_all)

section \<open>FAT, bitmap and UpCase table\<close>

lemma post_fat_batch:
  fixes bm bml up upl :: u32
  defines "bs n \<equiv> fat_bytes bm bml up upl n"
  assumes st: "stands 512 s0 (stored 512 25 (take (unat x * 512) (bs (unat fat_len))) img) s" and x: "x < fat_len"
    and lba: "25 + unat fat_len \<le> unat (sector_count_of D (device s0))" and small: "unat fat_len < 2 ^ 31"
    and batch: "0 < unat batch" "unat batch * 512 \<le> length (scratch s0)"
  shows "post (write_fat_batch D 1 fat_len batch (fat_sector bm bml up upl) x) s
    (\<lambda>r s'. \<exists>x'. r = Inl x' \<and> x' \<le> fat_len \<and> unat x < unat x' \<and>
       stands 512 s0 (stored 512 25 (take (unat x' * 512) (bs (unat fat_len))) img) s') (\<lambda>_ _. False)"
proof -
  let ?sec = "\<lambda>i. fat_sector bm bml up upl (word_of_nat i)" and ?bs = "bs (unat fat_len)"
  define c where "c = min (fat_len - x) batch"
  have xn: "unat x < unat fat_len" using x by (simp add: word_less_nat_alt)
  have "unat (fat_len - x) = unat fat_len - unat x" using x by (simp add: unat_sub)
  then have c: "unat c \<le> unat fat_len - unat x" "unat c \<le> unat batch" "0 < unat c"
    using xn batch unfolding c_def by (simp_all add: min_def word_le_nat_alt word_less_nat_alt)
  then have fit: "unat x + unat c \<le> unat fat_len" using xn by simp
  have xc: "unat (x + c) = unat x + unat c" using fit small by (subst unat_add_small) simp_all
  have len: "length ?bs = unat fat_len * 512"
    unfolding bs_def fat_bytes_def by (subst length_blocks [OF length_fat_sector]) simp
  have at: "1 + ucast (fat_start + x) = (25 :: u64) + of_usize (unat x)"
  proof -
    have "unat (fat_start + x) = 24 + unat x"
      using xn small unfolding fat_start_def boot_sectors_def by (subst unat_add_small) simp_all
    moreover have "unat x < 2147483648" using xn small by simp
    ultimately show ?thesis
      by (intro word_unat_eq_iff [THEN iffD2]) (simp add: unat_add_small of_usize_def)
  qed
  have piece: "concat (map (\<lambda>k. fat_sector bm bml up upl (x + word_of_nat k)) [0..<unat c]) =
      slice (unat x * 512) ((unat x + unat c) * 512) ?bs"
    unfolding bs_def fat_bytes_def
    using slice_blocks [of ?sec 512 "unat x" "unat c" "unat fat_len"] fit by (simp add: length_fat_sector)
  have m: "unat c * 512 \<le> length (scratch s0)" using c(2) batch(2) by linarith
  have "post (write_run D (25 + of_usize (unat x)) (slice (unat x * 512) ((unat x + unat c) * 512) ?bs)) s
      (\<lambda>_ s'. stands 512 s0 (stored 512 25 (take ((unat x + unat c) * 512) ?bs) img) s') (\<lambda>_ _. False)"
    by (rule post_write_run_next [OF st refl]) (use fit len lba m in simp_all)
  then show ?thesis
    using x c(3) fit
    by (auto simp: write_fat_batch_def Let_def c_def [symmetric] at piece xc word_le_nat_alt elim!: post_mono)
qed

lemma post_write_fat:
  assumes s: "stands 512 s0 img s" and lba: "25 + unat fat_len \<le> unat (sector_count_of D (device s0))"
    and small: "unat fat_len < 2 ^ 31" and buf: "length (scratch s0) < 2 ^ 32"
  shows "post (write_fat D 1 fat_len bm bml up upl) s
    (\<lambda>_ s'. stands 512 s0 (stored 512 25 (fat_bytes bm bml up upl (unat fat_len)) img) s') (\<lambda>_ _. False)"
proof -
  let ?bs = "fat_bytes bm bml up upl (unat fat_len)"
  define batch where "batch = (word_of_nat (max (length (scratch s) div 512) 1) :: u32)"
  have buf': "512 \<le> length (scratch s0)" "length (scratch s) = length (scratch s0)" using standsD [OF s] by simp_all
  then have n: "1 \<le> length (scratch s0) div 512" "length (scratch s0) div 512 < 2 ^ 32"
    using buf by (simp_all add: div_le_mono [of 512 _ 512, simplified])
  then have b: "unat batch = length (scratch s0) div 512" using buf' by (simp add: batch_def max_def unat_of_nat)
  then have batch: "0 < unat batch" "unat batch * 512 \<le> length (scratch s0)" using n by simp_all
  have len: "length ?bs = unat fat_len * 512" unfolding fat_bytes_def by (subst length_blocks [OF length_fat_sector]) simp
  have body: "post (write_fat_batch D 1 fat_len batch (fat_sector bm bml up upl) x) s' (\<lambda>r s''. case r of
      Inl x' \<Rightarrow> x' \<le> fat_len \<and> unat x < unat x' \<and> stands 512 s0 (stored 512 25 (take (unat x' * 512) ?bs) img) s''
    | Inr y \<Rightarrow> True \<and> stands 512 s0 (stored 512 25 ?bs img) s'') (\<lambda>_ _. False)"
    if x: "x \<le> fat_len" and st: "stands 512 s0 (stored 512 25 (take (unat x * 512) ?bs) img) s'" for x s'
  proof (cases "x < fat_len")
    case False
    with x have "x = fat_len" by simp
    then show ?thesis using st len by (simp add: write_fat_batch_def)
  next
    case True
    show ?thesis by (rule post_mono [OF post_fat_batch [OF st True lba small batch]]) auto
  qed
  have "post (loop_m (Suc (unat fat_len)) Diverge
        (write_fat_batch D 1 fat_len batch (fat_sector bm bml up upl)) 0) s
      (\<lambda>y s'. True \<and> stands 512 s0 (stored 512 25 ?bs img) s') (\<lambda>_ _. False)"
    by (rule post_batches [where I = "\<lambda>x. x \<le> fat_len" and n = unat]) (use body s in \<open>simp_all add: word_le_nat_alt\<close>)
  then show ?thesis by (simp add: write_fat_def batch_def)
qed

text \<open>The first batch carries the marks, the others are clear.\<close>

lemma bitmap_piece:
  assumes "r \<le> 4096" "0 < m" "n + m \<le> k"
  shows "take (m * 512) (if n = 0 then mark_reserved r (replicate (m * 512) 0 @ rest) else replicate (m * 512) 0 @ rest) =
    slice (n * 512) ((n + m) * 512) (mark_reserved r (replicate (k * 512) 0))"
proof -
  have split: "mark_reserved r (replicate (j * 512) 0) = mark_reserved r (replicate 512 0) @ replicate ((j - 1) * 512) 0"
    if "0 < j" for j
  proof -
    have "replicate (j * 512) (0 :: u8) = replicate 512 0 @ replicate ((j - 1) * 512) 0"
      using that by (cases j) (simp_all only: replicate_add [symmetric], simp_all)
    then show ?thesis using assms(1) by (simp only:) (rule mark_reserved_append, simp)
  qed
  have k: "0 < k" using assms by simp
  have "r \<le> 8 * length (replicate (m * 512) (0 :: u8))" using assms by simp
  then show ?thesis
    unfolding split [OF k] using assms split [of m]
    by (auto simp: mark_reserved_append slice_def min_def algebra_simps)
qed

lemma bind_sectors: "0 < sz \<Longrightarrow> bindM (sectors sz) f s = f (take (length (scratch s) div sz * sz) (scratch s)) s"
  by (simp add: sectors_def bindM_def getsM_def returnM_def no_panic_if_def)

lemma bind_getsM: "bindM (getsM g) f s = f (g s) s"
  by (simp add: bindM_def getsM_def)

lemma post_then:
  "post m s R (\<lambda>_ _. False) \<Longrightarrow> (\<And>x s'. R x s' \<Longrightarrow> post (k x) s' Q E) \<Longrightarrow> post (bindM m k) s Q E"
  by (auto elim: post_mono)

lemma post_cong: "m s = m' s \<Longrightarrow> post m' s Q E \<Longrightarrow> post m s Q E"
  by (simp add: post_def)

lemma post_bitmap_batch:
  assumes st: "stands 512 s0 (stored 512 start (take (n * 512) (mark_reserved r (replicate (k * 512) 0))) img) s"
    and n: "n < k" "unat left + n * 512 = unat bytes" "k = ceil_div (unat bytes) 512"
    and lba: "unat start + k \<le> unat (sector_count_of D (device s0))"
    and fit: "r \<le> 4096" "512 dvd length (scratch s0)"
  shows "post (write_bitmap_batch D start r (left, start + of_usize n)) s
    (\<lambda>res s'. \<exists>m. 0 < m \<and> n + m \<le> k \<and> res = Inl (left - min left (of_usize (m * 512)), start + of_usize (n + m)) \<and>
       stands 512 s0 (stored 512 start (take ((n + m) * 512) (mark_reserved r (replicate (k * 512) 0))) img) s') (\<lambda>_ _. False)"
proof -
  let ?bs = "mark_reserved r (replicate (k * 512) 0)"
  define nb where "nb = length (scratch s0) div 512"
  note f = standsD [OF st]
  have top: "unat start + k < 2 ^ 64" using lba by (rule below_count)
  have at: "unat (start + of_usize n) = unat start + n"
    using n(1) top by (simp add: of_usize_def unat_add_small unat_of_nat)
  have "k * 512 < unat bytes + 512" unfolding n(3) by (intro ceil_div_bounds(2)) simp
  moreover have "n * 512 + 512 \<le> k * 512" using n(1) by (metis Suc_leI add.commute mult_Suc mult_le_mono1)
  ultimately have left: "0 < left" using n(2) by (simp add: word_less_nat_alt)
  have "unat left + n * 512 + 512 - 1 = unat left + 511 + n * 512" by simp
  then have "ceil_div (unat left) 512 = k - n" by (simp add: n(3) n(2) [symmetric] ceil_div_def)
  then have want: "unat (div_ceil left 512) = k - n" by (subst unat_div_ceil) (simp_all add: ceil_div_def)
  define m where "m = min (k - n) (nb)"
  have full: "nb * 512 = length (scratch s)" "1 \<le> nb"
    using fit(2) f(2,6) by (simp_all add: nb_def div_le_mono [of 512 _ 512, simplified])
  then have m: "0 < m" "n + m \<le> k" "m \<le> nb" using n(1) by (simp_all add: m_def)
  have first: "start + of_usize n = start \<longleftrightarrow> n = 0"
    using at by (cases "n = 0") (auto simp: of_usize_def)
  have room: "m * 512 \<le> length (scratch s)" using m(3) unfolding full(1) [symmetric] by (rule mult_le_mono1)
  define buf where "buf = (if n = 0 then mark_reserved r (replicate (m * 512) 0 @ drop (m * 512) (scratch s))
     else replicate (m * 512) 0 @ drop (m * 512) (scratch s))"
  have lbuf: "length buf = length (scratch s)" using room by (simp add: buf_def)
  have st': "stands 512 s0 (stored 512 start (take (n * 512) ?bs) img) (s\<lparr>scratch := buf\<rparr>)" by (rule stands_scratch [OF st lbuf])
  have piece: "take (m * 512) buf = slice (n * 512) ((n + m) * 512) ?bs"
    unfolding buf_def by (rule bitmap_piece [OF fit(1) m(1,2)])
  have lp: "length (take (m * 512) buf) = m * 512" using lbuf room by simp
  have img: "stored 512 (start + of_usize n) (take (m * 512) buf) (stored 512 start (take (n * 512) ?bs) img) =
      stored 512 start (take ((n + m) * 512) ?bs) img"
    by (rule stored_next [OF piece]) (use m n(1) top in simp_all)
  have lens: "length (scratch s) = nb * 512" using full(1) by simp
  define l where "l = start + of_usize n"
  have run: "write_bitmap_batch D start r (left, l) s =
      bindM (no_panic_if (l = start \<longrightarrow> r \<le> length (scratch s) * 8)) (\<lambda>_.
      bindM (set_sector buf) (\<lambda>_.
      bindM (write_sectors D l (take (m * 512) buf)) (\<lambda>_.
      returnM (Inl (left - min left (of_usize (m * 512)), l + of_usize m))))) s"
    using left
    by (simp add: write_bitmap_batch_def bind_sectors Let_def buf_def m_def want first [folded l_def] lens)
  have "post (write_sectors D l (take (m * 512) buf)) (s\<lparr>scratch := buf\<rparr>)
      (\<lambda>_ s'. stands 512 s0 (stored 512 start (take ((n + m) * 512) ?bs) img) s') (\<lambda>_ _. False)"
    using post_write_batch [OF st' lp, of l] at m(2) lba unfolding img l_def by simp
  moreover have "r \<le> length (scratch s) * 8" using fit(1) full by linarith
  moreover have "l + of_usize m = start + of_usize (n + m)" by (simp add: l_def of_usize_def)
  ultimately show ?thesis
    unfolding l_def [symmetric] by - (rule post_cong, rule run, use m(1,2) lbuf in \<open>auto elim!: post_mono\<close>)
qed

lemma post_write_bitmap:
  fixes bytes :: u64
  defines "k \<equiv> ceil_div (unat bytes) 512"
  assumes s: "stands 512 s0 img s" and lba: "unat (format_cluster_lba 1 heap spc c) + k \<le> unat (sector_count_of D (device s0))"
    and fit: "unat reserved \<le> 4096" "512 dvd length (scratch s0)" and small: "unat bytes < 2 ^ 32"
  shows "post (write_bitmap D 1 heap spc c bytes reserved) s
    (\<lambda>_ s'. stands 512 s0 (stored 512 (format_cluster_lba 1 heap spc c)
       (mark_reserved (unat reserved) (replicate (k * 512) 0)) img) s') (\<lambda>_ _. False)"
proof -
  have k_eq: "k = ceil_div (unat bytes) 512" by (simp add: k_def)
  define start where "start = format_cluster_lba 1 heap spc c"
  define bs where "bs = mark_reserved (unat reserved) (replicate (k * 512) 0)"
  have k: "unat bytes \<le> k * 512" "k \<le> unat bytes"
    unfolding k_def by (rule ceil_div_bounds; simp)+
  have lba': "unat start + k \<le> unat (sector_count_of D (device s0))" using lba by (simp add: start_def)
  then have at: "unat (start + of_usize n) = unat start + n" if "n \<le> k" for n
    using that below_count [OF lba'] by (simp add: of_usize_def unat_add_small unat_of_nat)
  define I where "I = (\<lambda>(left :: u64, l). \<exists>n \<le> k. unat left = unat bytes - n * 512 \<and> l = start + of_usize n)"
  have Iat: "I (l, start + of_usize j)" if "j \<le> k" "unat l = unat bytes - j * 512" for l j
    using that by (auto simp: I_def)
  define n_of where "n_of = (\<lambda>(left :: u64, l :: u64). unat l - unat start)"
  have body: "post (write_bitmap_batch D start (unat reserved) x) s' (\<lambda>r s''. case r of
      Inl x' \<Rightarrow> I x' \<and> n_of x < n_of x' \<and> stands 512 s0 (stored 512 start (take (n_of x' * 512) bs) img) s''
    | Inr y \<Rightarrow> True \<and> stands 512 s0 (stored 512 start bs img) s'') (\<lambda>_ _. False)"
    if I: "I x" and st: "stands 512 s0 (stored 512 start (take (n_of x * 512) bs) img) s'" for x s'
  proof -
    obtain left n where x: "x = (left, start + of_usize n)" and n: "n \<le> k" "unat left = unat bytes - n * 512"
      using I by (auto simp: I_def)
    have st': "stands 512 s0 (stored 512 start (take (n * 512) bs) img) s'" using st at [OF n(1)] by (simp add: n_of_def x)
    show ?thesis
    proof (cases "n * 512 < unat bytes")
      case False
      then have "left = 0" "n = k" using n k_def ceil_div_bounds(3) [of 512 "unat bytes" n] by (simp_all add: unat_eq_0 [symmetric])
      then show ?thesis using st' by (simp add: write_bitmap_batch_def x bs_def)
    next
      case True
      then have left: "unat left + n * 512 = unat bytes" and nk: "n < k" using n k(1) by (simp_all add: le_neq_implies_less)
      have next_left: "unat (left - min left (of_usize (m * 512))) = unat bytes - (n + m) * 512" if "n + m \<le> k" for m
      proof -
        have "m * 512 < 2 ^ 64" using that k(2) small by simp
        then have "unat (of_usize (m * 512)) = m * 512" by (rule unat_of_usize)
        then show ?thesis by (simp add: min_def unat_sub word_le_nat_alt left [symmetric])
      qed
      show ?thesis
        unfolding x
        by (rule post_mono [OF post_bitmap_batch [OF st' [unfolded bs_def] nk left k_eq lba' fit]])
          (auto simp: n_of_def at n(1) next_left bs_def intro!: Iat)
    qed
  qed
  have "post (loop_m (Suc (unat bytes)) Diverge (write_bitmap_batch D start (unat reserved)) (bytes, start)) s
      (\<lambda>y s'. True \<and> stands 512 s0 (stored 512 start bs img) s') (\<lambda>_ _. False)"
    by (rule post_batches [where I = I and n = n_of, OF body]) (use s k at in \<open>auto simp: I_def n_of_def of_usize_def\<close>)
  then show ?thesis by (simp add: write_bitmap_def start_def [symmetric] bs_def Let_def)
qed

text \<open>The UpCase table: \<open>256\<close> sectors, half as many units per batch as the buffer has bytes.\<close>

lemma upcase_run_slice:
  assumes "c + m \<le> 65536"
  shows "upcase_run (word_of_nat c) m = slice (c * 2) ((c + m) * 2) upcase_image"
  unfolding upcase_image_def upcase_run_def
  using slice_blocks [of "\<lambda>i. le16 (upcase_value (ucast (0 + word_of_nat i :: u32)))" 2 c m 65536] assms by simp

lemma post_upcase_batch:
  assumes st: "stands 512 s0 (stored 512 start (take (n * 512) upcase_image) img) s" and n: "n < 256" "unat code = n * 256"
    and lba: "unat start + 256 \<le> unat (sector_count_of D (device s0))"
    and buf: "512 dvd length (scratch s0)" "length (scratch s0) < 2 ^ 32"
  shows "post (write_upcase_batch D (foldl rotate_add 0 (take (n * 512) upcase_image), code, start + of_usize n)) s
    (\<lambda>r s'. \<exists>m code'. 0 < m \<and> n + m \<le> 256 \<and> unat code' = (n + m) * 256 \<and>
       r = Inl (foldl rotate_add 0 (take ((n + m) * 512) upcase_image), code', start + of_usize (n + m)) \<and>
       stands 512 s0 (stored 512 start (take ((n + m) * 512) upcase_image) img) s') (\<lambda>_ _. False)"
proof -
  note f = standsD [OF st]
  obtain nb where nb: "length (scratch s) = nb * 512" using buf(1) f(2) by (metis dvd_div_mult_self)
  define m where "m = min (256 - n) nb"
  have nb1: "1 \<le> nb" using f(2,6) nb by (cases nb) auto
  then have m: "0 < m" "n + m \<le> 256" "m \<le> nb" using n by (simp_all add: m_def)
  have lt: "code < 65536" using n by (simp add: word_less_nat_alt)
  have left: "unat (65536 - code) = (256 - n) * 256"
    using n by (simp add: unat_sub word_le_nat_alt diff_mult_distrib)
  have half: "unat (word_of_nat (length (scratch s) div 2) :: u32) = nb * 256"
    using nb buf(2) f(2) by (subst unat_of_nat) simp
  have count: "unat (min (65536 - code) (word_of_nat (length (scratch s) div 2))) = m * 256"
    using left half by (simp add: m_def min_def word_le_nat_alt)
  have code: "code = word_of_nat (n * 256)" unfolding n(2) [symmetric] by simp
  have piece: "upcase_run code (m * 256) = slice (n * 512) ((n + m) * 512) upcase_image"
    using upcase_run_slice [of "n * 256" "m * 256"] m(2) unfolding code by (simp add: algebra_simps)
  have len: "length upcase_image = 256 * 512" by (simp add: upcase_image_def length_upcase_run)
  have sum: "foldl rotate_add (foldl rotate_add 0 (take (n * 512) upcase_image)) (slice (n * 512) ((n + m) * 512) upcase_image) =
      foldl rotate_add 0 (take ((n + m) * 512) upcase_image)"
    unfolding foldl_append [symmetric] by (simp add: slice_def take_add add_mult_distrib)
  have "m * 512 \<le> length (scratch s0)" using m(3) nb f(2) by simp
  then have "post (write_run D (start + of_usize n) (slice (n * 512) ((n + m) * 512) upcase_image)) s
      (\<lambda>_ s'. stands 512 s0 (stored 512 start (take ((n + m) * 512) upcase_image) img) s') (\<lambda>_ _. False)"
    by (intro post_write_run_next [OF st refl]) (use m(2) len lba in simp_all)
  moreover have run: "write_upcase_batch D (foldl rotate_add 0 (take (n * 512) upcase_image), code, start + of_usize n) s =
      bindM (write_run D (start + of_usize n) (slice (n * 512) ((n + m) * 512) upcase_image)) (\<lambda>_.
      returnM (Inl (foldl rotate_add 0 (take ((n + m) * 512) upcase_image), code + word_of_nat (m * 256), start + of_usize (n + m)))) s"
  proof -
    have "m * 256 * 2 div 512 = m" "start + of_usize n + of_usize m = start + of_usize (n + m)" by (simp_all add: of_usize_def)
    then show ?thesis
      by (simp only: write_upcase_batch_def prod.case Let_def lt not_True_eq_False if_False bind_getsM count piece sum)
  qed
  moreover have "unat (code + word_of_nat (m * 256)) = (n + m) * 256"
  proof -
    have "unat (word_of_nat (m * 256) :: u32) = m * 256" using m(2) by (subst unat_of_nat) simp
    then show ?thesis using n(2) m(2) by (subst unat_add_small) (simp_all del: of_nat_mult)
  qed
  ultimately show ?thesis
    by - (rule post_cong, rule run, unfold post_bindM post_returnM, erule post_mono, use m(1,2) in blast)
qed

lemma post_write_upcase:
  assumes s: "stands 512 s0 img s"
    and lba: "unat (format_cluster_lba 1 heap spc c) + 256 \<le> unat (sector_count_of D (device s0))"
    and buf: "512 dvd length (scratch s0)" "length (scratch s0) < 2 ^ 32"
  shows "post (write_upcase D 1 heap spc c) s
    (\<lambda>r s'. r = upcase_sum \<and> stands 512 s0 (stored 512 (format_cluster_lba 1 heap spc c) upcase_image img) s') (\<lambda>_ _. False)"
proof -
  define start where "start = format_cluster_lba 1 heap spc c"
  have lba': "unat start + 256 \<le> unat (sector_count_of D (device s0))" using lba by (simp add: start_def)
  have at: "unat (start + of_usize n) = unat start + n" if "n \<le> 256" for n
    using that below_count [OF lba'] by (simp add: of_usize_def unat_add_small unat_of_nat)
  define I where "I = (\<lambda>(sm, code :: u32, l). \<exists>n \<le> 256. sm = foldl rotate_add 0 (take (n * 512) upcase_image) \<and>
    unat code = n * 256 \<and> l = start + of_usize n)"
  define n_of where "n_of = (\<lambda>(sm :: u32, code :: u32, l :: u64). unat l - unat start)"
  have Iat: "I (sm, code, start + of_usize j)"
    if "j \<le> 256" "sm = foldl rotate_add 0 (take (j * 512) upcase_image)" "unat code = j * 256" for sm code j
    using that by (auto simp: I_def)
  have body: "post (write_upcase_batch D x) s' (\<lambda>r s''. case r of
      Inl x' \<Rightarrow> I x' \<and> n_of x < n_of x' \<and> stands 512 s0 (stored 512 start (take (n_of x' * 512) upcase_image) img) s''
    | Inr y \<Rightarrow> y = upcase_sum \<and> stands 512 s0 (stored 512 start upcase_image img) s'') (\<lambda>_ _. False)"
    if I: "I x" and st: "stands 512 s0 (stored 512 start (take (n_of x * 512) upcase_image) img) s'" for x s'
  proof -
    obtain code n where x: "x = (foldl rotate_add 0 (take (n * 512) upcase_image), code, start + of_usize n)"
      and n: "n \<le> 256" "unat code = n * 256"
      using I by (auto simp: I_def)
    have st': "stands 512 s0 (stored 512 start (take (n * 512) upcase_image) img) s'"
      using st at [OF n(1)] by (simp add: n_of_def x)
    show ?thesis
    proof (cases "n < 256")
      case False
      then have "n = 256" using n(1) by simp
      then show ?thesis
        using st' n(2)
        by (simp add: write_upcase_batch_def x word_less_nat_alt upcase_sum_def upcase_image_def length_upcase_run)
    next
      case True
      show ?thesis
        unfolding x
        by (rule post_mono [OF post_upcase_batch [OF st' True n(2) lba' buf]]) (auto simp: n_of_def at n(1) intro!: Iat)
    qed
  qed
  have "post (loop_m (Suc 65536) Diverge (write_upcase_batch D) (0, 0, start)) s
      (\<lambda>y s'. y = upcase_sum \<and> stands 512 s0 (stored 512 start upcase_image img) s') (\<lambda>_ _. False)"
    by (rule post_batches [where I = I and n = n_of, OF body]) (use s at in \<open>auto simp: I_def n_of_def of_usize_def\<close>)
  moreover have "65537 = Suc 65536" by simp
  ultimately show ?thesis by (simp only: write_upcase_def start_def [symmetric])
qed

end

section \<open>Where the areas lie\<close>

lemma fresh_areas:
  assumes f: "sound f"
  shows "unat (fr_lba f 2) = 1 + unat (fr_heap f)"
    and "unat (fr_lba f 3) = 1 + unat (fr_heap f) + unat (fr_spc f)"
    and "unat (fr_lba f (fr_upcase f)) = 1 + unat (fr_heap f) + unat (fr_spc f) + unat (fr_bitmap_clusters f) * unat (fr_spc f)"
    and "0 < bitmap_sectors f" "bitmap_sectors f \<le> unat (fr_bitmap_clusters f) * unat (fr_spc f)"
    and "unat (fr_heap f) + unat (fr_spc f) + unat (fr_bitmap_clusters f) * unat (fr_spc f) + 256 \<le> unat (fr_len f)"
    and "unat (fr_fat f) < 2 ^ 31" "unat (fr_bitmap_bytes f) < 2 ^ 32"
proof -
  note spc = sound_spc [OF f] and b = sound_clusters [OF f]
  have cl: "0 < unat (fr_clusters f)" and fat: "unat (fr_fat f) = ceil_div ((unat (fr_clusters f) + 2) * 4) 512"
    using f by (simp_all add: sound_def)
  have uc: "0 < unat (fr_upcase_clusters f)" using spc(4) by (cases "unat (fr_upcase_clusters f)") simp_all
  have r: "1 + unat (fr_bitmap_clusters f) + unat (fr_upcase_clusters f) \<le> unat (fr_clusters f)" using b(3,4) by simp
  show "unat (fr_lba f 2) = 1 + unat (fr_heap f)"
    unfolding fr_lba_def using cl by (subst format_cluster_lba_nat [OF f]) simp_all
  show "unat (fr_lba f 3) = 1 + unat (fr_heap f) + unat (fr_spc f)"
    unfolding fr_lba_def using r uc by (subst format_cluster_lba_nat [OF f]) simp_all
  show "unat (fr_lba f (fr_upcase f)) = 1 + unat (fr_heap f) + unat (fr_spc f) + unat (fr_bitmap_clusters f) * unat (fr_spc f)"
    unfolding fr_lba_def using r uc b(2) by (subst format_cluster_lba_nat [OF f]) simp_all
  have "(1 + unat (fr_bitmap_clusters f) + unat (fr_upcase_clusters f)) * unat (fr_spc f) \<le> unat (fr_clusters f) * unat (fr_spc f)"
    using r by (rule mult_le_mono1)
  then show "unat (fr_heap f) + unat (fr_spc f) + unat (fr_bitmap_clusters f) * unat (fr_spc f) + 256 \<le> unat (fr_len f)"
    using b(5) spc(4) by (simp add: algebra_simps)
  have bytes: "unat (fr_bitmap_bytes f) = ceil_div (unat (fr_clusters f)) 8" by (rule fr_bitmap_bytes_nat)
  then have pos: "0 < unat (fr_bitmap_bytes f)" using ceil_div_bounds(4) [OF _ cl, of 8] by simp
  then show "0 < bitmap_sectors f" unfolding bitmap_sectors_def by (intro ceil_div_bounds(4)) simp_all
  have "unat (fr_bitmap_bytes f) \<le> unat (fr_bitmap_clusters f) * (512 * unat (fr_spc f))"
    unfolding fr_clusters_nat(1) [OF spc(3,2)] bytes using spc(2) by (intro ceil_div_bounds(1)) simp
  then show "bitmap_sectors f \<le> unat (fr_bitmap_clusters f) * unat (fr_spc f)"
    unfolding bitmap_sectors_def by (intro ceil_div_bounds(3)) (simp_all add: mult_ac)
  show "unat (fr_fat f) < 2 ^ 31"
    unfolding fat by (rule order.strict_trans1 [OF ceil_div_bounds(3) [where n = "2 ^ 25"]]) (use b(1) in simp_all)
  show "unat (fr_bitmap_bytes f) < 2 ^ 32"
    unfolding bytes by (rule order.strict_trans1 [OF ceil_div_bounds(3) [where n = "2 ^ 29"]]) (use b(1) in simp_all)
qed

section \<open>The whole formatter\<close>

context batch_device
begin

lemma post_write_root:
  assumes s: "stands 512 s0 img s" and f: "sound f" and lba: "1 + unat (fr_len f) \<le> unat (sector_count_of D (device s0))"
  shows "post (write_root D 1 (fr_heap f) 3 (fr_bitmap_bytes f) (fr_upcase f) upcase_sum) s
    (\<lambda>_ s'. stands 512 s0 (stored 512 (fr_lba f 2) (root_image f) img) s') (\<lambda>_ _. False)"
proof -
  have at: "format_cluster_lba 1 (fr_heap f) 1 2 = fr_lba f 2" by (simp add: fr_lba_def format_cluster_lba_def)
  show ?thesis
    unfolding write_root_def at root_image_def
    by (rule post_put_sector [OF s length_root_sector]) (use fresh_areas [OF f] lba in simp_all)
qed

lemma post_write_fresh:
  assumes s: "stands 512 s0 img s" and f: "sound f" and lba: "1 + unat (fr_len f) \<le> unat (sector_count_of D (device s0))"
    and buf: "512 dvd length (scratch s0)" "length (scratch s0) < 2 ^ 32"
  shows "post (write_fresh D f) s (\<lambda>_ s'. stands 512 s0 (fresh_image f img) s') (\<lambda>_ _. False)"
proof -
  note a = fresh_areas [OF f] and b = sound_clusters [OF f] and r = sound_reserved [OF f]
  have "25 + unat (fr_fat f) \<le> unat (sector_count_of D (device s0))" and long: "536 \<le> unat (fr_len f)"
    using a lba b f by (simp_all add: sound_def)
  note fat = post_write_fat [OF _ this(1) a(7) buf(2)]
  have bm: "unat (format_cluster_lba 1 (fr_heap f) (fr_spc f) 3) + ceil_div (unat (fr_bitmap_bytes f)) 512
      \<le> unat (sector_count_of D (device s0))"
    using a(2,5,6) lba by (simp add: fr_lba_def bitmap_sectors_def)
  have up: "unat (format_cluster_lba 1 (fr_heap f) (fr_spc f) (fr_upcase f)) + 256 \<le> unat (sector_count_of D (device s0))"
    using a(3,6) lba by (simp add: fr_lba_def)
  show ?thesis
    unfolding write_fresh_def write_volume_def fresh_image_def fat_image_def bitmap_image_def bitmap_sectors_def fr_reserved_def [symmetric]
    by (rule post_then [OF post_write_mbr [OF s]], use long lba in simp,
        rule post_boot_region, assumption, use long lba in simp,
        rule post_boot_region, assumption, use long lba in simp,
        rule post_then [OF fat], assumption,
        rule post_then [OF post_write_bitmap [OF _ bm r buf(1) a(8)]], assumption,
        rule post_then [OF post_write_upcase [OF _ up buf]], assumption,
        elim conjE, hypsubst, rule post_then [OF post_write_root [OF _ f lba]], assumption,
        rule post_mono [OF post_flush_total], assumption)
      (simp_all add: fr_lba_def of_usize_def)
qed

lemma post_format:
  fixes s :: "('d, 'x) io_scheme"
  assumes ok: "io_ok D invar 512 s" and buf: "512 dvd length (scratch s)" "length (scratch s) < 2 ^ 32"
    and f: "(plan (sector_count_of D (device s)) :: 'e error + fresh) = Inr f"
  shows "post (format_exfat D) s (\<lambda>_ s'. stands 512 s (fresh_image f (media (device s))) s') (\<lambda>_ _. False)"
proof -
  have size: "sector_size_of D (device s) = 512" "\<not> length (scratch s) < 512" using ok by (simp_all add: io_ok_def)
  note p = plan_sound [OF f]
  then have "536 \<le> unat (fr_len f)" by (simp add: sound_def)
  then have lba: "1 + unat (fr_len f) \<le> unat (sector_count_of D (device s))" using p by simp
  show ?thesis
    unfolding format_exfat_plan using post_write_fresh [OF stands_refl [OF ok] _ lba buf] p by (simp add: size f)
qed

end

section \<open>Properties\<close>

text \<open>A card of 1000 sectors full of ones, and a scratch buffer of two sectors.\<close>

definition fresh_card :: "(u8 list list, unit) io_scheme" where
  "fresh_card = \<lparr>device = replicate 1000 (replicate 512 0xFF), scratch = replicate 1024 0\<rparr>"

lemma fresh_card_ok:
  "io_ok mem_ops mem_ok 512 fresh_card" "512 dvd length (scratch fresh_card)" "length (scratch fresh_card) < 2 ^ 32"
  "sector_count_of mem_ops (device fresh_card) = 1000"
  by (simp_all add: io_ok_def fresh_card_def mem_ok_def)

text \<open>
  C15: The formatter does what it plans, or nothing. On a device that completes every access in range, with
  a scratch buffer of whole sectors, \<open>format_exfat\<close> first computes a plan from the device's size. If
  there is none it fails with the plan's error and has not written. Otherwise the plan is sound (the
  areas fit, nothing wraps), the formatter completes, and the medium is its old content overwritten
  by exactly the partition table, the two boot regions, the FAT, the bitmap, the UpCase table and the
  root directory, however the batches fall.
\<close>
theorem format_exfat_correct:
  fixes D :: "('d, 'e) device_ops" and s :: "('d, 'x) io_scheme"
  assumes "batch_device D media invar" "io_ok D invar 512 s" "512 dvd length (scratch s)" "length (scratch s) < 2 ^ 32"
  shows "case plan (sector_count_of D (device s)) :: 'e error + fresh of
      Inl e \<Rightarrow> format_exfat D s = (Inl (Error e), s)
    | Inr f \<Rightarrow> sound f \<and> (\<exists>s'. format_exfat D s = (Inr (), s') \<and> media (device s') = fresh_image f (media (device s)) \<and>
        io.more s' = io.more s)"
proof (cases "plan (sector_count_of D (device s)) :: 'e error + fresh")
  case (Inl e)
  have "sector_size_of D (device s) = 512" "\<not> length (scratch s) < 512" using assms(2) by (simp_all add: io_ok_def)
  then have "format_exfat D s = (Inl (Error e), s)"
    unfolding format_exfat_plan using Inl
    by (simp add: bindM_def getsM_def require_def returnM_def from_result_def fail_def throwM_def)
  with Inl show ?thesis by simp
next
  case (Inr f)
  from batch_device.post_format [OF assms(1-4) Inr] have "\<exists>s'. format_exfat D s = (Inr (), s') \<and>
      media (device s') = fresh_image f (media (device s)) \<and> io.more s' = io.more s"
    by (cases "format_exfat D s"; cases "fst (format_exfat D s)")
      (auto simp: post_def dest: batch_device.standsD [OF assms(1)])
  with Inr plan_sound [OF Inr] show ?thesis by simp
qed

theorem format_exfat_correct_witness:
  "\<exists>f s'. format_exfat mem_ops fresh_card = (Inr (), s') \<and>
    mem_media (device s') = fresh_image f (mem_media (device fresh_card)) \<and> unat (fr_clusters f) = 967"
  using format_exfat_correct [OF mem_batch.batch_device_axioms fresh_card_ok(1-3), unfolded fresh_card_ok(4) test_plan sum.case]
  by (intro exI [of _ "\<lparr>fr_len = 999, fr_spc = 1, fr_fat = 8, fr_heap = 32, fr_clusters = 967\<rparr>"]) auto

end
