(* ===== verification/Format_Mount.thy ===== *)
theory Format_Mount
  imports Format_Correct Mount
begin

text \<open>
  A freshly formatted medium mounts: every structure \<open>Volume::mount\<close> looks for is found on
  \<open>fresh_image\<close>, and what it reports is the volume the formatter laid out.
\<close>

section \<open>Sectors of the image\<close>

lemma image_lengths:
  "length (boot_region f) = 12 * 512" "length (fat_image f) = unat (fr_fat f) * 512"
  "length (bitmap_image f) = bitmap_sectors f * 512" "length upcase_image = 256 * 512" "length (root_image f) = 512"
proof -
  show "length (boot_region f) = 12 * 512"
    unfolding boot_region_def boot_bytes_def length_append
    by (subst length_blocks [OF length_boot_region_sector]) (simp add: length_concat sum_list_replicate)
  show "length (fat_image f) = unat (fr_fat f) * 512"
    unfolding fat_image_def fat_bytes_def by (subst length_blocks [OF length_fat_sector]) simp
qed (simp_all add: bitmap_image_def upcase_image_def length_upcase_run root_image_def length_root_sector)

lemma stored_in:
  "length bs = n * sz \<Longrightarrow> 0 < sz \<Longrightarrow> unat lba \<le> unat l \<Longrightarrow> unat l < unat lba + n \<Longrightarrow>
    stored sz lba bs media l = slice ((unat l - unat lba) * sz) ((unat l - unat lba) * sz + sz) bs"
  by (simp add: stored_def)

lemma stored_out:
  "length bs = n * sz \<Longrightarrow> 0 < sz \<Longrightarrow> unat l < unat lba \<or> unat lba + n \<le> unat l \<Longrightarrow> stored sz lba bs media l = media l"
  by (rule stored_outside) simp

text \<open>Where a sector of each area comes from; the areas do not overlap.\<close>

lemma image_outer:
  assumes f: "sound f" and l: "unat l \<le> unat (fr_heap f)"
  shows "fresh_image f m l = stored 512 25 (fat_image f) (stored 512 13 (boot_region f) (stored 512 1 (boot_region f)
     (stored 512 0 (mbr_sector (ucast (fr_len f))) m))) l"
proof -
  note a = fresh_areas [OF f] and b = sound_clusters [OF f]
  note out = stored_out [OF image_lengths(3)] stored_out [OF image_lengths(4)]
  have root: "stored 512 (fr_lba f 2) (root_image f) h l = h l" for h
    by (rule stored_out [where n = 1]) (use a(1) l image_lengths(5) in simp_all)
  show ?thesis
    unfolding fresh_image_def root by (subst out; use a(2,3) l in simp)+
qed

lemma image_mbr: "sound f \<Longrightarrow> fresh_image f m 0 = mbr_sector (ucast (fr_len f))"
  using image_lengths(1,2) [of f]
  by (subst image_outer) (simp_all add: stored_out [where n = 12] stored_out [where n = "unat (fr_fat f)"] stored_sector length_mbr_sector)

lemma image_boot:
  assumes f: "sound f" and i: "i < 12"
  shows "fresh_image f m (1 + of_usize i) = slice (i * 512) (i * 512 + 512) (boot_region f)"
proof -
  have at: "unat (1 + of_usize i) = 1 + i" using i by (simp add: of_usize_def unat_add_small unat_of_nat)
  have "unat (fr_heap f) = 24 + unat (fr_fat f)" using sound_clusters [OF f] by blast
  then show ?thesis
    using i at image_lengths(1,2) [of f]
    by (subst image_outer [OF f]) (simp_all add: stored_out [where n = 12] stored_out [where n = "unat (fr_fat f)"] stored_in [where n = 12])
qed

lemma image_boot_sector:
  assumes "sound f" "i < 11"
  shows "fresh_image f m (1 + of_usize i) = boot_region_sector (fr_len f) (fr_fat f) (fr_heap f) (fr_clusters f) (fr_spc f) i"
proof -
  let ?sec = "boot_region_sector (fr_len f) (fr_fat f) (fr_heap f) (fr_clusters f) (fr_spc f)"
  have len: "length (boot_bytes f) = 11 * 512"
    unfolding boot_bytes_def by (subst length_blocks [OF length_boot_region_sector]) simp
  have "slice (i * 512) (i * 512 + 512) (boot_region f) = slice (i * 512) ((i + 1) * 512) (boot_bytes f)"
    using assms(2) len by (simp add: boot_region_def slice_append add.commute)
  also have "\<dots> = ?sec i"
    unfolding boot_bytes_def using slice_blocks [of ?sec 512 i 1 11] assms(2) by (simp add: length_boot_region_sector)
  finally show ?thesis using image_boot [OF assms(1)] assms(2) by simp
qed

lemma image_boot_sum:
  assumes "sound f" shows "fresh_image f m 12 = concat (replicate 128 (le32 (boot_sum f 11)))"
proof -
  have len: "length (boot_bytes f) = 11 * 512"
    unfolding boot_bytes_def by (subst length_blocks [OF length_boot_region_sector]) simp
  have "length (concat (replicate 128 (le32 (boot_sum f 11)))) = 512" by (simp add: length_concat sum_list_replicate)
  then have "slice (11 * 512) (11 * 512 + 512) (boot_region f) = concat (replicate 128 (le32 (boot_sum f 11)))"
    unfolding boot_region_def slice_append using len by (simp add: slice_all slice_beyond)
  then show ?thesis using image_boot [OF assms, of 11 m] by (simp add: of_usize_def)
qed

lemma image_fat:
  assumes f: "sound f" and i: "i < unat (fr_fat f)"
  shows "fresh_image f m (25 + of_usize i) = fat_sector 3 (fr_bitmap_clusters f) (fr_upcase f) (fr_upcase_clusters f) (word_of_nat i)"
proof -
  have at: "unat (25 + of_usize i) = 25 + i"
    using i fresh_areas(7) [OF f] by (simp add: of_usize_def unat_add_small unat_of_nat)
  have heap: "unat (fr_heap f) = 24 + unat (fr_fat f)" using sound_clusters [OF f] by blast
  have "fresh_image f m (25 + of_usize i) = slice (i * 512) (i * 512 + 512) (fat_image f)"
    using i at heap image_lengths(2) [of f]
    by (subst image_outer [OF f]) (simp_all add: stored_in [where n = "unat (fr_fat f)"])
  then show ?thesis
    using slice_blocks [where b = 512 and i = i and m = 1 and n = "unat (fr_fat f)" and
        g = "\<lambda>i. fat_sector 3 (fr_bitmap_clusters f) (fr_upcase f) (fr_upcase_clusters f) (word_of_nat i)"] i
    by (simp add: fat_image_def fat_bytes_def length_fat_sector add.commute)
qed

lemma image_root: "sound f \<Longrightarrow> fresh_image f m (fr_lba f 2) = root_image f"
  unfolding fresh_image_def by (simp add: stored_sector image_lengths)

lemma image_upcase:
  assumes f: "sound f" and i: "i < 256"
  shows "fresh_image f m (fr_lba f (fr_upcase f) + of_usize i) = slice (i * 512) (i * 512 + 512) upcase_image"
proof -
  note a = fresh_areas [OF f] and b = sound_clusters [OF f] and s = sound_spc [OF f]
  have at: "unat (fr_lba f (fr_upcase f) + of_usize i) = unat (fr_lba f (fr_upcase f)) + i"
    using i a(3,6) b(6) by (simp add: of_usize_def unat_add_small unat_of_nat)
  show ?thesis
    unfolding fresh_image_def using at a(1,3) s(2) i image_lengths(4,5)
    by (subst stored_out [where n = 1]) (simp_all add: stored_in [where n = 256])
qed

lemma image_bitmap:
  assumes f: "sound f" and i: "i < bitmap_sectors f"
  shows "fresh_image f m (fr_lba f 3 + of_usize i) = slice (i * 512) (i * 512 + 512) (bitmap_image f)"
proof -
  note a = fresh_areas [OF f] and b = sound_clusters [OF f] and s = sound_spc [OF f]
  have at: "unat (fr_lba f 3 + of_usize i) = unat (fr_lba f 3) + i"
    using i a(2,5,6) b(6) by (simp add: of_usize_def unat_add_small unat_of_nat)
  show ?thesis
    unfolding fresh_image_def using at a(1,2,3,5) s(2) i image_lengths(3) [of f] image_lengths(4) image_lengths(5) [of f]
    by (subst stored_out [where n = 1], simp_all, subst stored_out [where n = 256], simp_all)
      (simp add: stored_in [where n = "bitmap_sectors f"])
qed

section \<open>What the sectors say\<close>

definition fresh_partition :: "fresh \<Rightarrow> Partition" where
  "fresh_partition f = \<lparr>first_lba = 1, sector_count = fr_len f\<rparr>"

definition fresh_geometry :: "fresh \<Rightarrow> Geometry" where
  "fresh_geometry f = \<lparr>partition_of = fresh_partition f, bytes_per_sector = 512, sectors_per_cluster = fr_spc f,
     fat_offset = 24, fat_length = fr_fat f, number_of_fats = 1, active_fat = 0, cluster_heap_offset = fr_heap f,
     cluster_count = fr_clusters f, root_cluster = 2\<rparr>"

lemma patch_blank: "patch off bs (replicate n x) = replicate (min off n) x @ bs @ replicate (n - (off + length bs)) x"
  by (simp add: patch_def min.commute)

lemma patch_append:
  "length xs \<le> off \<Longrightarrow> patch off bs (xs @ ys) = xs @ patch (off - length xs) bs ys"
  by (simp add: patch_def)

lemma patch_Cons: "0 < off \<Longrightarrow> patch off bs (x # xs) = x # patch (off - 1) bs xs"
  by (cases off) (simp_all add: patch_def)

lemmas patch_layout = patches_def patch_blank patch_append patch_Cons

lemma mbr_sector_flat:
  "mbr_sector n = replicate 450 0 @ [7] @ replicate 3 0 @ le32 1 @ le32 n @ replicate 48 0 @ [0x55, 0xAA]"
  by (simp add: mbr_sector_def patch_layout)

lemma main_boot_sector_flat:
  "main_boot_sector len fat heap clusters spc =
     [0xEB, 0x76, 0x90] @ oem_name @ replicate 53 0 @ le64 1 @ le64 len @ le32 24 @ le32 fat @ le32 heap @ le32 clusters @
     le32 2 @ le32 0x54455359 @ le16 0x0100 @ replicate 2 0 @ [9, word_of_nat (trailing_zeros spc), 1, 0x80] @
     replicate 8 0 @ replicate 390 0xF4 @ [0x55, 0xAA]"
  by (simp add: main_boot_sector_def patch_layout oem_name_def fat_start_def boot_sectors_def)

lemma root_sector_flat:
  "root_sector bm bytes up chk = [0x81] @ replicate 19 0 @ le32 bm @ le64 bytes @ [0x82] @ replicate 3 0 @ le32 chk @
     replicate 12 0 @ le32 up @ le64 upcase_bytes @ replicate 448 0"
  by (simp add: root_sector_def patch_layout)

lemma mbr_sector_parses:
  "\<not> has_protective_mbr (mbr_sector n)"
  "n \<noteq> 0 \<Longrightarrow> (mbr_partition (mbr_sector n) :: 'e error + Partition) = Inr \<lparr>first_lba = 1, sector_count = ucast n\<rparr>"
proof -
  have rows: "chunks_exact 16 (slice 446 510 (mbr_sector n)) =
      [replicate 4 0 @ [7] @ replicate 3 0 @ le32 1 @ le32 n, replicate 16 0, replicate 16 0, replicate 16 0]"
    by (simp add: mbr_sector_flat slice_parts chunks_exact.simps)
  then show "\<not> has_protective_mbr (mbr_sector n)"
    by (simp add: has_protective_mbr_def nth_append)
  show "(mbr_partition (mbr_sector n) :: 'e error + Partition) = Inr \<lparr>first_lba = 1, sector_count = ucast n\<rparr>" if "n \<noteq> 0"
  proof -
    have "(ucast n :: u64) \<noteq> 0" using that by (metis unat_0 unat_ucast_u32_u64 unat_eq_0)
    then show ?thesis
      unfolding mbr_partition_def rows
      by (simp add: length_mbr_sector slice_parts nth_append Let_def) (simp add: mbr_sector_flat nth_append)
  qed
qed

lemma trailing_zeros_spc:
  assumes "sound f" shows "push_bit (unat (word_of_nat (trailing_zeros (fr_spc f)) :: u8)) 1 = fr_spc f" "trailing_zeros (fr_spc f) \<le> 6"
proof -
  have "fr_spc f \<in> {1, 16, 64}" using assms cluster_size_cases by (simp add: sound_def)
  moreover have "trailing_zeros 1 = 0" "trailing_zeros 16 = 4" "trailing_zeros 64 = 6"
    by (simp_all add: trailing_zeros_def upt_rec bit_numeral_rec)
  ultimately show "push_bit (unat (word_of_nat (trailing_zeros (fr_spc f)) :: u8)) 1 = fr_spc f" "trailing_zeros (fr_spc f) \<le> 6" by auto
qed

lemma checked_add_intro: "unat a + unat b = unat c \<Longrightarrow> checked_add a b = Some c" for a b c :: "'a::len word"
  by (metis checked_add_def unat_add_small unsigned_less word_unat_eq_iff)

lemma checked_mul_intro: "unat a * unat b = unat c \<Longrightarrow> checked_mul a b = Some c" for a b c :: "'a::len word"
  by (metis checked_mul_def unat_mult_small unsigned_less word_unat_eq_iff)

text \<open>The sums and products of \<open>parse_boot\<close> on the fields of a sound plan.\<close>

lemma sound_parse_sums:
  assumes f: "sound f"
  shows "Option.bind (checked_mul (ucast (fr_fat f)) (ucast (1 :: u8))) (checked_add (24 :: u64)) = Some (ucast (fr_heap f))"
    and "\<exists>n. Option.bind (checked_add (ucast (fr_clusters f) :: u64) 2) (\<lambda>e. checked_mul e 4) = Some n \<and>
      div_ceil n (of_usize 512) = ucast (fr_fat f)"
    and "\<exists>h. checked_add (ucast (fr_heap f)) (ucast (fr_clusters f) * ucast (fr_spc f)) = Some h \<and> h \<le> fr_len f"
proof -
  note b = sound_clusters [OF f] and s = sound_spc [OF f]
  have fat: "unat (fr_fat f) = ceil_div ((unat (fr_clusters f) + 2) * 4) 512" using f by (simp add: sound_def)
  have "checked_mul (ucast (fr_fat f)) (ucast (1 :: u8)) = Some (ucast (fr_fat f) :: u64)"
    by (rule checked_mul_intro) simp
  moreover have "checked_add 24 (ucast (fr_fat f)) = Some (ucast (fr_heap f) :: u64)"
    by (rule checked_add_intro) (simp add: b(7))
  ultimately show "Option.bind (checked_mul (ucast (fr_fat f)) (ucast (1 :: u8))) (checked_add (24 :: u64)) = Some (ucast (fr_heap f))"
    by simp
  define n2 :: u64 where "n2 = word_of_nat (unat (fr_clusters f) + 2)"
  define n :: u64 where "n = word_of_nat ((unat (fr_clusters f) + 2) * 4)"
  have n2: "unat n2 = unat (fr_clusters f) + 2" unfolding n2_def by (subst unat_of_nat) (use b(1) in simp)
  have n: "unat n = (unat (fr_clusters f) + 2) * 4" unfolding n_def by (subst unat_of_nat) (use b(1) in simp)
  have "checked_add (ucast (fr_clusters f) :: u64) 2 = Some n2" by (rule checked_add_intro) (simp add: n2)
  moreover have "checked_mul n2 4 = Some n" by (rule checked_mul_intro) (simp add: n n2)
  moreover have "div_ceil n (of_usize 512) = ucast (fr_fat f)"
    unfolding word_unat_eq_iff by (subst unat_div_ceil) (simp_all add: n fat ceil_div_def of_usize_def)
  ultimately show "\<exists>n. Option.bind (checked_add (ucast (fr_clusters f) :: u64) 2) (\<lambda>e. checked_mul e 4) = Some n \<and>
      div_ceil n (of_usize 512) = ucast (fr_fat f)" by simp
  have prod: "unat (ucast (fr_clusters f) * ucast (fr_spc f) :: u64) = unat (fr_clusters f) * unat (fr_spc f)"
    by (subst unat_mult_small) (use b(5,6) in simp_all)
  define h :: u64 where "h = word_of_nat (unat (fr_heap f) + unat (fr_clusters f) * unat (fr_spc f))"
  have h: "unat h = unat (fr_heap f) + unat (fr_clusters f) * unat (fr_spc f)"
    unfolding h_def by (subst unat_of_nat) (use b(5,6) in simp)
  have "checked_add (ucast (fr_heap f)) (ucast (fr_clusters f) * ucast (fr_spc f)) = Some h"
    by (rule checked_add_intro) (simp add: h prod)
  then show "\<exists>h. checked_add (ucast (fr_heap f)) (ucast (fr_clusters f) * ucast (fr_spc f)) = Some h \<and> h \<le> fr_len f"
    using h b(5) by (simp add: word_le_nat_alt)
qed

lemma le16_version: "le16 0x0100 = [0, 1]"
proof -
  have "le16 w = [ucast w, ucast (drop_bit 8 w)]" for w unfolding le16_def numeral_2_eq_2 le_bytes.simps ..
  then show ?thesis by (simp add: drop_bit_eq_div)
qed

lemma boot_sector_parses:
  assumes f: "sound f"
  shows "(parse_boot (fresh_partition f) (main_boot_sector (fr_len f) (fr_fat f) (fr_heap f) (fr_clusters f) (fr_spc f)) 512
     :: 'e error + Geometry) = Inr (fresh_geometry f)"
proof -
  note b = sound_clusters [OF f] and s = sound_spc [OF f]
  let ?sec = "main_boot_sector (fr_len f) (fr_fat f) (fr_heap f) (fr_clusters f) (fr_spc f)"
  have pos: "0 < unat (fr_clusters f)" "536 \<le> unat (fr_len f)"
    and fat: "unat (fr_fat f) = ceil_div ((unat (fr_clusters f) + 2) * 4) 512" using f by (simp_all add: sound_def)
  define shift where "shift = (word_of_nat (trailing_zeros (fr_spc f)) :: u8)"
  have shift: "push_bit (unat shift) 1 = fr_spc f" "unat shift \<le> 6"
    using trailing_zeros_spc [OF f] by (simp_all add: shift_def unat_of_nat)
  have len: "length ?sec = 512" by (rule length_main_boot_sector)
  have nth: "?sec ! 510 = 0x55" "?sec ! 511 = 0xAA" "?sec ! 105 = 1" "?sec ! 104 = 0" "?sec ! 112 = 0" "?sec ! 108 = 9"
    "?sec ! 109 = shift" "?sec ! 110 = 1"
    by (simp_all add: main_boot_sector_flat oem_name_def nth_append shift_def le16_version)
  have sl: "slice 3 11 ?sec = oem_name" "slice 0 3 ?sec = [0xEB, 0x76, 0x90]" "slice 11 64 ?sec = replicate 53 0"
    "slice 113 120 ?sec = replicate 7 0" "le_u32 (slice 80 84 ?sec) = 24" "le_u32 (slice 84 88 ?sec) = fr_fat f"
    "le_u32 (slice 88 92 ?sec) = fr_heap f" "le_u32 (slice 92 96 ?sec) = fr_clusters f" "le_u32 (slice 96 100 ?sec) = 2"
    "le_u64 (slice 72 80 ?sec) = fr_len f"
    by (simp_all add: main_boot_sector_flat oem_name_def slice_parts)
  obtain n h where n: "Option.bind (checked_add (ucast (fr_clusters f) :: u64) 2) (\<lambda>e. checked_mul e 4) = Some n"
      "div_ceil n (of_usize 512) = ucast (fr_fat f)"
    and h: "checked_add (ucast (fr_heap f)) (ucast (fr_clusters f) * ucast (fr_spc f)) = Some h" "h \<le> fr_len f"
    using sound_parse_sums(2,3) [OF f] by blast
  have nz: "fr_fat f \<noteq> 0" "fr_clusters f \<noteq> 0" "fr_len f \<noteq> 0" "\<not> saturating_add (fr_clusters f) 2 \<le> 2" "24 + unat (fr_fat f) \<le> unat (fr_heap f)"
    using pos b(1,7) ceil_div_bounds(4) [of 512 "(unat (fr_clusters f) + 2) * 4"] fat
    by (auto simp: saturating_add_def word_le_nat_alt unat_add_small)
  show ?thesis
    unfolding parse_boot_def len nth sl
    using shift n h nz sound_parse_sums(1) [OF f]
    by (simp add: Let_def fresh_geometry_def fresh_partition_def list_ex_iff not_less)
qed

lemma wf_fresh_geometry:
  assumes "sound f" shows "wf_geometry (fresh_geometry f)"
proof -
  have "unat (fr_len f) < 2 ^ 32" using sound_clusters [OF assms] by blast
  then have "unat (first_lba (fresh_partition f)) + unat (sector_count (fresh_partition f)) < 2 ^ 64"
    by (simp add: fresh_partition_def)
  from parse_boot_wf_geometry [OF boot_sector_parses [OF assms, where 'e = unit] this] show ?thesis by blast
qed

text \<open>The entries of the FAT: the chain of the UpCase table.\<close>

lemma fat_sector_entry:
  assumes "k < 128"
  shows "slice (k * 4) (k * 4 + 4) (fat_sector bm bml up upl i) = le32 (fat_value bm bml up upl (i * 128 + word_of_nat k))"
proof -
  have "slice (k * 4) ((k + 1) * 4) (fat_sector bm bml up upl i) =
      concat (map (\<lambda>j. le32 (fat_value bm bml up upl (i * 128 + word_of_nat (k + j)))) [0..<1])"
    unfolding fat_sector_def by (rule slice_blocks) (use assms in simp_all)
  then show ?thesis by (simp add: add.commute)
qed

lemma image_fat_entry:
  assumes f: "sound f" and c: "unat c < unat (fr_clusters f) + 2"
  shows "slice (unat c mod 128 * 4) (unat c mod 128 * 4 + 4) (fresh_image f m (25 + of_usize (unat c div 128))) =
    le32 (fat_value 3 (fr_bitmap_clusters f) (fr_upcase f) (fr_upcase_clusters f) c)"
proof -
  have "unat (fr_fat f) = ceil_div ((unat (fr_clusters f) + 2) * 4) 512" using f by (simp add: sound_def)
  then have "(unat (fr_clusters f) + 2) * 4 \<le> unat (fr_fat f) * 512" using ceil_div_bounds(1) [of 512] by simp
  then have "unat c div 128 < unat (fr_fat f)" using c by (intro less_mult_imp_div_less) simp
  moreover have "(word_of_nat (unat c div 128) * 128 + word_of_nat (unat c mod 128) :: u32) = c"
  proof -
    have "(word_of_nat (unat c div 128) * 128 + word_of_nat (unat c mod 128) :: u32) =
        word_of_nat (unat c div 128 * 128 + unat c mod 128)"
      unfolding of_nat_add of_nat_mult by simp
    also have "\<dots> = c" unfolding div_mult_mod_eq by simp
    finally show ?thesis .
  qed
  ultimately show ?thesis using image_fat [OF f] by (simp add: fat_sector_entry)
qed

section \<open>Mounting it\<close>

context batch_device
begin

lemma post_load_total:
  assumes "reading sz s0 s" "unat lba < unat (sector_count_of D (device s0))"
    and "\<And>s'. reading sz s0 s' \<Longrightarrow> post (f (media (device s0) lba)) s' Q E"
  shows "post (bindM (read_sector D lba sz) (\<lambda>_. bindM (sector sz) f)) s Q E"
proof -
  have ok: "io_ok D invar sz s" and lba: "lba < sector_count_of D (device s)"
    using readingD [OF assms(1)] assms(2) by (simp_all add: word_less_nat_alt)
  have "post (read_sector D lba sz) s (\<lambda>_ s'. reading sz s0 s' \<and> take sz (scratch s') = media (device s0) lba) (\<lambda>_ _. False)"
    by (rule post_mono [OF post_conj [OF post_read_reading [OF assms(1)] post_read_sector_total [OF ok lba]]]) auto
  then show ?thesis unfolding post_bindM by (rule post_mono) (use assms(3) in \<open>auto dest: readingD(6)\<close>)
qed

lemma post_load_slice_total:
  assumes "reading sz s0 s" "unat lba < unat (sector_count_of D (device s0))" and "a \<le> b" "b \<le> sz"
    and "\<And>s'. reading sz s0 s' \<Longrightarrow> post (f (slice a b (media (device s0) lba))) s' Q E"
  shows "post (bindM (read_sector D lba sz) (\<lambda>_. bindM (sector_slice sz a b) f)) s Q E"
proof -
  have "bindM (sector_slice sz a b) f = bindM (sector sz) (\<lambda>bs. bindM (no_panic_if (a \<le> b \<and> b \<le> sz)) (\<lambda>_. f (slice a b bs)))"
    by (auto simp: sector_slice_def bindM_def returnM_def fun_eq_iff split: prod.splits sum.splits)
  then show ?thesis using assms(3-5) by (simp only:) (rule post_load_total [OF assms(1,2)], simp)
qed

text \<open>\<open>fresh_at s0 f\<close>: the medium of \<open>s0\<close> is the image of the plan \<open>f\<close>, and the device holds all of it.\<close>

definition fresh_at :: "('d, 'x) io_scheme \<Rightarrow> fresh \<Rightarrow> bool" where
  "fresh_at s0 f \<longleftrightarrow> sound f \<and> (\<exists>m. media (device s0) = fresh_image f m) \<and>
     1 + unat (fr_len f) \<le> unat (sector_count_of D (device s0))"

lemma fresh_atD:
  assumes "fresh_at s0 f"
  shows "sound f" "536 \<le> unat (fr_len f)" "1 + unat (fr_len f) \<le> unat (sector_count_of D (device s0))"
    "media (device s0) 0 = mbr_sector (ucast (fr_len f))"
    "i < 11 \<Longrightarrow> media (device s0) (1 + of_usize i) =
       boot_region_sector (fr_len f) (fr_fat f) (fr_heap f) (fr_clusters f) (fr_spc f) i"
    "media (device s0) 12 = concat (replicate 128 (le32 (boot_sum f 11)))"
    "media (device s0) (fr_lba f 2) = root_image f"
    "j < 256 \<Longrightarrow> media (device s0) (fr_lba f (fr_upcase f) + of_usize j) = slice (j * 512) (j * 512 + 512) upcase_image"
  using assms image_mbr image_boot_sector image_boot_sum image_root image_upcase
  by (auto simp: fresh_at_def sound_def)

lemma post_mount_partition_fresh:
  assumes f: "fresh_at s0 f" and r: "reading 512 s0 s"
  shows "post (mount_partition D 512) s (\<lambda>part s'. reading 512 s0 s' \<and> part = fresh_partition f) (\<lambda>_ _. False)"
proof -
  note d = fresh_atD [OF f] and len = sound_clusters(6) [OF fresh_atD(1) [OF f]]
  have u: "unat (ucast (fr_len f) :: u32) = unat (fr_len f)" using len by (simp add: unat_ucast_down_small)
  then have nz: "(ucast (fr_len f) :: u32) \<noteq> 0" using d(2) by (metis unat_0 not_numeral_le_zero)
  have whole: "ucast (ucast (fr_len f) :: u32) = fr_len f" using u by (simp add: word_unat_eq_iff)
  have fits: "\<not> (sector_count_of D (device s0) \<le> 1 \<or> sector_count_of D (device s0) - 1 < fr_len f)"
    using d(2,3) by (simp add: word_le_nat_alt word_less_nat_alt unat_sub)
  show ?thesis
    unfolding mount_partition_def
    by (rule post_load_total [OF r])
      (use d(2,3) fits in \<open>simp_all add: d(4) mbr_sector_parses nz whole fresh_partition_def readingD(5)\<close>)
qed

lemma fresh_boot_region_ok: "fresh_at s0 f \<Longrightarrow> boot_region_ok (media (device s0)) (fresh_partition f) 0"
proof -
  assume f: "fresh_at s0 f"
  note d = fresh_atD [OF f]
  have sum: "boot_region_checksum (media (device s0)) (fresh_partition f) 0 = boot_sum f 11"
    unfolding boot_region_checksum_def boot_sum_def fresh_partition_def
    by (rule foldl_cong) (use d(5) in simp_all)
  have "chunks_exact 4 (concat (replicate 128 (le32 (boot_sum f 11)))) = replicate 128 (le32 (boot_sum f 11))"
    by (rule chunks_exact_concat) simp_all
  then show ?thesis
    unfolding boot_region_ok_def sum using d(2,6) by (simp add: fresh_partition_def list_all_iff word_le_nat_alt)
qed

lemma post_mount_boot_fresh:
  assumes f: "fresh_at s0 f" and r: "reading 512 s0 s"
  shows "post (mount_boot_offset D (fresh_partition f) 512) s (\<lambda>off s'. reading 512 s0 s' \<and> off = 0) (\<lambda>_ _. False)"
proof -
  note d = fresh_atD [OF f]
  let ?m = "media (device s0)" and ?p = "fresh_partition f"
  have room: "\<not> sector_count ?p < 0 + 12" "first_lba ?p = 1" "536 \<le> unat (sector_count_of D (device s0))"
    using d(2,3) by (simp_all add: fresh_partition_def word_less_nat_alt)
  let ?I = "\<lambda>k c s'. reading 512 s0 s' \<and>
    c = foldl (\<lambda>c i. boot_checksum_sector (i = 0) c (?m (first_lba ?p + 0 + of_usize i))) 0 [0..<k]"
  have step: "post (bindM (read_sector D (first_lba ?p + 0 + of_usize k) 512) (\<lambda>_. bindM (sector 512) (\<lambda>bytes.
      returnM (boot_checksum_sector (k = 0) c bytes)))) s' (?I (Suc k)) (\<lambda>_ _. False)"
    if "k < 11" "?I k c s'" for k c s'
  proof (rule post_load_total)
    have "unat (1 + of_usize k) = 1 + k" using that(1) by (simp add: of_usize_def unat_add_small unat_of_nat)
    then show "unat (first_lba ?p + 0 + of_usize k) < unat (sector_count_of D (device s0))"
      using room that(1) by simp
  qed (use that in \<open>simp_all del: upt_Suc add: upt_Suc_append\<close>)
  have sum: "post (fold_m [0..<11] (\<lambda>i c. bindM (read_sector D (first_lba ?p + 0 + of_usize i) 512) (\<lambda>_.
      bindM (sector 512) (\<lambda>bytes. returnM (boot_checksum_sector (i = 0) c bytes)))) 0) s
      (\<lambda>c s'. reading 512 s0 s' \<and> c = boot_region_checksum ?m ?p 0) (\<lambda>_ _. False)"
    by (rule post_fold_m [where I = ?I]) (use step r in \<open>simp_all del: upt_Suc post_bindM add: boot_region_checksum_def\<close>)
  have words: "post (bindM (read_sector D (first_lba ?p + 0 + 11) 512) (\<lambda>_. bindM (sector 512) (\<lambda>bytes.
      if list_ex (\<lambda>word. le_u32 word \<noteq> boot_region_checksum ?m ?p 0) (chunks_exact 4 bytes)
      then fail InvalidBootSector else returnM ()))) s' (\<lambda>_. reading 512 s0) (\<lambda>_ _. False)"
    if "reading 512 s0 s'" for s'
    using that room fresh_boot_region_ok [OF f]
    by (intro post_load_total) (auto simp: boot_region_ok_def list_ex_iff list_all_iff)
  have "post (validate_boot_checksum D ?p 0 512) s (\<lambda>_. reading 512 s0) (\<lambda>_ _. False)"
    unfolding validate_boot_checksum_def if_not_P [OF room(1)]
    by (rule post_then [OF sum]) (elim conjE, hypsubst, erule words)
  then show ?thesis unfolding mount_boot_offset_def post_bindM post_attempt by (rule post_mono) simp_all
qed

end

definition fresh_bitmap :: "fresh \<Rightarrow> AllocationBitmap" where
  "fresh_bitmap f = \<lparr>ab_first_cluster = 3, ab_byte_length = fr_bitmap_bytes f\<rparr>"

definition fresh_upcase :: "fresh \<Rightarrow> UpCaseTable" where
  "fresh_upcase f = \<lparr>ut_checksum = upcase_sum, ut_first_cluster = fr_upcase f, ut_byte_length = upcase_bytes\<rparr>"

definition fresh_volume :: "fresh \<Rightarrow> Volume" where
  "fresh_volume f = \<lparr>vol_geometry = fresh_geometry f, vol_bitmap = fresh_bitmap f, vol_upcase = fresh_upcase f,
     vol_upcase_valid = True, vol_label = empty_label\<rparr>"

lemma in_heap_fresh:
  assumes "sound f" shows "in_heap (fresh_geometry f) c \<longleftrightarrow> 2 \<le> unat c \<and> unat c < unat (fr_clusters f) + 2"
proof -
  have "unat (saturating_add (fr_clusters f) 2) = unat (fr_clusters f) + 2"
    using sound_clusters(1) [OF assms] by (simp add: saturating_add_def unat_add_small)
  then show ?thesis by (simp add: in_heap_def fresh_geometry_def word_le_nat_alt word_less_nat_alt)
qed

lemma cluster_lba_fresh:
  "sound f \<Longrightarrow> 2 \<le> unat c \<Longrightarrow> unat c < unat (fr_clusters f) + 2 \<Longrightarrow> cluster_lba (fresh_geometry f) c = Some (fr_lba f c)"
  unfolding cluster_lba_def
  by (simp add: in_heap_fresh) (simp add: fresh_geometry_def fresh_partition_def fr_lba_def format_cluster_lba_def)

lemma root_rows:
  "\<exists>rest. chunks_exact 32 (root_image f) =
     ([0x81] @ replicate 19 0 @ le32 3 @ le64 (fr_bitmap_bytes f)) #
     ([0x82] @ replicate 3 0 @ le32 upcase_sum @ replicate 12 0 @ le32 (fr_upcase f) @ le64 upcase_bytes) #
     replicate 32 0 # rest"
  (is "\<exists>rest. _ = ?a # ?b # _ # rest")
proof -
  have "root_image f = ?a @ ?b @ replicate 32 0 @ replicate 416 0"
    by (simp add: root_image_def root_sector_flat replicate_add [symmetric])
  then show ?thesis by (simp add: chunks_exact.simps)
qed

lemma root_entries_fresh:
  "root_entries (fresh_geometry f) (chunks_exact 32 (root_image f)) (None, None, empty_label) =
     (Inr (Inr (Some (fresh_bitmap f), Some (fresh_upcase f), empty_label)) :: 'e error + _)"
proof -
  obtain rest where rows: "chunks_exact 32 (root_image f) =
     ([0x81] @ replicate 19 0 @ le32 3 @ le64 (fr_bitmap_bytes f)) #
     ([0x82] @ replicate 3 0 @ le32 upcase_sum @ replicate 12 0 @ le32 (fr_upcase f) @ le64 upcase_bytes) #
     replicate 32 0 # rest" using root_rows by blast
  show ?thesis
    unfolding rows
    by (simp add: root_entry_def fresh_geometry_def slice_parts nth_append fresh_bitmap_def fresh_upcase_def)
qed

lemma fat_value_upcase:
  assumes f: "sound f" and c: "unat c = unat (fr_upcase f) + j"
  shows "Suc j < unat (fr_upcase_clusters f) \<Longrightarrow>
    unat (fat_value 3 (fr_bitmap_clusters f) (fr_upcase f) (fr_upcase_clusters f) c) = unat (fr_upcase f) + Suc j"
proof -
  assume j: "Suc j < unat (fr_upcase_clusters f)"
  note b = sound_clusters [OF f]
  have up: "unat (fr_upcase f + fr_upcase_clusters f) = unat (fr_upcase f) + unat (fr_upcase_clusters f)"
    and nxt: "unat (c + 1) = unat c + 1" using b(1,2,3,4) c j by (simp_all add: unat_add_small)
  have "3 \<le> unat c" using c b(2) by simp
  then have "c \<noteq> 0" "c \<noteq> 1" "c \<noteq> 2" by auto
  moreover have "\<not> c < 3 + fr_bitmap_clusters f" using c by (simp add: fr_upcase_def [symmetric] word_less_nat_alt)
  moreover have "fr_upcase f \<le> c" "c < fr_upcase f + fr_upcase_clusters f" "c + 1 < fr_upcase f + fr_upcase_clusters f"
    using c j by (simp_all add: word_le_nat_alt word_less_nat_alt up nxt)
  ultimately show ?thesis using nxt c by (simp add: fat_value_def)
qed

context batch_device
begin

lemma post_discover_fresh:
  assumes f: "fresh_at s0 f" and r: "reading 512 s0 s"
  shows "post (discover_root_system_entries D (fresh_geometry f)) s
    (\<lambda>x s'. reading 512 s0 s' \<and> x = (fresh_bitmap f, fresh_upcase f, empty_label)) (\<lambda>_ _. False)"
proof -
  note d = fresh_atD [OF f] and a = fresh_areas [OF fresh_atD(1) [OF f]]
  let ?g = "fresh_geometry f"
  have cl: "0 < unat (fr_clusters f)" using d(1) by (simp add: sound_def)
  have lba: "cluster_lba ?g 2 = Some (fr_lba f 2)" using cl by (intro cluster_lba_fresh [OF d(1)]) simp_all
  have idx: "[0..<unat (sectors_per_cluster ?g)] = 0 # [1..<unat (fr_spc f)]"
    using sound_spc(2) [OF d(1)] by (simp add: fresh_geometry_def upt_rec)
  have size: "unat (bytes_per_sector ?g) = 512" "root_cluster ?g = 2" "unat (cluster_count ?g) = Suc (unat (fr_clusters f) - 1)"
    using cl by (simp_all add: fresh_geometry_def)
  have at: "unat (fr_lba f 2 + of_usize 0) < unat (sector_count_of D (device s0))"
    using a(1,6) d(3) by (simp add: of_usize_def)
  have scan: "post (root_cluster_scan D ?g (2, None, None, empty_label)) s
      (\<lambda>x s'. reading 512 s0 s' \<and> x = Inr (Some (fresh_bitmap f), Some (fresh_upcase f), empty_label)) (\<lambda>_ _. False)"
    unfolding root_cluster_scan_def prod.case Let_def lba size idx for_m.simps bindM_simps
    by (subst post_bindM, subst post_bindM, rule post_load_total [OF r at])
      (simp add: of_usize_def d(7) root_entries_fresh)
  show ?thesis
    unfolding discover_root_system_entries_def size loop_m.simps
    by (rule post_then, rule post_then [OF scan]) auto
qed

lemma post_next_fresh:
  assumes f: "fresh_at s0 f" and r: "reading 512 s0 s" and c: "unat c < unat (fr_clusters f) + 2"
  shows "post (next_cluster_on D (fresh_geometry f) c) s
    (\<lambda>(n, _, _) s'. reading 512 s0 s' \<and> n = fat_value 3 (fr_bitmap_clusters f) (fr_upcase f) (fr_upcase_clusters f) c) (\<lambda>_ _. False)"
proof -
  note d = fresh_atD [OF f]
  let ?g = "fresh_geometry f"
  obtain m where m: "media (device s0) = fresh_image f m" using f by (auto simp: fresh_at_def)
  obtain l where l: "fat_lba_for_byte ?g (fat_byte c) = Some l" "unat l = 25 + unat c div 128"
      "unat l < 1 + unat (fr_heap f)"
    using fat_lba_Some [OF wf_fresh_geometry [OF d(1)], of c] c
    by (auto simp: fresh_geometry_def fresh_partition_def)
  have "unat c div 128 < 2 ^ 32" by (rule le_less_trans [OF div_le_dividend]) simp
  then have "l = 25 + of_usize (unat c div 128)"
    using l(2) by (simp add: word_unat_eq_iff of_usize_def unat_add_small unat_of_nat)
  then have entry: "slice (unat c mod 128 * 4) (unat c mod 128 * 4 + 4) (media (device s0) l) =
      le32 (fat_value 3 (fr_bitmap_clusters f) (fr_upcase f) (fr_upcase_clusters f) c)"
    using image_fat_entry [OF d(1) c] m by simp
  have "as_usize (fat_byte c) mod 512 = unat c mod 128 * 4" by (simp add: as_usize_mod unat_fat_byte mult_mod_left)
  moreover have "unat c mod 128 < 128" by simp
  then have "unat c mod 128 * 4 + 4 \<le> 512" by linarith
  ultimately have off: "as_usize (fat_byte c) mod 512 = unat c mod 128 * 4" "unat c mod 128 * 4 + 4 \<le> 512" .
  have lba: "unat l < unat (sector_count_of D (device s0))" using l(3) d(3) sound_clusters(5) [OF d(1)] by simp
  have size: "unat (bytes_per_sector ?g) = 512" by (simp add: fresh_geometry_def)
  show ?thesis
    unfolding next_cluster_on_def Let_def l(1) size bindM_simps off(1)
    by (simp only: HOL.simp_thms bindM_simps numeral_neq_zero, rule post_load_slice_total [OF r lba]) (use off entry in simp_all)
qed

text \<open>The table is read sector by sector; \<open>n\<close> sectors in, this much is left and summed up.\<close>

definition upcase_acc :: "nat \<Rightarrow> u64 \<times> u32" where
  "upcase_acc n = (of_usize ((256 - n) * 512), foldl rotate_add 0 (take (n * 512) upcase_image))"

lemma post_upcase_sectors:
  assumes f: "fresh_at s0 f" and r: "reading 512 s0 s" and n: "n + k \<le> 256"
  shows "post (fold_m [0..<k] (upcase_sector D 512 (fr_lba f (fr_upcase f) + of_usize n)) (upcase_acc n)) s
    (\<lambda>acc s'. reading 512 s0 s' \<and> acc = upcase_acc (n + k)) (\<lambda>_ _. False)"
proof -
  note d = fresh_atD [OF f] and a = fresh_areas [OF fresh_atD(1) [OF f]] and b = sound_clusters [OF fresh_atD(1) [OF f]]
  have step: "post (upcase_sector D 512 (fr_lba f (fr_upcase f) + of_usize n) i (upcase_acc (n + i))) s'
      (\<lambda>acc s''. reading 512 s0 s'' \<and> acc = upcase_acc (n + Suc i)) (\<lambda>_ _. False)"
    if i: "i < k" and r': "reading 512 s0 s'" for i s'
  proof -
    have lba: "fr_lba f (fr_upcase f) + of_usize n + of_usize i = fr_lba f (fr_upcase f) + of_usize (n + i)"
      by (simp add: of_usize_def)
    have at: "unat (fr_lba f (fr_upcase f) + of_usize (n + i)) = unat (fr_lba f (fr_upcase f)) + (n + i)"
      using i n a(3,6) b(6) by (simp add: of_usize_def unat_add_small unat_of_nat del: of_nat_add)
    have left: "unat (of_usize ((256 - (n + i)) * 512)) = (256 - (n + i)) * 512" by (rule unat_of_usize) simp
    have nz: "of_usize ((256 - (n + i)) * 512) \<noteq> 0" using left i n by (intro notI) simp
    have cnt: "min (unat (of_usize ((256 - (n + i)) * 512))) 512 = 512" using left i n by simp
    have "of_usize ((256 - (n + i)) * 512) - of_usize 512 = of_usize ((256 - (n + Suc i)) * 512)"
    proof -
      have "(256 - (n + i)) * 512 = (256 - (n + Suc i)) * 512 + 512" using i n by simp
      then show ?thesis by (simp only: of_usize_def of_nat_add) simp
    qed
    moreover have "foldl rotate_add (foldl rotate_add 0 (take ((n + i) * 512) upcase_image))
        (slice ((n + i) * 512) ((n + i) * 512 + 512) upcase_image) = foldl rotate_add 0 (take ((n + Suc i) * 512) upcase_image)"
    proof -
      have "(n + Suc i) * 512 = (n + i) * 512 + 512" by simp
      then show ?thesis unfolding foldl_append [symmetric] by (simp only: slice_def take_add add_diff_cancel_left')
    qed
    moreover have "length (slice ((n + i) * 512) ((n + i) * 512 + 512) upcase_image) = 512"
      using i n by (subst length_slice) (simp_all add: image_lengths)
    ultimately show ?thesis
      unfolding upcase_sector_def upcase_acc_def prod.case lba if_not_P [OF nz] Let_def cnt
      by (intro post_load_total [OF r']) (use at a(3,6) d(3,8) i n r' in simp_all)
  qed
  show ?thesis
    by (rule post_fold_m [where I = "\<lambda>i acc s'. reading 512 s0 s' \<and> acc = upcase_acc (n + i)"]) (use step r in simp_all)
qed

lemma post_upcase_cluster_fresh:
  fixes f j
  defines "n \<equiv> j * unat (fr_spc f)"
  assumes f: "fresh_at s0 f" and r: "reading 512 s0 s" and j: "j < unat (fr_upcase_clusters f)" "unat c = unat (fr_upcase f) + j"
  shows "post (upcase_cluster D (fresh_geometry f) (c, upcase_acc n)) s
    (\<lambda>res s'. reading 512 s0 s' \<and> (if Suc j < unat (fr_upcase_clusters f)
       then \<exists>c'. unat c' = unat (fr_upcase f) + Suc j \<and> res = Inl (c', upcase_acc (n + unat (fr_spc f)))
       else res = Inr upcase_sum)) (\<lambda>_ _. False)"
proof -
  note d = fresh_atD [OF f] and b = sound_clusters [OF fresh_atD(1) [OF f]] and s = sound_spc [OF fresh_atD(1) [OF f]]
  let ?spc = "unat (fr_spc f)" and ?g = "fresh_geometry f"
  have c: "2 \<le> unat c" "unat c < unat (fr_clusters f) + 2" using j b(2,3,4) by simp_all
  have stop: "n + ?spc = Suc j * ?spc" by (simp add: n_def)
  have le: "n + ?spc \<le> 256" unfolding stop s(4) [symmetric] by (rule mult_le_mono1) (use j(1) in simp)
  have fin: "n + ?spc = 256 \<longleftrightarrow> \<not> Suc j < unat (fr_upcase_clusters f)"
    unfolding stop s(4) [symmetric] mult_cancel2 using j(1) s(2) by linarith
  have lba: "cluster_lba ?g c = Some (fr_lba f (fr_upcase f) + of_usize n)"
  proof -
    have "unat (fr_lba f c) = unat (fr_lba f (fr_upcase f)) + n"
      using format_cluster_lba_nat(1) [OF d(1) c] fresh_areas(3) [OF d(1)] j(2) b(2)
      by (simp add: fr_lba_def n_def algebra_simps)
    moreover have "unat (fr_lba f (fr_upcase f) + of_usize n) = unat (fr_lba f (fr_upcase f)) + n"
      using le fresh_areas(3,6) [OF d(1)] b(6) by (simp add: of_usize_def unat_add_small unat_of_nat)
    ultimately have "fr_lba f c = fr_lba f (fr_upcase f) + of_usize n" by (simp add: word_unat_eq_iff)
    then show ?thesis using cluster_lba_fresh [OF d(1) c] by simp
  qed
  have fold: "post (fold_m [0..<?spc] (upcase_sector D 512 (fr_lba f (fr_upcase f) + of_usize n)) (upcase_acc n)) s
      (\<lambda>acc s'. reading 512 s0 s' \<and> acc = upcase_acc (n + ?spc)) (\<lambda>_ _. False)"
    by (rule post_upcase_sectors [OF f r le])
  have acc: "upcase_acc (n + ?spc) = (of_usize ((256 - (n + ?spc)) * 512), foldl rotate_add 0 (take ((n + ?spc) * 512) upcase_image))"
    by (simp add: upcase_acc_def)
  have size: "unat (bytes_per_sector ?g) = 512" "unat (sectors_per_cluster ?g) = ?spc" by (simp_all add: fresh_geometry_def)
  show ?thesis
  proof (cases "Suc j < unat (fr_upcase_clusters f)")
    case False
    with fin have "upcase_acc (n + ?spc) = (0, upcase_sum)"
      by (simp add: upcase_acc_def upcase_sum_def of_usize_def image_lengths)
    then show ?thesis
      unfolding upcase_cluster_def prod.case Let_def lba bindM_simps size
      by (intro post_then [OF fold]) (use False in auto)
  next
    case True
    define v where "v = fat_value 3 (fr_bitmap_clusters f) (fr_upcase f) (fr_upcase_clusters f) c"
    have v: "unat v = unat (fr_upcase f) + Suc j"
      unfolding v_def using fat_value_upcase [OF d(1) j(2)] True by simp
    then have heap: "in_heap ?g v" using True b(2,3,4) by (simp add: in_heap_fresh [OF d(1)])
    have "unat (of_usize ((256 - (n + ?spc)) * 512)) = (256 - (n + ?spc)) * 512" by (rule unat_of_usize) simp
    then have nz: "of_usize ((256 - (n + ?spc)) * 512) \<noteq> 0" using True fin le by (intro notI) simp
    show ?thesis
      unfolding upcase_cluster_def prod.case Let_def lba bindM_simps size
      by (intro post_then [OF fold], elim conjE, hypsubst, subst acc, simp only: prod.case nz if_False,
          rule post_then [OF post_next_fresh [OF f _ c(2)]], assumption)
        (use True heap v in \<open>auto simp: v_def [symmetric] acc\<close>)
  qed
qed

lemma post_validate_upcase_fresh:
  assumes f: "fresh_at s0 f" and r: "reading 512 s0 s"
  shows "post (validate_upcase_table D (fresh_geometry f) (fresh_upcase f)) s (\<lambda>_ s'. reading 512 s0 s') (\<lambda>_ _. False)"
proof -
  note d = fresh_atD [OF f] and b = sound_clusters [OF fresh_atD(1) [OF f]] and s = sound_spc [OF fresh_atD(1) [OF f]]
  let ?g = "fresh_geometry f" and ?u = "unat (fr_upcase f)"
  have uc: "0 < unat (fr_upcase_clusters f)" using s(4) by (cases "unat (fr_upcase_clusters f)") simp_all
  let ?I = "\<lambda>(c, acc) s'. \<exists>j. j < unat (fr_upcase_clusters f) \<and> unat c = ?u + j \<and> acc = upcase_acc (j * unat (fr_spc f)) \<and> reading 512 s0 s'"
  let ?\<mu> = "\<lambda>(c, acc) s'. ?u + unat (fr_upcase_clusters f) - Suc (unat c)"
  have "post (loop_m (unat (cluster_count ?g)) (Error Corrupt) (upcase_cluster D ?g) (fr_upcase f, upcase_acc 0)) s
      (\<lambda>y s'. reading 512 s0 s' \<and> y = upcase_sum) (\<lambda>_ _. False)"
  proof (rule post_loop_m [where I = ?I and \<mu> = ?\<mu>])
    fix x :: "u32 \<times> u64 \<times> u32" and s' assume I: "?I x s'"
    then obtain c j where x: "x = (c, upcase_acc (j * unat (fr_spc f)))" and j: "j < unat (fr_upcase_clusters f)" "unat c = ?u + j"
      and r': "reading 512 s0 s'" by auto
    show "post (upcase_cluster D ?g x) s' (\<lambda>r s''. case r of Inl x' \<Rightarrow> ?I x' s'' \<and> ?\<mu> x' s'' < ?\<mu> x s'
        | Inr y \<Rightarrow> reading 512 s0 s'' \<and> y = upcase_sum) (\<lambda>_ _. False)"
      unfolding x
      by (rule post_mono [OF post_upcase_cluster_fresh [OF f r' j]])
        (use j in \<open>auto split: if_splits intro: exI [of _ "Suc j"] simp: add.commute\<close>)
  next
    show "?I (fr_upcase f, upcase_acc 0) s" using uc r by auto
    show "?\<mu> (fr_upcase f, upcase_acc 0) s < unat (cluster_count ?g)" using uc b(3,4) by (simp add: fresh_geometry_def)
  qed
  moreover have "upcase_acc 0 = (upcase_bytes, 0)" by (simp add: upcase_acc_def of_usize_def upcase_bytes_def)
  moreover have "\<not> (fr_upcase f < 2 \<or> upcase_bytes = 0)" using b(2) by (simp add: word_less_nat_alt upcase_bytes_def)
  ultimately show ?thesis
    unfolding validate_upcase_table_def by (auto simp: fresh_upcase_def elim: post_mono)
qed

lemma post_volume_mount_fresh:
  assumes f: "fresh_at s0 f" and ok: "io_ok D invar 512 s0"
  shows "post (volume_mount D) s0 (\<lambda>v s'. reading 512 s0 s' \<and> v = fresh_volume f) (\<lambda>_ _. False)"
proof -
  note d = fresh_atD [OF f]
  have size: "sector_size_of D (device s0) = 512" "\<not> length (scratch s0) < 512" using ok by (simp_all add: io_ok_def)
  have "media (device s0) (1 + of_usize 0) = main_boot_sector (fr_len f) (fr_fat f) (fr_heap f) (fr_clusters f) (fr_spc f)"
    using d(5) [of 0] by (simp add: boot_region_sector_def)
  then have boot: "(parse_boot (fresh_partition f) (media (device s0) (first_lba (fresh_partition f) + 0)) 512 :: 'e error + Geometry)
      = Inr (fresh_geometry f)"
    using boot_sector_parses [OF d(1)] by (simp add: of_usize_def fresh_partition_def)
  have lba: "unat (first_lba (fresh_partition f) + 0) < unat (sector_count_of D (device s0))"
    using d(2,3) by (simp add: fresh_partition_def)
  have meta: "post (mount_metadata D (fresh_geometry f)) s (\<lambda>v s'. reading 512 s0 s' \<and> v = fresh_volume f) (\<lambda>_ _. False)"
    if r: "reading 512 s0 s" for s
  proof -
    have "post (map_err (corrupt_as RootDirectoryCorrupt) (discover_root_system_entries D (fresh_geometry f))) s
      (\<lambda>x s'. reading 512 s0 s' \<and> x = (fresh_bitmap f, fresh_upcase f, empty_label)) (\<lambda>_ _. False)"
      unfolding map_err_def post_bindM post_attempt
      by (rule post_mono [OF post_discover_fresh [OF f r]]) auto
    then show ?thesis
      unfolding mount_metadata_def
      by (rule post_then, elim conjE, hypsubst, unfold prod.case post_bindM post_attempt)
        (rule post_mono [OF post_validate_upcase_fresh [OF f]], auto simp: fresh_volume_def)
  qed
  have parsed: "bindM (map_err (corrupt_as BootGeometryCorrupt) (from_result (parse_boot (fresh_partition f)
      (media (device s0) (first_lba (fresh_partition f) + 0)) 512 :: 'e error + Geometry))) (mount_metadata D) =
      mount_metadata D (fresh_geometry f)"
    unfolding boot by (simp add: map_err_def from_result_def attempt_def bindM_def returnM_def fun_eq_iff)
  have chk: "checked_sector_size 512 = Inr 512" by (simp add: checked_sector_size_def)
  show ?thesis
    unfolding volume_mount_def
    by (simp only: post_bindM [of "getsM _"] post_getsM size chk post_bindM [of "from_result _"]
          post_from_result sum.case post_bindM [of "require _"] post_require if_False)
      (rule post_then [OF post_mount_partition_fresh [OF f reading_refl [OF ok]]], elim conjE, hypsubst,
        rule post_then [OF post_mount_boot_fresh [OF f]], assumption, elim conjE, hypsubst,
        rule post_load_total, assumption, rule lba, unfold parsed, erule meta)
qed

end

end
