(* ===== verification/Fresh_Volume.thy ===== *)
theory Fresh_Volume
  imports Format_Mount Directory_Content
begin

text \<open>
  What formatting and mounting together give. The medium and the volume of a fresh format satisfy the
  conditions under which the other theories verify the operations: a well-formed geometry, a usable
  bitmap that records its own clusters as used and all clusters behind the system files as free, and
  an empty root directory. \<open>format_then_mount\<close> joins the two programs.
\<close>

section \<open>The FAT\<close>

lemma fat_link_fresh:
  assumes f: "sound f" and c: "unat c < unat (fr_clusters f) + 2"
  shows "fat_link (fresh_image f m) (fresh_geometry f) c =
    Some (fat_value 3 (fr_bitmap_clusters f) (fr_upcase f) (fr_upcase_clusters f) c)"
proof -
  let ?g = "fresh_geometry f"
  obtain l where l: "fat_lba_for_byte ?g (fat_byte c) = Some l" "unat l = 25 + unat c div 128"
    using fat_lba_Some [OF wf_fresh_geometry [OF f], of c] c by (auto simp: fresh_geometry_def fresh_partition_def)
  have "unat c div 128 < 2 ^ 32" by (rule le_less_trans [OF div_le_dividend]) simp
  then have "l = 25 + of_usize (unat c div 128)"
    using l(2) by (simp add: word_unat_eq_iff of_usize_def unat_add_small unat_of_nat)
  moreover have "fat_pos ?g c = unat c mod 128 * 4"
    by (simp add: fat_pos_def fresh_geometry_def unat_fat_byte mult_mod_left)
  ultimately show ?thesis using image_fat_entry [OF f c] l(1) by (simp add: fat_link_def)
qed

text \<open>The chain of the bitmap.\<close>

lemma fat_value_bitmap:
  assumes f: "sound f" and c: "unat c = 3 + n" "Suc n < unat (fr_bitmap_clusters f)"
  shows "fat_value 3 (fr_bitmap_clusters f) (fr_upcase f) (fr_upcase_clusters f) c = c + 1" "unat (c + 1) = 3 + Suc n"
proof -
  note b = sound_clusters [OF f]
  have up: "unat (3 + fr_bitmap_clusters f) = 3 + unat (fr_bitmap_clusters f)" using b(2) by (simp add: fr_upcase_def)
  show nxt: "unat (c + 1) = 3 + Suc n" using b(1,3,4) c by (simp add: unat_add_small)
  have "c \<noteq> 0" "c \<noteq> 1" "c \<noteq> 2" "3 \<le> c" using c(1) by (auto simp: word_le_nat_alt)
  moreover have "c < 3 + fr_bitmap_clusters f" "c + 1 < 3 + fr_bitmap_clusters f"
    using c(2) by (simp_all add: word_less_nat_alt up nxt c(1))
  ultimately show "fat_value 3 (fr_bitmap_clusters f) (fr_upcase f) (fr_upcase_clusters f) c = c + 1" by (simp add: fat_value_def)
qed

lemma walk_bitmap:
  assumes f: "sound f" and n: "n < unat (fr_bitmap_clusters f)"
  shows "\<exists>c. walk (fresh_image f m) (fresh_geometry f) 3 n = Some c \<and> unat c = 3 + n"
  using n
proof (induction n)
  case (Suc n)
  note b = sound_clusters [OF f]
  from Suc obtain c where c: "walk (fresh_image f m) (fresh_geometry f) 3 n = Some c" "unat c = 3 + n" by auto
  have "unat c < unat (fr_clusters f) + 2" "in_heap (fresh_geometry f) (c + 1)"
    using b(3,4) c(2) Suc.prems fat_value_bitmap(2) [OF f c(2) Suc.prems] by (simp_all add: in_heap_fresh [OF f])
  then show ?case
    using c fat_link_fresh [OF f] fat_value_bitmap [OF f c(2) Suc.prems] by simp
qed simp

section \<open>The allocation bitmap\<close>

lemma bitmap_addr_fresh:
  assumes f: "sound f" and byte: "byte < fr_bitmap_bytes f"
  shows "bitmap_addr (fresh_image f m) (fresh_volume f) byte =
    Some (fr_lba f 3 + of_usize (unat byte div 512), unat byte mod 512)"
proof -
  note b = sound_clusters [OF f] and s = sound_spc [OF f] and a = fresh_areas [OF f]
  let ?g = "fresh_geometry f" and ?spc = "unat (fr_spc f)"
  define n where "n = unat byte div (512 * ?spc)"
  have cb: "unat (bytes_per_cluster ?g) = 512 * ?spc"
    by (simp add: unat_bytes_per_cluster [OF wf_fresh_geometry [OF f]]) (simp add: fresh_geometry_def)
  have "unat byte < unat (fr_bitmap_clusters f) * (512 * ?spc)"
  proof -
    have "unat (fr_bitmap_bytes f) \<le> unat (fr_bitmap_clusters f) * (512 * ?spc)"
      unfolding fr_clusters_nat(1) [OF s(3,2)] fr_bitmap_bytes_nat using s(2) by (intro ceil_div_bounds(1)) simp
    then show ?thesis using byte by (simp add: word_less_nat_alt)
  qed
  then have n: "n < unat (fr_bitmap_clusters f)" unfolding n_def by (rule less_mult_imp_div_less)
  obtain c where c: "walk (fresh_image f m) ?g 3 n = Some c" "unat c = 3 + n" using walk_bitmap [OF f n] by blast
  have heap: "2 \<le> unat c" "unat c < unat (fr_clusters f) + 2" using c(2) n b(3,4) by simp_all
  have chain: "chain_at (fresh_image f m) ?g 3 n = Some c"
    using c(1) n b(3,4) by (simp add: chain_at_def) (simp add: fresh_geometry_def)
  have pos: "n * ?spc + unat byte mod (512 * ?spc) div 512 = unat byte div 512"
    unfolding n_def div_mult2_eq [of _ 512] mod_mult2_eq [of _ 512] by simp
  have "unat byte div 512 < bitmap_sectors f"
    unfolding bitmap_sectors_def using byte ceil_div_bounds(1) [of 512 "unat (fr_bitmap_bytes f)"]
    by (intro less_mult_imp_div_less) (simp add: word_less_nat_alt)
  then have top: "unat byte div 512 + unat (fr_lba f 3) < 2 ^ 64" using a(2,5,6) b(6) by simp
  have "unat (fr_lba f c) = unat (fr_lba f 3) + n * ?spc"
    using format_cluster_lba_nat(1) [OF f heap] a(2) c(2) by (simp add: fr_lba_def algebra_simps)
  then have "fr_lba f c + of_usize (unat byte mod (512 * ?spc) div 512) = fr_lba f 3 + of_usize (unat byte div 512)"
    using pos top by (simp add: word_unat_eq_iff of_usize_def unat_add_small unat_of_nat)
  then show ?thesis
    using byte chain cluster_lba_fresh [OF f heap]
    by (simp add: bitmap_addr_def Let_def fresh_volume_def fresh_bitmap_def cb not_le n_def [symmetric] mod_mult2_eq [of _ 512 ?spc])
      (simp add: fresh_geometry_def)
qed

lemma mark_reserved_bit:
  assumes "n \<le> 8 * k" "j < k" "i < 8"
  shows "bit (mark_reserved n (replicate k 0) ! j) i \<longleftrightarrow> 8 * j + i < n"
  using assms(1)
proof (induction n)
  case 0
  show ?case using assms by simp
next
  case (Suc n)
  let ?bs = "mark_reserved n (replicate k (0 :: u8))"
  have k: "n div 8 < k" using Suc.prems by (intro less_mult_imp_div_less) simp
  show ?case
  proof (cases "j = n div 8")
    case True
    have "8 * j + n mod 8 = n" using True by simp
    then have "8 * j + i < Suc n \<longleftrightarrow> 8 * j + i < n \<or> i = n mod 8" by linarith
    moreover have "bit (push_bit (n mod 8) 1 :: u8) i \<longleftrightarrow> i = n mod 8"
      using assms(3) by (auto simp: bit_simps)
    ultimately show ?thesis using Suc k True by (simp add: Let_def bit_or_iff del: push_bit_of_1)
  next
    case False
    then have "8 * j + i \<noteq> n" using assms(3) by auto
    then show ?thesis using Suc False by (auto simp: Let_def)
  qed
qed

lemma bitmap_bit_fresh:
  assumes f: "sound f" and c: "2 \<le> unat c" "unat c < unat (fr_clusters f) + 2"
  shows "bitmap_bit (fresh_image f m) (fresh_volume f) c = Some (unat c - 2 < unat (fr_reserved f))"
proof -
  let ?k = "unat c - 2"
  have c2: "checked_sub c 2 = Some (c - 2)" "unat (c - 2) = ?k" using c(1) by (simp_all add: checked_sub_def word_le_nat_alt unat_sub)
  have bytes: "unat (fr_clusters f) \<le> unat (fr_bitmap_bytes f) * 8"
    unfolding fr_bitmap_bytes_nat by (rule ceil_div_bounds(1)) simp
  define byte where "byte = (ucast ((c - 2) div 8) :: u64)"
  have ub: "unat byte = ?k div 8" by (simp add: byte_def unat_div c2(2))
  have "?k div 8 < unat (fr_bitmap_bytes f)" using c bytes by (intro less_mult_imp_div_less) simp
  then have byte: "byte < fr_bitmap_bytes f" by (simp add: word_less_nat_alt ub)
  have bt: "unat (ucast ((c - 2) mod 8) :: u8) = ?k mod 8"
    by (subst unat_ucast_down_small) (simp_all add: unat_mod c2(2) less_le_trans [OF mod_less_divisor])
  have pos: "position_for (vol_bitmap (fresh_volume f)) c = Some (byte, ucast ((c - 2) mod 8))"
    using byte by (simp add: position_for_def c2(1) Let_def byte_def fresh_volume_def fresh_bitmap_def)
  have sec: "?k div 8 div 512 < bitmap_sectors f"
    unfolding bitmap_sectors_def using byte ub ceil_div_bounds(1) [of 512 "unat (fr_bitmap_bytes f)"]
    by (intro less_mult_imp_div_less) (simp add: word_less_nat_alt)
  have "(?k div 8 div 512) * 512 + 512 \<le> bitmap_sectors f * 512" using sec by (metis Suc_leI add.commute mult_Suc mult_le_mono1)
  then have at: "fresh_image f m (fr_lba f 3 + of_usize (?k div 8 div 512)) ! (?k div 8 mod 512) = bitmap_image f ! (?k div 8)"
    unfolding image_bitmap [OF f sec] by (subst nth_slice) (simp_all add: image_lengths)
  have "?k div 8 < bitmap_sectors f * 512"
    using \<open>?k div 8 < unat (fr_bitmap_bytes f)\<close> ceil_div_bounds(1) [of 512 "unat (fr_bitmap_bytes f)"]
    by (simp add: bitmap_sectors_def)
  moreover have "unat (fr_reserved f) \<le> 8 * (bitmap_sectors f * 512)"
    using sound_reserved [OF f] fresh_areas(4) [OF f] by simp
  ultimately have "bit (bitmap_image f ! (?k div 8)) (?k mod 8) \<longleftrightarrow> 8 * (?k div 8) + ?k mod 8 < unat (fr_reserved f)"
    unfolding bitmap_image_def by (intro mark_reserved_bit) simp_all
  then show ?thesis
    unfolding bitmap_bit_def pos by (simp add: bitmap_addr_fresh [OF f byte] ub at bt)
qed

text \<open>Formatting establishes what every operation relies on and keeps.\<close>

lemma fresh_bitmap_ok:
  assumes f: "sound f"
  shows "bitmap_ok (fresh_image f m) (fresh_volume f)"
proof -
  note b = sound_clusters [OF f] and s = sound_spc [OF f]
  let ?g = "fresh_geometry f"
  have bytes: "unat (fr_clusters f) \<le> unat (fr_bitmap_bytes f) * 8"
    unfolding fr_bitmap_bytes_nat by (rule ceil_div_bounds(1)) simp
  have cb: "unat (bytes_per_cluster ?g) = 512 * unat (fr_spc f)"
    by (simp add: unat_bytes_per_cluster [OF wf_fresh_geometry [OF f]]) (simp add: fresh_geometry_def)
  have cl: "n < unat (fr_bitmap_clusters f)" if "n * (512 * unat (fr_spc f)) < unat (fr_bitmap_bytes f)" for n
  proof -
    have "unat (fr_bitmap_bytes f) \<le> unat (fr_bitmap_clusters f) * (512 * unat (fr_spc f))"
      unfolding fr_clusters_nat(1) [OF s(3,2)] fr_bitmap_bytes_nat using s(2) by (intro ceil_div_bounds(1)) simp
    with that have "n * (512 * unat (fr_spc f)) < unat (fr_bitmap_clusters f) * (512 * unat (fr_spc f))" by linarith
    then show ?thesis by (rule mult_less_cancel2 [THEN iffD1, THEN conjunct2])
  qed
  have "inj_on (\<lambda>n. walk (fresh_image f m) ?g 3 n) {n. n * (512 * unat (fr_spc f)) < unat (fr_bitmap_bytes f)}"
  proof (rule inj_onI, clarsimp)
    fix i j assume i: "i * (512 * unat (fr_spc f)) < unat (fr_bitmap_bytes f)" and j: "j * (512 * unat (fr_spc f)) < unat (fr_bitmap_bytes f)"
      and eq: "walk (fresh_image f m) ?g 3 i = walk (fresh_image f m) ?g 3 j"
    from walk_bitmap [OF f cl [OF i], of m] walk_bitmap [OF f cl [OF j], of m] eq show "i = j" by auto
  qed
  moreover have "in_heap ?g 3"
  proof -
    have "0 < unat (fr_upcase_clusters f)" using s(4) by (cases "unat (fr_upcase_clusters f)") simp_all
    then show ?thesis using b(3,4) by (simp add: in_heap_fresh [OF f])
  qed
  ultimately show ?thesis
    unfolding bitmap_ok_def using bitmap_addr_fresh [OF f] bytes
    by (simp add: fresh_volume_def fresh_bitmap_def cb) (simp add: fresh_geometry_def fresh_volume_def)
qed

lemma fresh_bitmap_sound:
  assumes f: "sound f"
  shows "bitmap_sound (fresh_image f m) (fresh_volume f)"
proof -
  note b = sound_clusters [OF f] and s = sound_spc [OF f]
  have "bitmap_bit (fresh_image f m) (fresh_volume f) d = Some True" if d: "bitmap_cluster (fresh_image f m) (fresh_volume f) d" for d
  proof -
    obtain n where n: "n * (512 * unat (fr_spc f)) < unat (fr_bitmap_bytes f)" "walk (fresh_image f m) (fresh_geometry f) 3 n = Some d"
      using d unat_bytes_per_cluster [OF wf_fresh_geometry [OF f]]
      by (auto simp: bitmap_cluster_def fresh_volume_def fresh_bitmap_def fresh_geometry_def)
    have "unat (fr_bitmap_bytes f) \<le> unat (fr_bitmap_clusters f) * (512 * unat (fr_spc f))"
      unfolding fr_clusters_nat(1) [OF s(3,2)] fr_bitmap_bytes_nat using s(2) by (intro ceil_div_bounds(1)) simp
    with n(1) have "n * (512 * unat (fr_spc f)) < unat (fr_bitmap_clusters f) * (512 * unat (fr_spc f))" by linarith
    then have "n < unat (fr_bitmap_clusters f)" by (rule mult_less_cancel2 [THEN iffD1, THEN conjunct2])
    moreover from walk_bitmap [OF f this, of m] n(2) have "unat d = 3 + n" by auto
    ultimately show ?thesis using b(3,4) by (subst bitmap_bit_fresh [OF f]) simp_all
  qed
  then show ?thesis using fresh_bitmap_ok [OF f] by (simp add: bitmap_sound_def)
qed

lemma fresh_free_set:
  assumes f: "sound f"
  shows "card (free_set (fresh_image f m) (fresh_volume f)) = unat (fr_clusters f) - unat (fr_reserved f)"
proof -
  note b = sound_clusters [OF f]
  let ?S = "{2 + unat (fr_reserved f) ..< unat (fr_clusters f) + 2}"
  have "free_set (fresh_image f m) (fresh_volume f) = {c. unat c \<in> ?S}"
    using bitmap_bit_fresh [OF f] by (auto simp: free_set_def fresh_volume_def fresh_geometry_def)
  also have "\<dots> = word_of_nat ` ?S"
  proof (intro equalityI subsetI)
    fix c :: u32 assume "c \<in> {c. unat c \<in> ?S}"
    then show "c \<in> word_of_nat ` ?S" by (intro image_eqI [of _ _ "unat c"]) simp_all
  next
    fix c :: u32 assume "c \<in> word_of_nat ` ?S"
    then show "c \<in> {c. unat c \<in> ?S}" using b(1) by (auto simp: unat_of_nat)
  qed
  also have "card \<dots> = card ?S"
  proof (rule card_image, rule inj_onI)
    fix i j assume "i \<in> ?S" "j \<in> ?S" "(word_of_nat i :: u32) = word_of_nat j"
    moreover have "unat (word_of_nat k :: u32) = k" if "k \<in> ?S" for k using that b(1) by (subst unat_of_nat) simp
    ultimately show "i = j" by metis
  qed
  finally show ?thesis by simp
qed

section \<open>The root directory\<close>

lemma push_ignores: "raw ! 0 \<noteq> 0x85 \<Longrightarrow> secondary_left es = 0 \<Longrightarrow> push es raw loc = (Inr None, es)"
  by (simp add: push_def)

lemma decode_rows_marker:
  "decode_rows es rows = (out, Marker) \<Longrightarrow> decode_rows es (rows @ rows') = (out, Marker)"
  by (induction rows arbitrary: es out) (auto split: if_splits prod.splits sum.splits option.splits)

lemma dir_rows_head:
  assumes "cluster_lba (vol_geometry v) c = Some base"
    and "cluster_rows m v dir base [0..<unat (sectors_per_cluster (vol_geometry v))] remaining = (rows, left)"
  shows "\<exists>more ok. dir_rows (Suc n) m v dir c remaining = (rows @ more, ok)"
proof (cases left)
  case None
  then show ?thesis using assms by auto
next
  case (Some a)
  show ?thesis
  proof (cases "dir_next m v dir c a")
    case (Inl ok)
    then show ?thesis using assms Some by auto
  next
    case (Inr b)
    then show ?thesis using assms Some by (cases "dir_rows n m v dir b a") auto
  qed
qed

lemma fresh_root_listing:
  assumes f: "sound f"
  shows "listing (fresh_image f m) (fresh_volume f) (root_directory (fresh_geometry f)) = ([], True)"
proof -
  let ?g = "fresh_geometry f" and ?dir = "root_directory (fresh_geometry f)"
  have cl: "0 < unat (fr_clusters f)" using f by (simp add: sound_def)
  have lba: "cluster_lba ?g 2 = Some (fr_lba f 2)" using cl by (intro cluster_lba_fresh [OF f]) simp_all
  obtain n where n: "unat (cluster_count ?g) = Suc n" using cl by (cases "unat (fr_clusters f)") (simp_all add: fresh_geometry_def)
  have idx: "[0..<unat (sectors_per_cluster ?g)] = 0 # [1..<unat (fr_spc f)]"
    using sound_spc(2) [OF f] by (simp add: fresh_geometry_def upt_rec)
  have dir: "dir_data_length ?dir = 0" "dir_first_cluster ?dir = 2" by (simp_all add: root_directory_def fresh_geometry_def)
  let ?now = "sector_rows (fresh_image f m) (fr_lba f 2) 512"
  have now: "decode_rows new_entry_set ?now = ([], Marker)"
  proof -
    obtain rest where rows: "chunks_exact 32 (root_image f) =
     ([0x81] @ replicate 19 0 @ le32 3 @ le64 (fr_bitmap_bytes f)) #
     ([0x82] @ replicate 3 0 @ le32 upcase_sum @ replicate 12 0 @ le32 (fr_upcase f) @ le64 upcase_bytes) #
     replicate 32 0 # rest" using root_rows by blast
    have img: "take 512 (fresh_image f m (fr_lba f 2)) = root_image f" using image_root [OF f] image_lengths(5) by simp
    have "secondary_left new_entry_set = 0" by (simp add: new_entry_set_def)
    then show ?thesis unfolding sector_rows_def img rows by (simp add: push_ignores)
  qed
  have sz: "sector_bytes (fresh_volume f) = 512" by (simp add: fresh_volume_def fresh_geometry_def)
  obtain later left where tail: "cluster_rows (fresh_image f m) (fresh_volume f) ?dir (fr_lba f 2) [1..<unat (fr_spc f)] 0 = (later, left)"
    by fastforce
  have rows: "cluster_rows (fresh_image f m) (fresh_volume f) ?dir (fr_lba f 2) [0..<unat (sectors_per_cluster ?g)] 0 = (?now @ later, left)"
    unfolding idx cluster_rows.simps usable_bytes_def after_sector_def dir sz using tail by (simp add: of_usize_def Let_def)
  obtain more ok where all: "dir_rows (unat (cluster_count ?g)) (fresh_image f m) (fresh_volume f) ?dir 2 0 = (?now @ more, ok)"
    using dir_rows_head [of "fresh_volume f" 2 "fr_lba f 2" "fresh_image f m" ?dir 0 "?now @ later" left n] lba rows
    unfolding n by (auto simp: fresh_volume_def)
  show ?thesis
    unfolding listing_def dir using all decode_rows_marker [OF now, of more] by (simp add: fresh_volume_def)
qed

section \<open>Format, then mount\<close>

lemma post_totalD: "post m s (\<lambda>x s'. x = y \<and> P s') (\<lambda>_ _. False) \<Longrightarrow> \<exists>s'. m s = (Inr y, s') \<and> P s'"
  by (cases "m s"; cases "fst (m s)") (auto simp: post_def)

context batch_device
begin

lemma post_format_mount:
  fixes s :: "('d, 'x) io_scheme"
  assumes ok: "io_ok D invar 512 s" and buf: "512 dvd length (scratch s)" "length (scratch s) < 2 ^ 32"
    and f: "(plan (sector_count_of D (device s)) :: 'e error + fresh) = Inr f"
  shows "post (bindM (format_exfat D) (\<lambda>_. volume_mount D)) s
    (\<lambda>v s'. v = fresh_volume f \<and> media (device s') = fresh_image f (media (device s))) (\<lambda>_ _. False)"
proof (rule post_then [OF post_format [OF ok buf f]])
  fix s' assume s': "stands 512 s (fresh_image f (media (device s))) s'"
  note p = plan_sound [OF f] and d = standsD [OF s']
  have "536 \<le> unat (fr_len f)" using p by (simp add: sound_def)
  then have "fresh_at s' f" unfolding fresh_at_def using p d(4,5) by auto
  from post_volume_mount_fresh [OF this d(1)]
  show "post (volume_mount D) s' (\<lambda>v s'. v = fresh_volume f \<and> media (device s') = fresh_image f (media (device s))) (\<lambda>_ _. False)"
    by (rule post_mono) (use d(5) in \<open>auto dest: readingD(2)\<close>)
qed

end

section \<open>Properties\<close>

text \<open>
  C1: A formatted device mounts. On a device that completes every access in range, with a scratch buffer of
  whole sectors, formatting a device whose size has a layout and then mounting it succeeds, and the
  mounted volume is exactly the one the formatter planned: the geometry of the layout, the bitmap and
  UpCase table at their clusters, the UpCase table verified against its checksum, and no label. The
  medium is the formatter's image.
\<close>
theorem format_then_mount:
  fixes D :: "('d, 'e) device_ops" and s :: "('d, 'x) io_scheme"
  assumes "batch_device D media invar" "io_ok D invar 512 s" "512 dvd length (scratch s)" "length (scratch s) < 2 ^ 32"
    and "(plan (sector_count_of D (device s)) :: 'e error + fresh) = Inr f"
  shows "\<exists>s'. bindM (format_exfat D) (\<lambda>_. volume_mount D) s = (Inr (fresh_volume f), s') \<and>
    media (device s') = fresh_image f (media (device s))"
  using batch_device.post_format_mount [OF assms] by (rule post_totalD)

theorem format_then_mount_witness:
  "\<exists>f s'. bindM (format_exfat mem_ops) (\<lambda>_. volume_mount mem_ops) fresh_card = (Inr (fresh_volume f), s') \<and>
    unat (fr_clusters f) = 967"
proof -
  let ?f = "\<lparr>fr_len = 999, fr_spc = 1, fr_fat = 8, fr_heap = 32, fr_clusters = 967\<rparr>"
  have "(plan (sector_count_of mem_ops (device fresh_card)) :: unit error + fresh) = Inr ?f"
    unfolding fresh_card_ok(4) by (rule test_plan)
  from format_then_mount [OF mem_batch.batch_device_axioms fresh_card_ok(1-3) this]
  show ?thesis by (intro exI [of _ ?f]) auto
qed

text \<open>
  C10: Formatting establishes the invariants of the filesystem. Whatever the medium held before, after the
  image of an accepted plan was written the volume is well-formed, its bitmap is usable and records
  its own clusters as used, the free clusters are all but the root directory's, the bitmap's and
  the UpCase table's, and the root directory is empty and comes to a proper end.
\<close>
theorem fresh_volume_sound:
  assumes "(plan secs :: 'e error + fresh) = Inr f"
  shows "wf_geometry (vol_geometry (fresh_volume f)) \<and> bitmap_sound (fresh_image f m) (fresh_volume f) \<and>
    card (free_set (fresh_image f m) (fresh_volume f)) =
      unat (fr_clusters f) - (1 + unat (fr_bitmap_clusters f) + unat (fr_upcase_clusters f)) \<and>
    listing (fresh_image f m) (fresh_volume f) (root_directory (vol_geometry (fresh_volume f))) = ([], True)"
proof -
  have f: "sound f" using plan_sound [OF assms] by blast
  have vol: "vol_geometry (fresh_volume f) = fresh_geometry f" by (simp add: fresh_volume_def)
  show ?thesis
    unfolding vol using wf_fresh_geometry [OF f] fresh_bitmap_sound [OF f] fresh_free_set [OF f] fresh_root_listing [OF f]
      sound_clusters(3) [OF f] by simp
qed

theorem fresh_volume_sound_witness:
  "bitmap_sound (fresh_image \<lparr>fr_len = 999, fr_spc = 1, fr_fat = 8, fr_heap = 32, fr_clusters = 967\<rparr> (\<lambda>_. replicate 512 0))
     (fresh_volume \<lparr>fr_len = 999, fr_spc = 1, fr_fat = 8, fr_heap = 32, fr_clusters = 967\<rparr>)"
  using fresh_volume_sound [OF test_plan] by blast

end
