(* ===== verification/Containment.thy ===== *)
theory Containment
  imports Operations
begin

text \<open>
  Where a mounted volume writes. \<open>stays pn E P m\<close>: on a reliable device, from an environment with \<open>E\<close>,
  the computation \<open>m\<close> changes only sectors of the active FAT and of the cluster heap, keeps \<open>E\<close>, and its
  results satisfy \<open>P\<close>. That needs a well-formed geometry and nothing else, which is what mounting
  establishes. In the \<open>strict\<close> case, where moreover the device holds the volume and the bitmap and the
  up-case table begin in the heap, which mounting does not check, it raises no device error either (and
  no panic unless \<open>pn\<close> allows them). The predicate is closed under the monad, so an operation stays
  inside when its accesses do. The rules are collected in \<open>stays_intro\<close>.
\<close>

named_theorems stays_intro "rules that build stays pn E P m from the parts of m"

lemmas stays_trivial [stays_intro] = TrueI

section \<open>The region\<close>

definition data_region :: "Geometry \<Rightarrow> u64 set" where
  "data_region g =
     (let fat = unat (first_lba (partition_of g)) + unat (fat_offset g) + unat (active_fat g) * unat (fat_length g) in
      {l. fat \<le> unat l \<and> unat l < fat + unat (fat_length g)} \<union>
      {l. heap_start g \<le> unat l \<and> unat l < heap_start g + unat (cluster_count g) * unat (sectors_per_cluster g)})"

lemma cluster_sector_region:
  assumes "wf_geometry g" "cluster_lba g c = Some l" "i < unat (sectors_per_cluster g)"
  shows "l + of_usize i \<in> data_region g"
proof -
  have "in_heap g c" using assms(2) by (simp add: cluster_lba_def split: if_splits)
  then have "(unat c - 2) * unat (sectors_per_cluster g) + i < unat (cluster_count g) * unat (sectors_per_cluster g)"
    by (rule cluster_index_fits [OF assms(1) _ assms(3)])
  moreover note cluster_sector [OF assms]
  ultimately have "heap_start g \<le> unat (l + of_usize i)"
    "unat (l + of_usize i) < heap_start g + unat (cluster_count g) * unat (sectors_per_cluster g)"
    unfolding heap_start_def by linarith+
  then show ?thesis unfolding data_region_def Let_def by blast
qed

lemma cluster_region: "wf_geometry g \<Longrightarrow> cluster_lba g c = Some l \<Longrightarrow> l \<in> data_region g"
  using cluster_sector_region [of g c l 0] wf_geometryD(2) [of g] by (simp add: of_usize_def)

lemma fat_region:
  assumes wf: "wf_geometry g" and "in_heap g c" "fat_lba_for_byte g (fat_byte c) = Some l"
  shows "l \<in> data_region g"
proof -
  note c = in_heap_lt [OF assms(2)]
  have "unat l = unat (first_lba (partition_of g)) + unat (fat_offset g)
      + unat (active_fat g) * unat (fat_length g) + unat c * 4 div unat (bytes_per_sector g)"
    by (rule fat_lba_Some [OF wf c]) (use assms(3) in simp)
  with fat_entry_fits [OF wf c] show ?thesis unfolding data_region_def Let_def by simp
qed

text \<open>What mounting does not check: the bitmap and a valid up-case table begin in the cluster heap.\<close>

definition volume_ok :: "Volume \<Rightarrow> bool" where
  "volume_ok v \<longleftrightarrow> wf_geometry (vol_geometry v) \<and> in_heap (vol_geometry v) (ab_first_cluster (vol_bitmap v)) \<and>
     (vol_upcase_valid v \<longrightarrow> in_heap (vol_geometry v) (ut_first_cluster (vol_upcase v)))"

definition fault :: "bool \<Rightarrow> 'e error exn \<Rightarrow> bool" where
  "fault pn e \<longleftrightarrow> (\<exists>d. e = Error (Device d)) \<or> e = Panic \<and> \<not> pn"

lemma count_used_error: "count_used vals acc = Inl e \<Longrightarrow> e = Corrupt"
  by (induction vals arbitrary: acc) (auto simp: Let_def split: prod.splits if_splits option.splits)

section \<open>Computations that stay inside\<close>

locale volume_device = reliable_device D media invar
  for D :: "('d, 'e) device_ops" and media :: "'d \<Rightarrow> u64 \<Rightarrow> u8 list" and invar :: "'d \<Rightarrow> bool" +
  fixes v :: Volume and strict :: bool
  assumes wf: "wf_geometry (vol_geometry v)"
    and volume: "strict \<Longrightarrow> volume_ok v"
begin

definition flaw :: "bool \<Rightarrow> 'x error exn \<Rightarrow> bool" where
  "flaw pn e \<longleftrightarrow> strict \<and> fault pn e"

lemmas flaw_defs = flaw_def fault_def

lemma no_flaw [stays_intro]:
  "\<not> flaw pn (Error Corrupt)" "\<not> flaw pn (Error NoSpace)" "\<not> flaw pn (Error PathNotFound)"
  "\<not> flaw pn (Error NotDirectory)" "\<not> flaw pn (Error IsDirectory)" "\<not> flaw pn (Error InvalidPath)"
  "\<not> flaw pn (Error UpcaseTableCorrupt)" "\<not> flaw pn (Error InvalidSectorSize)" "\<not> flaw pn Diverge"
  "\<not> flaw pn (Error (FileChainInvalid a i c n l))" "\<not> flaw pn (Error NameTooLong)" "\<not> flaw pn (Error EndOfFile)"
  by (simp_all add: flaw_defs)

definition ready :: "('d, 'x) fs_scheme \<Rightarrow> bool" where
  "ready s \<longleftrightarrow> io_ok D invar (sector_bytes v) s \<and>
     (strict \<longrightarrow> (\<forall>l \<in> data_region (vol_geometry v). l < sector_count_of D (device s)))"

definition moved :: "('d, 'x) fs_scheme \<Rightarrow> ('d, 'x) fs_scheme \<Rightarrow> bool" where
  "moved s s' \<longleftrightarrow> frame D media invar (sector_bytes v) (data_region (vol_geometry v)) (\<lambda>_ _. True) s s'"

definition stays :: "bool \<Rightarrow> ('x \<Rightarrow> bool) \<Rightarrow> ('a \<Rightarrow> bool) \<Rightarrow> ('d, 'x, 'e, 'a) fsm \<Rightarrow> bool" where
  "stays pn E P m \<longleftrightarrow> (\<forall>s. ready s \<longrightarrow> E (fs.more s) \<longrightarrow>
     post m s (\<lambda>x s'. moved s s' \<and> E (fs.more s') \<and> P x) (\<lambda>e s'. moved s s' \<and> \<not> flaw pn e))"

lemma moved_ready: "moved s s' \<Longrightarrow> ready s \<Longrightarrow> ready s'"
  by (auto simp: moved_def ready_def frame_def)

lemma moved_refl: "moved s s"
  by (simp add: moved_def frame_def)

lemma moved_trans: "moved s t \<Longrightarrow> moved t u \<Longrightarrow> moved s u"
  unfolding moved_def by (rule frame_trans [OF _ _ coarse_True])

lemma staysI:
  "(\<And>s. ready s \<Longrightarrow> E (fs.more s) \<Longrightarrow> post m s (\<lambda>x s'. moved s s' \<and> E (fs.more s') \<and> P x) (\<lambda>e s'. moved s s' \<and> \<not> flaw pn e)) \<Longrightarrow>
    stays pn E P m"
  by (simp add: stays_def)

lemma staysD:
  "stays pn E P m \<Longrightarrow> ready s \<Longrightarrow> E (fs.more s) \<Longrightarrow>
    post m s (\<lambda>x s'. moved s s' \<and> E (fs.more s') \<and> P x) (\<lambda>e s'. moved s s' \<and> \<not> flaw pn e)"
  by (simp add: stays_def)

lemma stays_mono: "stays pn E P m \<Longrightarrow> (\<And>x. P x \<Longrightarrow> Q x) \<Longrightarrow> stays pn E Q m"
  by (rule staysI, drule (2) staysD) (erule post_mono, auto)

lemma stays_any: "stays pn E P m \<Longrightarrow> stays pn E (\<lambda>_. True) m"
  by (erule stays_mono) simp

lemma stays_bind [stays_intro]:
  assumes m: "stays pn E P m" and f: "\<And>x. P x \<Longrightarrow> stays pn E Q (f x)"
  shows "stays pn E Q (bindM m f)"
proof (rule staysI)
  fix s assume s: "ready s" "E (fs.more s)"
  have "post (f x) s' (\<lambda>x u. moved s u \<and> E (fs.more u) \<and> Q x) (\<lambda>e u. moved s u \<and> \<not> flaw pn e)"
    if "moved s s'" "E (fs.more s')" "P x" for x s'
    by (rule post_mono [OF staysD [OF f [OF that(3)] moved_ready [OF that(1) s(1)] that(2)]])
      (use moved_trans [OF that(1)] in auto)
  then show "post (bindM m f) s (\<lambda>x u. moved s u \<and> E (fs.more u) \<and> Q x) (\<lambda>e u. moved s u \<and> \<not> flaw pn e)"
    unfolding post_bindM by (intro post_mono [OF staysD [OF m s]]) auto
qed

lemma stays_skip [stays_intro]:
  "P x \<Longrightarrow> stays pn E P (returnM x)" "\<not> flaw pn e \<Longrightarrow> stays pn E P (throwM e)"
  "\<not> flaw pn (Error d) \<Longrightarrow> stays pn E P (fail d)"
  "\<not> flaw pn (Error d) \<Longrightarrow> stays pn E (\<lambda>y. opt = Some y) (ok_or opt d)"
  "pn \<or> b \<Longrightarrow> stays pn E (\<lambda>_. b) (no_panic_if b)"
  "stays pn E (\<lambda>y. \<exists>env. E env \<and> y = g env) (getsM (\<lambda>s. g (fs.more s)))"
  "stays pn E (\<lambda>_. True) (getsM h)"
  by (auto simp: stays_def moved_refl flaw_defs split: option.splits)

lemma stays_branch [stays_intro]:
  "(b \<Longrightarrow> stays pn E (\<lambda>_. True) u) \<Longrightarrow> stays pn E (\<lambda>_. True) (whenM b u)"
  "(b \<Longrightarrow> stays pn E P m) \<Longrightarrow> (\<not> b \<Longrightarrow> stays pn E P n) \<Longrightarrow> stays pn E P (if b then m else n)"
  "(\<And>y. y = x \<Longrightarrow> stays pn E P (g y)) \<Longrightarrow> stays pn E P (let y = x in g y)"
  "(opt = None \<Longrightarrow> stays pn E P a) \<Longrightarrow> (\<And>y. opt = Some y \<Longrightarrow> stays pn E P (h y)) \<Longrightarrow> stays pn E P (case opt of None \<Rightarrow> a | Some y \<Rightarrow> h y)"
  "(\<And>z. r = Inl z \<Longrightarrow> stays pn E P (c z)) \<Longrightarrow> (\<And>y. r = Inr y \<Longrightarrow> stays pn E P (d y)) \<Longrightarrow> stays pn E P (case r of Inl z \<Rightarrow> c z | Inr y \<Rightarrow> d y)"
  "(\<And>y w. p = (y, w) \<Longrightarrow> stays pn E P (k y w)) \<Longrightarrow> stays pn E P (case p of (y, w) \<Rightarrow> k y w)"
  by (auto simp: whenM_def stays_skip split: option.splits sum.splits prod.splits)

lemma stays_case_app [stays_intro]:
  "(\<And>y w. p = (y, w) \<Longrightarrow> stays pn E P (k y w z)) \<Longrightarrow> stays pn E P ((case p of (y, w) \<Rightarrow> k y w) z)"
  by (simp split: prod.splits)

lemma stays_result: "(\<And>e. r = Inl e \<Longrightarrow> \<not> flaw pn (Error e)) \<Longrightarrow> stays pn E (\<lambda>_. True) (from_result r)"
  by (cases r) (auto simp: from_result_def stays_skip)

lemma stays_loop:
  assumes body: "\<And>x. I x \<Longrightarrow> stays pn E (\<lambda>r. case r of Inl x' \<Rightarrow> I x' | Inr y \<Rightarrow> P y) (body x)"
    and out: "\<not> flaw pn out"
  shows "I x \<Longrightarrow> stays pn E P (loop_m n out body x)"
proof (induction n arbitrary: x)
  case 0
  then show ?case by (simp add: stays_skip out)
next
  case (Suc n)
  show ?case
    unfolding loop_m.simps
    by (rule stays_bind [OF body [OF Suc.prems]]) (auto intro!: stays_skip Suc.IH split: sum.splits)
qed

lemma stays_for:
  assumes body: "\<And>i x. i \<in> set is \<Longrightarrow> I x \<Longrightarrow> stays pn E (\<lambda>r. case r of Inl x' \<Rightarrow> I x' | Inr y \<Rightarrow> P y) (body i x)"
  shows "I x \<Longrightarrow> stays pn E (\<lambda>r. case r of Inl x' \<Rightarrow> I x' | Inr y \<Rightarrow> P y) (for_m is body x)"
  using body
proof (induction "is" arbitrary: x)
  case Nil
  then show ?case by (simp add: stays_skip)
next
  case (Cons i "is")
  show ?case
    unfolding for_m.simps
  proof (rule stays_bind [OF Cons.prems(2) [of i x]])
    fix r assume r: "case r of Inl x' \<Rightarrow> I x' | Inr y \<Rightarrow> P y"
    show "stays pn E (\<lambda>r. case r of Inl x' \<Rightarrow> I x' | Inr y \<Rightarrow> P y)
        (case r of Inl x' \<Rightarrow> for_m is body x' | Inr y \<Rightarrow> returnM (Inr y))"
    proof (cases r)
      case (Inl x')
      then show ?thesis using r Cons.IH [of x'] Cons.prems(2) by simp
    next
      case (Inr y)
      then show ?thesis using r by (simp add: stays_skip)
    qed
  qed (use Cons.prems in simp_all)
qed

lemma stays_fold:
  assumes body: "\<And>i x. i \<in> set is \<Longrightarrow> P x \<Longrightarrow> stays pn E P (body i x)"
  shows "P x \<Longrightarrow> stays pn E P (fold_m is body x)"
  using body
proof (induction "is" arbitrary: x)
  case Nil
  then show ?case by (simp add: stays_skip)
next
  case (Cons i "is")
  show ?case unfolding fold_m.simps by (rule stays_bind [OF Cons.prems(2) [of i x]]) (use Cons in auto)
qed

lemma stays_iterate [stays_intro]:
  "(\<And>i. i \<in> set is \<Longrightarrow> stays pn E (\<lambda>_. True) (act i)) \<Longrightarrow> stays pn E (\<lambda>_. True) (each_m is act)"
  "(\<And>i x. i \<in> set is \<Longrightarrow> stays pn E (\<lambda>_. True) (step i x)) \<Longrightarrow> stays pn E (\<lambda>_. True) (fold_m is step a)"
proof -
  show "stays pn E (\<lambda>_. True) (each_m is act)" if "\<And>i. i \<in> set is \<Longrightarrow> stays pn E (\<lambda>_. True) (act i)"
    using that by (induction "is") (auto intro!: stays_intro)
  show "stays pn E (\<lambda>_. True) (fold_m is step a)" if "\<And>i x. i \<in> set is \<Longrightarrow> stays pn E (\<lambda>_. True) (step i x)"
    by (rule stays_fold) (use that in auto)
qed

lemma stays_rounds [stays_intro]:
  "(\<And>x. stays pn E (\<lambda>_. True) (body x)) \<Longrightarrow> \<not> flaw pn out \<Longrightarrow> stays pn E (\<lambda>_. True) (loop_m n out body a)"
  "(\<And>i x. i \<in> set is \<Longrightarrow> stays pn E (\<lambda>_. True) (step i x)) \<Longrightarrow> stays pn E (\<lambda>_. True) (for_m is step b)"
proof -
  show "stays pn E (\<lambda>_. True) (loop_m n out body a)" if "\<And>x. stays pn E (\<lambda>_. True) (body x)" "\<not> flaw pn out"
    by (rule stays_loop [where I = "\<lambda>_. True"]) (auto split: sum.splits intro!: that stays_mono [OF that(1)])
  show "stays pn E (\<lambda>_. True) (for_m is step b)" if "\<And>i x. i \<in> set is \<Longrightarrow> stays pn E (\<lambda>_. True) (step i x)"
    by (rule stays_any, rule stays_for [where I = "\<lambda>_. True" and P = "\<lambda>_. True"])
      (auto split: sum.splits intro!: that stays_mono [OF that])
qed

text \<open>Accesses to the scratch buffer and, inside the region, to the device.\<close>

lemma stays_scratch [stays_intro]:
  fixes E :: "'x \<Rightarrow> bool"
  shows "stays pn E (\<lambda>bs. length bs = sector_bytes v) (sector (sector_bytes v))"
  "stays pn E (\<lambda>_. True) (require n)"
  "pn \<or> a \<le> b \<and> b \<le> sector_bytes v \<Longrightarrow> stays pn E (\<lambda>bs. length bs = b - a) (sector_slice (sector_bytes v) a b)"
  "pn \<or> i < sector_bytes v \<Longrightarrow> stays pn E (\<lambda>_. True) (sector_byte (sector_bytes v) i)"
  "pn \<or> off + length bs \<le> sector_bytes v \<Longrightarrow> stays pn E (\<lambda>_. off + length bs \<le> sector_bytes v) (sector_copy (sector_bytes v) off bs)"
  "length new = sector_bytes v \<Longrightarrow> stays pn E (\<lambda>_. True) (set_sector new)"
proof -
  have len: "sector_bytes v \<le> length (scratch s)" if "ready s" for s :: "('d, 'x) fs_scheme"
    using that by (simp add: ready_def io_ok_def)
  have put: "moved s (s\<lparr>scratch := bs\<rparr>)" if "ready s" "length bs = length (scratch s)"
    for s :: "('d, 'x) fs_scheme" and bs
    using that by (simp add: moved_def frame_def io_ok_def ready_def)
  show "stays pn E (\<lambda>bs. length bs = sector_bytes v) (sector (sector_bytes v))" "stays pn E (\<lambda>_. True) (require n)"
    by (rule staysI, use len in \<open>simp add: moved_refl require_def flaw_defs\<close>)+
  show "stays pn E (\<lambda>bs. length bs = b - a) (sector_slice (sector_bytes v) a b)"
    if "pn \<or> a \<le> b \<and> b \<le> sector_bytes v"
    by (rule staysI) (use len that in \<open>auto simp: moved_refl flaw_defs\<close>)
  show "stays pn E (\<lambda>_. True) (sector_byte (sector_bytes v) i)" if "pn \<or> i < sector_bytes v"
    by (rule staysI) (use len that in \<open>auto simp: moved_refl flaw_defs\<close>)
  show "stays pn E (\<lambda>_. off + length bs \<le> sector_bytes v) (sector_copy (sector_bytes v) off bs)"
    if "pn \<or> off + length bs \<le> sector_bytes v"
    by (rule staysI) (use len put that in \<open>auto simp: moved_refl flaw_defs\<close>)
  show "stays pn E (\<lambda>_. True) (set_sector new)" if "length new = sector_bytes v"
    by (rule staysI) (use len put that in \<open>simp add: set_sector_def\<close>)
qed

lemma stays_read_sector:
  fixes E :: "'x \<Rightarrow> bool"
  assumes "strict \<Longrightarrow> lba \<in> data_region (vol_geometry v)"
  shows "stays pn E (\<lambda>_. True) (read_sector D lba (sector_bytes v))"
proof (rule staysI)
  fix s :: "('d, 'x) fs_scheme" assume s: "ready s" "E (fs.more s)"
  then have ok: "io_ok D invar (sector_bytes v) s" by (simp add: ready_def)
  note quiet = quiet_post [OF fs_quiet [OF io_quiet(8)], of D lba "sector_bytes v" s]
  show "post (read_sector D lba (sector_bytes v)) s (\<lambda>x s'. moved s s' \<and> E (fs.more s') \<and> True) (\<lambda>e s'. moved s s' \<and> \<not> flaw pn e)"
  proof (cases strict)
    case True
    then have "lba < sector_count_of D (device s)" using s(1) assms unfolding ready_def by blast
    from post_conj [OF post_read_sector_total [OF ok this] quiet] show ?thesis
      by (rule post_mono) (use s(2) ok in \<open>auto simp: moved_def frame_def same_rest_def\<close>)
  next
    case False
    then have calm: "\<not> flaw pn e" for e :: "'e error exn" unfolding flaw_def by blast
    from post_conj [OF post_read_sector [OF ok] quiet] show ?thesis
      by (rule post_mono) (use s(2) ok in \<open>auto simp: moved_def frame_def same_rest_def calm\<close>)
  qed
qed

lemma stays_write_sector:
  fixes E :: "'x \<Rightarrow> bool"
  assumes lba: "lba \<in> data_region (vol_geometry v)"
  shows "stays pn E (\<lambda>_. True) (write_sector D lba (sector_bytes v))"
proof (rule staysI)
  fix s :: "('d, 'x) fs_scheme" assume s: "ready s" "E (fs.more s)"
  then have ok: "io_ok D invar (sector_bytes v) s" by (simp add: ready_def)
  note quiet = quiet_post [OF fs_quiet [OF io_quiet(9)], of D lba "sector_bytes v" s]
  show "post (write_sector D lba (sector_bytes v)) s (\<lambda>x s'. moved s s' \<and> E (fs.more s') \<and> True) (\<lambda>e s'. moved s s' \<and> \<not> flaw pn e)"
  proof (cases strict)
    case True
    then have "lba < sector_count_of D (device s)" using s(1) lba unfolding ready_def by blast
    from post_conj [OF post_write_sector_total [OF ok this] quiet] show ?thesis
      by (rule post_mono) (use s(2) ok lba in \<open>auto simp: moved_def frame_def same_rest_def\<close>)
  next
    case False
    then have calm: "\<not> flaw pn e" for e :: "'e error exn" unfolding flaw_def by blast
    from post_conj [OF post_write_sector [OF ok] quiet] show ?thesis
      by (rule post_mono) (use s(2) ok lba in \<open>auto simp: moved_def frame_def same_rest_def calm\<close>)
  qed
qed

lemma stays_sector_access [stays_intro]:
  assumes "lba \<in> data_region (vol_geometry v)"
  shows "stays pn E (\<lambda>_. True) (read_sector D lba (sector_bytes v))" "stays pn E (\<lambda>_. True) (write_sector D lba (sector_bytes v))"
  using assms by (simp_all add: stays_read_sector stays_write_sector)

lemma stays_set_free [stays_intro]: "stays pn E (\<lambda>_. True) (set_free_clusters n)"
  by (rule staysI) (simp add: moved_def frame_def)

lemma stays_with_env:
  fixes E :: "'x \<Rightarrow> bool"
  assumes "stays pn F P m" "F env"
  shows "stays pn E (\<lambda>(x, env'). P x \<and> F env') (with_env env m)"
proof (rule staysI)
  fix s :: "('d, 'x) fs_scheme" assume s: "ready s" "E (fs.more s)"
  let ?t = "fs.extend (fs.truncate s) env"
  have "ready ?t" "F (fs.more ?t)" using s assms(2) by (simp_all add: ready_def with_env_state)
  from staysD [OF assms(1) this]
  show "post (with_env env m) s (\<lambda>x s'. moved s s' \<and> E (fs.more s') \<and> (case x of (x, env') \<Rightarrow> P x \<and> F env'))
      (\<lambda>e s'. moved s s' \<and> \<not> flaw pn e)"
    using s(2) by (auto simp: post_def with_env_def moved_def frame_def with_env_state split: prod.splits sum.splits)
qed

section \<open>FAT and bitmap\<close>

lemma sizes: "sector_bytes v \<noteq> 0" "ucast (bytes_per_cluster (vol_geometry v)) \<noteq> (0 :: u64)"
  using within_cluster(1,3) [OF wf] by simp_all

lemma stays_next_cluster [stays_intro]:
  assumes "in_heap (vol_geometry v) c"
  shows "stays pn E (\<lambda>_. True) (next_cluster D v c)" "stays pn E (\<lambda>_. True) (set_fat D v c val)"
proof -
  have fit: "as_usize (fat_byte c) mod sector_bytes v + 4 \<le> sector_bytes v"
    using fat_pos_fits [OF wf] by (simp only: fat_pos_as_usize [OF wf])
  show "stays pn E (\<lambda>_. True) (next_cluster D v c)" "stays pn E (\<lambda>_. True) (set_fat D v c val)"
    unfolding next_cluster_def set_fat_def Let_def
    by (rule stays_intro fat_region [OF wf assms] | use sizes fit in force)+
qed

text \<open>A walk that does not start in the heap may look for its first FAT entry anywhere; it writes nothing.\<close>

lemma stays_cluster_walk:
  assumes "strict \<Longrightarrow> in_heap (vol_geometry v) first"
  shows "stays pn E (\<lambda>_. True) (cluster_at D v first index)"
proof -
  have fit: "as_usize (fat_byte c) mod sector_bytes v + 4 \<le> sector_bytes v" for c
    using fat_pos_fits [OF wf] by (simp only: fat_pos_as_usize [OF wf])
  have look: "stays pn E (\<lambda>_. True) (next_cluster D v c)" if "strict \<Longrightarrow> in_heap (vol_geometry v) c" for c
    unfolding next_cluster_def Let_def
    by (rule stays_branch stays_skip no_flaw stays_trivial stays_bind stays_read_sector stays_scratch(3)
      | use sizes fit fat_region [OF wf that] in force)+
  show ?thesis
    unfolding cluster_at_def
    by (rule stays_branch(2) stays_skip(3) no_flaw stays_any [OF stays_fold [where P = "\<lambda>c. strict \<longrightarrow> in_heap (vol_geometry v) c"]]
        stays_bind [OF look] stays_skip | use assms in force)+
qed

lemma stays_cluster_at [stays_intro]:
  assumes "in_heap (vol_geometry v) first"
  shows "stays pn E (in_heap (vol_geometry v)) (cluster_at D v first index)"
  unfolding cluster_at_def
  by (rule stays_branch stays_skip no_flaw stays_fold stays_bind stays_next_cluster | use assms in force)+

text \<open>A place is a sector of the region and an offset in it.\<close>

definition place_ok :: "u64 \<times> nat \<Rightarrow> bool" where
  "place_ok p \<longleftrightarrow> fst p \<in> data_region (vol_geometry v) \<and> snd p < sector_bytes v"

lemma place_in_cluster:
  fixes p :: u64
  assumes "cluster_lba (vol_geometry v) c = Some lba"
  defines "within \<equiv> p mod ucast (bytes_per_cluster (vol_geometry v))"
  shows "place_ok (lba + within div of_usize (sector_bytes v), as_usize within mod sector_bytes v)"
proof -
  note facts = sector_size_facts [OF wf]
  have "unat p mod unat (bytes_per_cluster (vol_geometry v)) div sector_bytes v < unat (sectors_per_cluster (vol_geometry v))"
    using facts(2,4) unat_bytes_per_cluster [OF wf] by (simp add: div_less_iff_less_mult mult.commute)
  then show ?thesis
    using cluster_sector_region [OF wf assms(1)] facts(2) within_cluster(6) [OF wf, of p]
    by (simp add: place_ok_def within_def)
qed

lemma stays_bitmap_location [stays_intro]: "stays pn E place_ok (bitmap_location D v byte)"
  unfolding bitmap_location_def Let_def
  by (rule stays_branch stays_skip no_flaw stays_trivial stays_bind [OF stays_cluster_walk] stays_bind place_in_cluster
    | use sizes volume in \<open>force simp: volume_ok_def\<close>)+

lemma stays_bitmap [stays_intro]:
  "stays pn E (\<lambda>_. True) (bitmap_used D v c)" "stays pn E (\<lambda>_. True) (set_bitmap D v c used)"
proof -
  show "stays pn E (\<lambda>_. True) (bitmap_used D v c)"
    unfolding bitmap_used_def Let_def by (rule stays_intro | force simp: place_ok_def)+
  have ub: "stays pn E (\<lambda>_. True) (update_bitmap_bit D v used bt p)" if "place_ok p" for bt p
    unfolding update_bitmap_bit_def Let_def
    by (rule stays_intro | use that in \<open>force simp: place_ok_def\<close>)+
  show "stays pn E (\<lambda>_. True) (set_bitmap D v c used)"
    unfolding set_bitmap_def by (rule stays_intro ub | assumption)+
qed

lemma stays_allocate [stays_intro]:
  "stays pn E (\<lambda>_. True) (allocate_cluster_preferred D v c)" "stays pn E (\<lambda>_. True) (allocate_cluster D v)"
proof -
  have claim: "stays pn E (\<lambda>_. True) (claim_free_cluster D v c)" for c
    unfolding claim_free_cluster_def Let_def
    by (rule stays_intro cluster_sector_region [OF wf] | force simp: cluster_lba_def split: if_splits)+
  have attempts: "stays pn E (\<lambda>_. True) (try_clusters D v cs)" for cs
    unfolding try_clusters_def by (rule stays_intro claim | force)+
  show *: "stays pn E (\<lambda>_. True) (allocate_cluster_preferred D v c)" for c
    unfolding allocate_cluster_preferred_def Let_def by (rule stays_intro attempts | force)+
  show "stays pn E (\<lambda>_. True) (allocate_cluster D v)" unfolding allocate_cluster_def by (rule *)
qed

lemma stays_free_space [stays_intro]:
  "stays pn E (\<lambda>_. True) (refresh_free_clusters D v)" "stays pn E (\<lambda>_. True) (free_space_bytes D v)"
  "stays pn E (\<lambda>_. True) (refresh_free_space D v)"
proof -
  have take_fits: "pn \<or> off \<le> off + unat (min (min (of_usize (sector_bytes v - off)) b) left) \<and>
      off + unat (min (min (of_usize (sector_bytes v - off)) b) left) \<le> sector_bytes v"
    if "off < sector_bytes v" for off and b left :: u64
  proof -
    have "unat (min (min (of_usize (sector_bytes v - off)) b) left) \<le> unat (of_usize (sector_bytes v - off))"
      unfolding word_le_nat_alt [symmetric] by (simp add: min.coboundedI1)
    moreover have "sector_bytes v - off < 2 ^ 64" using sector_size_facts(6) [OF wf] by simp
    ultimately have "unat (min (min (of_usize (sector_bytes v - off)) b) left) \<le> sector_bytes v - off"
      by (simp only: unat_of_usize)
    then show ?thesis using that by linarith
  qed
  have result: "stays pn E (\<lambda>_. True) (from_result (count_used vals acc))" for vals acc
    by (rule stays_result) (auto simp: no_flaw dest!: count_used_error)
  have "stays pn E (\<lambda>_. True) (refresh_sector D v st p)" if "place_ok p" for st p
    unfolding refresh_sector_def Let_def
    by (rule stays_intro result take_fits | use sizes that in \<open>force simp: place_ok_def\<close>)+
  note this [stays_intro]
  have round: "stays pn E (\<lambda>_. True) (refresh_round D v st)" for st
    unfolding refresh_round_def by (rule stays_intro | assumption | force)+
  show r: "stays pn E (\<lambda>_. True) (refresh_free_clusters D v)"
    unfolding refresh_free_clusters_def
    by (rule stays_intro round)+
  show f: "stays pn E (\<lambda>_. True) (free_space_bytes D v)"
    unfolding free_space_bytes_def by (rule stays_intro r)+ 
  show "stays pn E (\<lambda>_. True) (refresh_free_space D v)"
    unfolding refresh_free_space_def by (rule stays_intro r f)+
qed

section \<open>Files\<close>

text \<open>The environment of a file operation with an output buffer of \<open>n\<close> bytes.\<close>

definition buffer :: "nat \<Rightarrow> File_env \<Rightarrow> bool" where
  "buffer n env \<longleftrightarrow> length (out_buf env) = n"

lemma stays_handle [stays_intro]:
  "stays pn E (\<lambda>_. True) get_file" "stays pn (buffer n) (\<lambda>_. True) (modify_file f)" "stays pn (buffer n) (\<lambda>_. True) (advance k)"
  by (simp_all add: stays_def get_file_def modify_file_def advance_def moved_refl) (simp_all add: buffer_def moved_def frame_def)

lemma stays_put_out:
  "done_bytes + length bs \<le> n \<Longrightarrow> stays pn (buffer n) (\<lambda>_. True) (put_out done_bytes bs)"
  by (simp add: stays_def moved_refl) (auto simp: buffer_def moved_def frame_def)

lemma stays_file_cluster [stays_intro]:
  "stays pn (buffer n) (in_heap (vol_geometry v)) (file_cluster_at D v wanted)"
proof -
  have chain: "stays pn (buffer n) (in_heap (vol_geometry v)) (chain_step D v a i c)" if "in_heap (vol_geometry v) c" for a i c
    unfolding chain_step_def Let_def by (rule stays_intro that | force)+
  have walk: "stays pn (buffer n) (in_heap (vol_geometry v)) (fold_m is (chain_step D v a) c)" if "in_heap (vol_geometry v) c" for "is" a c
    by (rule stays_fold [OF chain]) (use that in auto)
  show ?thesis
    unfolding file_cluster_at_def Let_def by (rule stays_intro walk | force)+
qed

lemma stays_file_sector [stays_intro]: "stays pn (buffer n) place_ok (file_sector D v)"
  unfolding file_sector_def Let_def by (rule stays_intro place_in_cluster | use sizes in force)+

lemma stays_transfer [stays_intro]:
  "stays pn (buffer n) (\<lambda>_. True) (file_read D v)" "stays pn (buffer n) (\<lambda>_. True) (file_write D v input)"
proof -
  have step: "stays pn (buffer n) (\<lambda>_. True) (read_step D v wanted k)" if "wanted \<le> n" for wanted k
    unfolding read_step_def Let_def by (rule stays_intro stays_put_out | use that in \<open>force simp: place_ok_def\<close>)+
  show "stays pn (buffer n) (\<lambda>_. True) (file_read D v)"
    unfolding file_read_def Let_def
    by (rule stays_intro step | force simp: buffer_def)+
  have step': "stays pn (buffer n) (\<lambda>_. True) (write_step D v input wanted k)" if "wanted \<le> length input" for wanted k
    unfolding write_step_def Let_def by (rule stays_intro | use that in \<open>force simp: place_ok_def\<close>)+
  show "stays pn (buffer n) (\<lambda>_. True) (file_write D v input)"
    unfolding file_write_def Let_def
    by (rule stays_intro step' | force)+
qed

end

end
