(* ===== verification/Contained_Ops.thy ===== *)
theory Contained_Ops
  imports Containment
begin

text \<open>
  The operations on directories stay inside the volume too: reading and searching, writing and retiring
  entry sets at locators inside the volume, finding free slots, creating directories and files. The
  locators an operation writes to come from the sectors it scanned: \<open>slot_in\<close> is kept by the decoder
  and by the search for free slots.
\<close>

section \<open>Errors and lengths\<close>

lemma push_error: "fst (push es raw l) = Inl e \<Longrightarrow> e = Corrupt"
  by (auto simp: push_def push_primary_def push_stream_def push_name_def count_secondary_def complete_def Let_def
      split: if_splits)

lemma encode_chars_bounds:
  "encode_chars name written out = (r, out') \<Longrightarrow> written \<le> length out \<Longrightarrow>
    length out' = length out \<and> (\<forall>n. r = Inr n \<longrightarrow> n \<le> length out) \<and> (\<forall>e. r = Inl e \<longrightarrow> e = NameTooLong)"
proof (induction name arbitrary: written out)
  case (Cons c name)
  show ?case
  proof (cases "length out < written + length (encode_utf16 c)")
    case False
    then show ?thesis
      using Cons.IH [of "written + length (encode_utf16 c)" "patch written (encode_utf16 c) out"] Cons.prems by (auto simp: Let_def)
  qed (use Cons.prems in auto)
qed auto

lemma utf8_to_utf16_bounds:
  "utf8_to_utf16 name out = (r, out') \<Longrightarrow> length out' = length out \<and> (\<forall>n. r = Inr n \<longrightarrow> n \<le> length out) \<and>
    (\<forall>e. r = Inl e \<longrightarrow> e \<in> {InvalidPath, NameTooLong})"
  using encode_chars_bounds [of name 0 out r out'] by (auto simp: utf8_to_utf16_def split: if_splits)

context volume_device
begin

section \<open>Locators\<close>

definition slot_in :: "EntryLocator \<Rightarrow> bool" where
  "slot_in l \<longleftrightarrow> el_lba l \<in> data_region (vol_geometry v) \<and> unat (el_offset l) + 32 \<le> sector_bytes v"

definition slots_ok :: "nat \<Rightarrow> EntryLocator list \<Rightarrow> bool" where
  "slots_ok n locs \<longleftrightarrow> length locs = 19 \<and> n \<le> 19 \<and> (\<forall>l \<in> set (take n locs). slot_in l)"

definition placed :: "DirectoryEntry \<Rightarrow> bool" where
  "placed e \<longleftrightarrow> slots_ok (unat (de_entry_count e)) (de_entry_locs e) \<and> slot_in (de_primary e) \<and> slot_in (de_stream e)"

definition decoding :: "EntrySet \<Rightarrow> bool" where
  "decoding es \<longleftrightarrow> slots_ok (unat (de_entry_count (entry es))) (de_entry_locs (entry es)) \<and>
     (de_entry_count (entry es) \<noteq> 0 \<longrightarrow> placed (entry es)) \<and> (stream_seen es \<longrightarrow> de_entry_count (entry es) \<noteq> 0)"

definition handle_ok :: "File \<Rightarrow> bool" where
  "handle_ok f \<longleftrightarrow> (\<forall>l \<in> set (take (unat (file_entry_count f)) (file_entry_locs f)). slot_in l) \<and>
     slot_in (file_primary f) \<and> slot_in (file_stream f)"

definition extent_ok :: "Directory \<Rightarrow> bool" where
  "extent_ok dir \<longleftrightarrow> (\<forall>l \<in> set (take (unat (dir_entry_count dir)) (dir_entry_locs dir)). slot_in l) \<and>
     (\<forall>l. dir_primary dir = Some l \<longrightarrow> slot_in l) \<and> (\<forall>l. dir_stream dir = Some l \<longrightarrow> slot_in l)"

lemma extent_ok_simps:
  "extent_ok (root_directory g)" "placed e \<Longrightarrow> entry_directory e = Some dir \<Longrightarrow> extent_ok dir"
  "placed e \<Longrightarrow> handle_ok (file_of_entry e)"
  by (auto simp: extent_ok_def root_directory_def placed_def entry_directory_def slots_ok_def handle_ok_def
      file_of_entry_def split: if_splits)

lemma slot_of_sector:
  assumes "lba \<in> data_region (vol_geometry v)" "slot < k div 32" "k \<le> sector_bytes v"
  shows "slot_in \<lparr>el_lba = lba, el_offset = word_of_nat (slot * 32)\<rparr>" "slot * 32 + 32 \<le> sector_bytes v"
proof -
  have "Suc slot * 32 \<le> k" using assms(2) by (metis div_times_less_eq_dividend le_trans less_eq_Suc_le mult_le_mono1)
  then show fit: "slot * 32 + 32 \<le> sector_bytes v" using assms(3) by simp
  have "unat (word_of_nat (slot * 32) :: u16) = slot * 32"
    using fit sector_size_facts(6) [OF wf] by (subst unat_of_nat) simp
  with fit assms(1) show "slot_in \<lparr>el_lba = lba, el_offset = word_of_nat (slot * 32)\<rparr>"
    unfolding slot_in_def EntryLocator.select_convs by presburger
qed

lemma slots_ok_update:
  assumes "slots_ok k locs" "slot_in l" "k < 19"
  shows "slots_ok (Suc k) (locs[k := l])"
  using assms by (auto simp: slots_ok_def take_Suc_conv_app_nth)

lemma decoding_new: "decoding new_entry_set"
  by (simp add: decoding_def new_entry_set_def empty_entry_def slots_ok_def no_locators_def)

lemma decoding_add_secondary:
  assumes "decoding es" "slot_in l" "de_entry_count (entry es) < 19" "de_entry_count (entry es) \<noteq> 0"
  shows "decoding (add_secondary es raw l)" "placed (entry (add_secondary es raw l))"
    "de_entry_count (entry (add_secondary es raw l)) \<noteq> 0"
proof -
  let ?c = "de_entry_count (entry es)"
  have c: "unat ?c < 19" using assms(3) by (simp add: word_less_nat_alt)
  have u: "unat (?c + 1) = Suc (unat ?c)" using c by (simp add: unat_add_small)
  then show nz: "de_entry_count (entry (add_secondary es raw l)) \<noteq> 0"
    by (simp add: add_secondary_def Let_def unat_eq_0 [symmetric])
  show p: "placed (entry (add_secondary es raw l))"
    using assms slots_ok_update [OF _ assms(2) c, of "de_entry_locs (entry es)"] u
    by (simp add: decoding_def placed_def add_secondary_def Let_def)
  show "decoding (add_secondary es raw l)" using p nz by (simp add: decoding_def placed_def)
qed

lemma count_secondary_decoding:
  "decoding es \<Longrightarrow> decoding (snd (count_secondary es))"
  "fst (count_secondary es) = Inr (Some e) \<Longrightarrow> e = entry es"
  by (auto simp: count_secondary_def complete_def Let_def decoding_def split: if_splits)

lemma push_primary_decoding:
  "decoding es \<Longrightarrow> slot_in l \<Longrightarrow> decoding (snd (push_primary es raw l))" "fst (push_primary es raw l) \<noteq> Inr (Some e)"
  by (auto simp: push_primary_def decoding_def placed_def slots_ok_def no_locators_def take_Suc_conv_app_nth)

lemma push_stream_decoding:
  assumes "decoding es" "slot_in l" "de_entry_count (entry es) \<noteq> 0"
  shows "decoding (snd (push_stream es raw l :: ('e error + DirectoryEntry option) \<times> EntrySet))" "fst (push_stream es raw l :: ('e error + DirectoryEntry option) \<times> EntrySet) = Inr (Some e) \<Longrightarrow> placed e"
proof -
  define es2 where "es2 = (add_secondary es raw l)\<lparr>stream_seen := True, entry := (entry (add_secondary es raw l))
    \<lparr>de_stream := l, de_no_fat_chain := raw ! 1 AND 0x02 \<noteq> 0, name_len := raw ! 3, de_valid_length := le_u64 (slice 8 16 raw),
      de_data_length := le_u64 (slice 24 32 raw), de_first_cluster := le_u32 (slice 20 24 raw)\<rparr>\<rparr>"
  have es2: "decoding es2 \<and> placed (entry es2)" if "\<not> 19 \<le> de_entry_count (entry es)"
    using decoding_add_secondary [OF assms(1,2) _ assms(3), of raw] that assms(2)
    by (auto simp: es2_def decoding_def placed_def)
  have cases: "(push_stream es raw l :: ('e error + DirectoryEntry option) \<times> EntrySet) = (Inl Corrupt, es) \<and> 19 \<le> de_entry_count (entry es) \<or>
      \<not> 19 \<le> de_entry_count (entry es) \<and> (push_stream es raw l :: ('e error + DirectoryEntry option) \<times> EntrySet) \<in> {(Inl Corrupt, es2), count_secondary es2}"
    by (simp add: push_stream_def Let_def es2_def)
  show "decoding (snd (push_stream es raw l :: ('e error + DirectoryEntry option) \<times> EntrySet))" using cases es2 assms(1) by (auto intro: count_secondary_decoding(1))
  show "fst (push_stream es raw l :: ('e error + DirectoryEntry option) \<times> EntrySet) = Inr (Some e) \<Longrightarrow> placed e"
    using cases es2 by (auto dest: count_secondary_decoding(2))
qed

lemma push_name_decoding:
  assumes "decoding es" "slot_in l" "de_entry_count (entry es) \<noteq> 0"
  shows "decoding (snd (push_name es raw l :: ('e error + DirectoryEntry option) \<times> EntrySet))" "fst (push_name es raw l :: ('e error + DirectoryEntry option) \<times> EntrySet) = Inr (Some e) \<Longrightarrow> placed e"
proof -
  obtain es2 where es2: "\<not> 19 \<le> de_entry_count (entry es) \<Longrightarrow> decoding es2 \<and> placed (entry es2)"
    and cases: "(push_name es raw l :: ('e error + DirectoryEntry option) \<times> EntrySet) = (Inl Corrupt, es) \<or>
      \<not> 19 \<le> de_entry_count (entry es) \<and> (push_name es raw l :: ('e error + DirectoryEntry option) \<times> EntrySet) = count_secondary es2"
  proof
    let ?a = "add_secondary es raw l"
    let ?es2 = "?a\<lparr>entry := (entry ?a)\<lparr>de_name := write_units (unat (name_written es)) (unat (name_len (entry ?a)))
        (map le_u16 (chunks_exact 2 (slice 2 32 raw))) (de_name (entry ?a))\<rparr>,
      name_written := saturating_add (name_written es) 15\<rparr>"
    show "decoding ?es2 \<and> placed (entry ?es2)" if "\<not> 19 \<le> de_entry_count (entry es)"
      using decoding_add_secondary [OF assms(1,2) _ assms(3), of raw] that by (auto simp: decoding_def placed_def)
    show "(push_name es raw l :: ('e error + DirectoryEntry option) \<times> EntrySet) = (Inl Corrupt, es) \<or>
      \<not> 19 \<le> de_entry_count (entry es) \<and> (push_name es raw l :: ('e error + DirectoryEntry option) \<times> EntrySet) = count_secondary ?es2"
      by (simp add: push_name_def Let_def)
  qed
  show "decoding (snd (push_name es raw l :: ('e error + DirectoryEntry option) \<times> EntrySet))" using cases es2 assms(1) by (auto intro: count_secondary_decoding(1))
  show "fst (push_name es raw l :: ('e error + DirectoryEntry option) \<times> EntrySet) = Inr (Some e) \<Longrightarrow> placed e"
    using cases es2 by (auto dest: count_secondary_decoding(2))
qed

lemma push_decoding:
  assumes "decoding es" "slot_in l"
  shows "decoding (snd (push es raw l :: ('e error + DirectoryEntry option) \<times> EntrySet))" "fst (push es raw l :: ('e error + DirectoryEntry option) \<times> EntrySet) = Inr (Some e) \<Longrightarrow> placed e"
proof -
  note parts = push_primary_decoding push_stream_decoding [OF assms] push_name_decoding [OF assms]
  have seen: "stream_seen es \<Longrightarrow> de_entry_count (entry es) \<noteq> 0" using assms(1) by (simp add: decoding_def)
  have keep: "decoding (es\<lparr>secondary_left := n, ignored := b\<rparr>)" "decoding (es\<lparr>ignored := b, secondary_left := n\<rparr>)" for n b
    using assms(1) by (simp_all add: decoding_def)
  show "decoding (snd (push es raw l :: ('e error + DirectoryEntry option) \<times> EntrySet))"
    unfolding push_def using assms parts seen keep by (auto simp: Let_def)
  show "fst (push es raw l :: ('e error + DirectoryEntry option) \<times> EntrySet) = Inr (Some e) \<Longrightarrow> placed e"
    unfolding push_def using parts seen by (auto simp: Let_def push_primary_decoding(2) split: if_splits)
qed

section \<open>Reading directories\<close>

lemma stays_folding [stays_intro]:
  "stays pn E (\<lambda>_. True) (upcase_unit D v u)" "stays pn E (\<lambda>_. True) (names_match D v xs ys)"
  "stays pn E (\<lambda>_. True) (upcase_name_hash D v xs)"
proof -
  have word: "stays pn E (\<lambda>_. True) (upcase_word D v byte)" if "vol_upcase_valid v" for byte
    unfolding upcase_word_def Let_def
    by (rule stays_branch stays_skip no_flaw stays_trivial stays_bind [OF stays_cluster_walk] stays_bind stays_sector_access(1) stays_scratch(3)
      | use place_in_cluster sizes volume that in \<open>force simp: place_ok_def volume_ok_def\<close>)+
  have round: "stays pn E (\<lambda>_. True) (upcase_round D v u st)" if "vol_upcase_valid v" for u st
    unfolding upcase_round_def Let_def by (rule stays_intro word | rule that)+
  show u: "stays pn E (\<lambda>_. True) (upcase_unit D v u)" for u
    unfolding upcase_unit_def by (rule stays_intro round | force)+
  show "stays pn E (\<lambda>_. True) (names_match D v xs ys)" "stays pn E (\<lambda>_. True) (upcase_name_hash D v xs)"
    unfolding names_match_def upcase_name_hash_def by (rule stays_intro u TrueI)+
qed

lemma stays_read_directory [stays_intro]: "stays pn (\<lambda>_. True) (\<lambda>_. True) (read_directory D v dir visitor)"
proof -
  have call: "stays pn (\<lambda>_. True) (\<lambda>_. True) (call_visitor visitor e)" for e
    by (auto simp: stays_def call_visitor_def post_def moved_def frame_def split: prod.splits)
  have row: "stays pn (\<lambda>_. True) (\<lambda>_. True) (visit_entry visitor lba row es)" for lba row es
    unfolding visit_entry_def
    using push_error [of es "snd row" "\<lparr>el_lba = lba, el_offset = word_of_nat (fst row * 32)\<rparr>", where 'a = 'e]
    by (auto intro!: stays_intro call simp: no_flaw dest!: arg_cong [where f = fst] split: prod.splits sum.splits option.splits)
  have sec: "stays pn (\<lambda>_. True) (\<lambda>_. True) (read_directory_sector D v dir visitor lba st)"
    if "lba \<in> data_region (vol_geometry v)" for lba st
    unfolding read_directory_sector_def Let_def by (rule stays_intro row that TrueI)+
  have clu: "stays pn (\<lambda>_. True) (\<lambda>_. True) (read_directory_cluster D v dir visitor st)" for st
    unfolding read_directory_cluster_def Let_def
    by (rule stays_intro sec cluster_sector_region [OF wf] | force simp: cluster_lba_def split: if_splits)+
  show ?thesis unfolding read_directory_def by (rule stays_intro clu)+
qed

lemma stays_first_entry [stays_intro]: "stays pn E (\<lambda>_. True) (first_directory_entry D v dir)"
  unfolding first_directory_entry_def
  by (rule stays_bind [OF stays_with_env [OF stays_read_directory TrueI]]) (auto intro: stays_skip)

section \<open>Looking names up\<close>

definition workspace_ok :: "Workspace \<Rightarrow> bool" where
  "workspace_ok w \<longleftrightarrow> decoding (entry_set w) \<and> length (utf16 w) = 255 \<and> length (locators w) = 19"

lemma workspace_ok_new: "workspace_ok new_workspace"
  by (simp add: workspace_ok_def new_workspace_def decoding_new no_locators_def)

lemma stays_workspace [stays_intro]:
  "slot_in l \<Longrightarrow> stays pn workspace_ok (\<lambda>r. \<forall>e. r = Some e \<longrightarrow> placed e) (ws_push raw l)"
  "pn \<or> n \<le> 255 \<Longrightarrow> stays pn workspace_ok (\<lambda>_. True) (ws_wanted n)"
  "stays pn workspace_ok (\<lambda>n. n \<le> 255) (ws_encode name)"
proof -
  show "stays pn workspace_ok (\<lambda>r. \<forall>e. r = Some e \<longrightarrow> placed e) (ws_push raw l)" if "slot_in l"
  proof (rule staysI)
    fix s :: "('d, Workspace) fs_scheme" assume s: "workspace_ok (fs.more s)"
    obtain r es where p: "(push :: _ \<Rightarrow> _ \<Rightarrow> _ \<Rightarrow> ('e error + DirectoryEntry option) \<times> EntrySet) (entry_set (fs.more s)) raw l = (r, es)" by fastforce
    have "decoding (entry_set (fs.more s))" using s by (simp add: workspace_ok_def)
    from push_decoding(1) [OF this that, of raw] push_decoding(2) [OF this that, of raw] s show "post (ws_push raw l) s (\<lambda>x s'. moved s s' \<and> workspace_ok (fs.more s') \<and> (\<forall>e. x = Some e \<longrightarrow> placed e))
        (\<lambda>(e :: 'e error exn) s'. moved s s' \<and> \<not> flaw pn e)"
      using push_error [of "entry_set (fs.more s)" raw l, where 'a = 'e]
      by (auto simp: ws_push_def p moved_def frame_def workspace_ok_def no_flaw split: sum.splits)
  qed
  show "stays pn workspace_ok (\<lambda>_. True) (ws_wanted n)" if "pn \<or> n \<le> 255"
    by (rule staysI) (use that in \<open>auto simp: ws_wanted_def moved_refl workspace_ok_def flaw_defs\<close>)
  show "stays pn workspace_ok (\<lambda>n. n \<le> 255) (ws_encode name)"
  proof (rule staysI)
    fix s :: "('d, Workspace) fs_scheme" assume s: "workspace_ok (fs.more s)"
    obtain r :: "'e error + nat" and out where p: "utf8_to_utf16 name (utf16 (fs.more s)) = (r, out)" by fastforce
    show "post (ws_encode name) s (\<lambda>x s'. moved s s' \<and> workspace_ok (fs.more s') \<and> x \<le> 255)
        (\<lambda>(e :: 'e error exn) s'. moved s s' \<and> \<not> flaw pn e)"
      using s utf8_to_utf16_bounds [OF p]
      by (auto simp: ws_encode_def p moved_def frame_def workspace_ok_def no_flaw split: sum.splits)
  qed
qed

lemma stays_find_child [stays_intro]:
  assumes "wanted \<le> 255"
  shows "stays pn workspace_ok (\<lambda>r. \<forall>e. r = Some e \<longrightarrow> placed e) (find_child D v dir wanted)"
proof -
  have slot: "stays pn workspace_ok (\<lambda>r. \<forall>e. r = Inr (Some e) \<longrightarrow> placed e) (find_slot D v wanted lba slot)"
    if "lba \<in> data_region (vol_geometry v)" "slot < k div 32" "k \<le> sector_bytes v" for lba slot k
    unfolding find_slot_def Let_def
    by (rule stays_intro slot_of_sector(1) [OF that] | use slot_of_sector(2) [OF that] assms that in force)+
  have sec: "stays pn workspace_ok (\<lambda>r. \<forall>e. r = Inr (Some e) \<longrightarrow> placed e) (find_sector D v dir wanted lba remaining)"
    if "lba \<in> data_region (vol_geometry v)" for lba remaining
  proof -
    have scan: "stays pn workspace_ok (\<lambda>r. case r of Inl _ \<Rightarrow> True | Inr x \<Rightarrow> \<forall>e. x = Some e \<longrightarrow> placed e)
        (for_m [0..<usable_bytes dir (sector_bytes v) remaining div 32] (\<lambda>slot _. find_slot D v wanted lba slot) ())"
      by (rule stays_for, rule stays_mono [OF slot [OF that, of _ "usable_bytes dir (sector_bytes v) remaining"]])
        (auto simp: usable_bytes_def split: sum.splits)
    show ?thesis
      unfolding find_sector_def Let_def
      by (rule stays_branch stays_skip stays_bind [OF stays_sector_access(1) [OF that]] stays_bind [OF scan] | force)+
  qed
  have secs: "stays pn workspace_ok (\<lambda>r. case r of Inl _ \<Rightarrow> True | Inr x \<Rightarrow> \<forall>e. x = Some e \<longrightarrow> placed e)
      (for_m [0..<unat (sectors_per_cluster (vol_geometry v))] (\<lambda>i. find_sector D v dir wanted (base + of_usize i)) acc)"
    if "cluster_lba (vol_geometry v) c = Some base" for c base acc
    by (rule stays_for, rule stays_mono [OF sec]) (use cluster_sector_region [OF wf that] in \<open>auto split: sum.splits\<close>)
  have clu: "stays pn workspace_ok (\<lambda>r. case r of Inl _ \<Rightarrow> True | Inr x \<Rightarrow> \<forall>e. x = Some e \<longrightarrow> placed e) (find_cluster D v dir wanted st)" for st
    unfolding find_cluster_def Let_def
    by (rule stays_branch stays_skip no_flaw stays_bind [OF stays_skip(4)] stays_bind [OF secs]
        stays_bind [OF stays_next_cluster(1)] | force simp: cluster_lba_def split: if_splits)+
  show ?thesis
    unfolding find_child_def
    by (rule stays_bind [OF stays_scratch(2)], rule stays_loop [OF clu]) (auto simp: no_flaw)
qed

lemma stays_lookup [stays_intro]:
  "stays pn workspace_ok placed (lookup_with_workspace D v path)"
  "stays pn workspace_ok handle_ok (open_with_workspace D v path)"
proof -
  have segs: "stays pn workspace_ok placed (lookup_segments D v segments dir current)" for segments dir current
  proof (induction segments arbitrary: dir current)
    case Nil
    show ?case
      by (simp only: lookup_segments.simps)
        (rule stays_bind [OF stays_workspace(3)], rule stays_bind [OF stays_find_child], assumption,
          auto intro!: stays_mono [OF stays_skip(4)] simp: no_flaw)
  next
    case (Cons next_one segments)
    show ?case
      by (simp only: lookup_segments.simps) (rule stays_intro Cons.IH | assumption | force)+
  qed
  show *: "stays pn workspace_ok placed (lookup_with_workspace D v path)" for path
    unfolding lookup_with_workspace_def by (auto intro!: stays_skip no_flaw segs split: list.splits)
  show "stays pn workspace_ok handle_ok (open_with_workspace D v path)"
    unfolding open_with_workspace_def by (rule stays_intro * | simp add: extent_ok_simps(3))+
qed

lemma stays_looking [stays_intro]:
  "stays pn E placed (fs_lookup D v path)" "stays pn E handle_ok (fs_open D v path)"
  "stays pn workspace_ok (\<lambda>_. True) (is_dir_empty_with_workspace D v path)" "stays pn E (\<lambda>_. True) (fs_is_dir_empty D v path)"
proof -
  show "stays pn E placed (fs_lookup D v path)" "stays pn E handle_ok (fs_open D v path)"
    unfolding fs_lookup_def fs_open_def
    by (rule stays_bind [OF stays_with_env [where F = workspace_ok, OF _ workspace_ok_new]], rule stays_lookup, auto intro: stays_skip)+
  show i: "stays pn workspace_ok (\<lambda>_. True) (is_dir_empty_with_workspace D v path)" for path
    unfolding is_dir_empty_with_workspace_def by (rule stays_intro)+
  show "stays pn E (\<lambda>_. True) (fs_is_dir_empty D v path)"
    unfolding fs_is_dir_empty_def by (rule stays_bind [OF stays_with_env [where F = workspace_ok, OF i workspace_ok_new]]) (auto intro: stays_skip)
qed

section \<open>Writing entry sets\<close>

text \<open>A pass over locators, with their positions.\<close>

lemma stays_rows:
  "(\<And>i l x. l \<in> set locs \<Longrightarrow> stays pn E (\<lambda>_. True) (k i l x)) \<Longrightarrow>
    stays pn E (\<lambda>_. True) (fold_m (enumerate n locs) (\<lambda>(i, l). k i l) a)"
  by (rule stays_iterate(2)) (auto simp: enumerate_eq_zip dest: set_zip_rightD)

lemma stays_entries [stays_intro]:
  "handle_ok f \<Longrightarrow> stays pn E (\<lambda>_. True) (update_stream D v f)"
  "(\<And>l. l \<in> set locs \<Longrightarrow> slot_in l) \<Longrightarrow> stays pn E (\<lambda>_. True) (write_entry_set D v locs c)"
  "placed e \<Longrightarrow> stays pn E (\<lambda>_. True) (retire_entry_set D v e)"
  "placed e \<Longrightarrow> stays pn E (\<lambda>_. True) (recompute_entry_checksum D v e)"
proof -
  have sum: "stays pn E (\<lambda>_. True) (checksum_entries D (sector_bytes v) locs)" if "\<forall>l \<in> set locs. slot_in l" for locs
    unfolding checksum_entries_def Let_def
    by (rule stays_rows stays_intro | use that in \<open>force simp: slot_in_def\<close>)+
  have stream: "stays pn E (\<lambda>_. True) (write_stream_entry D (sector_bytes v) f)" if "slot_in (file_stream f)" for f
    unfolding write_stream_entry_def Let_def
    by (rule stays_intro stays_any [OF stays_scratch(5)] | use that in \<open>force simp: slot_in_def stream_fields_of_def\<close>)+
  show "stays pn E (\<lambda>_. True) (update_stream D v f)" if "handle_ok f"
    unfolding update_stream_def Let_def
    by (rule stays_intro sum stream | use that in \<open>force simp: handle_ok_def slot_in_def\<close>)+
  have check: "stays pn E (\<lambda>_. True) (store_checksum D (sector_bytes v) l x)" if "slot_in l" for l x
    unfolding store_checksum_def by (rule stays_intro | use that in \<open>force simp: slot_in_def\<close>)+
  have store: "stays pn E (\<lambda>_. True) (store_row D (sector_bytes v) l bs)" if "slot_in l" "length bs = 32" for l bs
    unfolding store_row_def Let_def by (rule stays_intro | use that in \<open>force simp: slot_in_def\<close>)+
  show "stays pn E (\<lambda>_. True) (write_entry_set D v locs c)" if "\<And>l. l \<in> set locs \<Longrightarrow> slot_in l"
    unfolding write_entry_set_def Let_def
    by (rule stays_rows stays_intro store check that nth_mem | force simp: length_entry_row)+
  have retire: "stays pn E (\<lambda>_. True) (retire_row D (sector_bytes v) l)" if "slot_in l" for l
    unfolding retire_row_def Let_def by (rule stays_intro | use that in \<open>force simp: slot_in_def\<close>)+
  show "stays pn E (\<lambda>_. True) (retire_entry_set D v e)" if "placed e"
    unfolding retire_entry_set_def by (rule stays_intro retire | use that in \<open>force simp: placed_def slots_ok_def\<close>)+
  show "stays pn E (\<lambda>_. True) (recompute_entry_checksum D v e)" if "placed e"
    unfolding recompute_entry_checksum_def Let_def
    by (rule stays_rows stays_intro check | use that in \<open>force simp: placed_def slots_ok_def slot_in_def\<close>)+
qed

section \<open>Free slots\<close>

text \<open>
  The search for free slots fills the workspace's locators from the front. \<open>turns E m Q\<close> is \<open>stays\<close> with
  an environment that changes: \<open>filled wanted run\<close> says that the first \<open>run\<close> locators are slots of the volume.
\<close>

definition turns :: "bool \<Rightarrow> ('x \<Rightarrow> bool) \<Rightarrow> ('a \<Rightarrow> 'x \<Rightarrow> bool) \<Rightarrow> ('d, 'x, 'e, 'a) fsm \<Rightarrow> bool" where
  "turns pn E Q m \<longleftrightarrow> (\<forall>s. ready s \<longrightarrow> E (fs.more s) \<longrightarrow>
     post m s (\<lambda>x s'. moved s s' \<and> Q x (fs.more s')) (\<lambda>e s'. moved s s' \<and> \<not> flaw pn e))"

lemma turns_stays: "stays pn E P m \<longleftrightarrow> turns pn E (\<lambda>x env. E env \<and> P x) m"
  by (simp add: stays_def turns_def)

lemma turns_bind:
  assumes m: "turns pn E Q m" and f: "\<And>x. turns pn (Q x) Q' (f x)"
  shows "turns pn E Q' (bindM m f)"
  unfolding turns_def
proof (intro allI impI)
  fix s assume s: "ready s" "E (fs.more s)"
  have "post (f x) s' (\<lambda>x u. moved s u \<and> Q' x (fs.more u)) (\<lambda>e u. moved s u \<and> \<not> flaw pn e)"
    if "moved s s'" "Q x (fs.more s')" for x s'
    by (rule post_mono [OF f [unfolded turns_def, rule_format, OF moved_ready [OF that(1) s(1)] that(2)]])
      (use moved_trans [OF that(1)] in auto)
  then show "post (bindM m f) s (\<lambda>x u. moved s u \<and> Q' x (fs.more u)) (\<lambda>e u. moved s u \<and> \<not> flaw pn e)"
    unfolding post_bindM by (intro post_mono [OF m [unfolded turns_def, rule_format, OF s]]) auto
qed

lemma turns_bind_stays:
  "stays pn E P m \<Longrightarrow> (\<And>x. P x \<Longrightarrow> turns pn E Q' (f x)) \<Longrightarrow> turns pn E Q' (bindM m f)"
  by (rule turns_bind, simp add: turns_stays) (auto simp: turns_def)

lemma turns_mono:
  "turns pn E Q m \<Longrightarrow> (\<And>env. E' env \<Longrightarrow> E env) \<Longrightarrow> (\<And>x env. Q x env \<Longrightarrow> Q' x env) \<Longrightarrow> turns pn E' Q' m"
  by (auto simp: turns_def elim!: post_mono)

lemma turns_return: "(\<And>env. E env \<Longrightarrow> Q x env) \<Longrightarrow> turns pn E Q (returnM x)"
  by (simp add: turns_def moved_refl)

lemma turns_fail: "\<not> flaw pn (Error d) \<Longrightarrow> turns pn E Q (fail d)"
  by (simp add: turns_def moved_refl)

lemma turns_for:
  assumes "\<And>i x. i \<in> set is \<Longrightarrow> turns pn (I x) (\<lambda>r env. case r of Inl x' \<Rightarrow> I x' env | Inr y \<Rightarrow> Q y env) (body i x)"
  shows "turns pn (I x) (\<lambda>r env. case r of Inl x' \<Rightarrow> I x' env | Inr y \<Rightarrow> Q y env) (for_m is body x)"
  using assms
proof (induction "is" arbitrary: x)
  case Nil
  show ?case by (simp add: turns_return)
next
  case (Cons i "is")
  show ?case
    unfolding for_m.simps
  proof (rule turns_bind [OF Cons.prems [of i]])
    fix r
    show "turns pn (\<lambda>env. case r of Inl x' \<Rightarrow> I x' env | Inr y \<Rightarrow> Q y env)
        (\<lambda>r env. case r of Inl x' \<Rightarrow> I x' env | Inr y \<Rightarrow> Q y env)
        (case r of Inl x' \<Rightarrow> for_m is body x' | Inr y \<Rightarrow> returnM (Inr y))"
      using Cons by (cases r) (simp_all add: turns_return)
  qed simp
qed

lemma turns_loop:
  assumes "\<And>x. turns pn (I x) (\<lambda>r env. case r of Inl x' \<Rightarrow> I x' env | Inr y \<Rightarrow> Q y env) (body x)" "\<not> flaw pn out"
  shows "turns pn (I x) Q (loop_m n out body x)"
proof (induction n arbitrary: x)
  case 0
  show ?case using assms(2) by (simp add: turns_def moved_refl)
next
  case (Suc n)
  show ?case
    unfolding loop_m.simps
  proof (rule turns_bind [OF assms(1)])
    fix r
    show "turns pn (\<lambda>env. case r of Inl x' \<Rightarrow> I x' env | Inr y \<Rightarrow> Q y env) Q
        (case r of Inl x' \<Rightarrow> loop_m n out body x' | Inr y \<Rightarrow> returnM y)"
      using Suc by (cases r) (simp_all add: turns_return)
  qed
qed

lemma turns_each:
  assumes "\<And>i. i < n \<Longrightarrow> turns pn (I i) (\<lambda>_. I (Suc i)) (body i)"
  shows "a \<le> n \<Longrightarrow> turns pn (I a) (\<lambda>_. I n) (each_m [a..<n] body)"
proof (induction rule: inc_induct)
  case base
  show ?case by (simp add: turns_return)
next
  case (step a)
  then show ?case by (simp only: upt_rec [of a] if_True each_m.simps) (rule turns_bind [OF assms])
qed

text \<open>The first \<open>n\<close> locators of the workspace are slots of the volume.\<close>

definition marked :: "nat \<Rightarrow> Workspace \<Rightarrow> bool" where
  "marked n w \<longleftrightarrow> workspace_ok w \<and> slots_ok n (locators w)"

definition found :: "nat \<Rightarrow> EntryLocator list \<Rightarrow> Workspace \<Rightarrow> bool" where
  "found wanted locs w \<longleftrightarrow> workspace_ok w \<and> slots_ok wanted locs"

lemma turns_set_locator:
  assumes "slot_in l" "n < 19"
  shows "turns pn (marked n) (\<lambda>_. marked (Suc n)) (set_locator n l)"
  unfolding turns_def
proof (intro allI impI)
  fix s :: "('d, Workspace) fs_scheme" assume s: "marked n (fs.more s)"
  then have len: "n < length (locators (fs.more s))" using assms(2) by (simp add: marked_def slots_ok_def)
  have "marked (Suc n) (fs.more s\<lparr>locators := (locators (fs.more s))[n := l]\<rparr>)"
    using s slots_ok_update [OF _ assms] by (simp add: marked_def workspace_ok_def)
  then show "post (set_locator n l) s (\<lambda>_ s'. moved s s' \<and> marked (Suc n) (fs.more s')) (\<lambda>(e :: 'e error exn) s'. moved s s' \<and> \<not> flaw pn e)"
    using len by (simp add: set_locator_def get_locators_def set_locators_def moved_def frame_def)
qed

lemma turns_get_locators: "turns pn (marked n) (\<lambda>locs w. found n locs w) get_locators"
  by (simp add: turns_def get_locators_def moved_refl marked_def found_def)

lemma turns_free_slot:
  assumes "lba \<in> data_region (vol_geometry v)" "slot < k div 32" "k \<le> sector_bytes v" "wanted \<le> 19"
  shows "turns pn (\<lambda>w. run < wanted \<and> marked run w)
    (\<lambda>r w. case r of Inl run' \<Rightarrow> run' < wanted \<and> marked run' w | Inr locs \<Rightarrow> found wanted locs w)
    (free_slot (sector_bytes v) wanted lba slot run)"
proof -
  note slot = slot_of_sector [OF assms(1-3)]
  have zero: "marked 0 w" if "marked run w" for w using that by (simp add: marked_def slots_ok_def)
  have mark: "turns pn (marked run) (\<lambda>r w. case r of Inl run' \<Rightarrow> run' < wanted \<and> marked run' w | Inr locs \<Rightarrow> found wanted locs w)
      (bindM (set_locator run \<lparr>el_lba = lba, el_offset = word_of_nat (slot * 32)\<rparr>) (\<lambda>_.
       if Suc run = wanted then bindM get_locators (\<lambda>locs. returnM (Inr locs)) else returnM (Inl (Suc run))))"
    if run: "run < wanted"
  proof (rule turns_bind [OF turns_set_locator [OF slot(1)]])
    show "run < 19" using run assms(4) by simp
    show "turns pn (marked (Suc run)) (\<lambda>r w. case r of Inl run' \<Rightarrow> run' < wanted \<and> marked run' w | Inr locs \<Rightarrow> found wanted locs w)
        (if Suc run = wanted then bindM get_locators (\<lambda>locs. returnM (Inr locs)) else returnM (Inl (Suc run)))"
    proof (cases "Suc run = wanted")
      case True
      show ?thesis unfolding if_P [OF True] by (rule turns_bind [OF turns_get_locators]) (simp add: turns_return True)
    next
      case False
      then show ?thesis using run by (simp add: turns_return)
    qed
  qed
  show ?thesis
  proof (cases "run < wanted")
    case True
    show ?thesis
      unfolding free_slot_def if_P [OF True]
      by (rule turns_bind_stays [OF stays_scratch(4)])
        (use slot(2) mark [OF True] True zero in \<open>auto intro: turns_return turns_mono\<close>)
  next
    case False
    then show ?thesis by (simp add: turns_def)
  qed
qed

lemma turns_free_sector:
  assumes lba: "lba \<in> data_region (vol_geometry v)" and wanted: "wanted \<le> 19"
  shows "turns pn (\<lambda>w. fst st < wanted \<and> marked (fst st) w)
    (\<lambda>r w. case r of Inl st' \<Rightarrow> fst st' < wanted \<and> marked (fst st') w | Inr locs \<Rightarrow> found wanted locs w)
    (free_sector D v dir wanted lba st)"
proof -
  obtain run remaining where st: "st = (run, remaining)" by (cases st)
  have usable: "usable_bytes dir (sector_bytes v) remaining \<le> sector_bytes v" by (simp add: usable_bytes_def)
  have slots: "turns pn (\<lambda>w. run < wanted \<and> marked run w)
      (\<lambda>r w. case r of Inl run' \<Rightarrow> run' < wanted \<and> marked run' w | Inr locs \<Rightarrow> found wanted locs w)
      (for_m [0..<usable_bytes dir (sector_bytes v) remaining div 32] (free_slot (sector_bytes v) wanted lba) run)"
    by (rule turns_for, rule turns_free_slot [OF lba _ usable wanted]) simp
  show ?thesis
  proof (cases "remaining = 0 \<and> dir_data_length dir \<noteq> 0")
    case True
    then show ?thesis by (simp add: free_sector_def st turns_fail no_flaw)
  next
    case False
    show ?thesis
      unfolding free_sector_def st prod.case Let_def if_not_P [OF False] fst_conv
      by (rule turns_bind_stays [OF stays_sector_access(1) [OF lba]], rule turns_bind [OF slots])
        (auto intro: turns_return split: sum.splits)
  qed
qed

lemma turns_free_cluster:
  assumes wanted: "wanted \<le> 19"
  shows "turns pn (\<lambda>w. fst (snd st) < wanted \<and> marked (fst (snd st)) w)
    (\<lambda>r w. case r of Inl st' \<Rightarrow> fst (snd st') < wanted \<and> marked (fst (snd st')) w
       | Inr (Inl (cluster, base, run)) \<Rightarrow> cluster_lba (vol_geometry v) cluster = Some base \<and> run < wanted \<and> marked run w
       | Inr (Inr locs) \<Rightarrow> found wanted locs w)
    (free_cluster D v dir wanted st)" (is "turns pn ?I ?Q _")
proof -
  obtain cluster acc where st: "st = (cluster, acc)" by (cases st)
  have secs: "turns pn (\<lambda>w. fst acc < wanted \<and> marked (fst acc) w)
      (\<lambda>r w. case r of Inl x \<Rightarrow> fst x < wanted \<and> marked (fst x) w | Inr locs \<Rightarrow> found wanted locs w)
      (for_m [0..<unat (sectors_per_cluster (vol_geometry v))] (\<lambda>i. free_sector D v dir wanted (base + of_usize i)) acc)"
    if "cluster_lba (vol_geometry v) cluster = Some base" for base
    by (rule turns_for, rule turns_free_sector [OF cluster_sector_region [OF wf that] wanted]) simp
  have more: "turns pn (\<lambda>w. fst acc < wanted \<and> marked (fst acc) w) ?Q (bindM (for_m [0..<unat (sectors_per_cluster (vol_geometry v))]
        (\<lambda>i. free_sector D v dir wanted (base + of_usize i)) acc) (\<lambda>r.
      case r of
        Inr locs \<Rightarrow> returnM (Inr (Inr locs))
      | Inl (run, remaining) \<Rightarrow>
          if dir_no_fat_chain dir then fail NoSpace else
          bindM (next_cluster D v cluster) (\<lambda>c.
          if c < 0xFFFFFFF8 then (if c < 2 then fail Corrupt else returnM (Inl (c, run, remaining)))
          else returnM (Inr (Inl (cluster, base, run))))))"
    if base: "cluster_lba (vol_geometry v) cluster = Some base" for base
  proof (rule turns_bind [OF secs [OF base]])
    have heap: "in_heap (vol_geometry v) cluster" using base by (simp add: cluster_lba_def split: if_splits)
    fix r :: "(nat \<times> u64) + EntryLocator list"
    show "turns pn (\<lambda>w. case r of Inl x \<Rightarrow> fst x < wanted \<and> marked (fst x) w | Inr locs \<Rightarrow> found wanted locs w) ?Q
      (case r of
        Inr locs \<Rightarrow> returnM (Inr (Inr locs))
      | Inl (run, remaining) \<Rightarrow>
          if dir_no_fat_chain dir then fail NoSpace else
          bindM (next_cluster D v cluster) (\<lambda>c.
          if c < 0xFFFFFFF8 then (if c < 2 then fail Corrupt else returnM (Inl (c, run, remaining)))
          else returnM (Inr (Inl (cluster, base, run)))))"
      by (cases r) (auto intro!: turns_return turns_fail turns_bind_stays [OF stays_next_cluster(1) [OF heap]] simp: no_flaw base)
  qed
  show ?thesis
    unfolding free_cluster_def Let_def st split_conv snd_conv
    by (rule turns_bind_stays [OF stays_skip(4) [OF no_flaw(1)]], erule more)
qed

lemma last_sector_region:
  assumes "cluster_lba (vol_geometry v) c = Some base"
  shows "base + ucast (sectors_per_cluster (vol_geometry v) - 1) \<in> data_region (vol_geometry v)"
proof -
  let ?n = "sectors_per_cluster (vol_geometry v)"
  have n: "0 < unat ?n" using wf_geometryD(2) [OF wf] .
  then have "unat (?n - 1) = unat ?n - 1" by (simp add: unat_sub word_le_nat_alt)
  moreover have "of_usize (unat w) = ucast w" for w :: u32
    using less_trans [OF unat_u32_lt [of w]] by (simp add: word_unat_eq_iff unat_of_usize)
  ultimately have "ucast (?n - 1) = of_usize (unat ?n - 1)" by metis
  then show ?thesis using cluster_sector_region [OF wf assms, of "unat ?n - 1"] n by simp
qed

lemma stays_extend_directory:
  assumes "extent_ok dir" "cluster_lba (vol_geometry v) cluster = Some base"
  shows "stays pn E (\<lambda>r. extent_ok (fst r)) (extend_directory D v dir cluster base)"
proof -
  have heap: "in_heap (vol_geometry v) cluster" using assms(2) by (simp add: cluster_lba_def split: if_splits)
  have handle: "handle_ok (directory_file (dir\<lparr>dir_data_length := n\<rparr>) p t)" "extent_ok (dir\<lparr>dir_data_length := n\<rparr>)"
    if "dir_primary dir = Some p" "dir_stream dir = Some t" for n p t
    using assms(1) that by (auto simp: extent_ok_def handle_ok_def directory_file_def)
  show ?thesis
    unfolding extend_directory_def Let_def
    by (rule stays_intro heap last_sector_region [OF assms(2)] handle(1) | use assms(1) handle(2) in \<open>force simp: mark_unused_def\<close>)+
qed

lemma turns_finish_run:
  assumes "run < wanted" "wanted \<le> 19"
  shows "turns pn (marked run) (\<lambda>r w. workspace_ok w \<and> (\<forall>locs. r = Some locs \<longrightarrow> found wanted locs w)) (finish_run v wanted run new_one)"
proof -
  have slots: "turns pn (marked run) (\<lambda>r w. workspace_ok w \<and> (\<forall>locs. r = Some locs \<longrightarrow> found wanted locs w))
      (if wanted - run \<le> sector_bytes v div 32 then
        bindM (each_m [0..<wanted - run] (\<lambda>i. set_locator (run + i) \<lparr>el_lba = lba, el_offset = word_of_nat (i * 32)\<rparr>)) (\<lambda>_.
        bindM get_locators (\<lambda>locs. returnM (Some locs)))
      else returnM None)"
    if "lba \<in> data_region (vol_geometry v)" for lba
  proof (cases "wanted - run \<le> sector_bytes v div 32")
    case True
    have "turns pn (marked (run + 0)) (\<lambda>_. marked (run + (wanted - run)))
        (each_m [0..<wanted - run] (\<lambda>i. set_locator (run + i) \<lparr>el_lba = lba, el_offset = word_of_nat (i * 32)\<rparr>))"
      by (rule turns_each [where I = "\<lambda>i. marked (run + i)"], unfold add_Suc_right, rule turns_set_locator,
          rule slot_of_sector(1) [OF that, of _ "sector_bytes v"]) (use True assms in auto)
    then have fill: "turns pn (marked run) (\<lambda>_. marked wanted)
        (each_m [0..<wanted - run] (\<lambda>i. set_locator (run + i) \<lparr>el_lba = lba, el_offset = word_of_nat (i * 32)\<rparr>))"
      using assms(1) by simp
    show ?thesis
      unfolding if_P [OF True]
      by (rule turns_bind [OF fill], rule turns_bind [OF turns_get_locators]) (simp add: turns_return found_def)
  next
    case False
    show ?thesis unfolding if_not_P [OF False] by (rule turns_return) (simp add: marked_def)
  qed
  show ?thesis
  proof (cases "run = 0")
    case True
    show ?thesis unfolding finish_run_def if_P [OF True] by (rule turns_return) (simp add: marked_def)
  next
    case False
    show ?thesis
      unfolding finish_run_def if_not_P [OF False] Let_def
      by (rule turns_bind_stays [OF stays_skip(4) [OF no_flaw(1)]], rule slots, rule cluster_region [OF wf])
  qed
qed

lemma turns_find_free_round:
  assumes "wanted \<le> 19" "0 < wanted"
  shows "turns pn (\<lambda>w. extent_ok dir \<and> workspace_ok w)
    (\<lambda>r w. case r of Inl dir' \<Rightarrow> extent_ok dir' \<and> workspace_ok w | Inr locs \<Rightarrow> found wanted locs w)
    (find_free_round D v wanted dir)" (is "turns pn ?I ?Q _")
proof (cases "extent_ok dir")
  case True
  have start: "turns pn ?I (\<lambda>_. marked 0) (set_locators no_locators)"
    by (simp add: turns_def set_locators_def moved_def frame_def marked_def workspace_ok_def slots_ok_def no_locators_def)
  have scan: "turns pn (marked 0)
      (\<lambda>r w. case r of Inl (cluster, base, run) \<Rightarrow> cluster_lba (vol_geometry v) cluster = Some base \<and> run < wanted \<and> marked run w
         | Inr locs \<Rightarrow> found wanted locs w)
      (loop_m (unat (cluster_count (vol_geometry v))) (Error Corrupt) (free_cluster D v dir wanted)
        (dir_first_cluster dir, 0, dir_data_length dir))"
    by (rule turns_mono [OF turns_loop [where I = "\<lambda>st w. fst (snd st) < wanted \<and> marked (fst (snd st)) w"]],
        rule turns_mono [OF turns_free_cluster [OF assms(1)]])
      (use assms(2) in \<open>auto simp: no_flaw split: sum.splits\<close>)
  have finish: "turns pn (marked run) ?Q
      (bindM (extend_directory D v dir cluster base) (\<lambda>(dir', new_one).
       bindM (finish_run v wanted run new_one) (\<lambda>r.
       case r of Some locs \<Rightarrow> returnM (Inr locs) | None \<Rightarrow> returnM (Inl dir'))))"
    if "cluster_lba (vol_geometry v) cluster = Some base" "run < wanted" for cluster base run
  proof (rule turns_bind_stays [OF stays_extend_directory [OF True that(1)]], clarify)
    fix dir' new_one assume dir': "extent_ok (fst (dir', new_one :: u32))"
    show "turns pn (marked run) ?Q (bindM (finish_run v wanted run new_one) (\<lambda>r.
        case r of Some locs \<Rightarrow> returnM (Inr locs) | None \<Rightarrow> returnM (Inl dir')))"
      by (rule turns_bind [OF turns_finish_run [OF that(2) assms(1)]])
        (use dir' in \<open>auto intro!: turns_return split: option.splits\<close>)
  qed
  show ?thesis
    unfolding find_free_round_def
  proof (rule turns_bind [OF start], rule turns_bind [OF scan])
    fix r :: "(u32 \<times> u64 \<times> nat) + EntryLocator list"
    show "turns pn (\<lambda>w. case r of Inl (cluster, base, run) \<Rightarrow> cluster_lba (vol_geometry v) cluster = Some base \<and> run < wanted \<and> marked run w
         | Inr locs \<Rightarrow> found wanted locs w) ?Q
      (case r of
        Inr locs \<Rightarrow> returnM (Inr locs)
      | Inl (cluster, base, run) \<Rightarrow>
          bindM (extend_directory D v dir cluster base) (\<lambda>(dir', new_one).
          bindM (finish_run v wanted run new_one) (\<lambda>r.
          case r of Some locs \<Rightarrow> returnM (Inr locs) | None \<Rightarrow> returnM (Inl dir'))))"
    proof (cases r)
      case (Inl x)
      obtain cluster base run where x: "x = (cluster, base, run)" by (cases x)
      show ?thesis
      proof (cases "cluster_lba (vol_geometry v) cluster = Some base \<and> run < wanted")
        case True
        then show ?thesis using finish by (simp add: Inl x)
      next
        case False
        then show ?thesis by (auto simp: Inl x turns_def)
      qed
    qed (simp add: turns_return)
  qed
next
  case False
  then show ?thesis by (simp add: turns_def)
qed

lemma stays_find_free [stays_intro]:
  assumes "extent_ok dir"
  shows "stays pn workspace_ok (\<lambda>locs. 3 \<le> wanted \<and> slots_ok wanted locs) (find_free_entries D v dir wanted)"
proof (cases "3 \<le> wanted \<and> wanted \<le> 19")
  case True
  have "turns pn (\<lambda>w. extent_ok dir \<and> workspace_ok w) (found wanted)
      (loop_m (unat (cluster_count (vol_geometry v)) + 2) Diverge (find_free_round D v wanted) dir)"
    by (rule turns_loop, rule turns_find_free_round) (use True in \<open>simp_all add: no_flaw\<close>)
  then show ?thesis
    using True assms by (auto simp: find_free_entries_def turns_stays found_def elim: turns_mono)
next
  case False
  then show ?thesis by (simp add: find_free_entries_def stays_skip no_flaw)
qed

section \<open>Creating and renaming\<close>

lemma stays_split_parent [stays_intro]: "stays pn workspace_ok (\<lambda>p. extent_ok (fst p)) (split_parent D v path)"
  unfolding split_parent_def
  by (rule stays_intro extent_ok_simps(1) | force simp: extent_ok_simps)+

lemma stays_first_locators [stays_intro]:
  "slots_ok n locs \<Longrightarrow> stays pn E (\<lambda>slots. \<forall>l \<in> set slots. slot_in l) (first_locators n locs)"
  unfolding first_locators_def by (rule stays_intro | force simp: slots_ok_def)+

lemma new_places:
  assumes "slots_ok n locs" "3 \<le> n"
  shows "handle_ok (empty_file locs n)" "extent_ok (new_directory locs n cluster len)"
proof -
  have in_set: "locs ! i \<in> set (take n locs)" if "i < 3" for i
    using assms that by (metis in_set_conv_nth length_take less_le_trans min.absorb4 min_def nth_take slots_ok_def)
  have "unat (word_of_nat n :: u8) = n" using assms(1) by (simp add: slots_ok_def unat_of_nat)
  then show "handle_ok (empty_file locs n)" "extent_ok (new_directory locs n cluster len)"
    using assms(1) in_set [of 0] in_set [of 1]
    by (auto simp: slots_ok_def handle_ok_def empty_file_def extent_ok_def new_directory_def)
qed

lemma stays_create [stays_intro]:
  assumes "extent_ok parent"
  shows "stays pn workspace_ok handle_ok (create_new D v parent name)"
    "len \<le> 255 \<Longrightarrow> stays pn workspace_ok extent_ok (create_dir_new D v parent len)"
proof -
  show "stays pn workspace_ok handle_ok (create_new D v parent name)"
    unfolding create_new_def Let_def by (rule stays_intro assms | force simp: new_places)+
  show "stays pn workspace_ok extent_ok (create_dir_new D v parent len)" if "len \<le> 255"
    unfolding create_dir_new_def Let_def by (rule stays_intro assms | use that in \<open>force simp: new_places\<close>)+
qed

lemma stays_create_dirs [stays_intro]:
  "stays pn workspace_ok (\<lambda>_. True) (create_dir_all_with_workspace D v path)" "stays pn E (\<lambda>_. True) (fs_create_dir_all D v path)"
proof -
  have step: "stays pn workspace_ok extent_ok (create_dir_step D v name parent)" if "extent_ok parent" for name parent
    unfolding create_dir_step_def
    by (rule stays_intro stays_mono [OF stays_skip(4)] that | force simp: extent_ok_simps)+
  show *: "stays pn workspace_ok (\<lambda>_. True) (create_dir_all_with_workspace D v path)" for path
    unfolding create_dir_all_with_workspace_def Let_def
    by (rule stays_branch stays_skip no_flaw stays_trivial stays_bind [OF stays_fold [where P = extent_ok]] step
        extent_ok_simps(1) | assumption)+
  show "stays pn E (\<lambda>_. True) (fs_create_dir_all D v path)"
    unfolding fs_create_dir_all_def
    by (rule stays_bind [OF stays_with_env [where F = workspace_ok, OF * workspace_ok_new]]) (simp add: stays_skip)
qed

text \<open>Renaming may panic: a new name with fewer name entries than the old one has.\<close>

lemma stays_rename [stays_intro]:
  "stays True workspace_ok (\<lambda>_. True) (rename_with_workspace D v path name)" "stays True E (\<lambda>_. True) (fs_rename D v path name)"
proof -
  have replace: "stays True workspace_ok (\<lambda>_. True) (rename_replace D v path e len)" if "placed e" for path e len
    unfolding rename_replace_def Let_def by (rule stays_intro that | force)+
  have stream: "stays True E (\<lambda>_. True) (rename_stream D (sector_bytes v) l len hash)" if "slot_in l" for E :: "Workspace \<Rightarrow> bool" and l len hash
    unfolding rename_stream_def Let_def by (rule stays_intro | use that in \<open>force simp: slot_in_def\<close>)+
  have names: "stays True E (\<lambda>_. True) (rename_name D (sector_bytes v) units (i, l))" if "slot_in l" for E :: "Workspace \<Rightarrow> bool" and units i l
    unfolding rename_name_def Let_def by (rule stays_intro | use that in \<open>force simp: slot_in_def\<close>)+
  have slot: "slot_in l" if "placed e" "(i, l) \<in> set (enumerate 0 (slice 2 (unat (de_entry_count e)) (de_entry_locs e)))" for e i l
    using that unfolding slice_def drop_take [symmetric]
    by (auto simp: placed_def slots_ok_def enumerate_eq_zip dest!: set_zip_rightD in_set_dropD)
  have place: "stays True workspace_ok (\<lambda>_. True) (rename_in_place D v e len)" if "placed e" for e len
  proof -
    have all: "stays True workspace_ok (\<lambda>_. True) (each_m (enumerate 0 (slice 2 (unat (de_entry_count e)) (de_entry_locs e)))
        (rename_name D (sector_bytes v) units))" for units
      by (rule stays_iterate(1)) (use names slot [OF that] in auto)
    show ?thesis
      unfolding rename_in_place_def Let_def
      by (rule stays_branch stays_skip stays_bind stays_trivial stays_workspace(2) stays_folding(3) stream all stays_entries(4)
          | use that in \<open>force simp: placed_def\<close>)+
  qed
  show *: "stays True workspace_ok (\<lambda>_. True) (rename_with_workspace D v path name)" for path name
    unfolding rename_with_workspace_def by (rule stays_intro replace place | force)+
  show "stays True E (\<lambda>_. True) (fs_rename D v path name)"
    unfolding fs_rename_def
    by (rule stays_bind [OF stays_with_env [where F = workspace_ok, OF * workspace_ok_new]]) (simp add: stays_skip)
qed

end

end
