(* ===== verification/Contained_Volume.thy ===== *)
theory Contained_Volume
  imports Contained_Ops Fresh_Volume
begin

text \<open>
  The properties that rest on containment: the operations that link, unlink or free no cluster of a
  caller's choosing write only inside the volume, and on a volume that is in order they neither ask the
  device for a sector it does not have nor panic; reading and writing a file whose chain is complete
  comes to an end with success. The last section shows the one access that is not checked: a FAT entry
  is addressed by a cluster number that nobody compared with the cluster count. Appending, truncating,
  creating over an existing file and removing reach it, and so are not among the contained operations.
\<close>

text \<open>
  The volume is in order and the device holds all of it. The first half is true of a formatted volume
  (\<open>fresh_volume_ok\<close>) but is not checked by mounting.
\<close>

definition holds_volume :: "('d, 'e) device_ops \<Rightarrow> ('d \<Rightarrow> bool) \<Rightarrow> Volume \<Rightarrow> ('d, 'x) fs_scheme \<Rightarrow> bool" where
  "holds_volume D invar v s \<longleftrightarrow> volume_ok v \<and> io_ok D invar (sector_bytes v) s \<and>
     (\<forall>l \<in> data_region (vol_geometry v). l < sector_count_of D (device s))"

text \<open>
  A run from \<open>s\<close> that changes sectors of the region only and leaves device and scratch in order; if
  \<open>good\<close>, it also ends without a device error and, unless \<open>pn\<close>, without a panic.
\<close>

definition confined :: "('d, 'e) device_ops \<Rightarrow> ('d \<Rightarrow> medium) \<Rightarrow> ('d \<Rightarrow> bool) \<Rightarrow> Volume \<Rightarrow> bool \<Rightarrow> bool \<Rightarrow>
    ('d, 'x) fs_scheme \<Rightarrow> ('e error exn + 'a) \<times> ('d, 'x) fs_scheme \<Rightarrow> bool" where
  "confined D media invar v good pn s r \<longleftrightarrow>
     (\<forall>l. l \<notin> data_region (vol_geometry v) \<longrightarrow> media (device (snd r)) l = media (device s) l) \<and>
     io_ok D invar (sector_bytes v) (snd r) \<and> (good \<longrightarrow> (\<forall>e. fst r = Inl e \<longrightarrow> \<not> fault pn e))"

context volume_device
begin

lemma stays_confined:
  assumes "stays pn E P m" "ready s" "E (fs.more s)"
  shows "confined D media invar v strict pn s (m s)"
proof -
  have "io_ok D invar (sector_bytes v) s" using assms(2) by (simp add: ready_def)
  with staysD [OF assms] show ?thesis
    unfolding confined_def flaw_def by (auto simp: post_def moved_def frame_def split: prod.splits sum.splits)
qed

lemma files_confined:
  assumes "ready s"
  shows "confined D media invar v strict False s (file_read D v s)" "confined D media invar v strict False s (file_write D v input s)"
  by (rule stays_confined [OF stays_transfer(1) [where n = "length (out_buf (fs.more s))"] assms]
      stays_confined [OF stays_transfer(2) [where n = "length (out_buf (fs.more s))"] assms]; simp add: buffer_def)+

lemma all_confined:
  assumes s: "ready s"
  shows "confined D media invar v strict False s (allocate_cluster_preferred D v c s) \<and> confined D media invar v strict False s (set_bitmap D v c used s) \<and>
    confined D media invar v strict False s (free_space_bytes D v s) \<and> confined D media invar v strict False s (read_directory D v dir visitor s) \<and>
    confined D media invar v strict False s (fs_lookup D v path s) \<and> confined D media invar v strict False s (fs_open D v path s) \<and>
    confined D media invar v strict False s (fs_is_dir_empty D v path s) \<and> confined D media invar v strict False s (fs_create_dir_all D v path s) \<and>
    confined D media invar v strict True s (fs_rename D v path name s)"
  by (intro conjI stays_confined [where E = "\<lambda>_. True", OF _ s TrueI])
    (rule stays_allocate, rule stays_bitmap, rule stays_free_space, rule stays_read_directory,
     rule stays_looking, rule stays_looking, rule stays_looking, rule stays_create_dirs, rule stays_rename)

lemma transfers_complete:
  fixes s :: "('d, File_env) fs_scheme"
  defines "m \<equiv> media (device s)" and "f \<equiv> handle (fs.more s)" and "p \<equiv> unat (file_position (handle (fs.more s)))"
  assumes strict: strict and s: "holds_volume D invar v s" and cache: "cache_ok m (vol_geometry v) f"
  shows "(\<forall>i < transfer_count f (length (out_buf (fs.more s))). file_addr m v f (p + i) \<noteq> None) \<Longrightarrow>
      fst (file_read D v s) = Inr (transfer_count f (length (out_buf (fs.more s))))"
    and "stream_distinct m (vol_geometry v) f \<Longrightarrow> (\<forall>i < transfer_count f (length input). file_addr m v f (p + i) \<noteq> None) \<Longrightarrow>
      fst (file_write D v input s) = Inr (transfer_count f (length input))"
proof -
  have ok: "io_ok D invar (sector_bytes v) s" and ready: "ready s" using s by (simp_all add: ready_def holds_volume_def)
  have b: "buffer (length (out_buf (fs.more s))) (fs.more s)" by (simp add: buffer_def)
  have calm: "\<not> is_device_error e" if "\<not> flaw False e" for e :: "'e error exn"
    using that strict unfolding flaw_defs by (auto simp: is_device_error_def)
  note run = staysD [where pn = False, OF stays_transfer(1) ready b] staysD [where pn = False, OF stays_transfer(2) [of _ _ input] ready b]
  show "fst (file_read D v s) = Inr (transfer_count f (length (out_buf (fs.more s))))"
    if "\<forall>i < transfer_count f (length (out_buf (fs.more s))). file_addr m v f (p + i) \<noteq> None"
    using post_conj [OF run(1) post_file_read [OF ok wf refl cache [unfolded m_def f_def]]] that calm
    by (auto simp: post_def f_def m_def p_def split: prod.splits sum.splits)
  show "fst (file_write D v input s) = Inr (transfer_count f (length input))"
    if "stream_distinct m (vol_geometry v) f" "\<forall>i < transfer_count f (length input). file_addr m v f (p + i) \<noteq> None"
    using post_conj [OF run(2) post_file_write [OF ok wf refl cache [unfolded m_def f_def] that(1) [unfolded m_def f_def], of input]] that(2) calm
    by (auto simp: post_def f_def m_def p_def write_error_def split: prod.splits sum.splits)
qed

end

section \<open>Addressing the FAT is not checked\<close>

context reliable_device
begin

lemma post_set_fat_total:
  assumes ok: "io_ok D invar (sector_bytes v) s" and wf: "wf_geometry (vol_geometry v)"
    and lba: "fat_lba_for_byte (vol_geometry v) (fat_byte c) = Some lba" "lba < sector_count_of D (device s)"
  shows "post (set_fat D v c val) s
    (\<lambda>_ s'. media (device s') = with_fat_link (vol_geometry v) c val (media (device s))) (\<lambda>_ _. False)"
proof -
  let ?sz = "sector_bytes v"
  have fit: "as_usize (fat_byte c) mod ?sz + 4 \<le> ?sz" "?sz \<noteq> 0"
    using fat_pos_fits [OF wf] sector_size_facts(2) [OF wf] by (simp_all only: fat_pos_as_usize [OF wf])
  have store: "post (bindM (sector_copy ?sz (as_usize (fat_byte c) mod ?sz) (le32 val)) (\<lambda>_. write_sector D lba ?sz)) s1
      (\<lambda>_ _. True) (\<lambda>_ _. False)"
    if "io_ok D invar ?sz s1" "sector_count_of D (device s1) = sector_count_of D (device s)" for s1
  proof -
    let ?s = "s1\<lparr>scratch := patch (as_usize (fat_byte c) mod ?sz) (le32 val) (take ?sz (scratch s1)) @ drop ?sz (scratch s1)\<rparr>"
    have len: "?sz \<le> length (scratch s1)" using that by (simp add: io_ok_def)
    have "io_ok D invar ?sz ?s" "lba < sector_count_of D (device ?s)" using that lba(2) fit len by (simp_all add: io_ok_def)
    from post_write_sector_total [OF this] show ?thesis using len fit(1) by (auto elim: post_mono)
  qed
  have "post (set_fat D v c val) s (\<lambda>_ _. True) (\<lambda>_ _. False)"
    unfolding set_fat_def Let_def lba(1)
    by (simp only: bindM_simps fit(2) not_False_eq_True simp_thms(8), subst post_bindM,
        rule post_mono [OF post_read_sector_total [OF ok lba(2)]], rule store) simp_all
  from post_conj [OF this post_set_fat [OF ok wf refl, of c val]] show ?thesis by (rule post_mono) auto
qed

text \<open>
  \<open>release_entry_clusters\<close> clears the FAT entry of an entry's first cluster before \<open>set_bitmap\<close> finds
  that there is no such cluster: four bytes of a sector that may lie behind the FAT are zeroed.
\<close>

lemma release_unchecked:
  assumes ok: "io_ok D invar (sector_bytes v) s" and wf: "wf_geometry (vol_geometry v)"
    and e: "2 \<le> de_first_cluster e" "de_data_length e \<noteq> 0" "de_no_fat_chain e"
    and lba: "fat_lba_for_byte (vol_geometry v) (fat_byte (de_first_cluster e)) = Some lba" "lba < sector_count_of D (device s)"
    and none: "position_for (vol_bitmap v) (de_first_cluster e) = None"
  shows "post (release_entry_clusters D v e) s (\<lambda>_ _. False)
    (\<lambda>r s'. r = Error Corrupt \<and> media (device s') = with_fat_link (vol_geometry v) (de_first_cluster e) 0 (media (device s)))"
proof -
  let ?cb = "ucast (bytes_per_cluster (vol_geometry v)) :: u64"
  have cb: "?cb \<noteq> 0" using within_cluster(1) [OF wf] by simp
  have "0 < unat (div_ceil (de_data_length e) ?cb)"
  proof -
    have "0 < unat (de_data_length e)" "0 < unat ?cb" using e(2) cb by (simp_all only: unat_gt_0 not_False_eq_True)
    moreover have "0 < (x + y - 1) div y" if "0 < x" "0 < y" for x y :: nat using that by (simp add: div_greater_zero_iff)
    ultimately have "0 < (unat (de_data_length e) + unat ?cb - 1) div unat ?cb" by blast
    then show ?thesis by (simp only: unat_div_ceil [OF cb])
  qed
  then obtain n where n: "[0..<unat (div_ceil (de_data_length e) ?cb)] = 0 # n" by (simp add: upt_conv_Cons)
  show ?thesis
    unfolding release_entry_clusters_def Let_def n
    by (simp add: cb e linorder_not_less release_step_def set_bitmap_def none,
        rule post_mono [OF post_set_fat_total [OF ok wf lba]]) auto
qed

end

lemma foreign_cluster:
  "fat_lba_for_byte test_geometry (fat_byte 130304) = Some 1051" "1051 \<notin> data_region test_geometry"
  "position_for (vol_bitmap test_volume) 130304 = None"
  by (simp_all add: fat_lba_for_byte_def test_geometry_def checked_add_def checked_mul_def fat_byte_def data_region_def Let_def
      heap_start_def position_for_def checked_sub_def)

section \<open>Properties\<close>

lemma test_volume_ok: "volume_ok test_volume"
  using wf_test_geometry by (auto simp: volume_ok_def in_heap_def test_geometry_def saturating_add_def test_volume_def)

interpretation test: volume_device mem_ops mem_media mem_ok test_volume True
  by unfold_locales (use test_volume_ok in \<open>simp_all add: volume_ok_def\<close>)

text \<open>A volume the formatter made is one the operations stay inside of.\<close>

lemma fresh_volume_ok:
  assumes p: "sound p" shows "volume_ok (fresh_volume p)"
proof -
  have "0 < unat (fr_upcase_clusters p)" using sound_spc(4) [OF p] by (cases "unat (fr_upcase_clusters p)") simp_all
  with sound_clusters(2-4) [OF p] have "unat (fr_upcase p) < unat (fr_clusters p) + 2" "2 \<le> unat (fr_upcase p)" "1 < unat (fr_clusters p)"
    by linarith+
  then show ?thesis
    using wf_fresh_geometry [OF p]
    by (simp add: volume_ok_def fresh_volume_def in_heap_fresh [OF p] fresh_bitmap_def fresh_upcase_def)
qed

interpretation formatted: volume_device mem_ops mem_media mem_ok
    "fresh_volume \<lparr>fr_len = 999, fr_spc = 1, fr_fat = 8, fr_heap = 32, fr_clusters = 967\<rparr>" True
  using fresh_volume_ok [OF conjunct1 [OF plan_sound [OF test_plan]]] by unfold_locales (simp_all add: volume_ok_def)

text \<open>Any volume that mounting accepts, in order or not.\<close>

lemma mounted_device:
  "reliable_device D media invar \<Longrightarrow> wf_geometry (vol_geometry v) \<Longrightarrow> volume_device D media invar v False"
  "reliable_device D media invar \<Longrightarrow> volume_ok v \<Longrightarrow> volume_device D media invar v True"
  by (simp_all add: volume_device_def volume_device_axioms_def volume_ok_def)

lemma ready_cases:
  assumes "reliable_device D media invar" "wf_geometry (vol_geometry v)" "io_ok D invar (sector_bytes v) s"
  shows "volume_device D media invar v (holds_volume D invar v s)" "volume_device.ready D invar v (holds_volume D invar v s) s"
proof -
  show vol: "volume_device D media invar v (holds_volume D invar v s)"
    using assms(1,2) by (simp add: volume_device_def volume_device_axioms_def holds_volume_def)
  show "volume_device.ready D invar v (holds_volume D invar v s) s"
    using assms(3) unfolding volume_device.ready_def [OF vol] unfolding holds_volume_def by blast
qed

lemma test_region: "l \<in> data_region test_geometry \<Longrightarrow> l < 1100"
  by (auto simp: data_region_def heap_start_def test_geometry_def word_less_nat_alt Let_def)

lemma test_holds: "holds_volume mem_ops mem_ok test_volume test_card" "holds_volume mem_ops mem_ok test_volume test_open"
  using test_card_ok test_open_ok test_region test_volume_ok by (auto simp: holds_volume_def test_card_def)

text \<open>
  C4: Eleven operations write inside the volume only: reading and writing a file, allocating a cluster,
  marking one in the bitmap, counting free space, listing a directory, looking a path up, opening it,
  testing it for emptiness, creating directories, and renaming. On any device that serves the sectors it
  has, with any geometry that mounting accepts, whatever the medium, the path, the handle and the volume's
  other fields hold, each of them changes nothing but sectors of the active FAT and of the cluster heap:
  not the boot regions, not the gap behind the FAT, not another FAT, not a neighbouring partition; and it
  leaves device and scratch buffer in order, also when it fails. If moreover the device has the sectors of
  the volume, and the bitmap and the up-case table begin in the heap, none of them addresses a sector the
  device does not have, and none but renaming panics. Appending, truncating, creating a file and removing
  are not among them: they link or clear FAT entries of cluster numbers nobody checked
  (\<open>release_unchecked\<close>).
\<close>
theorem operations_stay_inside:
  fixes D :: "('d, 'e) device_ops" and f :: "('d, File_env) fs_scheme" and s :: "('d, 'x) fs_scheme"
  assumes "reliable_device D media invar" "wf_geometry (vol_geometry v)"
    and "io_ok D invar (sector_bytes v) f" "io_ok D invar (sector_bytes v) s"
  defines "good_f \<equiv> holds_volume D invar v f" and "good \<equiv> holds_volume D invar v s"
  shows "confined D media invar v good_f False f (file_read D v f) \<and> confined D media invar v good_f False f (file_write D v input f) \<and>
    confined D media invar v good False s (allocate_cluster_preferred D v c s) \<and> confined D media invar v good False s (set_bitmap D v c used s) \<and>
    confined D media invar v good False s (free_space_bytes D v s) \<and> confined D media invar v good False s (read_directory D v dir visitor s) \<and>
    confined D media invar v good False s (fs_lookup D v path s) \<and> confined D media invar v good False s (fs_open D v path s) \<and>
    confined D media invar v good False s (fs_is_dir_empty D v path s) \<and> confined D media invar v good False s (fs_create_dir_all D v path s) \<and>
    confined D media invar v good True s (fs_rename D v path name s)"
  unfolding good_f_def good_def
  using volume_device.files_confined [OF ready_cases [OF assms(1-3)]] volume_device.all_confined [OF ready_cases [OF assms(1,2,4)]]
  by (intro conjI) blast+

theorem operations_stay_inside_witness:
  "mem_media (device (snd (fs_create_dir_all mem_ops test_volume [0x61] test_card))) 1 = mem_media (device test_card) 1 \<and>
   fst (fs_create_dir_all mem_ops test_volume [0x61] test_card) \<noteq> Inl Panic"
proof -
  have "1 \<notin> data_region (vol_geometry test_volume)" by (simp add: data_region_def test_geometry_def heap_start_def Let_def)
  moreover have "wf_geometry (vol_geometry test_volume)" using test_volume_ok by (simp add: volume_ok_def)
  moreover note test_holds
  ultimately show ?thesis
    using operations_stay_inside [OF mem.reliable_device_axioms, of test_volume test_open test_card _ _ _ _ _ "[0x61]"]
    by (auto simp: holds_volume_def confined_def fault_def)
qed

text \<open>
  C17: Transfers complete. On a device that serves the sectors it has and holds a volume in order, reading
  from a handle whose cache agrees with the chain, and whose bytes in the range asked for all have a place,
  succeeds and moves exactly the bytes that buffer and valid length allow, also when the chain visits a
  cluster twice; so does writing, if the chain visits no cluster twice. No error, no panic and no endless
  loop is left.
\<close>
theorem file_transfers_complete:
  fixes D :: "('d, 'e) device_ops" and s :: "('d, File_env) fs_scheme"
  assumes "reliable_device D media invar" "holds_volume D invar v s"
    and "cache_ok (media (device s)) (vol_geometry v) (handle (fs.more s))"
    and "\<forall>i < transfer_count (handle (fs.more s)) n.
      file_addr (media (device s)) v (handle (fs.more s)) (unat (file_position (handle (fs.more s))) + i) \<noteq> None"
  shows "(length (out_buf (fs.more s)) = n \<longrightarrow> fst (file_read D v s) = Inr (transfer_count (handle (fs.more s)) n)) \<and>
    (length input = n \<longrightarrow> stream_distinct (media (device s)) (vol_geometry v) (handle (fs.more s)) \<longrightarrow>
      fst (file_write D v input s) = Inr (transfer_count (handle (fs.more s)) n))"
proof -
  have "volume_ok v" using assms(2) by (simp add: holds_volume_def)
  from volume_device.transfers_complete [OF mounted_device(2) [OF assms(1) this] TrueI assms(2,3)] show ?thesis
    using assms(4) by blast
qed

theorem file_transfers_complete_witness:
  "fst (file_read mem_ops test_volume test_open) = Inr 200 \<and>
   fst (file_write mem_ops test_volume (replicate 300 1) test_open) = Inr 200"
proof -
  have n: "transfer_count test_file 300 = 200" "unat (file_position test_file) = 500" "file_no_fat_chain test_file"
    by (simp_all add: transfer_count_def test_file_def)
  have "file_addr m test_volume test_file (500 + i) \<noteq> None" if "i < 200" for m i
  proof -
    have "(500 + i) div 512 \<in> {0, 1}" using that by auto
    then show ?thesis
      by (auto simp: file_addr_def file_cluster_def Let_def test_file_def test_geometry_def bytes_per_cluster_def in_heap_def
          saturating_add_def cluster_lba_def)
  qed
  then show ?thesis
    using file_transfers_complete [OF mem.reliable_device_axioms test_holds(2), of 300 "replicate 300 1"]
      test_file_cache contiguous_distinct n by simp
qed

end
