(* ===== verification/Session.thy ===== *)
theory Session
  imports Contained_Volume
begin

text \<open>
  A mounted filesystem in use: a client makes one call after the other, with handles, buffers and
  visitors of its own. \<open>serves D v q s s'\<close> is one call \<open>q\<close> that takes the filesystem from \<open>s\<close> to
  \<open>s'\<close>, whether it succeeds or fails; \<open>session\<close> is a sequence of calls. The calls are those that are
  contained in the volume on every medium (\<open>Contained_Volume\<close>).
\<close>

datatype request =
    Open str | List_directory Directory | Is_dir_empty str | Free_space | Flush
  | Read File nat | Write File "u8 list" | Create_dir_all str | Rename str str

fun only_looks :: "request \<Rightarrow> bool" where
  "only_looks (Write f input) = False"
| "only_looks (Create_dir_all path) = False"
| "only_looks (Rename path name) = False"
| "only_looks q = True"

inductive serves :: "('d, 'e) device_ops \<Rightarrow> Volume \<Rightarrow> request \<Rightarrow> 'd fs \<Rightarrow> 'd fs \<Rightarrow> bool" for D v where
  serve_open: "fs_open D v path s = (r, s') \<Longrightarrow> serves D v (Open path) s s'"
| serve_list: "read_directory D v dir visitor (fs.extend s (env :: DirectoryEntry list)) = (r, s') \<Longrightarrow>
    serves D v (List_directory dir) s (fs.truncate s')"
| serve_empty: "fs_is_dir_empty D v path s = (r, s') \<Longrightarrow> serves D v (Is_dir_empty path) s s'"
| serve_free: "free_space_bytes D v s = (r, s') \<Longrightarrow> serves D v Free_space s s'"
| serve_flush: "fs_flush D s = (r, s') \<Longrightarrow> serves D v Flush s s'"
| serve_read: "file_read D v (fs.extend s \<lparr>handle = f, out_buf = buf\<rparr>) = (r, s') \<Longrightarrow>
    serves D v (Read f (length buf)) s (fs.truncate s')"
| serve_write: "file_write D v input (fs.extend s \<lparr>handle = f, out_buf = buf\<rparr>) = (r, s') \<Longrightarrow>
    serves D v (Write f input) s (fs.truncate s')"
| serve_create: "fs_create_dir_all D v path s = (r, s') \<Longrightarrow> serves D v (Create_dir_all path) s s'"
| serve_rename: "fs_rename D v path name s = (r, s') \<Longrightarrow> serves D v (Rename path name) s s'"

inductive session :: "('d, 'e) device_ops \<Rightarrow> Volume \<Rightarrow> request list \<Rightarrow> 'd fs \<Rightarrow> 'd fs \<Rightarrow> bool" for D v where
  session_start: "session D v [] s s"
| session_call: "serves D v q s t \<Longrightarrow> session D v qs t u \<Longrightarrow> session D v (q # qs) s u"

inductive_cases session_callE: "session D v (q # qs) s u"
inductive_simps session_nil: "session D v [] s u"

text \<open>A client may always make another call, and the calls of two sessions in a row are one session.\<close>

lemma serves_any: "\<exists>s'. serves D v q s s'"
proof (cases q)
  case (Read f n)
  then show ?thesis using serve_read [of D v s f "replicate n 0"] by (simp add: length_replicate) (metis surj_pair)
qed (metis surj_pair serves.intros)+

lemma session_append: "session D v qs s t \<Longrightarrow> session D v qs' t u \<Longrightarrow> session D v (qs @ qs') s u"
  by (induction rule: session.induct) (auto intro: session.intros)

lemma session_any: "\<exists>s'. session D v qs s s'"
proof (induction qs arbitrary: s)
  case (Cons q qs)
  obtain t where "serves D v q s t" using serves_any by blast
  with Cons [of t] show ?case by (blast intro: session_call)
qed (blast intro: session_start)

section \<open>One call\<close>

lemma frame_env:
  fixes s :: "'d fs"
  shows "frame D media invar sz W (\<lambda>_ _. True) (fs.extend s env) t \<longleftrightarrow> frame D media invar sz W (\<lambda>_ _. True) s (fs.truncate t)"
    "io_ok D invar sz (fs.extend s env) \<longleftrightarrow> io_ok D invar sz s" "device (fs.extend s env) = device s"
  by (simp_all add: frame_def io_ok_def fs.extend_def fs.truncate_def)

lemma frame_own [steps_intro]:
  "steps (frame D media invar sz W (\<lambda>_ _. True)) (modifyM (fs.more_update f))"
  "steps (frame D media invar sz W (\<lambda>_ _. True)) (set_free_clusters n)"
  "steps (frame D media invar sz W (\<lambda>_ _. True)) get_file" "steps (frame D media invar sz W (\<lambda>_ _. True)) (modify_file g)"
  by (simp_all add: steps_def modifyM_def set_free_clusters_def get_file_def getsM_def modify_file_def frame_def)

context lawful_device
begin

lemma steps_file_looks:
  assumes sz [steps_intro]: "sector_bytes v = sz"
  shows "steps (frame D media invar sz {} (\<lambda>_ _. True)) (file_read D v)"
    "steps (frame D media invar sz {} (\<lambda>_ _. True)) (free_space_bytes D v)"
proof -
  let ?F = "frame D media invar sz {} (\<lambda>_ _. True)"
  have put: "steps ?F (put_out k bs)" "steps ?F (advance n)" for k bs n
    unfolding put_out_def advance_def by (intro steps_intro frame_own)+
  have "steps ?F (chain_step D v a i c)" for a i c
    unfolding chain_step_def Let_def by (intro steps_intro)
  then have fc: "steps ?F (file_cluster_at D v wanted)" for wanted
    unfolding file_cluster_at_def Let_def by (intro steps_intro frame_own)
  have fs: "steps ?F (file_sector D v)" unfolding file_sector_def Let_def by (intro steps_intro fc frame_own)
  have "steps ?F (read_step D v wanted k)" for wanted k
    unfolding read_step_def Let_def sz by (intro steps_intro fs put)
  then show "steps ?F (file_read D v)" unfolding file_read_def Let_def by (intro steps_intro frame_own)
  have sec: "steps ?F (refresh_sector D v st p)" for st p
    unfolding refresh_sector_def Let_def sz by (intro steps_intro)
  have "steps ?F (refresh_round D v st)" for st
    unfolding refresh_round_def by (intro steps_intro sec)
  then have "steps ?F (refresh_free_clusters D v)"
    unfolding refresh_free_clusters_def by (intro steps_intro frame_own)
  then show "steps ?F (free_space_bytes D v)" unfolding free_space_bytes_def by (intro steps_intro)
qed

lemma looking_call:
  assumes "serves D v q s t" "only_looks q"
  shows "frame D media invar (sector_bytes v) {} (\<lambda>_ _. True) s t"
  using assms
proof (induction rule: serves.induct)
  case (serve_open path s r s')
  from frame_mono [OF steps_run [OF steps_look(3) [OF refl] this(1)] subset_refl] show ?case by simp
next
  case (serve_list dir visitor s env r s')
  from steps_run [OF steps_read_directory [OF coarse_True refl TrueI] this(1)] show ?case by (simp add: frame_env)
next
  case (serve_empty path s r s')
  from frame_mono [OF steps_run [OF steps_look(4) [OF refl] this(1)] subset_refl] show ?case by simp
next
  case (serve_free s r s')
  from steps_run [OF steps_file_looks(2) [OF refl] this(1)] show ?case .
next
  case (serve_flush s r s')
  from steps_run [OF steps_dev_flush [OF coarse_True] this(1) [unfolded fs_flush_def]] show ?case .
next
  case (serve_read f buf s r s')
  from steps_run [OF steps_file_looks(1) [OF refl] this(1)] show ?case by (simp add: frame_env)
qed simp_all

lemma looking_session:
  "session D v qs s t \<Longrightarrow> list_all only_looks qs \<Longrightarrow> frame D media invar (sector_bytes v) {} (\<lambda>_ _. True) s t"
proof (induction rule: session.induct)
  case (session_call q s t qs u)
  then show ?case using frame_trans [OF looking_call _ coarse_True] by simp
qed (simp add: frame_def)

end

context volume_device
begin

lemma stays_moved: "stays pn E P m \<Longrightarrow> E (fs.more s) \<Longrightarrow> m s = (r, s') \<Longrightarrow> ready s \<Longrightarrow> moved s s'"
  by (drule (2) staysD) (auto simp: post_def split: sum.splits)

lemma moved_env:
  fixes s :: "'d fs"
  shows "moved (fs.extend s env) t \<longleftrightarrow> moved s (fs.truncate t)" "ready (fs.extend s env) \<longleftrightarrow> ready s"
  by (simp_all add: moved_def ready_def frame_env)

lemma serves_moved:
  assumes "serves D v q s t" "ready s"
  shows "moved s t"
proof (cases "only_looks q")
  case True
  from frame_mono [OF looking_call [OF assms(1) this]] show ?thesis by (simp add: moved_def)
next
  case False
  with assms show ?thesis
  proof (induction rule: serves.induct)
    case (serve_write input s f buf r s')
    have "moved (fs.extend s \<lparr>handle = f, out_buf = buf\<rparr>) s'"
      by (rule stays_moved [OF stays_transfer(2) [where n = "length buf"] _ serve_write(1)])
        (use serve_write(2,3) in \<open>simp_all add: moved_env\<close>, simp add: buffer_def fs.extend_def)
    then show ?case by (simp add: moved_env)
  next
    case (serve_create path s r s')
    from stays_moved [OF stays_create_dirs(2) TrueI this(1,2)] show ?case .
  next
    case (serve_rename path name s r s')
    from stays_moved [OF stays_rename(2) TrueI this(1,2)] show ?case .
  qed simp_all
qed

lemma session_moved: "session D v qs s t \<Longrightarrow> ready s \<Longrightarrow> moved s t"
proof (induction rule: session.induct)
  case (session_call q s t qs u)
  then show ?case by (blast intro: moved_trans serves_moved moved_ready)
qed (rule moved_refl)

end

section \<open>Properties\<close>

text \<open>
  C5: No sequence of open, list, is-directory-empty, free-space, flush, read, write, create-directories and
  rename calls leaves the volume. A client makes any number of these calls, in any order, with any paths,
  handles (also stale or made-up ones), buffers and visitors, on a device that serves the sectors it has,
  a medium with any contents, and a volume of which only the geometry is known to be well formed, as
  mounting establishes; calls may fail. Then the device and the scratch buffer are still in order, and no
  sector outside the active FAT and the cluster heap has changed since the start. A session that only
  looks, reads, flushes and asks for the free space leaves the whole medium as it was. Appending,
  truncating, creating a file and removing are no calls of a session: they can write elsewhere
  (\<open>release_unchecked\<close>).
\<close>
theorem sessions_stay_inside:
  fixes D :: "('d, 'e) device_ops" and s :: "'d fs"
  assumes "reliable_device D media invar" "wf_geometry (vol_geometry v)" "io_ok D invar (sector_bytes v) s" "session D v qs s s'"
  shows "io_ok D invar (sector_bytes v) s' \<and> sector_count_of D (device s') = sector_count_of D (device s) \<and>
    (\<forall>l. l \<notin> data_region (vol_geometry v) \<longrightarrow> media (device s') l = media (device s) l) \<and>
    (list_all only_looks qs \<longrightarrow> media (device s') = media (device s))"
proof -
  note vol = mounted_device(1) [OF assms(1,2)]
  have law: "lawful_device D media invar" using assms(1) by (rule reliable_device.axioms)
  have "volume_device.ready D invar v False s" using assms(3) by (simp add: volume_device.ready_def [OF vol])
  from volume_device.session_moved [OF vol assms(4) this]
  have "volume_device.moved D media invar v s s'" .
  then show ?thesis
    using lawful_device.looking_session [OF law assms(4)] assms(3) by (auto simp: volume_device.moved_def [OF vol] frame_def)
qed

theorem sessions_stay_inside_witness:
  "\<exists>s'. session mem_ops test_volume [Create_dir_all [0x61], Open [0x61], Write test_file [1, 2, 3]] test_card s' \<and>
    mem_media (device s') 1 = mem_media (device test_card) 1"
proof -
  obtain s' where s': "session mem_ops test_volume [Create_dir_all [0x61], Open [0x61], Write test_file [1, 2, 3]] test_card s'"
    using session_any by blast
  have "1 \<notin> data_region (vol_geometry test_volume)" by (simp add: data_region_def test_geometry_def heap_start_def Let_def)
  moreover have "wf_geometry (vol_geometry test_volume)" using test_volume_ok by (simp add: volume_ok_def)
  moreover have "io_ok mem_ops mem_ok (sector_bytes test_volume) test_card" using test_holds(1) by (simp add: holds_volume_def)
  ultimately show ?thesis using sessions_stay_inside [OF mem.reliable_device_axioms _ _ s'] s' by blast
qed

end
