(* ===== verification/File_Append.thy ===== *)
theory File_Append
  imports Operations
begin

text \<open>
  What appending and truncating do to the caller's handle, on any device and any medium. \<open>append\<close>
  puts the handle back when it fails and moves it to the new end when it succeeds; \<open>truncate\<close> sets
  the lengths, or refuses to grow a file without touching anything.

  \<open>same_on p\<close>: a computation leaves the part \<open>p\<close> of the handle as it was.
\<close>

definition same_on :: "(File \<Rightarrow> 'p) \<Rightarrow> ('d, File_env) fs_scheme \<Rightarrow> ('d, File_env) fs_scheme \<Rightarrow> bool" where
  "same_on p s s' \<longleftrightarrow> p (handle (fs.more s')) = p (handle (fs.more s))"

lemma preorder_same_on [steps_intro]: "preorder_on_states (same_on p)"
  by (auto simp: preorder_on_states_def same_on_def reflp_def transp_def)

lemma steps_same_on:
  fixes m :: "('d, 'e, 'a) file_m"
  shows "steps fs_same m \<Longrightarrow> steps (same_on p) m" "(\<And>f. p (g f) = p f) \<Longrightarrow> steps (same_on p) (modify_file g)"
    "steps (same_on p) get_file"
  by (auto simp: steps_def same_on_def fs_same_def modify_file_def modifyM_def get_file_def getsM_def)

section \<open>Writing moves the position only\<close>

lemma steps_file_sector:
  "steps (same_on no_cache) (file_sector D v)"
proof -
  have chain: "steps fs_same (chain_step D v a i c)" for a i c
    unfolding chain_step_def Let_def by (intro quiet_intro quiet_fat quiet_fat [THEN fs_quiet])
  have "steps (same_on no_cache) (file_cluster_at D v wanted)" for wanted
    unfolding file_cluster_at_def Let_def
    by (intro steps_intro steps_same_on(2,3) steps_same_on(1) [OF chain]) (simp add: no_cache_def)
  then show ?thesis unfolding file_sector_def Let_def by (intro steps_intro steps_same_on(3))
qed

definition advanced :: "File \<Rightarrow> nat \<Rightarrow> ('d, File_env) fs_scheme \<Rightarrow> bool" where
  "advanced f n s \<longleftrightarrow> no_cache (handle (fs.more s)) = no_cache (f\<lparr>file_position := file_position f + of_usize n\<rparr>)"

lemma post_write_step_handle:
  fixes D :: "('d, 'e) device_ops" and s :: "('d, File_env) fs_scheme"
  assumes "advanced f k s"
  shows "post (write_step D v input wanted k) s
    (\<lambda>r s'. case r of Inl k' \<Rightarrow> advanced f k' s' | Inr n \<Rightarrow> \<not> k < wanted \<and> n = k \<and> advanced f n s') (\<lambda>_ _. True)"
proof (cases "k < wanted")
  case True
  have adv: "advanced f (k + n) (fs.more_update (handle_update (\<lambda>f. f\<lparr>file_position := file_position f + of_usize n\<rparr>)) s')"
    if "advanced f k s'" for n s'
    using no_cache_advance [OF that [unfolded advanced_def], of n] by (simp add: advanced_def)
  have quiet: "advanced f k s'" if "advanced f k s1" "same_on no_cache s1 s'" for s1 s' :: "('d, File_env) fs_scheme"
    using that by (simp add: advanced_def same_on_def)
  have rest: "post (bindM (whenM b (read_sector D lba sz)) (\<lambda>_. bindM (sector_copy sz off bs) (\<lambda>_.
      bindM (write_sector D lba sz) (\<lambda>_. bindM (advance n) (\<lambda>_. returnM (Inl (k + n))))))) s1
      (\<lambda>r s'. case r of Inl k' \<Rightarrow> advanced f k' s' | Inr n \<Rightarrow> \<not> k < wanted \<and> n = k \<and> advanced f n s') (\<lambda>_ _. True)"
    if "advanced f k s1" for s1 :: "('d, File_env) fs_scheme" and b lba sz off bs n
  proof -
    have io: "steps (same_on no_cache) (whenM b (read_sector D lba sz) :: ('d, 'e, unit) file_m)"
      "steps (same_on no_cache) (sector_copy sz off bs :: ('d, 'e, unit) file_m)"
      "steps (same_on no_cache) (write_sector D lba sz :: ('d, 'e, unit) file_m)"
      by (intro steps_intro steps_same_on io_quiet [THEN fs_quiet])+
    show ?thesis
      by (rule post_bind_steps [OF io(1) preorder_same_on, of s1], simp add: same_on_def,
          rule post_bind_steps [OF io(2) preorder_same_on, of s1], assumption,
          rule post_bind_steps [OF io(3) preorder_same_on, of s1], assumption)
        (simp add: advance_def, blast intro: adv quiet [OF that])
  qed
  show ?thesis
    by (simp add: write_step_def Let_def True del: post_bindM,
        rule post_bind_steps [OF steps_file_sector preorder_same_on, of s], simp add: same_on_def)
      (simp only: case_prod_beta, rule rest, rule quiet [OF assms])
next
  case False
  then show ?thesis using assms by (simp add: write_step_def)
qed

lemma post_write_handle:
  fixes s :: "('d, File_env) fs_scheme"
  defines "f \<equiv> handle (fs.more s)"
  shows "post (file_write D v input) s (\<lambda>n s'. advanced f n s') (\<lambda>_ _. True)"
proof -
  have zero: "advanced f 0 s" by (simp add: advanced_def f_def of_usize_def)
  have "post (loop_m n Diverge (write_step D v input wanted) 0) s (\<lambda>n s'. advanced f n s') (\<lambda>_ _. True)" for n wanted
    by (rule post_loop_m_bounded [where I = "advanced f"], rule post_mono [OF post_write_step_handle])
      (auto simp: zero split: sum.splits)
  then show ?thesis using zero by (simp add: file_write_def Let_def del: loop_m.simps)
qed

section \<open>Growing keeps the valid length\<close>

lemma steps_append_cluster: "steps (same_on file_valid_length) (append_cluster D v cluster_bytes)"
proof -
  have link: "steps (same_on file_valid_length) (append_link D v cluster_bytes last_cluster preferred new_cluster)"
    for last_cluster preferred new_cluster
    unfolding append_link_def
    by (intro steps_intro steps_same_on(2,3) quiet_append_parts [THEN steps_same_on(1)] quiet_fat [THEN fs_quiet, THEN steps_same_on(1)])
      simp_all
  show ?thesis
    unfolding append_cluster_def
    by (intro steps_intro steps_same_on(2,3) link quiet_append_parts [THEN steps_same_on(1)] quiet_alloc [THEN steps_same_on(1)])
      simp_all
qed

lemma post_append_grow_loop:
  fixes s :: "('d, File_env) fs_scheme"
  shows "post (loop_m n Diverge (\<lambda>_. append_grow D v cluster_bytes end_length) ()) s
    (\<lambda>_ s'. same_on file_valid_length s s' \<and> end_length \<le> file_data_length (handle (fs.more s'))) (\<lambda>_ _. True)"
proof (rule post_loop_m_bounded [where I = "\<lambda>_. same_on file_valid_length s"])
  fix s1 :: "('d, File_env) fs_scheme" assume s1: "same_on file_valid_length s s1"
  have "post (append_cluster D v cluster_bytes) s1 (\<lambda>_. same_on file_valid_length s1) (\<lambda>_ _. True)"
    by (rule post_mono [OF steps_post [OF steps_append_cluster]]) simp_all
  then show "post (append_grow D v cluster_bytes end_length) s1
      (\<lambda>r s'. case r of Inl _ \<Rightarrow> same_on file_valid_length s s'
         | Inr _ \<Rightarrow> same_on file_valid_length s s' \<and> end_length \<le> file_data_length (handle (fs.more s'))) (\<lambda>_ _. True)"
    using s1 by (auto simp: append_grow_def same_on_def not_less elim: post_mono)
qed (simp_all add: same_on_def)

lemma quiet_update_stream: "steps fs_same (update_stream D v f)"
  unfolding update_stream_def write_stream_entry_def checksum_entries_def Let_def by (intro quiet_intro steps_case_app)

definition appended :: "u8 list \<Rightarrow> File \<Rightarrow> nat \<Rightarrow> ('d, File_env) fs_scheme \<Rightarrow> bool" where
  "appended input f n s \<longleftrightarrow> (let f' = handle (fs.more s) in n = length input \<and>
     checked_add (file_valid_length f) (of_usize n) = Some (file_valid_length f') \<and>
     file_valid_length f' \<le> file_data_length f' \<and> file_position f' = file_valid_length f')"

lemma post_append_body:
  fixes s :: "('d, File_env) fs_scheme" and D :: "('d, 'e) device_ops"
  defines "f \<equiv> handle (fs.more s)"
  shows "post (append_body D v input) s (appended input f) (\<lambda>_ _. True)"
proof -
  have final: "post (bindM (file_write D v input) (\<lambda>written.
      if written \<noteq> length input then fail Corrupt else
      bindM get_file (\<lambda>f'. bindM (update_stream D v f') (\<lambda>_. returnM written)))) s1 (appended input f) (\<lambda>_ _. True)"
    if h: "handle (fs.more s1) = f1\<lparr>file_position := file_valid_length f, file_valid_length := end_length\<rparr>"
      and room: "end_length \<le> file_data_length f1"
      and ends: "checked_add (file_valid_length f) (of_usize (length input)) = Some end_length"
    for s1 :: "('d, File_env) fs_scheme" and f1 end_length
  proof -
    have finish: "appended input f (length input) s3"
      if "advanced (handle (fs.more s1)) (length input) s2" "fs.more s3 = fs.more s2" for s2 s3 :: "('d, File_env) fs_scheme"
      using no_cache_same(2,3,4) [OF that(1) [unfolded advanced_def]] that(2) room ends h
      by (auto simp: appended_def Let_def checked_add_def split: if_splits)
    show ?thesis
      unfolding post_bindM
      by (rule post_mono [OF post_write_handle]) (auto intro!: post_mono [OF quiet_post [OF quiet_update_stream]] finish)
  qed
  have grown: "post (bindM (loop_m n Diverge (\<lambda>_. append_grow D v cluster_bytes end_length) ()) (\<lambda>_.
      bindM (modify_file (\<lambda>f. f\<lparr>file_position := file_valid_length f, file_valid_length := end_length\<rparr>)) (\<lambda>_.
      bindM (file_write D v input) (\<lambda>written.
      if written \<noteq> length input then fail Corrupt else
      bindM get_file (\<lambda>f'. bindM (update_stream D v f') (\<lambda>_. returnM written)))))) s (appended input f) (\<lambda>_ _. True)"
    if ends: "checked_add (file_valid_length f) (of_usize (length input)) = Some end_length" for n cluster_bytes end_length
  proof (simp only: post_bindM [of "loop_m n Diverge (\<lambda>_. append_grow D v cluster_bytes end_length) ()"],
      rule post_mono [OF post_append_grow_loop], simp only: post_bindM [of "modify_file _"] post_modify_file)
    fix s1 :: "('d, File_env) fs_scheme"
    assume "same_on file_valid_length s s1 \<and> end_length \<le> file_data_length (handle (fs.more s1))"
    then show "post (bindM (file_write D v input) (\<lambda>written.
        if written \<noteq> length input then fail Corrupt else
        bindM get_file (\<lambda>f'. bindM (update_stream D v f') (\<lambda>_. returnM written))))
      (fs.more_update (handle_update (\<lambda>f. f\<lparr>file_position := file_valid_length f, file_valid_length := end_length\<rparr>)) s1)
      (appended input f) (\<lambda>_ _. True)"
      by (intro final [where ?f1.0 = "handle (fs.more s1)", OF _ _ ends]) (simp_all add: same_on_def f_def)
  qed simp
  show ?thesis
    unfolding append_body_def Let_def
    by (simp only: post_bindM [of get_file] post_get_file post_bindM [of "ok_or _ _"] post_ok_or f_def [symmetric])
      (split option.split, intro conjI allI impI TrueI, rule grown, assumption)
qed

section \<open>The whole call\<close>

text \<open>
  C16: \<open>append\<close> keeps the caller's handle all or nothing. On every device, volume, buffer and state, when
  it returns an error the handle it was given is exactly as before the call: position, lengths, stream
  entry and cluster cache. When it succeeds it reports the whole input as written; the valid length has
  grown by exactly that many bytes, without overflow, stays within the data length, and the position
  stands at the new end. An empty input changes nothing at all and reports zero.
\<close>
theorem file_append_handle:
  fixes D :: "('d, 'e) device_ops" and s :: "('d, File_env) fs_scheme"
  shows "case file_append D v input s of
      (Inl (Error e), s') \<Rightarrow> handle (fs.more s') = handle (fs.more s)
    | (Inl _, s') \<Rightarrow> True
    | (Inr n, s') \<Rightarrow> n = length input \<and>
        (if input = [] then s' = s
         else appended input (handle (fs.more s)) n s')"
proof -
  have "post (file_append D v input) s
      (\<lambda>n s'. n = length input \<and> (if input = [] then s' = s else appended input (handle (fs.more s)) n s'))
      (\<lambda>e s'. \<forall>d. e = Error d \<longrightarrow> handle (fs.more s') = handle (fs.more s))"
  proof (cases "input = []")
    case False
    have "post (restore_on_err (handle (fs.more s)) (append_body D v input)) (fs.more_update (handle_update (\<lambda>f. f\<lparr>cached_cluster_index := None\<rparr>)) s)
        (\<lambda>n s'. n = length input \<and> appended input (handle (fs.more s)) n s')
        (\<lambda>e s'. \<forall>d. e = Error d \<longrightarrow> handle (fs.more s') = handle (fs.more s))"
      unfolding restore_on_err_def post_bindM post_attempt
      by (rule post_mono [OF post_append_body]) (auto simp: appended_def Let_def split: exn.splits)
    with False show ?thesis
      by (simp only: file_append_def if_False post_bindM [of get_file] post_get_file post_bindM [of "modify_file _"] post_modify_file)
  qed (simp add: file_append_def)
  then show ?thesis by (auto simp: post_def split: sum.splits prod.splits exn.splits)
qed

text \<open>Truncating sets the lengths and pulls the position back; a longer length than the file's is refused outright.\<close>

lemma steps_shorten_chain:
  assumes "\<And>f c. p (f\<lparr>file_first_cluster := c\<rparr>) = p f"
  shows "steps (same_on p) (shorten_chain D v keep allocated)"
proof -
  have "steps fs_same (free_clusters_from D v b n c)" for b n c
    unfolding free_clusters_from_def by (intro quiet_intro quiet_fat [THEN fs_quiet] quiet_alloc)
  note parts = quiet_fat [THEN fs_quiet, THEN steps_same_on(1)] this [THEN steps_same_on(1)]
  show ?thesis
    unfolding shorten_chain_def using assms by (intro steps_intro steps_same_on(2,3) parts) simp_all
qed

lemma kept_clusters_fit:
  assumes "keep < (if d = 0 then 0 else div_ceil d c)" "checked_mul keep c = Some n"
  shows "n \<le> (d :: u64)"
proof -
  have k: "unat keep \<le> unat d div unat c"
    using assms(1) by (auto simp: div_ceil_def Let_def word_less_nat_alt unat_div unat_plus_if' split: if_splits)
  have "unat n = unat keep * unat c"
    using assms(2) by (auto simp: checked_mul_def unat_mult_lem [THEN iffD1] split: if_splits)
  also have "\<dots> \<le> unat d" using mult_le_mono1 [OF k, of "unat c"] div_times_less_eq_dividend le_trans by blast
  finally show ?thesis by (simp add: word_le_nat_alt)
qed

lemma file_truncate_refused:
  "file_valid_length (handle (fs.more s)) < len \<Longrightarrow> file_truncate D v len s = (Inl (Error EndOfFile), s)"
  by (simp add: file_truncate_def Let_def bindM_def get_file_def getsM_def fail_def throwM_def)

lemma post_file_truncate:
  fixes D :: "('d, 'e) device_ops" and s :: "('d, File_env) fs_scheme"
  defines "f \<equiv> handle (fs.more s)"
  shows "post (file_truncate D v len) s (\<lambda>_ s'. let f' = handle (fs.more s') in file_valid_length f' = len \<and>
      file_position f' = min (file_position f) len \<and> file_data_length f' \<le> file_data_length f) (\<lambda>_ _. True)"
proof -
  let ?Q = "\<lambda>_ s'. let f' = handle (fs.more s') in file_valid_length f' = len \<and>
      file_position f' = min (file_position f) len \<and> file_data_length f' \<le> file_data_length f"
  define m :: "('d, 'e, unit) file_m" where "m =
    bindM (modify_file (\<lambda>f. f\<lparr>file_valid_length := len, file_position := min (file_position f) len\<rparr>)) (\<lambda>_.
      bindM get_file (\<lambda>f'. update_stream D v f'))"
  have last: "post m s1 ?Q (\<lambda>_ _. True)"
    if "file_position (handle (fs.more s1)) = file_position f" "file_data_length (handle (fs.more s1)) \<le> file_data_length f"
    for s1 :: "('d, File_env) fs_scheme"
    using that by (auto simp: m_def intro!: post_mono [OF quiet_post [OF quiet_update_stream]])
  have body: "post (bindM (whenM (keep < (if file_data_length f = 0 then 0 else div_ceil (file_data_length f) c))
        (bindM (shorten_chain D v keep (if file_data_length f = 0 then 0 else div_ceil (file_data_length f) c)) (\<lambda>_.
         bindM (ok_or (checked_mul keep c) Corrupt) (\<lambda>n.
         modify_file (\<lambda>f. f\<lparr>file_data_length := n, cached_cluster_index := None\<rparr>))))) (\<lambda>_. m)) s ?Q (\<lambda>_ _. True)"
    for keep c
  proof (cases "keep < (if file_data_length f = 0 then 0 else div_ceil (file_data_length f) c)")
    case True
    have "post (bindM (shorten_chain D v keep a) (\<lambda>_. bindM (ok_or (checked_mul keep c) Corrupt) (\<lambda>n.
         bindM (modify_file (\<lambda>f. f\<lparr>file_data_length := n, cached_cluster_index := None\<rparr>)) (\<lambda>_. m)))) s ?Q (\<lambda>_ _. True)" for a
      by (rule post_bind_steps [OF steps_shorten_chain [where p = file_position] preorder_same_on, of s])
        (auto simp: same_on_def f_def [symmetric] kept_clusters_fit [OF True] split: option.split intro!: last)
    with True show ?thesis by (simp add: whenM_def)
  next
    case False
    have "post m s ?Q (\<lambda>_ _. True)" by (rule last) (simp_all add: f_def)
    with False show ?thesis by (simp add: whenM_def)
  qed
  show ?thesis
    unfolding file_truncate_def Let_def [of "ucast _"] Let_def [of "if _ then _ else _"] m_def [symmetric] post_bindM [of get_file] post_get_file
      f_def [symmetric] post_if post_bindM [of "no_panic_if _"] post_no_panic_if
    using body by (simp del: post_bindM)
qed

end
