(* ===== verification/Stream_Growth.thy ===== *)
theory Stream_Growth
  imports File_Append
begin

text \<open>
  How a file grows on a sound volume. \<open>stream_on m v f cs\<close>: the stream of the handle \<open>f\<close> is the list of
  clusters \<open>cs\<close>, each in use and none twice, in one run or linked by the FAT up to an end mark. Taking
  a free cluster and linking it extends the list by one and leaves what the clusters in use hold as it
  was (\<open>keeps\<close>), whether the stream is empty, stays in one run, turns from a run into a chain or is a
  chain already.
\<close>

section \<open>Clusters in use\<close>

definition in_use :: "medium \<Rightarrow> Volume \<Rightarrow> u32 \<Rightarrow> bool" where
  "in_use m v d \<longleftrightarrow> in_heap (vol_geometry v) d \<and> bitmap_bit m v d = Some True \<and> \<not> bitmap_cluster m v d"

definition keeps :: "Volume \<Rightarrow> medium \<Rightarrow> medium \<Rightarrow> bool" where
  "keeps v m m' \<longleftrightarrow> (\<forall>d. in_use m v d \<longrightarrow> in_use m' v d \<and> (\<forall>l \<in> cluster_sectors (vol_geometry v) d. m' l = m l))"

lemma keeps_refl [simp]: "keeps v m m"
  by (simp add: keeps_def)

lemma keeps_trans: "keeps v m m' \<Longrightarrow> keeps v m' m'' \<Longrightarrow> keeps v m m''"
  unfolding keeps_def by metis

text \<open>Changing the FAT entry of a cluster that does not belong to the bitmap.\<close>

lemma with_fat_link_keeps:
  fixes val :: u32
  assumes wf: "wf_geometry (vol_geometry v)" and len: "\<And>l. length (m l) = sector_bytes v"
    and snd: "bitmap_sound m v" and c: "in_heap (vol_geometry v) c" "\<not> bitmap_cluster m v c"
  defines "m' \<equiv> with_fat_link (vol_geometry v) c val m"
  shows "bitmap_sound m' v" "bitmap_cluster m' v = bitmap_cluster m v" "bitmap_bit m' v = bitmap_bit m v"
    "in_use m' v = in_use m v" "keeps v m m'"
proof -
  let ?g = "vol_geometry v"
  have ok: "bitmap_ok m v" using snd by (simp add: bitmap_sound_def)
  have agree: "bitmap_agree v m m'"
    unfolding bitmap_agree_def m'_def
  proof (intro allI impI)
    fix d assume d: "bitmap_cluster m v d"
    then have "c \<noteq> d" using c(2) by blast
    then show "fat_link (with_fat_link ?g c val m) ?g d = fat_link m ?g d"
      by (rule fat_link_with_other [OF wf len in_heap_lt [OF c(1)] in_heap_lt [OF bitmap_cluster_in_heap [OF ok d]]])
  qed
  have heap: "m' l = m l" if "heap_start ?g \<le> unat l" for l
    unfolding m'_def by (rule with_fat_link_heap [OF wf in_heap_lt [OF c(1)] that])
  show cl: "bitmap_cluster m' v = bitmap_cluster m v" by (rule ext) (rule bitmap_agree_cluster [OF agree])
  show bit: "bitmap_bit m' v = bitmap_bit m v"
    by (rule ext, rule bitmap_agree_bit [OF agree]) (rule heap, rule bitmap_addr_bounds(1) [OF wf])
  show "bitmap_sound m' v" using snd by (simp add: bitmap_sound_def bitmap_agree_ok [OF agree] cl bit)
  show use: "in_use m' v = in_use m v" by (simp add: fun_eq_iff in_use_def cl bit)
  show "keeps v m m'" using heap cluster_sectors_heap [OF wf] by (simp add: keeps_def use)
qed

lemma with_allocated_keeps:
  assumes wf: "wf_geometry (vol_geometry v)" and len: "\<And>l. length (m l) = sector_bytes v"
    and snd: "bitmap_sound m v" and c: "in_heap (vol_geometry v) c" "bitmap_bit m v c = Some False"
  defines "m' \<equiv> with_allocated v c m"
  shows "keeps v m m'" "in_use m' v c" "\<not> in_use m v c"
proof -
  let ?g = "vol_geometry v"
  note eff = with_allocated_effect [OF wf len snd c(2,1), folded m'_def]
  have ok: "bitmap_ok m v" using snd by (simp add: bitmap_sound_def)
  have nc: "\<not> bitmap_cluster m v c" using snd c(2) by (auto simp: bitmap_sound_def)
  have "bitmap_agree v m m'"
    using eff(4) bitmap_cluster_in_heap [OF ok] in_heap_lt nc unfolding bitmap_agree_def by blast
  note cl = bitmap_agree_cluster [OF this]
  show "keeps v m m'" using eff(1,6) c by (auto simp: keeps_def in_use_def cl)
  show "in_use m' v c" "\<not> in_use m v c" using eff(1) c nc by (simp_all add: in_use_def cl)
qed

section \<open>The clusters of a stream\<close>

definition linked :: "medium \<Rightarrow> Geometry \<Rightarrow> u32 list \<Rightarrow> bool" where
  "linked m g cs \<longleftrightarrow> (\<forall>i. Suc i < length cs \<longrightarrow> fat_link m g (cs ! i) = Some (cs ! Suc i)) \<and>
     (cs \<noteq> [] \<longrightarrow> (\<exists>e. fat_link m g (last cs) = Some e \<and> \<not> in_heap g e))"

definition in_one_run :: "u32 list \<Rightarrow> bool" where
  "in_one_run cs \<longleftrightarrow> (\<forall>i < length cs. unat (cs ! i) = unat (cs ! 0) + i)"

definition stream_on :: "medium \<Rightarrow> Volume \<Rightarrow> File \<Rightarrow> u32 list \<Rightarrow> bool" where
  "stream_on m v f cs \<longleftrightarrow>
     distinct cs \<and> (\<forall>c \<in> set cs. in_use m v c) \<and>
     file_first_cluster f = (case cs of [] \<Rightarrow> 0 | c # _ \<Rightarrow> c) \<and>
     (if file_no_fat_chain f then in_one_run cs else linked m (vol_geometry v) cs)"

lemma length_in_heap:
  assumes "distinct cs" "\<forall>c \<in> set cs. in_heap g c"
  shows "length cs \<le> unat (cluster_count g)"
proof -
  have "unat ` set cs \<subseteq> {2..<unat (cluster_count g) + 2}" using assms(2) in_heapD by auto
  from card_mono [OF _ this] have "card (unat ` set cs) \<le> unat (cluster_count g)" by simp
  moreover have "card (unat ` set cs) = length cs"
    using distinct_card [OF assms(1)] by (subst card_image) (simp_all add: inj_on_def word_unat_eq_iff)
  ultimately show ?thesis by simp
qed

lemma walk_linked:
  assumes "linked m g cs" "\<forall>c \<in> set cs. in_heap g c" "cs \<noteq> []"
  shows "i < length cs \<Longrightarrow> walk m g (cs ! 0) i = Some (cs ! i)" "length cs \<le> i \<Longrightarrow> walk m g (cs ! 0) i = None"
proof -
  show in_list: "walk m g (cs ! 0) i = Some (cs ! i)" if "i < length cs" for i
    using that assms(1,2) by (induction i) (auto simp: linked_def)
  have "walk m g (cs ! 0) (length cs) = None"
    using in_list [of "length cs - 1"] assms(1,3) by (cases "length cs") (auto simp: linked_def last_conv_nth)
  then have "walk m g (cs ! 0) (length cs + k) = None" for k by (induction k) simp_all
  then show "length cs \<le> i \<Longrightarrow> walk m g (cs ! 0) i = None" by (metis le_Suc_ex)
qed

lemma stream_cluster:
  assumes s: "stream_on m v f cs"
  shows "i < length cs \<Longrightarrow> file_cluster m (vol_geometry v) f i = Some (cs ! i)"
    "length cs \<le> i \<Longrightarrow> \<not> file_no_fat_chain f \<Longrightarrow> file_cluster m (vol_geometry v) f i = None"
proof -
  let ?g = "vol_geometry v"
  have heap: "\<forall>c \<in> set cs. in_heap ?g c" and d: "distinct cs" using s by (auto simp: stream_on_def in_use_def)
  have first: "file_first_cluster f = cs ! 0" if "cs \<noteq> []" using s that by (cases cs) (auto simp: stream_on_def)
  note bound = length_in_heap [OF d heap]
  show "file_cluster m ?g f i = Some (cs ! i)" if i: "i < length cs"
  proof (cases "file_no_fat_chain f")
    case True
    then have run: "unat (cs ! i) = unat (cs ! 0) + i" using s i by (simp add: stream_on_def in_one_run_def)
    then have "cs ! 0 + word_of_nat i = cs ! i"
      using unat_u32_lt [of "cs ! i"] by (simp add: word_unat_eq_iff unat_word_ariths unat_of_nat)
    moreover have "file_first_cluster f = cs ! 0" using i by (intro first) auto
    ultimately show ?thesis
      using True run i heap bound unat_u32_lt [of "cs ! i"] by (simp add: file_cluster_def Let_def)
  next
    case False
    then have chain: "linked m ?g cs" using s by (simp add: stream_on_def)
    have "cs \<noteq> []" using i by auto
    then have "file_first_cluster f = cs ! 0" "in_heap ?g (cs ! 0)" "walk m ?g (cs ! 0) i = Some (cs ! i)"
      using first heap walk_linked(1) [OF chain heap _ i] by auto
    then show ?thesis using False i bound by (simp add: file_cluster_def)
  qed
  show "file_cluster m ?g f i = None" if i: "length cs \<le> i" "\<not> file_no_fat_chain f"
  proof (cases "cs = []")
    case True
    then have "\<not> in_heap ?g (file_first_cluster f)" using s by (auto simp: stream_on_def in_heap_def)
    then show ?thesis using i(2) by (simp add: file_cluster_def)
  next
    case False
    then show ?thesis
      using s walk_linked(2) [OF _ heap False i(1), of m] i(2) first by (auto simp: file_cluster_def stream_on_def)
  qed
qed

lemma stream_distinct_on: "stream_on m v f cs \<Longrightarrow> stream_distinct m (vol_geometry v) f"
proof (cases "file_no_fat_chain f")
  case False
  assume s: "stream_on m v f cs"
  have "i < length cs \<and> c = cs ! i" if "file_cluster m (vol_geometry v) f i = Some c" for i c
    using stream_cluster [OF s, of i] that False by (cases "i < length cs") auto
  moreover have "distinct cs" using s by (simp add: stream_on_def)
  ultimately show ?thesis unfolding stream_distinct_def by (metis nth_eq_iff_index_eq)
qed (rule contiguous_distinct)

lemma in_use_heap: "in_use m v c \<Longrightarrow> unat c < unat (cluster_count (vol_geometry v)) + 2"
  unfolding in_use_def by (blast intro: in_heap_lt)

lemma stream_on_kept:
  assumes "stream_on m v f cs" "\<forall>c \<in> set cs. in_use m' v c \<and> fat_link m' (vol_geometry v) c = fat_link m (vol_geometry v) c"
  shows "stream_on m' v f cs"
  using assms by (auto simp: stream_on_def linked_def)

section \<open>One cluster more\<close>

text \<open>\<open>links\<close>: the FAT leads from each of the clusters to the next; the last one is open.\<close>

definition links :: "medium \<Rightarrow> Geometry \<Rightarrow> u32 list \<Rightarrow> bool" where
  "links m g cs \<longleftrightarrow> (\<forall>i. Suc i < length cs \<longrightarrow> fat_link m g (cs ! i) = Some (cs ! Suc i))"

lemma linked_links: "linked m g cs \<Longrightarrow> links m g cs"
  by (simp add: linked_def links_def)

lemma linked_snoc:
  assumes wf: "wf_geometry g" and len: "\<And>l. length (m l) = unat (bytes_per_sector g)"
    and heap: "\<forall>c \<in> set cs. in_heap g c" "in_heap g new" and d: "distinct cs" "new \<notin> set cs" "cs \<noteq> []"
    and l: "links m g cs" and e: "fat_link m g new = Some e" "\<not> in_heap g e"
  shows "linked (with_fat_link g (last cs) new m) g (cs @ [new])"
proof -
  let ?m = "with_fat_link g (last cs) new m"
  have last: "last cs \<in> set cs" using d(3) by simp
  have other: "fat_link ?m g c = fat_link m g c" if "c \<in> insert new (set cs)" "c \<noteq> last cs" for c
    using that heap last in_heap_lt by (intro fat_link_with_other [OF wf len]) blast+
  have same: "fat_link ?m g (last cs) = Some new"
    using heap last in_heap_lt by (intro fat_link_with [OF wf len]) blast
  have "fat_link ?m g ((cs @ [new]) ! i) = Some ((cs @ [new]) ! Suc i)" if i: "Suc i < length (cs @ [new])" for i
  proof (cases "Suc i = length cs")
    case True
    then have "i = length cs - 1" by simp
    then have "(cs @ [new]) ! i = last cs" using d(3) by (simp add: nth_append last_conv_nth)
    then show ?thesis using same True by simp
  next
    case False
    then have i': "Suc i < length cs" using i by simp
    then have "cs ! i \<noteq> last cs" using d(1,3) by (simp add: last_conv_nth nth_eq_iff_index_eq)
    then show ?thesis using i' l other [of "cs ! i"] by (simp add: nth_append links_def)
  qed
  moreover have "fat_link ?m g new = Some e" using other [of new] last d(2) e(1) by auto
  ultimately show ?thesis using e(2) by (simp add: linked_def)
qed

text \<open>What taking a free cluster achieves: it is new, in use from now on, and the end of a chain.\<close>

definition claimed :: "('d \<Rightarrow> medium) \<Rightarrow> Volume \<Rightarrow> ('d, 'x) fs_scheme \<Rightarrow> u32 \<Rightarrow> ('d, 'x) fs_scheme \<Rightarrow> bool" where
  "claimed media v s c s' \<longleftrightarrow>
     (let m = media (device s); m' = media (device s'); g = vol_geometry v in
      fs.more s' = fs.more s \<and> bitmap_sound m' v \<and> keeps v m m' \<and> in_use m' v c \<and> \<not> in_use m v c \<and>
      (\<forall>d. in_use m v d \<longrightarrow> fat_link m' g d = fat_link m g d) \<and> fat_link m' g c = Some 0xFFFFFFFF \<and>
      (count_ok media v s \<longrightarrow> count_ok media v s'))"

text \<open>How appending may fail on a sound volume: the device, no space, or an allocator that finds its count wrong.\<close>

definition append_error :: "'e error exn \<Rightarrow> bool" where
  "append_error e \<longleftrightarrow> is_device_error e \<or> e = Error NoSpace \<or> e = Error Corrupt \<or> e = Diverge"

lemma append_errors [simp]:
  "append_error (Error NoSpace)" "append_error (Error Corrupt)" "append_error Diverge" "append_error Panic"
  "is_device_error e \<Longrightarrow> append_error e"
  by (simp_all add: append_error_def is_device_error_def)

section \<open>Growing a stream\<close>

lemma end_mark_not_in_heap: "\<not> in_heap g 0xFFFFFFFF"
proof -
  have "unat (saturating_add (cluster_count g) 2) \<le> unat (0xFFFFFFFF :: u32)"
    using unat_u32_lt [of "saturating_add (cluster_count g) 2"] by (simp del: unat_u32_lt)
  then show ?thesis by (simp add: in_heap_def word_less_nat_alt not_less)
qed

text \<open>The same file, perhaps with another extent: lengths in use, position and directory entry stay.\<close>

definition file_identity :: "File \<Rightarrow> EntryLocator \<times> EntryLocator \<times> EntryLocator list \<times> u8 \<times> u64 \<times> u64" where
  "file_identity f = (file_primary f, file_stream f, file_entry_locs f, file_entry_count f, file_valid_length f, file_position f)"

definition grown :: "('d, 'e) device_ops \<Rightarrow> ('d \<Rightarrow> medium) \<Rightarrow> ('d \<Rightarrow> bool) \<Rightarrow> Volume \<Rightarrow> ('d, File_env) fs_scheme \<Rightarrow> u32 list \<Rightarrow>
    ('d, File_env) fs_scheme \<Rightarrow> u32 list \<Rightarrow> bool" where
  "grown D media invar v s cs s' ns \<longleftrightarrow>
     (let m = media (device s); m' = media (device s'); f = handle (fs.more s); f' = handle (fs.more s'); g = vol_geometry v in
      io_ok D invar (sector_bytes v) s' \<and> bitmap_sound m' v \<and> keeps v m m' \<and> stream_on m' v f' (cs @ ns) \<and>
      (\<forall>c \<in> set ns. \<not> in_use m v c) \<and> (\<forall>d. in_use m v d \<and> d \<notin> set cs \<longrightarrow> fat_link m' g d = fat_link m g d) \<and>
      unat (file_data_length f') = length (cs @ ns) * unat (bytes_per_cluster g) \<and>
      file_identity f' = file_identity f \<and> cached_cluster_index f' = None \<and> (count_ok media v s \<longrightarrow> count_ok media v s'))"

lemma grown_trans:
  assumes "grown D media invar v s cs s1 ns" "grown D media invar v s1 (cs @ ns) s2 ns'"
  shows "grown D media invar v s cs s2 (ns @ ns')"
proof -
  let ?m = "media (device s)" and ?m1 = "media (device s1)" and ?m2 = "media (device s2)" and ?g = "vol_geometry v"
  note a = assms [unfolded grown_def Let_def]
  have k: "keeps v ?m ?m1" using a(1) by blast
  have "\<not> in_use ?m v c" if "c \<in> set (ns @ ns')" for c
    using that a k by (auto simp: keeps_def)
  moreover have "fat_link ?m2 ?g d = fat_link ?m ?g d" if d: "in_use ?m v d" "d \<notin> set cs" for d
  proof -
    have "in_use ?m1 v d" "d \<notin> set (cs @ ns)" using d a(1) k by (auto simp: keeps_def)
    then show ?thesis using a d by metis
  qed
  moreover have "keeps v ?m ?m2" using keeps_trans [OF k] a(2) by blast
  ultimately show ?thesis using a unfolding grown_def Let_def by simp
qed

text \<open>What the links may look like before the new cluster is appended, and what the handle then is.\<close>

lemma stream_on_snoc_run:
  assumes s: "stream_on m v f cs" "cs \<noteq> []" "file_no_fat_chain f" and k: "\<forall>c \<in> set cs. in_use m' v c"
    and new: "in_use m' v new" "new \<notin> set cs" "unat new = unat (last cs) + 1"
    and f': "file_first_cluster f' = file_first_cluster f" "file_no_fat_chain f'"
  shows "stream_on m' v f' (cs @ [new])"
proof -
  have run: "unat (cs ! i) = unat (cs ! 0) + i" if "i < length cs" for i
    using s(1,3) that by (simp add: stream_on_def in_one_run_def)
  have "unat new = unat (cs ! 0) + length cs"
    using run [of "length cs - 1"] new(3) s(2) by (simp add: last_conv_nth)
  moreover have zero: "(cs @ [new]) ! 0 = cs ! 0" using s(2) by (simp add: nth_append)
  ultimately have "unat ((cs @ [new]) ! i) = unat ((cs @ [new]) ! 0) + i" if "i < length (cs @ [new])" for i
    using that by (cases "i = length cs") (simp_all add: nth_append run)
  then have "in_one_run (cs @ [new])" by (simp only: in_one_run_def) blast
  then show ?thesis using s k new f' by (auto simp: stream_on_def split: list.splits)
qed

lemma stream_on_snoc_linked:
  assumes s: "stream_on m v f cs" "cs \<noteq> []" and k: "\<forall>c \<in> set cs. in_use m' v c"
    and new: "in_use m' v new" "new \<notin> set cs" and l: "linked m' (vol_geometry v) (cs @ [new])"
    and f': "file_first_cluster f' = file_first_cluster f" "\<not> file_no_fat_chain f'"
  shows "stream_on m' v f' (cs @ [new])"
  using assms by (auto simp: stream_on_def split: list.splits)

lemma stream_on_single:
  assumes new: "in_use m v new" "fat_link m (vol_geometry v) new = Some 0xFFFFFFFF" and f: "file_first_cluster f = new"
  shows "stream_on m v f [new]"
  using assms by (simp add: stream_on_def in_one_run_def linked_def end_mark_not_in_heap)

text \<open>Storing bytes in clusters in use changes neither the bitmap nor the FAT.\<close>

lemma data_write_keeps:
  assumes wf: "wf_geometry (vol_geometry v)" and snd: "bitmap_sound m v"
    and w: "\<And>l. m' l \<noteq> m l \<Longrightarrow> \<exists>d. in_use m v d \<and> l \<in> cluster_sectors (vol_geometry v) d"
  shows "bitmap_sound m' v" "bitmap_bit m' v = bitmap_bit m v" "in_use m' v = in_use m v" "fat_agree (vol_geometry v) m m'"
proof -
  let ?g = "vol_geometry v"
  have ok: "bitmap_ok m v" using snd by (simp add: bitmap_sound_def)
  show agree: "fat_agree ?g m m'"
    by (rule fat_agree_below [OF wf]) (use w cluster_sectors_heap [OF wf] in \<open>fastforce simp: not_le [symmetric]\<close>)
  note ba = fat_agree_bitmap [OF agree ok]
  have keep: "m' lba = m lba" if a: "bitmap_addr m v byte = Some (lba, off)" for byte lba off
  proof (rule ccontr)
    obtain d where d: "bitmap_cluster m v d" "lba \<in> cluster_sectors ?g d" by (rule bitmap_addr_cluster [OF wf a])
    assume "m' lba \<noteq> m lba"
    then obtain c where c: "in_use m v c" "lba \<in> cluster_sectors ?g c" using w by blast
    from cluster_sectors_disjoint_heap [OF wf this(2) d(2)] show False using c(1) d(1) by (simp add: in_use_def)
  qed
  show bit: "bitmap_bit m' v = bitmap_bit m v" by (rule ext, rule bitmap_agree_bit [OF ba keep])
  have cl: "bitmap_cluster m' v = bitmap_cluster m v" by (rule ext, rule bitmap_agree_cluster [OF ba])
  show "in_use m' v = in_use m v" by (simp add: fun_eq_iff in_use_def bit cl)
  show "bitmap_sound m' v" using snd by (simp add: bitmap_sound_def bitmap_agree_ok [OF ba] cl bit)
qed

lemma count_ok_same:
  "free_clusters s' = free_clusters s \<Longrightarrow> bitmap_bit (media (device s')) v = bitmap_bit (media (device s)) v \<Longrightarrow>
    count_ok media v s \<Longrightarrow> count_ok media v s'"
  by (simp add: count_ok_def free_set_def)

context lawful_device
begin

lemma post_allocate_claims:
  fixes s :: "('d, 'x) fs_scheme"
  assumes ok: "io_ok D invar (sector_bytes v) s" and wf: "wf_geometry (vol_geometry v)" and snd: "bitmap_sound (media (device s)) v"
  shows "post (allocate_cluster_preferred D v preferred) s
    (\<lambda>c s'. io_ok D invar (sector_bytes v) s' \<and> claimed media v s c s') (\<lambda>e _. append_error e)"
proof (rule post_mono [OF post_allocate_cluster_preferred [OF reading_refl [OF ok] wf refl snd]])
  fix c s' assume a: "allocated_from v (sector_bytes v) s c s'"
  let ?m = "media (device s)"
  have len: "length (?m l) = sector_bytes v" for l using media_length ok by (simp add: io_ok_def)
  have c: "in_heap (vol_geometry v) c" "bitmap_bit ?m v c = Some False" and m': "media (device s') = with_allocated v c ?m"
    and more: "fs.more s' = fs.more s" and cnt: "new_free_count v True (free_clusters s) = Some (free_clusters s')"
    using a by (auto simp: allocated_from_def frame_def fs_same_def)
  note keep = with_allocated_keeps [OF wf len snd c, folded m']
  note eff = with_allocated_effect [OF wf len snd c(2,1), folded m']
  have "fat_link (media (device s')) (vol_geometry v) d = fat_link ?m (vol_geometry v) d" if "in_use ?m v d" for d
    using eff(4) [OF in_use_heap [OF that]] that keep(3) by metis
  moreover have "count_ok media v s \<Longrightarrow> count_ok media v s'"
    by (rule count_ok_update [OF _ c(1) _ cnt]) (use eff(1) c(2) in simp_all)
  ultimately show "io_ok D invar (sector_bytes v) s' \<and> claimed media v s c s'"
    using a keep more eff(2,3) by (simp add: claimed_def Let_def allocated_from_def)
qed (auto simp: allocate_error_def fs_error_def)

lemma run_nth:
  assumes "in_one_run cs" "checked_add (cs ! j) n = Some c" "j + unat n < length cs"
  shows "c = cs ! (j + unat n)"
proof -
  have "unat (cs ! (j + unat n)) = unat (cs ! j) + unat n" using assms(1,3) by (simp add: in_one_run_def)
  moreover have "unat c = unat (cs ! j) + unat n"
    using assms(2) by (auto simp: checked_add_def unat_add_small split: if_splits)
  ultimately show ?thesis by (simp add: word_unat_eq_iff)
qed

lemma post_link_contiguous:
  fixes s :: "('d, 'x) io_scheme"
  assumes ok: "io_ok D invar (sector_bytes v) s" and wf: "wf_geometry (vol_geometry v)" and snd: "bitmap_sound (media (device s)) v"
    and use: "\<forall>c \<in> set cs. in_use (media (device s)) v c" and run: "in_one_run cs" and d: "distinct cs"
    and len: "cs \<noteq> []" "file_first_cluster f = cs ! 0" "unat (file_data_length f div cb) = length cs"
  shows "post (link_contiguous D v f cb) s
    (\<lambda>_ s'. let m = media (device s); m' = media (device s') in io_ok D invar (sector_bytes v) s' \<and> io_same s s' \<and>
       bitmap_sound m' v \<and> bitmap_bit m' v = bitmap_bit m v \<and> in_use m' v = in_use m v \<and> keeps v m m' \<and>
       links m' (vol_geometry v) cs \<and> (\<forall>d. in_use m v d \<and> d \<notin> set cs \<longrightarrow> fat_link m' (vol_geometry v) d = fat_link m (vol_geometry v) d))
    (\<lambda>e _. append_error e)"
proof -
  let ?g = "vol_geometry v" and ?m = "media (device s)"
  define I where "I = (\<lambda>k s'. let m' = media (device s') in io_ok D invar (sector_bytes v) s' \<and> io_same s s' \<and>
       bitmap_sound m' v \<and> bitmap_bit m' v = bitmap_bit ?m v \<and> in_use m' v = in_use ?m v \<and> keeps v ?m m' \<and>
       (\<forall>i < k. fat_link m' ?g (cs ! i) = Some (cs ! Suc i)) \<and>
       (\<forall>d. in_use ?m v d \<and> d \<notin> set cs \<longrightarrow> fat_link m' ?g d = fat_link ?m ?g d))"
  have n: "unat (saturating_sub (file_data_length f div cb) 1) = length cs - 1"
    using len(1,3) by (cases "file_data_length f div cb = 0") (auto simp: saturating_sub_def word_le_nat_alt unat_sub)
  have step: "post (set_fat D v (cs ! k) (cs ! Suc k)) s1 (\<lambda>_. I (Suc k)) (\<lambda>e _. append_error e)"
    if k: "Suc k < length cs" and I: "I k s1" for k s1
  proof (rule post_mono [OF post_set_fat [OF _ wf refl, where s = s1 and c = "cs ! k" and val = "cs ! Suc k"]])
    let ?m1 = "media (device s1)" and ?c = "cs ! k"
    show ok1: "io_ok D invar (sector_bytes v) s1" using I by (simp add: I_def Let_def)
    have len1: "length (?m1 l) = sector_bytes v" for l using media_length ok1 by (simp add: io_ok_def)
    have c: "in_use ?m v ?c" "?c \<in> set cs" using use k by simp_all
    then have c1: "in_heap ?g ?c" "\<not> bitmap_cluster ?m1 v ?c" "bitmap_sound ?m1 v"
      using I by (auto simp: I_def Let_def in_use_def fun_eq_iff)
    note keep = with_fat_link_keeps [OF wf len1 c1(3,1,2), where val = "cs ! Suc k"]
    fix s2 assume s2: "frame D media invar (sector_bytes v) {l. fat_lba_for_byte ?g (fat_byte ?c) = Some l} io_same s1 s2 \<and>
      io_ok D invar (sector_bytes v) s2 \<and> media (device s2) = with_fat_link ?g ?c (cs ! Suc k) ?m1"
    have other: "fat_link (media (device s2)) ?g d' = fat_link ?m1 ?g d'" if "in_use ?m v d'" "d' \<noteq> ?c" for d'
      using s2 fat_link_with_other [OF wf len1 in_heap_lt [OF c1(1)] in_use_heap [OF that(1)] that(2) [symmetric]] by simp
    have "fat_link (media (device s2)) ?g (cs ! i) = Some (cs ! Suc i)" if i: "i < Suc k" for i
    proof (cases "i = k")
      case True
      then show ?thesis using s2 fat_link_with [OF wf len1 in_heap_lt [OF c1(1)]] by simp
    next
      case False
      then have "cs ! i \<noteq> ?c" "in_use ?m v (cs ! i)" "i < k" using d i k use by (simp_all add: nth_eq_iff_index_eq)
      then show ?thesis using other I by (simp add: I_def Let_def)
    qed
    moreover have "fat_link (media (device s2)) ?g d' = fat_link ?m ?g d'" if "in_use ?m v d'" "d' \<notin> set cs" for d'
      using other [OF that(1)] that c(2) I by (auto simp: I_def Let_def)
    ultimately show "I (Suc k) s2"
      using s2 keep I keeps_trans by (auto simp: I_def Let_def frame_def io_same_def)
  qed auto
  show ?thesis
    unfolding link_contiguous_def n Let_def
  proof (rule post_each_m [where I = I])
    fix k s1 assume k: "k < length [0..<length cs - 1]" and I: "I k s1"
    have k': "Suc k < length cs" using k by simp
    have small: "k < 2 ^ 32" using k' run unat_u32_lt [of "cs ! k"] unfolding in_one_run_def by fastforce
    have "c = cs ! k" if "checked_add (file_first_cluster f) (ucast (word_of_nat k :: u64)) = Some c" for c
      using run_nth [OF run, of 0 "ucast (word_of_nat k :: u64)" c] that k' small len(2) by (simp add: unsigned_ucast_eq unsigned_of_nat take_bit_nat_eq_self)
    moreover have "next_one = cs ! Suc k" if "checked_add (cs ! k) 1 = Some next_one" for next_one
      using run_nth [OF run, of k 1 next_one] that k' by simp
    ultimately show "post (bindM (ok_or (u32_try_from (word_of_nat ([0..<length cs - 1] ! k))) Corrupt) (\<lambda>n.
       bindM (ok_or (checked_add (file_first_cluster f) n) Corrupt) (\<lambda>cluster.
       bindM (ok_or (checked_add cluster 1) Corrupt) (\<lambda>next_one.
       set_fat D v cluster next_one)))) s1 (\<lambda>_. I (Suc k)) (\<lambda>e _. append_error e)"
      using step [of k s1] I k by (auto simp: u32_try_from_def split: option.splits if_splits)
  next
    show "I 0 s" using ok snd by (simp add: I_def io_same_def)
  qed (auto simp: I_def links_def Let_def)
qed

lemma post_join:
  fixes t :: "('d, 'x) io_scheme"
  assumes ok: "io_ok D invar (sector_bytes v) t" and wf: "wf_geometry (vol_geometry v)" and snd: "bitmap_sound (media (device t)) v"
    and use: "\<forall>c \<in> insert new (set cs). in_use (media (device t)) v c" and d: "distinct cs" "new \<notin> set cs" "cs \<noteq> []"
    and l: "links (media (device t)) (vol_geometry v) cs" and e: "fat_link (media (device t)) (vol_geometry v) new = Some 0xFFFFFFFF"
  shows "post (set_fat D v (last cs) new) t
    (\<lambda>_ t'. let m = media (device t); m' = media (device t') in io_ok D invar (sector_bytes v) t' \<and> io_same t t' \<and>
       bitmap_sound m' v \<and> bitmap_bit m' v = bitmap_bit m v \<and> in_use m' v = in_use m v \<and> keeps v m m' \<and>
       linked m' (vol_geometry v) (cs @ [new]) \<and> (\<forall>d. in_use m v d \<and> d \<notin> set cs \<longrightarrow> fat_link m' (vol_geometry v) d = fat_link m (vol_geometry v) d))
    (\<lambda>e _. append_error e)"
proof (rule post_mono [OF post_set_fat [OF ok wf refl]])
  let ?g = "vol_geometry v" and ?m = "media (device t)"
  have len: "length (?m l) = sector_bytes v" for l using media_length ok by (simp add: io_ok_def)
  have last: "last cs \<in> set cs" using d(3) by simp
  then have c: "in_heap ?g (last cs)" "\<not> bitmap_cluster ?m v (last cs)" using use by (auto simp: in_use_def)
  have heap: "\<forall>c \<in> set cs. in_heap ?g c" "in_heap ?g new" using use by (auto simp: in_use_def)
  note keep = with_fat_link_keeps [OF wf len snd c, where val = new]
  note join = linked_snoc [OF wf len heap d l e end_mark_not_in_heap]
  have other: "fat_link (with_fat_link ?g (last cs) new ?m) ?g d = fat_link ?m ?g d" if "in_use ?m v d" "d \<notin> set cs" for d
    using that last by (intro fat_link_with_other [OF wf len in_heap_lt [OF c(1)] in_use_heap]) auto
  fix t' assume "frame D media invar (sector_bytes v) {l. fat_lba_for_byte ?g (fat_byte (last cs)) = Some l} io_same t t' \<and>
      io_ok D invar (sector_bytes v) t' \<and> media (device t') = with_fat_link ?g (last cs) new ?m"
  then show "let m = media (device t); m' = media (device t') in io_ok D invar (sector_bytes v) t' \<and> io_same t t' \<and>
       bitmap_sound m' v \<and> bitmap_bit m' v = bitmap_bit m v \<and> in_use m' v = in_use m v \<and> keeps v m m' \<and>
       linked m' (vol_geometry v) (cs @ [new]) \<and> (\<forall>d. in_use m v d \<and> d \<notin> set cs \<longrightarrow> fat_link m' (vol_geometry v) d = fat_link m (vol_geometry v) d)"
    using keep join other by (simp add: Let_def frame_def)
qed auto

text \<open>The last cluster of a stream that fills its clusters.\<close>

lemma div_whole:
  fixes d :: u64
  assumes "unat d = n * unat (b :: u32)" "0 < unat b" "0 < n"
  shows "unat (d div ucast b) = n" "unat (d div ucast b - 1) = n - 1" "unat (saturating_sub d 1 div ucast b) = n - 1"
proof -
  have b: "unat (ucast b :: u64) = unat b" by simp
  show q: "unat (d div ucast b) = n" using assms by (simp add: unat_div)
  then show "unat (d div ucast b - 1) = n - 1" using assms(3) by (simp add: unat_sub word_le_nat_alt)
  have pos: "0 < unat d" using assms by simp
  then have "unat (saturating_sub d 1) = unat d - 1" by (simp add: saturating_sub_def word_le_nat_alt unat_sub del: unat_gt_0)
  moreover have "(n * unat b - 1) div unat b = n - 1"
  proof -
    obtain k where k: "n = Suc k" using assms(3) by (cases n) auto
    have "n * unat b - 1 = (unat b - 1) + k * unat b" using assms(2) by (simp add: k)
    moreover have "((unat b - 1) + k * unat b) div unat b = k"
      using div_mult_self1 [of "unat b" "unat b - 1" k] assms(2) by simp
    ultimately show ?thesis by (simp only: k diff_Suc_1)
  qed
  ultimately show "unat (saturating_sub d 1 div ucast b) = n - 1" using assms(1) by (simp add: unat_div)
qed

lemma post_append_last:
  fixes s :: "('d, 'x) fs_scheme"
  assumes ok: "io_ok D invar (sector_bytes v) s" and wf: "wf_geometry (vol_geometry v)"
    and st: "stream_on (media (device s)) v f cs" and len: "unat (file_data_length f) = length cs * unat (bytes_per_cluster (vol_geometry v))"
  shows "post (append_last D v f (ucast (bytes_per_cluster (vol_geometry v)))) s
    (\<lambda>r s'. reading (sector_bytes v) s s' \<and> r = (if cs = [] then None else Some (last cs))) (\<lambda>e _. append_error e)"
proof (cases "cs = []")
  case True
  then show ?thesis using st reading_refl [OF ok] by (simp add: append_last_def stream_on_def)
next
  case False
  let ?g = "vol_geometry v" and ?m = "media (device s)"
  have heap: "\<forall>c \<in> set cs. in_heap ?g c" using st by (auto simp: stream_on_def in_use_def)
  have first: "file_first_cluster f = cs ! 0" using st False by (cases cs) (auto simp: stream_on_def)
  then have nz: "file_first_cluster f \<noteq> 0" using heap False in_heapD [of ?g "cs ! 0"] by auto
  have n: "0 < length cs" using False by simp
  note q = div_whole [OF len sector_size_facts(4) [OF wf] n]
  have last: "last cs = cs ! (length cs - 1)" by (rule last_conv_nth [OF False])
  show ?thesis
  proof (cases "file_no_fat_chain f")
    case True
    then have run: "in_one_run cs" using st by (simp add: stream_on_def)
    have "c = last cs" if u: "u32_try_from (file_data_length f div ucast (bytes_per_cluster ?g) - 1) = Some k"
      and c: "checked_add (file_first_cluster f) k = Some c" for k c
    proof -
      have "unat k = length cs - 1"
        using u q(2) by (auto simp: u32_try_from_def unsigned_ucast_eq take_bit_nat_eq_self split: if_splits)
      then show ?thesis using run_nth [OF run, of 0 k c] c first n by (simp add: last)
    qed
    then show ?thesis
      using False True nz reading_refl [OF ok] by (auto simp: append_last_def split: option.splits)
  next
    case cluster: False
    then have chain: "linked ?m ?g cs" using st by (simp add: stream_on_def)
    have "walk ?m ?g (cs ! 0) (length cs - 1) = Some (last cs)"
      using walk_linked(1) [OF chain heap False, of "length cs - 1"] n by (simp add: last)
    then have at: "c = last cs" if "chain_at ?m ?g (file_first_cluster f) (unat (saturating_sub (file_data_length f) 1 div ucast (bytes_per_cluster ?g))) = Some c" for c
      using that by (simp add: chain_at_def q(3) first split: if_splits)
    show ?thesis
      using False cluster nz by (auto simp: append_last_def intro!: post_mono [OF post_cluster_at [OF reading_refl [OF ok] wf refl]] dest: at)
  qed
qed

text \<open>The stream with the new cluster on it, while the data length still lacks it.\<close>

definition joined :: "Volume \<Rightarrow> ('d, File_env) fs_scheme \<Rightarrow> u32 list \<Rightarrow> u32 \<Rightarrow> ('d, File_env) fs_scheme \<Rightarrow> bool" where
  "joined v s cs new s' \<longleftrightarrow>
     (let m = media (device s); m' = media (device s'); f = handle (fs.more s); f' = handle (fs.more s'); g = vol_geometry v in
      io_ok D invar (sector_bytes v) s' \<and> bitmap_sound m' v \<and> keeps v m m' \<and> stream_on m' v f' (cs @ [new]) \<and> \<not> in_use m v new \<and>
      (\<forall>d. in_use m v d \<and> d \<notin> set cs \<longrightarrow> fat_link m' g d = fat_link m g d) \<and> file_data_length f' = file_data_length f \<and>
      file_identity f' = file_identity f \<and> cached_cluster_index f' = None \<and> (count_ok media v s \<longrightarrow> count_ok media v s'))"

lemma post_append_link:
  fixes s t :: "('d, File_env) fs_scheme" and v :: Volume
  defines "cb \<equiv> ucast (bytes_per_cluster (vol_geometry v)) :: u64"
  assumes wf: "wf_geometry (vol_geometry v)" and gs: "grown D media invar v s cs s []"
    and ok: "io_ok D invar (sector_bytes v) t" and cl: "claimed media v s new t"
    and pref: "cs \<noteq> [] \<Longrightarrow> checked_add (last cs) 1 = Some preferred"
  shows "post (append_link D v cb (if cs = [] then None else Some (last cs)) preferred new) t (\<lambda>_. joined v s cs new) (\<lambda>e _. append_error e)"
proof -
  let ?g = "vol_geometry v" and ?m = "media (device s)" and ?mt = "media (device t)" and ?f = "handle (fs.more s)"
  have st: "stream_on ?m v ?f cs" and none: "cached_cluster_index ?f = None"
    and len: "unat (file_data_length ?f) = length cs * unat (bytes_per_cluster ?g)"
    using gs by (simp_all add: grown_def Let_def)
  have h: "handle (fs.more t) = ?f" and snd: "bitmap_sound ?mt v" and k: "keeps v ?m ?mt" and new: "in_use ?mt v new" "\<not> in_use ?m v new"
    and fat: "\<And>d. in_use ?m v d \<Longrightarrow> fat_link ?mt ?g d = fat_link ?m ?g d" and e: "fat_link ?mt ?g new = Some 0xFFFFFFFF"
    and cnt: "count_ok media v s \<Longrightarrow> count_ok media v t"
    using cl by (simp_all add: claimed_def Let_def)
  have use: "\<forall>c \<in> set cs. in_use ?m v c" and d: "distinct cs" using st by (simp_all add: stream_on_def)
  then have use': "\<forall>c \<in> set cs. in_use ?mt v c" and fresh: "new \<notin> set cs" using k new(2) by (auto simp: keeps_def)
  have first: "file_first_cluster ?f = cs ! 0" if "cs \<noteq> []" using st that by (cases cs) (auto simp: stream_on_def)
  have nz: "file_first_cluster ?f \<noteq> 0" if "cs \<noteq> []"
    using first [OF that] use that in_heapD [of ?g "cs ! 0"] by (auto simp: in_use_def)
  have join: "post (set_fat D v (last cs) new) u (\<lambda>_. joined v s cs new) (\<lambda>e _. append_error e)"
    if u: "io_ok D invar (sector_bytes v) u" "bitmap_sound (media (device u)) v" "bitmap_bit (media (device u)) v = bitmap_bit ?mt v"
        "in_use (media (device u)) v = in_use ?mt v" "keeps v ?mt (media (device u))" "links (media (device u)) ?g cs"
        "\<forall>d. in_use ?mt v d \<and> d \<notin> set cs \<longrightarrow> fat_link (media (device u)) ?g d = fat_link ?mt ?g d"
      and hu: "handle (fs.more u) = ?f\<lparr>file_no_fat_chain := False, cached_cluster_index := None\<rparr>" "free_clusters u = free_clusters t"
      and ne: "cs \<noteq> []"
    for u :: "('d, File_env) fs_scheme"
  proof (rule post_mono [OF post_join [OF u(1) wf u(2) _ d fresh ne u(6)]])
    show "\<forall>c \<in> insert new (set cs). in_use (media (device u)) v c" using use' new(1) by (simp add: u(4))
    show "fat_link (media (device u)) ?g new = Some 0xFFFFFFFF" using u(7) new(1) fresh e by simp
    fix u' :: "('d, File_env) fs_scheme"
    assume "let m = media (device u); m' = media (device u') in io_ok D invar (sector_bytes v) u' \<and> io_same u u' \<and>
       bitmap_sound m' v \<and> bitmap_bit m' v = bitmap_bit m v \<and> in_use m' v = in_use m v \<and> keeps v m m' \<and>
       linked m' ?g (cs @ [new]) \<and> (\<forall>d. in_use m v d \<and> d \<notin> set cs \<longrightarrow> fat_link m' ?g d = fat_link m ?g d)"
    then have u': "io_ok D invar (sector_bytes v) u'" "io_same u u'" "bitmap_sound (media (device u')) v"
      "bitmap_bit (media (device u')) v = bitmap_bit ?mt v" "in_use (media (device u')) v = in_use ?mt v"
      "keeps v ?mt (media (device u'))" "linked (media (device u')) ?g (cs @ [new])"
      "\<And>d. in_use ?mt v d \<Longrightarrow> d \<notin> set cs \<Longrightarrow> fat_link (media (device u')) ?g d = fat_link ?mt ?g d"
      using u keeps_trans by (auto simp: Let_def)
    have more: "fs.more u' = fs.more u" "free_clusters u' = free_clusters t" using u'(2) hu(2) fs_more_io [of u' u] by (simp_all add: io_same_def)
    have "stream_on (media (device u')) v (handle (fs.more u')) (cs @ [new])"
      by (rule stream_on_snoc_linked [OF st ne _ _ fresh u'(7)]) (use use' new(1) more hu in \<open>simp_all add: u'(5)\<close>)
    moreover have "fat_link (media (device u')) ?g d = fat_link ?m ?g d" if "in_use ?m v d" "d \<notin> set cs" for d
      using u'(8) [of d] that fat k by (simp add: keeps_def)
    moreover have "count_ok media v s \<Longrightarrow> count_ok media v u'" using cnt more(2) u'(4) count_ok_same by metis
    ultimately show "joined v s cs new u'"
      using u'(1,3) keeps_trans [OF k u'(6)] new(2) more hu by (simp add: joined_def Let_def file_identity_def)
  qed simp
  have stay: "joined v s cs new t'" if "device t' = device t" "scratch t' = scratch t" "free_clusters t' = free_clusters t"
    "stream_on ?mt v (handle (fs.more t')) (cs @ [new])" "file_data_length (handle (fs.more t')) = file_data_length ?f"
    "file_identity (handle (fs.more t')) = file_identity ?f" "cached_cluster_index (handle (fs.more t')) = None"
    for t' :: "('d, File_env) fs_scheme"
  proof -
    have "io_ok D invar (sector_bytes v) t'" using ok that(1,2) by (simp add: io_ok_def)
    moreover have "count_ok media v t'" if "count_ok media v s"
      using cnt [OF that] \<open>device t' = device t\<close> \<open>free_clusters t' = free_clusters t\<close> unfolding count_ok_def by simp
    ultimately show ?thesis unfolding joined_def Let_def that(1) using that(4-7) snd k new(2) fat by blast
  qed
  show ?thesis
  proof (cases "cs = []")
    case True
    have "stream_on ?mt v (?f\<lparr>file_first_cluster := new\<rparr>) [new]" by (rule stream_on_single [OF new(1) e]) simp
    then have "joined v s cs new (fs.more_update (handle_update (\<lambda>f. f\<lparr>file_first_cluster := new\<rparr>)) t)"
      by (intro stay) (simp_all add: True h file_identity_def none)
    moreover have "file_first_cluster ?f = 0" using st True by (simp add: stream_on_def)
    ultimately show ?thesis by (simp add: append_link_def h)
  next
    case ne: False
    show ?thesis
    proof (cases "file_no_fat_chain ?f")
      case True
      show ?thesis
      proof (cases "new = preferred")
        case p: True
        have "unat new = unat (last cs) + 1"
          using pref [OF ne] p by (auto simp: checked_add_def unat_add_small split: if_splits)
        then have "stream_on ?mt v ?f (cs @ [new])"
          by (intro stream_on_snoc_run [OF st ne True use' new(1) fresh]) (simp_all add: True)
        then have "joined v s cs new t" by (intro stay) (simp_all add: h none)
        then show ?thesis using ne nz True p by (simp add: append_link_def h)
      next
        case p: False
        have run: "in_one_run cs" using st True by (simp add: stream_on_def)
        have n: "unat (file_data_length ?f div cb) = length cs"
          unfolding cb_def by (rule div_whole(1) [OF len sector_size_facts(4) [OF wf]]) (use ne in simp)
        note lc = post_link_contiguous [OF ok wf snd use' run d ne first [OF ne] n]
        have nz': "cb \<noteq> 0" using within_cluster(1) [OF wf] by (simp add: cb_def)
        show ?thesis
          using ne nz True p nz' unfolding append_link_def
          by (simp add: h whenM_def, intro post_mono [OF lc] join)
            (auto simp: Let_def io_ok_def io_same_def h dest: fs_more_io)
      qed
    next
      case chain: False
      have "links ?mt ?g cs"
        using st chain use fat by (auto simp: stream_on_def linked_def links_def)
      moreover have "handle (fs.more t) = ?f\<lparr>file_no_fat_chain := False, cached_cluster_index := None\<rparr>"
        unfolding h using chain none by (cases ?f) simp
      ultimately have "post (set_fat D v (last cs) new) t (\<lambda>_. joined v s cs new) (\<lambda>e _. append_error e)"
        by (intro join ok snd refl keeps_refl ne) auto
      then show ?thesis using ne nz chain by (simp add: append_link_def h whenM_def)
    qed
  qed
qed

lemma post_append_cluster:
  fixes s :: "('d, File_env) fs_scheme" and v :: Volume
  assumes wf: "wf_geometry (vol_geometry v)" and gs: "grown D media invar v s cs s []"
  shows "post (append_cluster D v (ucast (bytes_per_cluster (vol_geometry v)))) s
    (\<lambda>_ s'. \<exists>new. grown D media invar v s cs s' [new]) (\<lambda>e _. append_error e)"
proof -
  let ?g = "vol_geometry v" and ?f = "handle (fs.more s)" and ?l = "if cs = [] then None else Some (last cs)"
  let ?cb = "ucast (bytes_per_cluster ?g) :: u64"
  have ok: "io_ok D invar (sector_bytes v) s" and st: "stream_on (media (device s)) v ?f cs" and snd: "bitmap_sound (media (device s)) v"
    and len: "unat (file_data_length ?f) = length cs * unat (bytes_per_cluster ?g)"
    using gs by (simp_all add: grown_def Let_def)
  have fin: "grown D media invar v s cs (fs.more_update (handle_update (\<lambda>f. f\<lparr>file_data_length := n\<rparr>)) t) [new]"
    if j: "joined v s cs new t" and n: "checked_add (file_data_length (handle (fs.more t))) ?cb = Some n" for t :: "('d, File_env) fs_scheme" and new n
  proof -
    let ?t = "fs.more_update (handle_update (\<lambda>f. f\<lparr>file_data_length := n\<rparr>)) t"
    have d: "file_data_length (handle (fs.more t)) = file_data_length ?f" using j by (simp add: joined_def Let_def)
    have "unat n = unat (file_data_length ?f) + unat (bytes_per_cluster ?g)"
      using n by (auto simp: d checked_add_def unat_add_small split: if_splits)
    then have "unat (file_data_length (handle (fs.more ?t))) = length (cs @ [new]) * unat (bytes_per_cluster ?g)" by (simp add: len)
    moreover have "stream_on (media (device t)) v (handle (fs.more ?t)) (cs @ [new])"
      using j by (simp add: joined_def Let_def stream_on_def)
    moreover have "count_ok media v ?t \<longleftrightarrow> count_ok media v t" "io_ok D invar (sector_bytes v) ?t \<longleftrightarrow> io_ok D invar (sector_bytes v) t"
      by (simp_all add: count_ok_def io_ok_def)
    ultimately show ?thesis using j by (simp add: grown_def joined_def Let_def file_identity_def)
  qed
  have tail: "post (bindM (append_link D v ?cb ?l preferred new) (\<lambda>_. bindM get_file (\<lambda>f'.
       bindM (ok_or (checked_add (file_data_length f') ?cb) NoSpace) (\<lambda>len.
       modify_file (\<lambda>f. f\<lparr>file_data_length := len\<rparr>))))) t
      (\<lambda>_ s'. \<exists>new. grown D media invar v s cs s' [new]) (\<lambda>e _. append_error e)"
    if "io_ok D invar (sector_bytes v) t" "claimed media v s new t" "cs \<noteq> [] \<Longrightarrow> checked_add (last cs) 1 = Some preferred"
    for t :: "('d, File_env) fs_scheme" and new preferred
    unfolding post_bindM [of "append_link _ _ _ _ _ _"]
    by (rule post_mono [OF post_append_link [OF wf gs that]]) (auto split: option.split intro: fin)
  have grab: "post (bindM (allocate_cluster_preferred D v preferred) (\<lambda>new.
       bindM (append_link D v ?cb ?l preferred new) (\<lambda>_. bindM get_file (\<lambda>f'.
       bindM (ok_or (checked_add (file_data_length f') ?cb) NoSpace) (\<lambda>len.
       modify_file (\<lambda>f. f\<lparr>file_data_length := len\<rparr>)))))) s1
      (\<lambda>_ s'. \<exists>new. grown D media invar v s cs s' [new]) (\<lambda>e _. append_error e)"
    if r: "reading (sector_bytes v) s s1" and p: "cs \<noteq> [] \<Longrightarrow> checked_add (last cs) 1 = Some preferred"
    for s1 :: "('d, File_env) fs_scheme" and preferred
  proof -
    have s1: "io_ok D invar (sector_bytes v) s1" "media (device s1) = media (device s)" "fs.more s1 = fs.more s"
      "free_clusters s1 = free_clusters s"
      using readingD [OF r] fs_more_io [of s1 s] by auto
    then have cl: "claimed media v s1 new t \<longleftrightarrow> claimed media v s new t" for new and t :: "('d, File_env) fs_scheme"
      by (simp add: claimed_def count_ok_def)
    show ?thesis
      unfolding post_bindM [of "allocate_cluster_preferred _ _ _"]
      by (rule post_mono [OF post_allocate_claims [OF s1(1) wf]], simp only: s1(2) snd, rule tail) (use p cl in blast)+
  qed
  show ?thesis
    unfolding append_cluster_def post_bindM [of get_file] post_get_file post_bindM [of "append_last _ _ _ _"]
  proof (rule post_mono [OF post_append_last [OF ok wf st len]], goal_cases)
    case (1 r s1)
    then show ?case
      using grab [of s1] by (auto simp del: post_bindM simp: post_bindM [of "ok_or _ _"] post_bindM [of "returnM _"] split: option.split)
  qed simp
qed

lemma grown_self:
  "grown D media invar v s cs s' ns \<Longrightarrow> grown D media invar v s' (cs @ ns) s' []"
  by (simp add: grown_def Let_def)

lemma post_append_grow:
  fixes s :: "('d, File_env) fs_scheme" and v :: Volume
  assumes wf: "wf_geometry (vol_geometry v)" and gs: "grown D media invar v s cs s []"
  shows "post (loop_m n Diverge (\<lambda>_. append_grow D v (ucast (bytes_per_cluster (vol_geometry v))) end_length) ()) s
    (\<lambda>_ s'. (\<exists>ns. grown D media invar v s cs s' ns) \<and> end_length \<le> file_data_length (handle (fs.more s'))) (\<lambda>e _. append_error e)"
proof (rule post_loop_m_bounded [where I = "\<lambda>_ s'. \<exists>ns. grown D media invar v s cs s' ns"])
  fix t :: "('d, File_env) fs_scheme" assume "\<exists>ns. grown D media invar v s cs t ns"
  then obtain ns where g: "grown D media invar v s cs t ns" by blast
  have "post (append_cluster D v (ucast (bytes_per_cluster (vol_geometry v)))) t
      (\<lambda>_ s'. \<exists>ns. grown D media invar v s cs s' ns) (\<lambda>e _. append_error e)"
    by (rule post_mono [OF post_append_cluster [OF wf grown_self [OF g]]]) (use grown_trans [OF g] in blast)+
  then show "post (append_grow D v (ucast (bytes_per_cluster (vol_geometry v))) end_length) t
      (\<lambda>r s'. case r of Inl _ \<Rightarrow> \<exists>ns. grown D media invar v s cs s' ns
         | Inr _ \<Rightarrow> (\<exists>ns. grown D media invar v s cs s' ns) \<and> end_length \<le> file_data_length (handle (fs.more s'))) (\<lambda>e _. append_error e)"
    using g by (auto simp: append_grow_def not_less elim: post_mono)
qed (use gs in auto)

end

end
