(* ===== verification/Append_Correct.thy ===== *)
theory Append_Correct
  imports Stream_Growth
begin

text \<open>
  Appending, end to end: on a sound volume a file of whole clusters grows by the input. The growth of the
  stream is \<open>Stream_Growth\<close>; here it is put together with the write behind the old end and with the commit
  of the directory entry, which lies in clusters that belong to other streams.
\<close>

section \<open>Bytes of a stream\<close>

lemma stream_addr:
  assumes "stream_on m v f cs" "q div unat (bytes_per_cluster (vol_geometry v)) < length cs"
  shows "file_addr m v f q = map_option (\<lambda>lba. (lba + of_usize (q mod unat (bytes_per_cluster (vol_geometry v)) div sector_bytes v),
      q mod sector_bytes v)) (cluster_lba (vol_geometry v) (cs ! (q div unat (bytes_per_cluster (vol_geometry v)))))"
  using stream_cluster(1) [OF assms] by (simp add: file_addr_def Let_def)

lemma stream_addr_Some:
  assumes wf: "wf_geometry (vol_geometry v)" and s: "stream_on m v f cs"
    and q: "q < length cs * unat (bytes_per_cluster (vol_geometry v))"
  obtains l where "file_addr m v f q = Some (l, q mod sector_bytes v)"
    "l \<in> cluster_sectors (vol_geometry v) (cs ! (q div unat (bytes_per_cluster (vol_geometry v))))"
    "q div unat (bytes_per_cluster (vol_geometry v)) < length cs"
proof -
  let ?i = "q div unat (bytes_per_cluster (vol_geometry v))"
  have i: "?i < length cs" using q by (rule less_mult_imp_div_less)
  then have "in_heap (vol_geometry v) (cs ! ?i)" using s by (simp add: stream_on_def in_use_def)
  then obtain lba where "cluster_lba (vol_geometry v) (cs ! ?i) = Some lba" by (simp add: cluster_lba_def)
  then obtain l where l: "file_addr m v f q = Some (l, q mod sector_bytes v)" using stream_addr [OF s i] by simp
  from file_addr_bounds(3) [OF wf l] stream_cluster(1) [OF s i]
  have "l \<in> cluster_sectors (vol_geometry v) (cs ! ?i)" by auto
  with l i that show thesis by blast
qed

text \<open>A longer stream on a medium that keeps the clusters in use has the same bytes where the shorter one had some.\<close>

lemma stream_byte_kept:
  assumes wf: "wf_geometry (vol_geometry v)" and s: "stream_on m v f cs" and s': "stream_on m' v f' (cs @ ns)" and k: "keeps v m m'"
    and q: "q < length cs * unat (bytes_per_cluster (vol_geometry v))"
  shows "file_byte m' v f' q = file_byte m v f q"
proof -
  obtain l where l: "file_addr m v f q = Some (l, q mod sector_bytes v)"
    "l \<in> cluster_sectors (vol_geometry v) (cs ! (q div unat (bytes_per_cluster (vol_geometry v))))"
    "q div unat (bytes_per_cluster (vol_geometry v)) < length cs"
    by (rule stream_addr_Some [OF wf s q])
  have "file_addr m' v f' q = file_addr m v f q"
    using stream_addr [OF s' , of q] stream_addr [OF s l(3)] l(3) by (simp add: nth_append)
  moreover have "in_use m v (cs ! (q div unat (bytes_per_cluster (vol_geometry v))))" using s l(3) by (simp add: stream_on_def)
  then have "m' l = m l" using k l(2) unfolding keeps_def by blast
  ultimately show ?thesis by (simp add: file_byte_def l(1))
qed

text \<open>The sectors of a range of a stream lie in its clusters.\<close>

lemma range_in_stream:
  assumes wf: "wf_geometry (vol_geometry v)" and s: "stream_on m v f cs" and l: "l \<in> range_sectors m v f p n"
    and fit: "p + n \<le> length cs * unat (bytes_per_cluster (vol_geometry v))"
  shows "\<exists>c \<in> set cs. l \<in> cluster_sectors (vol_geometry v) c"
proof -
  obtain q off where q: "q < p + n" "file_addr m v f q = Some (l, off)" using l by (auto simp: range_sectors_def)
  then have q': "q < length cs * unat (bytes_per_cluster (vol_geometry v))" using fit by simp
  show ?thesis by (rule stream_addr_Some [OF wf s q']) (use q(2) in auto)
qed

section \<open>The directory entry of the file\<close>

text \<open>The slots of a handle hold a set, in clusters in use that are not the file's own.\<close>

definition has_entry :: "medium \<Rightarrow> Volume \<Rightarrow> File \<Rightarrow> u32 list \<Rightarrow> EntryLocator list \<Rightarrow> bool" where
  "has_entry m v f cs locs \<longleftrightarrow>
     slots_ok (sector_bytes v) locs \<and> locs = take (unat (file_entry_count f)) (file_entry_locs f) \<and>
     file_primary f = locs ! 0 \<and> file_stream f = locs ! 1 \<and> unat (file_entry_count f) \<le> length (file_entry_locs f) \<and>
     entry_set_rows (set_at m locs) \<and>
     (\<forall>loc \<in> set locs. \<exists>d. in_use m v d \<and> d \<notin> set cs \<and> el_lba loc \<in> cluster_sectors (vol_geometry v) d)"

lemma has_entry_cache [simp]: "has_entry m v (f\<lparr>cached_cluster_index := i\<rparr>) cs locs = has_entry m v f cs locs"
  by (simp add: has_entry_def)

text \<open>What appending leaves as it was: the FAT entries of other clusters, and their bytes outside the slots.\<close>

definition others_kept :: "Volume \<Rightarrow> u32 list \<Rightarrow> EntryLocator list \<Rightarrow> medium \<Rightarrow> medium \<Rightarrow> bool" where
  "others_kept v cs locs m m' \<longleftrightarrow>
     (\<forall>d. in_use m v d \<and> d \<notin> set cs \<longrightarrow> in_use m' v d \<and> fat_link m' (vol_geometry v) d = fat_link m (vol_geometry v) d \<and>
       (\<forall>l \<in> cluster_sectors (vol_geometry v) d. \<forall>k < sector_bytes v.
         (\<forall>loc \<in> set locs. el_lba loc = l \<longrightarrow> \<not> (unat (el_offset loc) \<le> k \<and> k < unat (el_offset loc) + 32)) \<longrightarrow> m' l ! k = m l ! k))"

definition committed_to :: "File \<Rightarrow> medium \<Rightarrow> medium \<Rightarrow> EntryLocator list \<Rightarrow> bool" where
  "committed_to f m m' locs \<longleftrightarrow> (\<exists>old new. decode_set m locs = Some old \<and> decode_set m' locs = Some new \<and>
     de_first_cluster new = file_first_cluster f \<and> de_data_length new = file_data_length f \<and>
     de_valid_length new = file_valid_length f \<and> de_no_fat_chain new = file_no_fat_chain f \<and>
     name_utf16 new = name_utf16 old \<and> is_directory new = is_directory old \<and> created new = created old \<and>
     modified new = modified old \<and> accessed new = accessed old)"

text \<open>The outcome of appending \<open>input\<close> to a file with clusters \<open>cs\<close> and its entry at \<open>locs\<close>.\<close>

definition extended :: "('d, 'e) device_ops \<Rightarrow> ('d \<Rightarrow> medium) \<Rightarrow> ('d \<Rightarrow> bool) \<Rightarrow> Volume \<Rightarrow> u32 list \<Rightarrow> EntryLocator list \<Rightarrow> u8 list \<Rightarrow>
    ('d, File_env) fs_scheme \<Rightarrow> ('d, File_env) fs_scheme \<Rightarrow> bool" where
  "extended D media invar v cs locs input s s' \<longleftrightarrow>
     (let m = media (device s); m' = media (device s'); f = handle (fs.more s); f' = handle (fs.more s') in
      io_ok D invar (sector_bytes v) s' \<and> file_valid_length f' \<le> file_data_length f' \<and>
      map (file_byte m' v f') [0..<unat (file_valid_length f')] =
        map (file_byte m v f) [0..<unat (file_valid_length f)] @ map Some input \<and>
      (\<exists>ns. stream_on m' v f' (cs @ ns) \<and> (\<forall>c \<in> set ns. \<not> in_use m v c) \<and>
         unat (file_data_length f') = length (cs @ ns) * unat (bytes_per_cluster (vol_geometry v)) \<and> has_entry m' v f' (cs @ ns) locs) \<and>
      bitmap_sound m' v \<and> (count_ok media v s \<longrightarrow> count_ok media v s') \<and>
      others_kept v cs locs m m' \<and> committed_to f' m m' locs)"

lemma stream_first: "stream_on m v f cs \<Longrightarrow> cs \<noteq> [] \<Longrightarrow> in_heap (vol_geometry v) (file_first_cluster f)"
  by (cases cs) (simp_all add: stream_on_def in_use_def)

lemma stream_on_same: "same_stream f f' \<Longrightarrow> stream_on m v f cs \<Longrightarrow> stream_on m v f' cs"
  by (simp add: same_stream_def stream_on_def)

context lawful_device
begin

section \<open>Writing behind the old end\<close>

text \<open>The stream has room for \<open>input\<close> at the position and has received it; the entry is not committed yet.\<close>

definition filled :: "Volume \<Rightarrow> u32 list \<Rightarrow> u8 list \<Rightarrow> ('d, File_env) fs_scheme \<Rightarrow> ('d, File_env) fs_scheme \<Rightarrow> bool" where
  "filled v cs input s t \<longleftrightarrow>
     (let m = media (device s); m' = media (device t); f = handle (fs.more s); f' = handle (fs.more t); p = unat (file_position f) in
      io_ok D invar (sector_bytes v) t \<and> free_clusters t = free_clusters s \<and> fat_agree (vol_geometry v) m m' \<and>
      bitmap_sound m' v \<and> bitmap_bit m' v = bitmap_bit m v \<and> in_use m' v = in_use m v \<and>
      (\<forall>l. (\<forall>c \<in> set cs. l \<notin> cluster_sectors (vol_geometry v) c) \<longrightarrow> m' l = m l) \<and>
      no_cache f' = no_cache (f\<lparr>file_position := file_position f + of_usize (length input)\<rparr>) \<and>
      (\<forall>q. file_byte m' v f q = (if p \<le> q \<and> q < p + length input then Some (input ! (q - p)) else file_byte m v f q)))"

lemma post_fill:
  fixes s :: "('d, File_env) fs_scheme" and v :: Volume
  assumes ok: "io_ok D invar (sector_bytes v) s" and wf: "wf_geometry (vol_geometry v)" and snd: "bitmap_sound (media (device s)) v"
    and st: "stream_on (media (device s)) v (handle (fs.more s)) cs" and none: "cached_cluster_index (handle (fs.more s)) = None"
    and room: "unat (file_valid_length (handle (fs.more s))) \<le> length cs * unat (bytes_per_cluster (vol_geometry v))"
  shows "post (file_write D v input) s
    (\<lambda>n t. n = transfer_count (handle (fs.more s)) (length input) \<and> (n = length input \<longrightarrow> filled v cs input s t)) (\<lambda>e _. append_error e)"
proof -
  let ?g = "vol_geometry v" and ?m = "media (device s)" and ?f = "handle (fs.more s)"
  let ?n = "transfer_count ?f (length input)" and ?p = "unat (file_position ?f)"
  have cache: "cache_ok ?m ?g ?f" by (simp add: cache_ok_def none)
  have fit: "?p + ?n \<le> length cs * unat (bytes_per_cluster ?g) \<or> ?n = 0" using room by (auto simp: transfer_count_def)
  have range: "\<exists>c \<in> set cs. l \<in> cluster_sectors ?g c" if "l \<in> range_sectors ?m v ?f ?p ?n" for l
    using range_in_stream [OF wf st that] fit that by (cases "?n = 0") auto
  have placed: "file_addr ?m v ?f (?p + i) \<noteq> None" if "i < ?n" for i
  proof -
    have "?p + i < length cs * unat (bytes_per_cluster ?g)" using fit that by auto
    from stream_addr_Some [OF wf st this] show ?thesis by (metis option.distinct(1))
  qed
  have good: "filled v cs input s t" if w: "write_upto (sector_bytes v) v input s (length input) t" and n: "?n = length input" for t
  proof -
    let ?m' = "media (device t)"
    have out: "?m' l = ?m l" if "\<forall>c \<in> set cs. l \<notin> cluster_sectors ?g c" for l
      using w range that n by (auto simp: write_upto_def Let_def)
    have use: "\<forall>c \<in> set cs. in_use ?m v c" using st by (simp add: stream_on_def)
    then have "\<exists>d. in_use ?m v d \<and> l \<in> cluster_sectors ?g d" if "?m' l \<noteq> ?m l" for l using out that by blast
    note keep = data_write_keeps [OF wf snd this]
    show ?thesis using w keep out unfolding filled_def write_upto_def Let_def by blast
  qed
  have err: "append_error e" if "write_error v ?n s e t" for e and t :: "('d, File_env) fs_scheme"
    using that placed unfolding write_error_def by (metis append_errors(5))
  show ?thesis
    by (rule post_mono [OF post_file_write [OF ok wf refl cache stream_distinct_on [OF st]]]) (use good err in auto)
qed

section \<open>Committing the entry\<close>

lemma post_commit_entry:
  fixes s s1 t :: "('d, File_env) fs_scheme" and v :: Volume and end_length :: u64
  defines "f \<equiv> handle (fs.more s)"
    and "s2 \<equiv> fs.more_update (handle_update (\<lambda>f. f\<lparr>file_position := file_valid_length f, file_valid_length := end_length\<rparr>)) s1"
  assumes wf: "wf_geometry (vol_geometry v)" and gs: "grown D media invar v s cs s []" and g1: "grown D media invar v s cs s1 ns"
    and fill: "filled v (cs @ ns) input s2 t" and entry: "has_entry (media (device s)) v f cs locs"
    and valid: "file_valid_length f \<le> file_data_length f"
    and ends: "unat end_length = unat (file_valid_length f) + length input" and room: "end_length \<le> file_data_length (handle (fs.more s1))"
  shows "post (update_stream D v (handle (fs.more t))) t (\<lambda>_ u. extended D media invar v cs locs input s u) (\<lambda>e _. append_error e)"
proof -
  let ?g = "vol_geometry v" and ?M = "media (device s)" and ?M1 = "media (device s1)" and ?Mt = "media (device t)"
  let ?f1 = "handle (fs.more s1)" and ?ft = "handle (fs.more t)" and ?cb = "unat (bytes_per_cluster (vol_geometry v))"
  note G = g1 [unfolded grown_def Let_def, folded f_def]
  define f2 where "f2 = ?f1\<lparr>file_position := file_valid_length ?f1, file_valid_length := end_length\<rparr>"
  have H: "handle (fs.more s2) = f2" "device s2 = device s1" "free_clusters s2 = free_clusters s1"
    by (simp_all add: s2_def f2_def)
  note F = fill [unfolded filled_def Let_def H]
  have id: "file_valid_length ?f1 = file_valid_length f" "file_primary ?f1 = file_primary f" "file_stream ?f1 = file_stream f"
    "file_entry_locs ?f1 = file_entry_locs f" "file_entry_count ?f1 = file_entry_count f"
    using G by (simp_all add: file_identity_def)
  have p2: "file_position f2 = file_valid_length f" "same_stream ?f1 f2" by (simp_all add: f2_def id(1) same_stream_def)
  have "no_cache ?ft = no_cache (f2\<lparr>file_position := file_position f2 + of_usize (length input)\<rparr>)" using F by blast
  note T = no_cache_same [OF this, unfolded f2_def, simplified]
  have same: "same_stream ?f1 ?ft" using T(1) by (simp add: same_stream_def)
  have k1: "keeps v ?M ?M1" and st1: "stream_on ?M1 v ?f1 (cs @ ns)" and fresh: "\<forall>c \<in> set ns. \<not> in_use ?M v c"
    and len1: "unat (file_data_length ?f1) = length (cs @ ns) * ?cb" using G by blast+
  have len: "unat (file_data_length f) = length cs * ?cb" and st: "stream_on ?M v f cs" using gs by (simp_all add: grown_def Let_def f_def)
  have use_t: "in_use ?Mt v = in_use ?M1 v" using F by blast
  have far: "in_use ?M1 v d \<and> d \<notin> set (cs @ ns) \<and> (\<forall>l \<in> cluster_sectors ?g d. ?Mt l = ?M l)" if d: "in_use ?M v d" "d \<notin> set cs" for d
  proof -
    have d': "in_use ?M1 v d" "d \<notin> set (cs @ ns)" "\<forall>l \<in> cluster_sectors ?g d. ?M1 l = ?M l"
      using d k1 fresh by (auto simp: keeps_def)
    have "?Mt l = ?M1 l" if "l \<in> cluster_sectors ?g d" for l
    proof -
      have "\<forall>c \<in> set (cs @ ns). l \<notin> cluster_sectors ?g c" using cluster_sectors_disjoint_heap [OF wf that] d'(2) by blast
      then show ?thesis using F by simp
    qed
    with d' show ?thesis by simp
  qed
  have home: "\<exists>d. in_use ?M v d \<and> d \<notin> set cs \<and> el_lba loc \<in> cluster_sectors ?g d" if "loc \<in> set locs" for loc
    using entry that unfolding has_entry_def by blast
  have "?Mt (el_lba loc) = ?M (el_lba loc)" if "loc \<in> set locs" for loc using home [OF that] far by blast
  then have rows: "map (slot_row ?Mt) locs = map (slot_row ?M) locs" "set_at ?Mt locs = set_at ?M locs"
    by (simp_all add: slot_row_def set_at_def)
  have E: "slots_ok (sector_bytes v) locs" "locs = take (unat (file_entry_count ?ft)) (file_entry_locs ?ft)"
    "file_primary ?ft = locs ! 0" "file_stream ?ft = locs ! 1" "unat (file_entry_count ?ft) \<le> length (file_entry_locs ?ft)"
    "entry_set_rows (set_at ?Mt locs)"
    using entry unfolding has_entry_def rows T id by blast+
  have "3 \<le> length locs" using entry_set_rowsD(1) [OF E(6)] by (simp add: set_at_def)
  then have two: "2 \<le> file_entry_count ?ft" using E(2,5) by (simp add: word_le_nat_alt)
  have fits: "file_valid_length ?ft \<le> file_data_length ?ft" using room by (simp add: T)
  have first: "2 \<le> file_first_cluster ?ft" if "file_data_length ?ft \<noteq> 0"
  proof -
    have "cs @ ns \<noteq> []" using that len1 by (auto simp: T unat_eq_0 [symmetric])
    from stream_first [OF st1 this] have "in_heap ?g (file_first_cluster ?ft)" using same by (simp add: same_stream_def)
    then show ?thesis using in_heapD by (simp add: word_le_nat_alt)
  qed
  have fin: "extended D media invar v cs locs input s u"
    if stor: "storing (sector_bytes v) (el_lba ` set locs) t u" and out: "same_outside (sector_bytes v) (set locs) ?Mt (media (device u))"
      and com: "map (slot_row (media (device u))) locs = committed_rows ?ft (map (slot_row ?Mt) locs)"
    for u :: "('d, File_env) fs_scheme"
  proof -
    let ?Mu = "media (device u)"
    have more: "fs.more u = fs.more t" "free_clusters u = free_clusters t" using storingD(3) [OF stor] fs_more_io [of u t] by simp_all
    have "\<exists>d. in_use ?Mt v d \<and> l \<in> cluster_sectors ?g d" if "?Mu l \<noteq> ?Mt l" for l
    proof -
      obtain loc where "loc \<in> set locs" "l = el_lba loc" using storingD(2) [OF stor] \<open>?Mu l \<noteq> ?Mt l\<close> by blast
      then show ?thesis using home [of loc] far unfolding use_t by blast
    qed
    note U = data_write_keeps [OF wf _ this]
    have sound: "bitmap_sound ?Mt v" and bits: "bitmap_bit ?Mt v = bitmap_bit ?M1 v" and agree: "fat_agree ?g ?M1 ?Mt" using F by blast+
    note U = U [OF sound]
    have use_u: "in_use ?Mu v = in_use ?M1 v" using U(3) use_t by simp
    have links: "fat_link ?Mu ?g d = fat_link ?M1 ?g d" if "in_use ?M1 v d" for d
      using in_use_heap [OF that] U(4) agree by (simp add: fat_agree_def)
    have st_u: "stream_on ?Mu v ?ft (cs @ ns)"
      by (rule stream_on_same [OF same], rule stream_on_kept [OF st1]) (use st1 links in \<open>simp add: use_u stream_on_def\<close>)
    have byte: "file_byte ?Mu v ?ft q = (if unat (file_valid_length f) \<le> q \<and> q < unat end_length then Some (input ! (q - unat (file_valid_length f)))
        else file_byte ?M1 v ?f1 q)" if q: "q < unat end_length" for q
    proof -
      have q': "q < length (cs @ ns) * ?cb" using q room len1 by (simp add: word_le_nat_alt)
      have "file_byte ?Mu v ?ft q = file_byte ?Mt v ?ft q"
      proof -
        obtain l where l: "file_addr ?Mu v ?ft q = Some (l, q mod sector_bytes v)"
          "l \<in> cluster_sectors ?g ((cs @ ns) ! (q div ?cb))" "q div ?cb < length (cs @ ns)"
          by (rule stream_addr_Some [OF wf st_u q'])
        have "l \<notin> el_lba ` set locs"
        proof
          assume "l \<in> el_lba ` set locs"
          then obtain d where "in_use ?M v d" "d \<notin> set cs" "l \<in> cluster_sectors ?g d" using home by blast
          then have "d \<notin> set (cs @ ns)" "(cs @ ns) ! (q div ?cb) = d"
            using far cluster_sectors_disjoint_heap [OF wf l(2)] by blast+
          then show False using nth_mem [OF l(3)] by simp
        qed
        then have "?Mu l = ?Mt l" by (rule storingD(2) [OF stor])
        moreover have "file_addr ?Mt v ?ft q = Some (l, q mod sector_bytes v)" using l(1) by (simp add: file_addr_agree [OF U(4)])
        ultimately show ?thesis using l(1) by (simp add: file_byte_def)
      qed
      also have "\<dots> = file_byte ?Mt v f2 q" by (simp add: file_byte_same [OF same] file_byte_same [OF p2(2)])
      also have "\<dots> = (if unat (file_valid_length f) \<le> q \<and> q < unat (file_valid_length f) + length input
          then Some (input ! (q - unat (file_valid_length f))) else file_byte ?M1 v f2 q)"
        using F unfolding p2(1) by blast
      finally show ?thesis using ends by (simp add: file_byte_same [OF p2(2)])
    qed
    have old: "file_byte ?M1 v ?f1 q = file_byte ?M v f q" if "q < unat (file_valid_length f)" for q
      by (rule stream_byte_kept [OF wf st st1 k1]) (use that valid len in \<open>simp add: word_le_nat_alt\<close>)
    have content: "map (file_byte ?Mu v ?ft) [0..<unat (file_valid_length ?ft)] = map (file_byte ?M v f) [0..<unat (file_valid_length f)] @ map Some input"
      by (rule nth_equalityI) (simp_all add: T ends nth_append byte old)
    note set_u = committed_set [OF E(6) com fits first]
    have entry_u: "has_entry ?Mu v ?ft (cs @ ns) locs"
    proof -
      have "\<exists>d. in_use ?Mu v d \<and> d \<notin> set (cs @ ns) \<and> el_lba loc \<in> cluster_sectors ?g d" if "loc \<in> set locs" for loc
        using home [OF that] far unfolding use_u by blast
      then show ?thesis using E(1-5) set_u unfolding has_entry_def by blast
    qed
    have others: "others_kept v cs locs ?M ?Mu"
      unfolding others_kept_def
    proof (intro allI impI)
      fix d assume d: "in_use ?M v d \<and> d \<notin> set cs"
      then have d1: "in_use ?M1 v d" and bytes: "\<forall>l \<in> cluster_sectors ?g d. ?Mt l = ?M l" using far by blast+
      have "fat_link ?Mu ?g d = fat_link ?M ?g d" using links [OF d1] G d by simp
      moreover have "?Mu l ! k = ?M l ! k" if "l \<in> cluster_sectors ?g d" "k < sector_bytes v"
        "\<forall>loc \<in> set locs. el_lba loc = l \<longrightarrow> \<not> (unat (el_offset loc) \<le> k \<and> k < unat (el_offset loc) + 32)" for l k
        using out that bytes unfolding same_outside_def by metis
      ultimately show "in_use ?Mu v d \<and> fat_link ?Mu ?g d = fat_link ?M ?g d \<and> (\<forall>l \<in> cluster_sectors ?g d. \<forall>k < sector_bytes v.
         (\<forall>loc \<in> set locs. el_lba loc = l \<longrightarrow> \<not> (unat (el_offset loc) \<le> k \<and> k < unat (el_offset loc) + 32)) \<longrightarrow> ?Mu l ! k = ?M l ! k)"
        using d1 by (simp add: use_u)
    qed
    have "free_clusters u = free_clusters s1" "bitmap_bit ?Mu v = bitmap_bit ?M1 v" using more(2) F U(2) bits by simp_all
    from count_ok_same [OF this] have count: "count_ok media v s \<longrightarrow> count_ok media v u" using G by blast
    have "committed_to ?ft ?M ?Mu locs" using set_u by (simp add: committed_to_def decode_set_def rows)
    then show ?thesis
      using storingD(1) [OF stor] fits [unfolded T] content st_u fresh len1 entry_u U(1) count others
      unfolding extended_def Let_def more(1) f_def [symmetric] T by blast
  qed
  show ?thesis
    by (rule post_mono [OF post_update_stream [OF _ refl E(1,2) two E(3-5)]]) (use F fin in auto)
qed

section \<open>The whole call\<close>

lemma post_append_extends:
  fixes s :: "('d, File_env) fs_scheme" and v :: Volume
  defines "f \<equiv> handle (fs.more s)"
  assumes wf: "wf_geometry (vol_geometry v)" and gs: "grown D media invar v s cs s []"
    and entry: "has_entry (media (device s)) v f cs locs" and valid: "file_valid_length f \<le> file_data_length f"
  shows "post (append_body D v input) s (\<lambda>n s'. n = length input \<and> extended D media invar v cs locs input s s') (\<lambda>e _. append_error e)"
proof -
  let ?cb = "ucast (bytes_per_cluster (vol_geometry v)) :: u64"
  have put: "post (bindM (modify_file (\<lambda>f. f\<lparr>file_position := file_valid_length f, file_valid_length := end_length\<rparr>)) (\<lambda>_.
      bindM (file_write D v input) (\<lambda>written.
      if written \<noteq> length input then fail Corrupt else
      bindM get_file (\<lambda>f'. bindM (update_stream D v f') (\<lambda>_. returnM written))))) s1
      (\<lambda>n s'. n = length input \<and> extended D media invar v cs locs input s s') (\<lambda>e _. append_error e)"
    if g1: "grown D media invar v s cs s1 ns" and room: "end_length \<le> file_data_length (handle (fs.more s1))"
      and ends: "checked_add (file_valid_length f) (of_usize (length input)) = Some end_length"
    for s1 :: "('d, File_env) fs_scheme" and ns end_length
  proof -
    let ?s2 = "fs.more_update (handle_update (\<lambda>f. f\<lparr>file_position := file_valid_length f, file_valid_length := end_length\<rparr>)) s1"
    note G = g1 [unfolded grown_def Let_def]
    have valid1: "file_valid_length (handle (fs.more s1)) = file_valid_length f" using G by (simp add: file_identity_def f_def)
    have "stream_on (media (device ?s2)) v (handle (fs.more ?s2)) (cs @ ns)"
      using G by (simp add: stream_on_def)
    moreover have "io_ok D invar (sector_bytes v) ?s2" "bitmap_sound (media (device ?s2)) v" "cached_cluster_index (handle (fs.more ?s2)) = None"
      "unat (file_valid_length (handle (fs.more ?s2))) \<le> length (cs @ ns) * unat (bytes_per_cluster (vol_geometry v))"
      using G room by (simp_all add: io_ok_def word_le_nat_alt)
    ultimately have fill: "post (file_write D v input) ?s2 (\<lambda>n t. n = transfer_count (handle (fs.more ?s2)) (length input) \<and>
        (n = length input \<longrightarrow> filled v (cs @ ns) input ?s2 t)) (\<lambda>e _. append_error e)"
      by (intro post_fill wf)
    have exact: "unat end_length = unat (file_valid_length f) + length input"
      if "transfer_count (handle (fs.more ?s2)) (length input) = length input"
    proof -
      have e: "unat end_length = unat (file_valid_length f) + unat (of_usize (length input))"
        using ends by (auto simp: checked_add_def unat_add_small split: if_splits)
      moreover have "length input \<le> unat end_length - unat (file_valid_length f)"
        using that by (simp add: transfer_count_def valid1)
      moreover have "unat (of_usize (length input) :: u64) \<le> length input"
        by (simp add: of_usize_def unsigned_of_nat take_bit_nat_less_eq_self)
      ultimately show ?thesis by linarith
    qed
    have "post (bindM (file_write D v input) (\<lambda>written.
        if written \<noteq> length input then fail Corrupt else
        bindM get_file (\<lambda>f'. bindM (update_stream D v f') (\<lambda>_. returnM written)))) ?s2
        (\<lambda>n s'. n = length input \<and> extended D media invar v cs locs input s s') (\<lambda>e _. append_error e)"
      unfolding post_bindM [of "file_write _ _ _"]
    proof (rule post_mono [OF fill], goal_cases)
      case (1 n t)
      show ?case
      proof (cases "n = length input")
        case True
        have "post (update_stream D v (handle (fs.more t))) t (\<lambda>_ u. extended D media invar v cs locs input s u) (\<lambda>e _. append_error e)"
          by (rule post_commit_entry [OF wf gs g1 _ entry [unfolded f_def] valid [unfolded f_def] _ room])
            (use 1 True exact in \<open>simp_all add: f_def\<close>)
        then show ?thesis using True by simp
      qed simp
    qed simp
    then show ?thesis by simp
  qed
  show ?thesis
    unfolding append_body_def Let_def
    by (simp only: post_bindM [of get_file] post_get_file post_bindM [of "ok_or _ _"] post_ok_or f_def [symmetric],
        split option.split, intro conjI allI impI, simp,
        simp only: post_bindM [of "loop_m _ _ _ _"], rule post_mono [OF post_append_grow [OF wf gs]])
      (use put in blast)+
qed

lemma post_file_append:
  fixes s :: "('d, File_env) fs_scheme" and v :: Volume
  defines "f \<equiv> handle (fs.more s)" and "m \<equiv> media (device s)"
  assumes ok: "io_ok D invar (sector_bytes v) s" and wf: "wf_geometry (vol_geometry v)" and "input": "input \<noteq> []"
    and snd: "bitmap_sound m v" and st: "stream_on m v f cs" and len: "unat (file_data_length f) = length cs * unat (bytes_per_cluster (vol_geometry v))"
    and entry: "has_entry m v f cs locs" and valid: "file_valid_length f \<le> file_data_length f"
  shows "post (file_append D v input) s (\<lambda>n s'. n = length input \<and> extended D media invar v cs locs input s s')
    (\<lambda>e _. is_device_error e \<or> e = Error NoSpace \<or> e = Error Corrupt)"
proof -
  let ?t = "fs.more_update (handle_update (\<lambda>f. f\<lparr>cached_cluster_index := None\<rparr>)) s"
  have same: "same_stream f (handle (fs.more ?t))" by (simp add: same_stream_def f_def)
  have gs: "grown D media invar v ?t cs ?t []"
    using ok snd stream_on_same [OF same st] len by (simp add: grown_def Let_def io_ok_def m_def f_def)
  have "has_entry (media (device ?t)) v (handle (fs.more ?t)) cs locs" "file_valid_length (handle (fs.more ?t)) \<le> file_data_length (handle (fs.more ?t))"
    using entry valid by (simp_all add: m_def f_def)
  note ext = post_append_extends [OF wf gs this, of input]
  have eq: "extended D media invar v cs locs input ?t s' = extended D media invar v cs locs input s s'" for s' :: "('d, File_env) fs_scheme"
    using file_byte_same [OF same] by (simp add: extended_def Let_def count_ok_def f_def)
  have "post (restore_on_err f (append_body D v input)) ?t (\<lambda>n s'. n = length input \<and> extended D media invar v cs locs input s s') (\<lambda>e _. append_error e)"
    unfolding restore_on_err_def post_bindM post_attempt
    by (rule post_mono [OF ext]) (auto simp: eq split: exn.splits)
  with "input" have "post (file_append D v input) s (\<lambda>n s'. n = length input \<and> extended D media invar v cs locs input s s') (\<lambda>e _. append_error e)"
    by (simp only: file_append_def if_False post_bindM [of get_file] post_get_file post_bindM [of "modify_file _"] post_modify_file f_def)
  moreover have "returns (file_append D v input)"
    by (rule returns_append) (use within_cluster(1) [OF wf] in \<open>auto simp: has_clusters_def\<close>)
  then have "post (file_append D v input) s (\<lambda>_ _. True) (\<lambda>e _. e \<noteq> Diverge)" by (auto intro!: postI simp: returns_run)
  ultimately show ?thesis by (rule post_mono [OF post_conj]) (auto simp: append_error_def)
qed

end

section \<open>Properties\<close>

text \<open>
  The card with the entry set in sector 60: clusters 2 (the bitmap), 5 (the file) and 21 (the directory) are
  in use. The file is one cluster long with 510 valid bytes, so three more do not fit.
\<close>

definition append_file :: File where
  "append_file = (file_of_entry set_entry)\<lparr>file_first_cluster := 5, file_data_length := 512, file_valid_length := 510,
     file_no_fat_chain := True\<rparr>"

definition append_open :: "(u8 list list, File_env) fs_scheme" where
  "append_open = fs.extend (set_card\<lparr>device := (device set_card)[41 := [0x09, 0, 0x08] @ replicate 509 0]\<rparr>)
     \<lparr>handle = append_file, out_buf = []\<rparr>"

lemma append_open_simps [simp]:
  "handle (fs.more append_open) = append_file" "out_buf (fs.more append_open) = []"
  "mem_media (device append_open) 60 = mem_media (device set_card) 60"
  "mem_media (device append_open) 41 = [0x09, 0, 0x08] @ replicate 509 0"
  by (simp_all add: append_open_def fs.extend_def mem_media_def set_card_def test_card_def)

lemma append_open_ok: "io_ok mem_ops mem_ok 512 append_open"
  using set_card_ok by (simp add: io_ok_def append_open_def fs.extend_def mem_ok_update)

lemma append_bit:
  "bitmap_bit (mem_media (device append_open)) test_volume 2 = Some True"
  "bitmap_bit (mem_media (device append_open)) test_volume 5 = Some True"
  "bitmap_bit (mem_media (device append_open)) test_volume 21 = Some True"
  by (simp_all add: bitmap_bit_def position_for_def bitmap_addr_def chain_at_def cluster_lba_def in_heap_def saturating_add_def
      test_geometry_def bytes_per_cluster_def checked_sub_def Let_def of_usize_def)

lemma append_open_sound: "bitmap_sound (mem_media (device append_open)) test_volume"
  by (rule bitmap_sound_single) (use wf_test_geometry append_bit(1) in
      \<open>simp_all add: test_geometry_def in_heap_def saturating_add_def bytes_per_cluster_def\<close>)

lemma append_cluster_bytes: "bytes_per_cluster test_geometry = 512"
  by (simp add: bytes_per_cluster_def test_geometry_def)

lemma append_in_use: "in_use (mem_media (device append_open)) test_volume 5" "in_use (mem_media (device append_open)) test_volume 21"
proof -
  have "d = 2" if b: "bitmap_cluster m test_volume d" for m d
  proof -
    obtain n where "n * 512 < 125" and w: "walk m test_geometry 2 n = Some d"
      using b by (auto simp: bitmap_cluster_def append_cluster_bytes)
    then have "n = 0" by simp
    with w show ?thesis by simp
  qed
  then show "in_use (mem_media (device append_open)) test_volume 5" "in_use (mem_media (device append_open)) test_volume 21"
    using append_bit(2,3) by (fastforce simp: in_use_def in_heap_def test_geometry_def saturating_add_def)+
qed

lemma append_entry: "has_entry (mem_media (device append_open)) test_volume append_file [5] test_slots"
proof -
  have "set_at (mem_media (device append_open)) test_slots = set_at (mem_media (device set_card)) test_slots"
    by (simp add: set_at_def slot_row_def test_slots_def)
  then have "entry_set_rows (set_at (mem_media (device append_open)) test_slots)" using set_card_set by simp
  moreover have "60 \<in> cluster_sectors test_geometry 21"
    by (simp add: cluster_sectors_def cluster_lba_def in_heap_def test_geometry_def saturating_add_def of_usize_def)
  then have "\<exists>d. in_use (mem_media (device append_open)) test_volume d \<and> d \<notin> {5} \<and> 60 \<in> cluster_sectors test_geometry d"
    using append_in_use(2) by (intro exI [of _ 21]) simp
  moreover have "file_entry_count append_file = 3" "file_entry_locs append_file = test_slots @ replicate 16 no_locator"
    "file_primary append_file = test_slots ! 0" "file_stream append_file = test_slots ! 1"
    by (simp_all add: append_file_def file_of_entry_def set_entry_def)
  ultimately show ?thesis using test_slots_ok by (simp add: has_entry_def) (simp add: test_slots_def)
qed

text \<open>
  C3: Appending extends a file by exactly the input. On a sound volume, for a file of whole clusters whose
  stream is a list of clusters in use (one run, or linked by the FAT) and whose directory entry lies in
  clusters of other streams, a successful \<open>append\<close> of a non-empty input leaves a file whose contents are the
  old contents followed by the input. Its stream is the old one with clusters behind it that were free, each
  used once, in one run or linked up to an end mark, also when a run had to be turned into a chain; the data
  length is that of these clusters, the directory entry decodes to the new extent with name, attribute and
  times unchanged, the bitmap is sound again and the cached free count right if it was. Every other cluster in
  use keeps its FAT entry and its bytes, but for the slots of the entry. All conditions hold again, so appends
  can follow each other. An error is one of the device, \<open>NoSpace\<close>, or the allocator's \<open>Corrupt\<close>.
\<close>
theorem file_append_correct:
  fixes D :: "('d, 'e) device_ops" and s :: "('d, File_env) fs_scheme"
  assumes "lawful_device D media invar" "io_ok D invar (sector_bytes v) s" "wf_geometry (vol_geometry v)" "input \<noteq> []"
    and "bitmap_sound (media (device s)) v" "stream_on (media (device s)) v (handle (fs.more s)) cs"
    and "unat (file_data_length (handle (fs.more s))) = length cs * unat (bytes_per_cluster (vol_geometry v))"
    and "has_entry (media (device s)) v (handle (fs.more s)) cs locs"
    and "file_valid_length (handle (fs.more s)) \<le> file_data_length (handle (fs.more s))"
  shows "case file_append D v input s of
      (Inr n, s') \<Rightarrow> n = length input \<and> extended D media invar v cs locs input s s'
    | (Inl e, s') \<Rightarrow> is_device_error e \<or> e = Error NoSpace \<or> e = Error Corrupt"
  using lawful_device.post_file_append [OF assms(1,2,3,4,5,6,7,8,9)]
  by (auto simp: post_def split: prod.splits sum.splits)

theorem file_append_correct_witness:
  "case file_append mem_ops test_volume [1, 2, 3] append_open of (r, s') \<Rightarrow>
     (\<forall>n. r = Inr n \<longrightarrow> n = 3 \<and> unat (file_valid_length (handle (fs.more s'))) = 513 \<and>
        file_byte (mem_media (device s')) test_volume (handle (fs.more s')) 512 = Some 3)"
proof -
  have f: "file_first_cluster append_file = 5" "unat (file_data_length append_file) = 512" "unat (file_valid_length append_file) = 510"
    "file_valid_length append_file \<le> file_data_length append_file" "file_no_fat_chain append_file"
    by (simp_all add: append_file_def)
  have "stream_on (mem_media (device append_open)) test_volume append_file [5]"
    using append_in_use(1) f by (simp add: stream_on_def in_one_run_def)
  moreover note append_cluster_bytes
  ultimately have run: "case file_append mem_ops test_volume [1, 2, 3] append_open of
      (Inr n, s') \<Rightarrow> n = length [1, 2, 3 :: u8] \<and> extended mem_ops mem_media mem_ok test_volume [5] test_slots [1, 2, 3] append_open s'
    | (Inl e, s') \<Rightarrow> is_device_error e \<or> e = Error NoSpace \<or> e = Error Corrupt"
    using append_open_ok append_open_sound append_entry f wf_test_geometry
    by (intro file_append_correct [OF mem.lawful_device_axioms]) simp_all
  have "unat (file_valid_length (handle (fs.more s'))) = 513 \<and>
      file_byte (mem_media (device s')) test_volume (handle (fs.more s')) 512 = Some 3"
    if "extended mem_ops mem_media mem_ok test_volume [5] test_slots [1, 2, 3] append_open s'" for s'
  proof -
    let ?n = "unat (file_valid_length (handle (fs.more s')))" and ?b = "file_byte (mem_media (device s')) test_volume (handle (fs.more s'))"
    have c: "map ?b [0..<?n] = map (file_byte (mem_media (device append_open)) test_volume append_file) [0..<510] @ [Some 1, Some 2, Some 3]"
      using that by (simp add: extended_def Let_def f)
    from arg_cong [OF c, of length] have n: "?n = 513" by simp
    from arg_cong [OF c, of "\<lambda>xs. xs ! 512"] show ?thesis by (simp add: n nth_append)
  qed
  with run show ?thesis by (auto split: prod.splits sum.splits)
qed

end
