(* ===== verification/Spec2Isabelle.thy ===== *)
theory Spec2Isabelle
  imports Prelude Result_Monad Block_Device Mem_Device Geometry Codec Entry_Set Boot Mount
    File_System Allocation Allocation_Correct File_IO File_Content File_IO_Correct
    Directory_Ops Entry_Write Path_Ops Format Entry_Codec Entry_Store Name_Folding Operations Directory_Content Directory_Lookup
    Batch_Device Format_Plan Format_Correct Format_Mount Fresh_Volume Containment Contained_Ops Contained_Volume Session File_Append
    Stream_Growth Append_Correct
begin

text \<open>
  A verification library for \<open>exfat-embedded\<close>, an exFAT filesystem for small systems: no allocation, one
  sector of scratch memory lent by the caller, an asynchronous block device underneath.

  \<^bold>\<open>The program.\<close> \<open>src/core\<close> has the error type, the device trait and the volume geometry.
  \<open>src/mount/mod.rs\<close> finds an exFAT partition (MBR, GPT or the whole device), checks its boot region,
  and reads the allocation bitmap, the UpCase table and the label out of the root directory; the result
  is a \<open>Volume\<close>. \<open>src/fs\<close> works on a mounted volume: \<open>allocation.rs\<close> on FAT and bitmap, \<open>operations.rs\<close>
  on files and paths; \<open>src/directory\<close> decodes entry sets and encodes names. \<open>src/format.rs\<close> makes a
  fresh volume. The operations call downwards only: paths use directory search, entry sets and file
  handles, these use the allocator, everything uses the device one sector at a time.

  \<^bold>\<open>How code becomes definitions.\<close>
  \<^item> An \<open>async fn\<close> with \<open>&mut\<close> arguments is a state transformer \<open>('s, 'e, 'a) m\<close> (\<open>Result_Monad\<close>) whose
    outcome is a value, an \<open>Error\<close>, a \<open>Panic\<close> or \<open>Diverge\<close>; a failing computation keeps the effects it
    had. \<open>await\<close> is a call: nothing else touches the device meanwhile, the filesystem owns it.
  \<^item> The device is a parameter: \<open>D\<close> holds the trait's methods over an unknown state. What the crate relies
    on is the locale \<open>lawful_device\<close>, and \<open>reliable_device\<close>, \<open>batch_device\<close>, \<open>volume_device\<close> extend it by
    what single results need. They are interpreted by the in-memory devices of the crate's tests, by
    the device that fails after a number of calls, and by those devices holding a volume.
  \<^item> \<open>Scratch\<close> is a byte list; a slice or index out of range, a division by zero and an \<open>unwrap\<close> are
    \<open>Panic\<close> (\<open>no_panic_if\<close>, \<open>require\<close>). Arithmetic is that of a release build: words wrap, \<open>checked_\<close>,
    \<open>saturating_\<close> and \<open>div_ceil\<close> are written out. \<open>usize\<close> is \<open>nat\<close>; a cast from \<open>u64\<close> to it keeps 32 bits.
    A \<open>str\<close> is the list of its Unicode scalar values, with its UTF-8 bytes as \<open>as_bytes\<close>.
  \<^item> \<open>FileSystem\<close> is the record \<open>fs\<close> (device, scratch, cached free count) with the read-only volume as the
    argument \<open>v\<close>; a borrowed handle, workspace or visitor state is the extension \<open>fs.more\<close> of the record,
    and \<open>with_env\<close> lends a local one. A medium is a function from sector numbers to bytes.

  \<^bold>\<open>Loops and fuel.\<close> Loops over ranges are recursions over lists. An open loop is \<open>loop_m n x\<close>: at most
  \<open>n\<close> rounds, then the exception \<open>x\<close>. Where the code itself counts rounds, \<open>n\<close> and \<open>x\<close> are the code's
  (cluster walks: \<open>Corrupt\<close> after \<open>cluster_count\<close> rounds; \<open>layout\<close>: 8 rounds). Elsewhere \<open>x\<close> is \<open>Diverge\<close>
  and \<open>n\<close> is shown to suffice (\<open>operations_return\<close>, \<open>format_exfat_correct\<close>): reading and writing take
  \<open>wanted + 1\<close> rounds since each moves a byte; append \<open>end_length + 2\<close> since each adds a cluster; the
  UpCase scan the table's length plus one; the free count one round per bitmap byte; the formatter's
  loops one round per sector, for a scratch of less than 2^32 bytes in whole sectors (beyond that the
  code's own loops stall). Only \<open>find_free_entries\<close>, \<open>cluster_count + 2\<close>, is not shown to suffice: it
  starts over after growing a directory, and with a bitmap that marks its own clusters free it may grow
  it again and again.

  \<^bold>\<open>Theories.\<close>
  \<^item> \<open>Prelude\<close>, \<open>Result_Monad\<close>: integers, slices, the monad, its loops, and the relational views \<open>post\<close>,
    \<open>steps\<close>, \<open>returns\<close>, \<open>raises\<close> with the rule collections that the other theories use.
  \<^item> \<open>Block_Device\<close> (\<open>core/device.rs\<close>, \<open>core/error.rs\<close>), \<open>Mem_Device\<close> (the devices of \<open>tests.rs\<close>),
    \<open>Batch_Device\<close> (runs of sectors): contract, sector access, the frame relation between states.
  \<^item> \<open>Geometry\<close> (\<open>core/geometry.rs\<close>): addresses of clusters and FAT entries; disjointness and bounds.
  \<^item> \<open>Codec\<close> (\<open>directory/codec.rs\<close>), \<open>Entry_Set\<close> (\<open>directory/entry.rs\<close>, \<open>fs/file.rs\<close>), \<open>Entry_Codec\<close>: names as
    UTF-16, the incremental decoder, what it accepts, and that it inverts the writer.
  \<^item> \<open>Boot\<close>, \<open>Mount\<close> (\<open>mount/mod.rs\<close>): pure parsing with its checksums, then the scans over the device;
    what a mounted volume guarantees.
  \<^item> \<open>File_System\<close> (\<open>fs/mod.rs\<close>, \<open>fs/operations/mount.rs\<close>); \<open>Allocation\<close>, \<open>Allocation_Correct\<close>
    (\<open>fs/allocation.rs\<close>): FAT entries, chain walks against \<open>walk\<close> on the medium, bitmap and free count.
  \<^item> \<open>File_IO\<close> (handles, \<open>read\<close>, \<open>write\<close>, \<open>flush\<close>, \<open>append\<close>, \<open>truncate\<close>, \<open>update_stream\<close>), \<open>File_Content\<close> (the
    bytes of a file as a function of the medium), \<open>File_IO_Correct\<close>, \<open>File_Append\<close> (the handle),
    \<open>Stream_Growth\<close> (streams as lists of clusters in use, and how they grow), \<open>Append_Correct\<close> (what a
    file holds after appending).
  \<^item> \<open>Directory_Ops\<close> (\<open>read_directory\<close>, \<open>find_child\<close>, \<open>lookup\<close>, \<open>open\<close>), \<open>Name_Folding\<close> (the compressed
    table against its expansion), \<open>Directory_Content\<close>, \<open>Directory_Lookup\<close> (the readers against the list
    of entries a directory holds).
  \<^item> \<open>Entry_Write\<close> (\<open>write_entry_set\<close>, \<open>find_free_entries\<close>, \<open>retire_entry_set\<close>,
    \<open>release_entry_clusters\<close>), \<open>Entry_Store\<close> (their effect on the medium), \<open>Path_Ops\<close> (\<open>create\<close>,
    \<open>create_dir_all\<close>, \<open>remove\<close>, \<open>is_dir_empty\<close>, \<open>rename\<close>).
  \<^item> \<open>Operations\<close>: what holds on any medium: operations return (those that search for free slots are not
    covered), looking does not write. \<open>Containment\<close>, \<open>Contained_Ops\<close>, \<open>Contained_Volume\<close>: the operations
    that address the FAT by checked cluster numbers only, which sectors they may change (\<open>data_region\<close>,
    the active FAT and the heap) and that on a volume in order they do not panic. \<open>Session\<close>: any
    sequence of such calls of a client.
  \<^item> \<open>Format\<close> (\<open>format.rs\<close>), \<open>Format_Plan\<close> (the layout), \<open>Format_Correct\<close> (the image written),
    \<open>Format_Mount\<close>, \<open>Fresh_Volume\<close> (the image mounts as the planned volume and is sound).

  \<^bold>\<open>Two layers.\<close> The functional theorems compare an operation with a pure function of the medium
  (\<open>file_byte\<close>, \<open>walk\<close>, \<open>listing\<close>, \<open>fold_unit\<close>, \<open>fresh_image\<close>) under the conditions they need, which
  formatting establishes. The theorems on all media assume only what mounting checks, so they speak of
  damaged volumes as well; where one asks for more (\<open>holds_volume\<close>: the bitmap and the up-case table
  begin in the heap), it says so, and \<open>fresh_volume_ok\<close> shows that formatting gives it.

  \<^bold>\<open>Not modelled, or not shown.\<close> The module declarations and re-exports of \<open>lib.rs\<close>, \<open>Display\<close> and \<open>From\<close>
  for the error type, and the tests. Sleeping and waking of futures: an operation dropped in mid-flight
  is not described. Append, truncate and remove are not among the contained operations, because they
  address the FAT by a cluster number of the entry or chain that nothing compared with the cluster
  count; \<open>release_unchecked\<close> exhibits the stray write. Neither is \<open>create\<close>, which may empty an existing
  file. A device error (\<open>is_device_error\<close>) is an error the device returned or its panic; that the code
  itself does not panic is what containment adds. Power loss between two writes is covered by the frame theorems only as a failing device: a
  failed operation may leave a prefix of its writes.
\<close>

end
